(* ===== verification/Prelude.thy ===== *)
theory Prelude
  imports Main "HOL-Library.Word" "HOL-Library.AList"
begin

text \<open>
  Shared vocabulary of the development: machine integers, byte slices and their big-endian
  readings (Go's \<open>encoding/binary\<close>), the error values of
  \<^verbatim>\<open>ironwood/types/errors.go\<close>, Go maps, and the lemma collections the component
  theories draw on.
  \<^item> A Go \<open>uint8\<close>, \<open>uint16\<close>, \<open>uint64\<close> is a \<open>word\<close> of that width; a fixed array
    \<open>[n]byte\<close> used as an opaque value (a public key, a signature) is the word of \<open>8 * n\<close>
    bits whose big-endian reading is the array, so its length is part of its type.
  \<^item> A byte slice is a list of bytes. A Go map is an association list with distinct keys;
    the order of the entries is the order in which \<open>range\<close> happens to visit them, and no
    theorem of the development fixes that order.
\<close>

unbundle bit_operations_syntax

named_theorems go_simps \<open>unfolding rules of the models of Go's own library\<close>
named_theorems wire_simps \<open>what the wire primitives do on their own output\<close>

type_synonym byte = "8 word"
type_synonym bytes = "byte list"
type_synonym u16 = "16 word"
type_synonym u64 = "64 word"

subsection \<open>Errors and panics\<close>

text \<open>The constants of \<^verbatim>\<open>ironwood/types/errors.go\<close>, in their order.\<close>

datatype types_error =
    ErrUndefined | ErrEncode | ErrDecode | ErrClosed | ErrTimeout | ErrBadMessage
  | ErrEmptyMessage | ErrOversizedMessage | ErrUnrecognizedMessage | ErrPeerNotFound
  | ErrBadAddress | ErrBadKey

text \<open>A Go call returns an error value, panics, does not return, or returns its result.\<close>

datatype fault = Error types_error | Panic | Diverge

type_synonym 'a result = "fault + 'a"

definition and_then :: "'a result \<Rightarrow> ('a \<Rightarrow> 'b result) \<Rightarrow> 'b result" where
  "and_then r f = (case r of Inl e \<Rightarrow> Inl e | Inr x \<Rightarrow> f x)"

lemma and_then_simps [simp]:
  "and_then (Inl e) f = Inl e" "and_then (Inr x) f = f x"
  by (simp_all add: and_then_def)

lemma and_then_eq_Inr:
  "and_then r f = Inr y \<longleftrightarrow> (\<exists>x. r = Inr x \<and> f x = Inr y)"
  by (cases r) auto

text \<open>\<open>ok_or\<close> turns the boolean failure of a wire primitive into the error its caller returns.\<close>

definition ok_or :: "types_error \<Rightarrow> 'a option \<Rightarrow> 'a result" where
  "ok_or e x = (case x of None \<Rightarrow> Inl (Error e) | Some y \<Rightarrow> Inr y)"

lemma ok_or_simps [simp]:
  "ok_or e None = Inl (Error e)" "ok_or e (Some y) = Inr y"
  by (simp_all add: ok_or_def)

lemma ok_or_eq_Inr [simp]: "ok_or e x = Inr y \<longleftrightarrow> x = Some y"
  by (cases x) auto

text \<open>A \<open>for ... range\<close> loop whose body may panic.\<close>

fun range_loop :: "('a \<Rightarrow> 's \<Rightarrow> 's result) \<Rightarrow> 'a list \<Rightarrow> 's \<Rightarrow> 's result" where
  "range_loop f [] s = Inr s"
| "range_loop f (x # xs) s = and_then (f x s) (range_loop f xs)"

text \<open>
  An invariant that every iteration keeps, while the iterations do not fail, is kept by the loop,
  and the loop does not fail.
\<close>

lemma range_loop_inv:
  assumes "\<And>x s. x \<in> set xs \<Longrightarrow> P s \<Longrightarrow> \<exists>s'. f x s = Inr s' \<and> P s'" "P s"
  shows "\<exists>s'. range_loop f xs s = Inr s' \<and> P s'"
  using assms
proof (induction xs arbitrary: s)
  case (Cons x xs)
  then obtain s' where s': "f x s = Inr s'" "P s'" by fastforce
  moreover have "\<exists>s''. range_loop f xs s' = Inr s'' \<and> P s''"
    using Cons.IH [of s'] Cons.prems(1) s'(2) by auto
  ultimately show ?case by simp
qed simp

subsection \<open>Big-endian readings\<close>

text \<open>
  \<open>be_bytes n w\<close> is what \<open>binary.BigEndian.AppendUint16/64\<close> and \<open>PutUint16/64\<close> write for
  \<open>n = 2, 8\<close>, and the contents of an \<open>[n]byte\<close> array kept as a word; \<open>be_word\<close> is
  \<open>binary.BigEndian.Uint16/64\<close> and the inverse reading of an array.
\<close>

fun be_bytes :: "nat \<Rightarrow> 'a::len word \<Rightarrow> bytes" where
  "be_bytes 0 w = []"
| "be_bytes (Suc n) w = be_bytes n (drop_bit 8 w) @ [ucast w]"

definition be_word :: "bytes \<Rightarrow> 'a::len word" where
  "be_word bs = foldl (\<lambda>acc b. push_bit 8 acc OR ucast b) 0 bs"

lemma length_be_bytes [simp]: "length (be_bytes n w) = n"
  by (induction n arbitrary: w) auto

lemma be_word_Nil [simp]: "be_word [] = 0"
  by (simp add: be_word_def)

lemma be_word_snoc [simp]: "be_word (bs @ [b]) = push_bit 8 (be_word bs) OR ucast b"
  by (simp add: be_word_def)

lemma be_word_be_bytes_take: "be_word (be_bytes n w) = take_bit (8 * n) (w :: 'a::len word)"
proof (induction n arbitrary: w)
  case 0
  then show ?case by simp
next
  case (Suc n)
  have "push_bit 8 (take_bit (8 * n) (drop_bit 8 w)) OR ucast (ucast w :: byte)
      = take_bit (8 * Suc n) w"
    by (rule bit_word_eqI) (auto simp: bit_simps)
  with Suc.IH show ?case by simp
qed

lemma be_word_be_bytes:
  "LENGTH('a) = 8 * n \<Longrightarrow> be_word (be_bytes n w) = (w :: 'a::len word)"
  by (simp add: be_word_be_bytes_take take_bit_word_eq_self)

lemma be_bytes_be_word:
  "8 * length bs \<le> LENGTH('a) \<Longrightarrow> be_bytes (length bs) (be_word bs :: 'a::len word) = bs"
proof (induction bs rule: rev_induct)
  case Nil
  then show ?case by simp
next
  case (snoc b bs)
  have b: "ucast (push_bit 8 (be_word bs) OR ucast b :: 'a word) = b"
    by (rule bit_word_eqI) (use snoc.prems in \<open>auto simp: bit_simps\<close>)
  have hi: "drop_bit 8 (push_bit 8 (be_word bs) OR ucast b :: 'a word)
      = take_bit (LENGTH('a) - 8) (be_word bs)"
    by (rule bit_word_eqI) (auto simp: bit_simps not_le dest: bit_imp_le_length)
  have small: "take_bit (LENGTH('a) - 8) (be_word bs :: 'a word) = be_word bs"
  proof -
    have "be_bytes (length bs) (be_word bs :: 'a word) = bs"
      using snoc by simp
    then have "be_word bs = take_bit (8 * length bs) (be_word bs :: 'a word)"
      by (metis be_word_be_bytes_take)
    moreover have "8 * length bs \<le> LENGTH('a) - 8"
      using snoc.prems by simp
    ultimately show ?thesis
      by (metis min.absorb2 take_bit_take_bit)
  qed
  from b hi small snoc show ?case by simp
qed

lemma be_bytes_inject:
  "LENGTH('a) = 8 * n \<Longrightarrow> be_bytes n v = be_bytes n w \<longleftrightarrow> v = (w :: 'a::len word)"
  by (metis be_word_be_bytes)

subsection \<open>Words as numbers\<close>

lemma unat_drop_bit_div: "unat (drop_bit n w) = unat w div 2 ^ n"
  by (simp only: unat_drop_bit_eq) (simp only: drop_bit_eq_div)

lemma unat64_less: "unat (w :: u64) < 2 ^ 64"
  using unsigned_less [of w] by simp

lemmas unat64_less_numeral [simp] = unat64_less [simplified]

lemma unat64_of_nat: "n < 2 ^ 64 \<Longrightarrow> unat (of_nat n :: u64) = n"
  by (simp add: unsigned_of_nat take_bit_eq_mod)

subsection \<open>Go maps\<close>

type_synonym ('k, 'v) gomap = "('k \<times> 'v) list"

abbreviation m_keys :: "('k, 'v) gomap \<Rightarrow> 'k list" where
  "m_keys m \<equiv> map fst m"

abbreviation m_ok :: "('k, 'v) gomap \<Rightarrow> bool" where
  "m_ok m \<equiv> distinct (map fst m)"

abbreviation m_get :: "('k, 'v) gomap \<Rightarrow> 'k \<Rightarrow> 'v option" where
  "m_get m \<equiv> map_of m"

abbreviation m_has :: "('k, 'v) gomap \<Rightarrow> 'k \<Rightarrow> bool" where
  "m_has m k \<equiv> map_of m k \<noteq> None"

abbreviation m_set :: "('k, 'v) gomap \<Rightarrow> 'k \<Rightarrow> 'v \<Rightarrow> ('k, 'v) gomap" where
  "m_set m k v \<equiv> AList.update k v m"

abbreviation m_del :: "('k, 'v) gomap \<Rightarrow> 'k \<Rightarrow> ('k, 'v) gomap" where
  "m_del m k \<equiv> AList.delete k m"

text \<open>Reading a missing key yields the zero value of the element type, given as \<open>z\<close>.\<close>

definition m_get0 :: "'v \<Rightarrow> ('k, 'v) gomap \<Rightarrow> 'k \<Rightarrow> 'v" where
  "m_get0 z m k = (case m_get m k of None \<Rightarrow> z | Some v \<Rightarrow> v)"

lemma m_get_set: "m_get (m_set m k v) k' = (if k' = k then Some v else m_get m k')"
  by (simp add: update_conv')

lemma m_get_del: "m_get (m_del m k) k' = (if k' = k then None else m_get m k')"
  by (simp add: delete_conv')

lemmas gomap_simps [simp] = m_get_set m_get_del distinct_update distinct_delete

lemma m_has_iff: "m_has m k \<longleftrightarrow> k \<in> set (m_keys m)"
  by (simp add: map_of_eq_None_iff)

lemma m_keys_set: "fst ` set (m_set m k v) = insert k (fst ` set m)"
  by (induction m) auto

lemma m_keys_del: "fst ` set (m_del m k) = fst ` set m - {k}"
  by (induction m) auto

abbreviation m_dom :: "('k, 'v) gomap \<Rightarrow> 'k set" where
  "m_dom m \<equiv> dom (map_of m)"

lemma m_dom_set [simp]: "m_dom (m_set m k v) = insert k (m_dom m)"
  by (simp add: dom_map_of_conv_image_fst m_keys_set)

lemma m_dom_del [simp]: "m_dom (m_del m k) = m_dom m - {k}"
  by (simp add: dom_map_of_conv_image_fst m_keys_del)

lemma m_keys_dom [simp]: "fst ` set m = m_dom m"
  by (simp add: dom_map_of_conv_image_fst)

lemma fold_inv:
  assumes "\<And>x s. x \<in> set xs \<Longrightarrow> P s \<Longrightarrow> P (f x s)" "P s"
  shows "P (fold f xs s)"
  using assms by (induction xs arbitrary: s) auto

subsection \<open>Lists\<close>

lemma take_append_length [simp]: "length xs = n \<Longrightarrow> take n (xs @ ys) = xs"
  by simp

lemma drop_append_length [simp]: "length xs = n \<Longrightarrow> drop n (xs @ ys) = ys"
  by simp

subsection \<open>Invariants of actors\<close>

text \<open>
  An actor is a set of initial states and a step relation, one step per message it takes from its
  inbox. A component that shows its invariant initial and preserved gets it for every reachable
  state.
\<close>

locale actor_invariant =
  fixes start :: "'s \<Rightarrow> bool"
    and step :: "'s \<Rightarrow> 's \<Rightarrow> bool"
    and inv :: "'s \<Rightarrow> bool"
  assumes inv_start: "start s \<Longrightarrow> inv s"
    and inv_step: "inv s \<Longrightarrow> step s s' \<Longrightarrow> inv s'"
begin

lemma reachable_inv: "start s \<Longrightarrow> step\<^sup>*\<^sup>* s s' \<Longrightarrow> inv s'"
  by (rotate_tac, induction rule: rtranclp_induct) (auto intro: inv_start inv_step)

end

text \<open>The zero \<open>time.Time\<close>, January 1 of year 1, in nanoseconds of Unix time.\<close>

definition zero_time :: int where
  "zero_time = - 62135596800 * 1000000000"

text \<open>\<open>time.Since\<close> and \<open>Time.Sub\<close> saturate at the ends of \<open>int64\<close>.\<close>

definition time_sub :: "int \<Rightarrow> int \<Rightarrow> int" where
  "time_sub t u = max (- (2 ^ 63)) (min (2 ^ 63 - 1) (t - u))"

end
