(* ===== verification/Varint.thy ===== *)
theory Varint
  imports Prelude
begin

text \<open>
  The unsigned variable-length integers of Go's \<open>encoding/binary\<close>, as the wire code uses
  them: \<open>AppendUvarint\<close> (write), \<open>PutUvarint\<close> (write into a buffer, which panics when the
  buffer is too short) and \<open>Uvarint\<close> (read from a slice, with its two overflow checks).
  The loops are the library's loops. The main results: reading back what was written yields
  the value and the number of bytes, no encoding is longer than ten bytes, and the ten-byte
  buffer of \<open>wireSizeUint\<close> is always large enough.
\<close>

definition MaxVarintLen64 :: nat where
  "MaxVarintLen64 = 10"

function appendUvarint :: "bytes \<Rightarrow> u64 \<Rightarrow> bytes" where
  "appendUvarint buf x =
     (if 0x80 \<le> x then appendUvarint (buf @ [ucast x OR 0x80]) (drop_bit 7 x)
      else buf @ [ucast x])"
  by pat_completeness auto
termination
proof (relation "measure (\<lambda>(buf, x). unat x)")
  fix x :: u64
  assume "0x80 \<le> x"
  then have "0 < unat x" and "unat (drop_bit 7 x) = unat x div 128"
    by (simp add: word_le_nat_alt, simp only: unat_drop_bit_div, simp)
  then show "((buf @ [ucast x OR 0x80], drop_bit 7 x), buf, x)
      \<in> measure (\<lambda>(buf, x). unat x)" for buf
    by simp
qed simp

declare appendUvarint.simps [simp del]

text \<open>\<open>PutUvarint(buf[i:], x)\<close>: writes at \<open>i\<close> on and returns the count, or panics.\<close>

function putUvarint :: "bytes \<Rightarrow> nat \<Rightarrow> u64 \<Rightarrow> (bytes \<times> nat) result" where
  "putUvarint buf i x =
     (if length buf \<le> i then Inl Panic
      else if 0x80 \<le> x then putUvarint (buf[i := ucast x OR 0x80]) (Suc i) (drop_bit 7 x)
      else Inr (buf[i := ucast x], Suc i))"
  by pat_completeness auto
termination
  by (relation "measure (\<lambda>(buf, i, x). length buf - i)") auto

declare putUvarint.simps [simp del]

text \<open>\<open>Uvarint\<close>: the value and the number of bytes read; a count \<open>\<le> 0\<close> is a failure.\<close>

fun uvarint_loop :: "bytes \<Rightarrow> nat \<Rightarrow> u64 \<Rightarrow> nat \<Rightarrow> u64 \<times> int" where
  "uvarint_loop [] i x s = (0, 0)"
| "uvarint_loop (b # bs) i x s =
     (if i = MaxVarintLen64 then (0, - int (i + 1))
      else if b < 0x80 then
        (if i = MaxVarintLen64 - 1 \<and> 1 < b then (0, - int (i + 1))
         else (x OR push_bit s (ucast b), int (i + 1)))
      else uvarint_loop bs (i + 1) (x OR push_bit s (ucast (b AND 0x7f))) (s + 7))"

definition uvarint :: "bytes \<Rightarrow> u64 \<times> int" where
  "uvarint buf = uvarint_loop buf 0 0 0"

subsection \<open>The bytes of an encoding\<close>

definition uvarint_bytes :: "u64 \<Rightarrow> bytes" where
  "uvarint_bytes x = appendUvarint [] x"

lemma appendUvarint_append: "appendUvarint buf x = buf @ uvarint_bytes x"
proof -
  have "appendUvarint (pre @ buf) x = pre @ appendUvarint buf x" for pre buf
  proof (induction buf x arbitrary: pre rule: appendUvarint.induct)
    case (1 buf x)
    show ?case
      using "1.IH" [of pre]
      by (simp add: appendUvarint.simps [of "pre @ buf" x] appendUvarint.simps [of buf x])
  qed
  then show ?thesis by (metis append.right_neutral uvarint_bytes_def)
qed

lemma uvarint_bytes_small: "x < 0x80 \<Longrightarrow> uvarint_bytes x = [ucast x]"
  by (simp add: uvarint_bytes_def appendUvarint.simps not_le)

lemma uvarint_bytes_large:
  "0x80 \<le> x \<Longrightarrow> uvarint_bytes x = (ucast x OR 0x80) # uvarint_bytes (drop_bit 7 x)"
proof -
  assume "0x80 \<le> x"
  then have "uvarint_bytes x = appendUvarint [ucast x OR 0x80] (drop_bit 7 x)"
    by (simp only: uvarint_bytes_def appendUvarint.simps [of "[]" x] if_True append_Nil)
  then show ?thesis by (simp only: appendUvarint_append append_Cons append_Nil)
qed

lemma uvarint_bytes_nonempty [simp]: "uvarint_bytes x \<noteq> []"
  by (cases "x < 0x80") (simp_all add: uvarint_bytes_small uvarint_bytes_large not_less)

lemma drop_bit7_less:
  assumes "unat (x :: u64) < 2 ^ (n + 7)"
  shows "unat (drop_bit 7 x) < 2 ^ n"
  using assms by (simp only: unat_drop_bit_div power_add less_mult_imp_div_less)

lemma length_uvarint_bytes_le:
  "unat x < 2 ^ (7 * Suc n) \<Longrightarrow> length (uvarint_bytes x) \<le> Suc n"
proof (induction n arbitrary: x)
  case 0
  then have "x < 0x80" by (simp add: word_less_nat_alt)
  then show ?case by (simp add: uvarint_bytes_small)
next
  case (Suc n)
  show ?case
  proof (cases "x < 0x80")
    case True
    then show ?thesis by (simp add: uvarint_bytes_small)
  next
    case False
    have "unat (drop_bit 7 x) < 2 ^ (7 * Suc n)"
      using Suc.prems drop_bit7_less [of x "7 * Suc n"] by (simp add: algebra_simps)
    from Suc.IH [OF this] False show ?thesis by (simp add: uvarint_bytes_large not_less)
  qed
qed

lemma length_uvarint_bytes_max: "length (uvarint_bytes x) \<le> MaxVarintLen64"
proof -
  have "unat x < 2 ^ 64" by (rule unat64_less)
  also have "(2 :: nat) ^ 64 \<le> 2 ^ (7 * Suc 9)" by (rule power_increasing) auto
  finally have "length (uvarint_bytes x) \<le> Suc 9" by (rule length_uvarint_bytes_le)
  then show ?thesis by (simp add: MaxVarintLen64_def)
qed


subsection \<open>Reading back\<close>

lemma ucast_byte_small:
  assumes "(y :: u64) < 0x80"
  shows "ucast y < (0x80 :: byte)" and "ucast (ucast y :: byte) = y"
proof -
  have u: "unat (ucast y :: byte) = unat y"
    using assms by (simp add: unsigned_ucast_eq take_bit_eq_mod word_less_nat_alt)
  with assms show "ucast y < (0x80 :: byte)" by (simp add: word_less_nat_alt)
  from u show "ucast (ucast y :: byte) = y"
    by (simp add: word_unat_eq_iff unsigned_ucast_eq [of "ucast y :: byte"]
        take_bit_nat_eq_self)
qed

lemma ucast_continuation: "ucast ((ucast y OR 0x80 :: byte) AND 0x7f) = take_bit 7 (y :: u64)"
proof -
  have m: "(0x7f :: byte) = mask 7" and h: "(0x80 :: byte) = push_bit 7 1"
    by (simp_all add: mask_eq_exp_minus_1)
  have "\<not> bit (0x80 :: byte) n" if "n < 7" for n
    using that by (simp only: h bit_push_bit_iff) simp
  then show ?thesis
    unfolding m by (intro bit_word_eqI) (auto simp: bit_simps)
qed

text \<open>
  The loop state after \<open>i\<close> continuation bytes: the accumulator holds the low \<open>7 * i\<close> bits
  and the value still to be read fits in the remaining \<open>64 - 7 * i\<close>.
\<close>

lemma uvarint_loop_bytes:
  assumes "unat y < 2 ^ (64 - 7 * i)" and "i \<le> 9"
  shows "uvarint_loop (uvarint_bytes y @ rest) i x (7 * i)
       = (x OR push_bit (7 * i) y, int (i + length (uvarint_bytes y)))"
  using assms
proof (induction "9 - i" arbitrary: i x y)
  case 0
  then have i: "i = 9" by simp
  with 0 have y: "unat y < 2" by simp
  then have "y = 0 \<or> y = 1"
    by (simp add: word_unat_eq_iff less_2_cases_iff)
  with i show ?case
    by (auto simp: uvarint_bytes_small MaxVarintLen64_def)
next
  case (Suc n)
  then have i: "i < 9" by simp
  show ?case
  proof (cases "y < 0x80")
    case True
    with i show ?thesis
      by (simp add: uvarint_bytes_small MaxVarintLen64_def ucast_byte_small)
  next
    case False
    let ?b = "ucast y OR 0x80 :: byte"
    have b: "\<not> ?b < 0x80"
      using le_word_or1 [of "0x80 :: byte" "ucast y"] by (simp add: not_less)
    have b7: "ucast (?b AND 0x7f) = take_bit 7 y"
      by (rule ucast_continuation)
    have "64 - 7 * i = (64 - 7 * Suc i) + 7" using i by simp
    with Suc.prems(1) have "unat y < 2 ^ ((64 - 7 * Suc i) + 7)" by argo
    then have "unat (drop_bit 7 y) < 2 ^ (64 - 7 * Suc i)" by (rule drop_bit7_less)
    moreover have "n = 9 - Suc i" "Suc i \<le> 9" using Suc.hyps i by simp_all
    ultimately have "uvarint_loop (uvarint_bytes (drop_bit 7 y) @ rest) (Suc i)
        (x OR push_bit (7 * i) (take_bit 7 y)) (7 * Suc i)
      = ((x OR push_bit (7 * i) (take_bit 7 y)) OR push_bit (7 * Suc i) (drop_bit 7 y),
         int (Suc i + length (uvarint_bytes (drop_bit 7 y))))"
      using Suc.hyps(1) by blast
    moreover have "push_bit (7 * i) (take_bit 7 y) OR push_bit (7 * Suc i) (drop_bit 7 y)
        = push_bit (7 * i) y"
    proof -
      have "take_bit 7 y OR push_bit 7 (drop_bit 7 y) = y"
        by (rule bit_word_eqI) (auto simp: bit_simps not_less le_add_diff_inverse split: nat_diff_split_asm)
      then have "push_bit (7 * i) (take_bit 7 y OR push_bit 7 (drop_bit 7 y)) = push_bit (7 * i) y"
        by simp
      then show ?thesis by (simp add: push_bit_or add.commute)
    qed
    moreover have "uvarint_bytes y = ?b # uvarint_bytes (drop_bit 7 y)"
      using False by (intro uvarint_bytes_large) (simp add: not_less)
    moreover have "i \<noteq> MaxVarintLen64" using i by (simp add: MaxVarintLen64_def)
    ultimately show ?thesis
      using b b7 by (simp add: or.assoc algebra_simps)
  qed
qed

lemma uvarint_uvarint_bytes [wire_simps]:
  "uvarint (uvarint_bytes x @ rest) = (x, int (length (uvarint_bytes x)))"
  using uvarint_loop_bytes [of x 0 rest 0] by (simp add: uvarint_def)

text \<open>A successful read consumes at least one byte and never more than there are.\<close>

lemma uvarint_loop_len:
  "uvarint_loop bs i x s = (u, l) \<Longrightarrow> 0 < l \<Longrightarrow> int i < l \<and> l \<le> int (i + length bs)"
proof (induction bs i x s rule: uvarint_loop.induct)
  case (1 i x s)
  then show ?case by simp
next
  case (2 b bs i x s)
  then show ?case by (auto split: if_splits)
qed

lemma uvarint_len: "uvarint bs = (u, l) \<Longrightarrow> 0 < l \<Longrightarrow> l \<le> int (length bs)"
  using uvarint_loop_len [of bs 0 0 0 u l] by (simp add: uvarint_def)

subsection \<open>Writing into a buffer\<close>

lemma putUvarint_bytes:
  assumes "length (uvarint_bytes x) \<le> length buf - i"
  shows "\<exists>buf'. putUvarint buf i x = Inr (buf', i + length (uvarint_bytes x))
    \<and> length buf' = length buf \<and> take i buf' = take i buf
    \<and> take (length (uvarint_bytes x)) (drop i buf') = uvarint_bytes x"
  using assms
proof (induction buf i x rule: putUvarint.induct)
  case (1 buf i x)
  then have i: "i < length buf"
    using uvarint_bytes_nonempty [of x] by (cases "uvarint_bytes x") auto
  show ?case
  proof (cases "0x80 \<le> x")
    case False
    with i show ?thesis
      by (simp add: putUvarint.simps uvarint_bytes_small take_Suc_conv_app_nth drop_update_cancel
          not_le Cons_nth_drop_Suc [symmetric])
  next
    case True
    let ?buf = "buf[i := ucast x OR 0x80]"
    from "1.prems" True have "length (uvarint_bytes (drop_bit 7 x)) \<le> length ?buf - Suc i"
      by (simp add: uvarint_bytes_large)
    with "1.IH" i True obtain buf' where buf':
      "putUvarint ?buf (Suc i) (drop_bit 7 x)
         = Inr (buf', Suc i + length (uvarint_bytes (drop_bit 7 x)))"
      "length buf' = length buf" "take (Suc i) buf' = take (Suc i) ?buf"
      "take (length (uvarint_bytes (drop_bit 7 x))) (drop (Suc i) buf')
         = uvarint_bytes (drop_bit 7 x)"
      by auto
    have "buf' ! i = ucast x OR 0x80"
      by (metis buf'(3) i length_list_update lessI nth_list_update_eq nth_take)
    moreover have "take i buf' = take i buf"
      using arg_cong [OF buf'(3), of "take i"] by simp
    ultimately show ?thesis
      using buf' i True
      by (simp add: putUvarint.simps [of buf i x] uvarint_bytes_large
          Cons_nth_drop_Suc [symmetric])
  qed
qed

subsection \<open>Property\<close>

text \<open>
  Variable-length integers: what \<open>AppendUvarint\<close> writes, \<open>Uvarint\<close> reads back from the front of
  any longer buffer with its exact length; every 64-bit value takes at most ten bytes, so
  \<open>PutUvarint\<close> never panics on the ten-byte buffer of \<open>wireSizeUint\<close> and reports the same length.
\<close>

theorem uvarint_roundtrip:
  "uvarint (appendUvarint [] x @ rest) = (x, int (length (appendUvarint [] x)))
   \<and> length (appendUvarint [] x) \<le> 10
   \<and> (\<exists>buf. putUvarint (replicate 10 0) 0 x = Inr (buf, length (appendUvarint [] x)))"
proof -
  have len: "length (uvarint_bytes x) \<le> 10"
    using length_uvarint_bytes_max [of x] by (simp add: MaxVarintLen64_def)
  then obtain buf where "putUvarint (replicate 10 0) 0 x = Inr (buf, 0 + length (uvarint_bytes x))"
    using putUvarint_bytes [of x "replicate 10 0" 0] by auto
  with len show ?thesis
    by (simp only: uvarint_bytes_def [symmetric] uvarint_uvarint_bytes) auto
qed

end
