(* ===== verification/Wire.thy ===== *)
theory Wire
  imports Varint
begin

text \<open>
  The wire primitives of \<^verbatim>\<open>ironwood/network/wire.go\<close>. A primitive that takes a
  pointer to the remaining data and reports success as a boolean is a function from the data
  to the option of what it read and what is left; the data is unchanged when it fails, as in
  the code. A path is a list of ports, zero-terminated on the wire, so it may not hold a
  zero itself.
\<close>

datatype wirePacketType =
    wireDummy | wireKeepAlive | wireProtoSigReq | wireProtoSigRes | wireProtoAnnounce
  | wireProtoBloomFilter | wireProtoPathLookup | wireProtoPathNotify | wireProtoPathBroken
  | wireTraffic

fun wire_code :: "wirePacketType \<Rightarrow> byte" where
  "wire_code wireDummy = 0"
| "wire_code wireKeepAlive = 1"
| "wire_code wireProtoSigReq = 2"
| "wire_code wireProtoSigRes = 3"
| "wire_code wireProtoAnnounce = 4"
| "wire_code wireProtoBloomFilter = 5"
| "wire_code wireProtoPathLookup = 6"
| "wire_code wireProtoPathNotify = 7"
| "wire_code wireProtoPathBroken = 8"
| "wire_code wireTraffic = 9"

type_synonym peerPort = u64

text \<open>\<open>wireChopSlice(out, data)\<close> fills the \<open>n\<close> bytes of \<open>out\<close>.\<close>

definition wireChopSlice :: "nat \<Rightarrow> bytes \<Rightarrow> (bytes \<times> bytes) option" where
  "wireChopSlice n data = (if length data < n then None else Some (take n data, drop n data))"

definition wireChopBytes :: "bytes \<Rightarrow> bytes \<Rightarrow> nat \<Rightarrow> (bytes \<times> bytes) option" where
  "wireChopBytes out data n =
     (if length data < n then None else Some (out @ take n data, drop n data))"

definition wireChopUint :: "bytes \<Rightarrow> (u64 \<times> bytes) option" where
  "wireChopUint data =
     (case uvarint data of (u, l) \<Rightarrow> if l \<le> 0 then None else Some (u, drop (nat l) data))"

text \<open>\<open>wireSizeUint\<close> writes into a ten-byte scratch buffer and returns the count.\<close>

definition wireSizeUint :: "u64 \<Rightarrow> nat result" where
  "wireSizeUint u = and_then (putUvarint (replicate 10 0) 0 u) (\<lambda>(_, n). Inr n)"

definition wireAppendUint :: "bytes \<Rightarrow> u64 \<Rightarrow> bytes" where
  "wireAppendUint out u = appendUvarint out u"

fun wireSizePath_loop :: "nat \<Rightarrow> peerPort list \<Rightarrow> nat result" where
  "wireSizePath_loop sz [] = and_then (wireSizeUint 0) (\<lambda>n. Inr (sz + n))"
| "wireSizePath_loop sz (port # path) =
     and_then (wireSizeUint port) (\<lambda>n. wireSizePath_loop (sz + n) path)"

definition wireSizePath :: "peerPort list \<Rightarrow> nat result" where
  "wireSizePath path = wireSizePath_loop 0 path"

fun wireAppendPath :: "bytes \<Rightarrow> peerPort list \<Rightarrow> bytes" where
  "wireAppendPath dest [] = wireAppendUint dest 0"
| "wireAppendPath dest (port # path) = wireAppendPath (wireAppendUint dest port) path"

lemma wireChopUint_shorter:
  "wireChopUint bs = Some (u, bs') \<Longrightarrow> length bs' < length bs"
  by (auto simp: wireChopUint_def split: prod.splits if_splits dest!: uvarint_len)

text \<open>The loop of \<open>wireDecodePath\<close>; it ends because every round consumes a byte.\<close>

function wireDecodePath_loop ::
  "peerPort list \<Rightarrow> bytes \<Rightarrow> (peerPort list \<times> bytes) option" where
  "wireDecodePath_loop path bs =
     (case wireChopUint bs of
        None \<Rightarrow> None
      | Some (u, bs') \<Rightarrow>
          if u = 0 then Some (path, bs') else wireDecodePath_loop (path @ [u]) bs')"
  by pat_completeness auto
termination
  by (relation "measure (\<lambda>(path, bs). length bs)") (auto dest: wireChopUint_shorter)

declare wireDecodePath_loop.simps [simp del]

definition wireDecodePath :: "peerPort list \<Rightarrow> bytes \<Rightarrow> peerPort list \<times> int" where
  "wireDecodePath path source =
     (case wireDecodePath_loop path source of
        None \<Rightarrow> ([], -1)
      | Some (path', bs) \<Rightarrow> (path', int (length source) - int (length bs)))"

definition wireChopPath :: "peerPort list \<Rightarrow> bytes \<Rightarrow> (peerPort list \<times> bytes) option" where
  "wireChopPath out data =
     (case wireDecodePath [] data of
        (path, l) \<Rightarrow> if l < 0 then None else Some (out @ path, drop (nat l) data))"

subsection \<open>What the primitives do on their own output\<close>

lemma wireChopSlice_append [wire_simps]:
  "length xs = n \<Longrightarrow> wireChopSlice n (xs @ ys) = Some (xs, ys)"
  by (simp add: wireChopSlice_def)

lemma wireChopSlice_Some:
  "wireChopSlice n data = Some (xs, ys) \<longleftrightarrow> data = xs @ ys \<and> length xs = n"
  by (auto simp: wireChopSlice_def)

lemma wireAppendUint_append [wire_simps]: "wireAppendUint out u = out @ uvarint_bytes u"
  by (simp add: wireAppendUint_def appendUvarint_append)

lemma wireChopUint_append [wire_simps]:
  "wireChopUint (uvarint_bytes u @ rest) = Some (u, rest)"
proof -
  have "0 < length (uvarint_bytes u)" using uvarint_bytes_nonempty by blast
  then show ?thesis by (simp add: wireChopUint_def uvarint_uvarint_bytes)
qed

lemma wireSizeUint_eq [wire_simps]: "wireSizeUint u = Inr (length (uvarint_bytes u))"
proof -
  have "length (uvarint_bytes u) \<le> length (replicate 10 (0 :: byte)) - 0"
    using length_uvarint_bytes_max [of u] by (simp add: MaxVarintLen64_def)
  from putUvarint_bytes [OF this] show ?thesis
    by (auto simp: wireSizeUint_def)
qed

text \<open>The bytes of a path, and the length the size function computes for it.\<close>

definition path_bytes :: "peerPort list \<Rightarrow> bytes" where
  "path_bytes path = concat (map uvarint_bytes path) @ uvarint_bytes 0"

lemma wireAppendPath_append [wire_simps]: "wireAppendPath dest path = dest @ path_bytes path"
  by (induction path arbitrary: dest) (simp_all add: path_bytes_def wireAppendUint_append)

lemma wireSizePath_eq [wire_simps]: "wireSizePath path = Inr (length (path_bytes path))"
proof -
  have "wireSizePath_loop n path = Inr (n + length (path_bytes path))" for n
    by (induction path arbitrary: n) (simp_all add: path_bytes_def wireSizeUint_eq)
  then show ?thesis by (simp add: wireSizePath_def)
qed

lemma wireDecodePath_loop_bytes:
  "0 \<notin> set path \<Longrightarrow> wireDecodePath_loop pre (path_bytes path @ rest) = Some (pre @ path, rest)"
proof (induction path arbitrary: pre)
  case Nil
  then show ?case
    by (simp add: wireDecodePath_loop.simps path_bytes_def wireChopUint_append)
next
  case (Cons port path)
  have "path_bytes (port # path) @ rest = uvarint_bytes port @ path_bytes path @ rest"
    by (simp add: path_bytes_def)
  with Cons show ?case
    by (simp add: wireDecodePath_loop.simps [of pre] wireChopUint_append)
qed

lemma wireDecodePath_loop_suffix:
  "wireDecodePath_loop path bs = Some (path', bs') \<Longrightarrow>
     length bs' < length bs \<and> (0 \<notin> set path \<longrightarrow> 0 \<notin> set path')"
proof (induction path bs arbitrary: path' bs' rule: wireDecodePath_loop.induct)
  case (1 path bs)
  from "1.prems" obtain u rest where chop: "wireChopUint bs = Some (u, rest)"
    by (auto simp: wireDecodePath_loop.simps [of path] split: option.splits)
  show ?case
  proof (cases "u = 0")
    case True
    with "1.prems" chop show ?thesis
      by (auto simp: wireDecodePath_loop.simps [of path] dest: wireChopUint_shorter)
  next
    case False
    with "1.prems" chop have "wireDecodePath_loop (path @ [u]) rest = Some (path', bs')"
      by (simp add: wireDecodePath_loop.simps [of path])
    from "1.IH" [OF chop refl False this] False wireChopUint_shorter [OF chop]
    show ?thesis by auto
  qed
qed

lemma wireChopPath_append [wire_simps]:
  "0 \<notin> set path \<Longrightarrow> wireChopPath out (path_bytes path @ rest) = Some (out @ path, rest)"
  by (simp add: wireChopPath_def wireDecodePath_def wireDecodePath_loop_bytes)

text \<open>Whatever bytes come in, a decoded path holds no zero and at least one byte is consumed.\<close>

lemma wireChopPath_Some:
  assumes "wireChopPath out data = Some (path, rest)"
  shows "\<exists>path'. path = out @ path' \<and> 0 \<notin> set path'" and "length rest < length data"
proof -
  from assms obtain path' bs where loop: "wireDecodePath_loop [] data = Some (path', bs)"
    and path: "path = out @ path'"
    and rest: "rest = drop (length data - length bs) data"
    by (auto simp: wireChopPath_def wireDecodePath_def nat_diff_distrib'
        split: option.splits if_splits)
  from wireDecodePath_loop_suffix [OF loop] path rest
  show "\<exists>path'. path = out @ path' \<and> 0 \<notin> set path'" "length rest < length data"
    by auto
qed

end
