(* ===== verification/Crypto.thy ===== *)
theory Crypto
  imports Wire
begin

text \<open>
  Keys and signatures of \<^verbatim>\<open>ironwood/network/crypto.go\<close>. The arrays
  \<open>[32]byte\<close> and \<open>[64]byte\<close> are words of 256 and 512 bits whose big-endian bytes are the
  array. The Ed25519 primitive itself is a parameter: a record of its three functions, passed
  to every definition that signs or verifies; what the code relies on is the named hypothesis
  \<open>ed_correct\<close>. The main result is that the byte loop of \<open>publicKey.less\<close> is the numeric
  order of the keys, hence a strict linear order.
\<close>

definition publicKeySize :: nat where "publicKeySize = 32"
definition privateKeySize :: nat where "privateKeySize = 64"
definition signatureSize :: nat where "signatureSize = 64"

type_synonym publicKey = "256 word"
type_synonym privateKey = "512 word"
type_synonym signature = "512 word"

abbreviation key_bytes :: "publicKey \<Rightarrow> bytes" where
  "key_bytes k \<equiv> be_bytes 32 k"

abbreviation priv_bytes :: "privateKey \<Rightarrow> bytes" where
  "priv_bytes k \<equiv> be_bytes 64 k"

abbreviation sig_bytes :: "signature \<Rightarrow> bytes" where
  "sig_bytes s \<equiv> be_bytes 64 s"

text \<open>\<open>copy(dst[:], src)\<close> into a zeroed array of \<open>n\<close> bytes.\<close>

definition copy_array :: "nat \<Rightarrow> bytes \<Rightarrow> bytes" where
  "copy_array n src = take n (src @ replicate n 0)"

lemma length_copy_array [simp]: "length (copy_array n src) = n"
  by (simp add: copy_array_def)

lemma copy_array_same [simp]: "length src = n \<Longrightarrow> copy_array n src = src"
  by (simp add: copy_array_def)

subsection \<open>Signing and verifying\<close>

text \<open>Go's \<open>crypto/ed25519\<close>: \<open>Sign(priv, msg)\<close>, \<open>Verify(pub, msg, sig)\<close>, \<open>priv.Public()\<close>.\<close>

record ed25519 =
  ed_sign :: "bytes \<Rightarrow> bytes \<Rightarrow> bytes"
  ed_verify :: "bytes \<Rightarrow> bytes \<Rightarrow> bytes \<Rightarrow> bool"
  ed_public :: "bytes \<Rightarrow> bytes"

text \<open>
  The documented behaviour the code relies on: signatures and public keys have their fixed
  sizes, and a signature made with a private key verifies under its public key.
\<close>

definition ed_correct :: "ed25519 \<Rightarrow> bool" where
  "ed_correct ed \<longleftrightarrow>
     (\<forall>priv msg. length (ed_sign ed priv msg) = 64 \<and> length (ed_public ed priv) = 32 \<and>
        ed_verify ed (ed_public ed priv) msg (ed_sign ed priv msg))"

definition privateKey_sign :: "ed25519 \<Rightarrow> privateKey \<Rightarrow> bytes \<Rightarrow> signature" where
  "privateKey_sign ed key message =
     be_word (copy_array 64 (ed_sign ed (priv_bytes key) message))"

definition privateKey_equal :: "privateKey \<Rightarrow> privateKey \<Rightarrow> bool" where
  "privateKey_equal key comparedKey \<longleftrightarrow> key = comparedKey"

definition publicKey_verify :: "ed25519 \<Rightarrow> publicKey \<Rightarrow> bytes \<Rightarrow> signature \<Rightarrow> bool" where
  "publicKey_verify ed key message sig =
     ed_verify ed (key_bytes key) message (sig_bytes sig)"

definition publicKey_equal :: "publicKey \<Rightarrow> publicKey \<Rightarrow> bool" where
  "publicKey_equal key comparedKey \<longleftrightarrow> key = comparedKey"

fun less_loop :: "bytes \<Rightarrow> bytes \<Rightarrow> bool" where
  "less_loop (a # as) (b # bs) =
     (if a < b then True else if b < a then False else less_loop as bs)"
| "less_loop _ _ = False"

definition publicKey_less :: "publicKey \<Rightarrow> publicKey \<Rightarrow> bool" where
  "publicKey_less key comparedKey = less_loop (key_bytes key) (key_bytes comparedKey)"

record crypto =
  crypto_privateKey :: privateKey
  crypto_publicKey :: publicKey

definition crypto_init :: "ed25519 \<Rightarrow> bytes \<Rightarrow> crypto" where
  "crypto_init ed secret =
     \<lparr>crypto_privateKey = be_word (copy_array 64 secret),
      crypto_publicKey = be_word (copy_array 32 (ed_public ed secret))\<rparr>"

subsection \<open>Key material round-trips through its bytes\<close>

lemma be_word_key_bytes [wire_simps]: "be_word (key_bytes k) = k"
  by (rule be_word_be_bytes) simp

lemma be_word_sig_bytes [wire_simps]: "be_word (sig_bytes s) = s"
  by (rule be_word_be_bytes) simp

lemma key_bytes_be_word: "length bs = 32 \<Longrightarrow> key_bytes (be_word bs) = bs"
  using be_bytes_be_word [where 'a = 256, of bs] by simp

lemma sig_bytes_be_word: "length bs = 64 \<Longrightarrow> sig_bytes (be_word bs) = bs"
  using be_bytes_be_word [where 'a = 512, of bs] by simp

text \<open>What a node signs with the key it was initialised with verifies under its public key.\<close>

lemma publicKey_verify_sign:
  assumes "ed_correct ed" and "length secret = 64" and "c = crypto_init ed secret"
  shows "publicKey_verify ed (crypto_publicKey c) msg
           (privateKey_sign ed (crypto_privateKey c) msg)"
  using assms
  by (simp add: publicKey_verify_def privateKey_sign_def crypto_init_def ed_correct_def
      key_bytes_be_word sig_bytes_be_word)

text \<open>
  The hypothesis can hold: a stand-in whose public key is the second half of the private key (as
  in ed25519) and whose signature repeats the public key and the end of the message.
\<close>

definition sample_ed :: ed25519 where
  "sample_ed = \<lparr>
     ed_sign = (\<lambda>priv msg. copy_array 64 (copy_array 32 (drop 32 priv) @ rev msg)),
     ed_verify = (\<lambda>pub msg sig. sig = copy_array 64 (pub @ rev msg)),
     ed_public = (\<lambda>priv. copy_array 32 (drop 32 priv)) \<rparr>"

lemma ed_correct_sample: "ed_correct sample_ed"
  by (simp add: ed_correct_def sample_ed_def)

subsection \<open>The order of keys\<close>

lemma less_loop_snoc:
  "length as = length bs \<Longrightarrow>
     less_loop (as @ [a]) (bs @ [b]) \<longleftrightarrow> less_loop as bs \<or> (as = bs \<and> a < b)"
  by (induction as bs rule: list_induct2) auto

lemma unat_mod_Suc_bytes:
  "unat w mod 2 ^ (8 * Suc n) = 256 * (unat (drop_bit 8 w) mod 2 ^ (8 * n)) + unat w mod 256"
proof -
  have "unat w mod (256 * 2 ^ (8 * n)) = 256 * (unat w div 256 mod 2 ^ (8 * n)) + unat w mod 256"
    by (simp add: mod_mult2_eq)
  then show ?thesis by (simp only: unat_drop_bit_div) (simp add: power_add)
qed

lemma digit_less:
  "a < 256 \<Longrightarrow> b < 256 \<Longrightarrow> 256 * x + a < 256 * y + b \<longleftrightarrow> x < y \<or> x = y \<and> a < (b :: nat)"
  by linarith

lemma digit_eq:
  assumes "a < 256" "b < 256"
  shows "256 * x + a = 256 * y + b \<longleftrightarrow> x = y \<and> a = (b :: nat)"
proof
  assume eq: "256 * x + a = 256 * y + b"
  then have "x = y" using assms by linarith
  with eq show "x = y \<and> a = b" by simp
qed simp

lemma less_loop_be_bytes:
  fixes v w :: "'a::len word"
  shows "(less_loop (be_bytes n v) (be_bytes n w) \<longleftrightarrow> unat v mod 2 ^ (8 * n) < unat w mod 2 ^ (8 * n))
   \<and> (be_bytes n v = be_bytes n w \<longleftrightarrow> unat v mod 2 ^ (8 * n) = unat w mod 2 ^ (8 * n))"
proof (induction n arbitrary: v w)
  case 0
  then show ?case by simp
next
  case (Suc n)
  have u: "unat (ucast x :: byte) = unat x mod 256" for x :: "'a word"
    by (simp add: unsigned_ucast_eq take_bit_eq_mod)
  show ?case
    using Suc.IH [of "drop_bit 8 v" "drop_bit 8 w"]
    by (simp only: be_bytes.simps less_loop_snoc length_be_bytes append1_eq_conv
        unat_mod_Suc_bytes digit_less digit_eq mod_less_divisor zero_less_numeral
        word_less_nat_alt word_unat_eq_iff u simp_thms)
qed

lemma publicKey_less_iff: "publicKey_less k k' \<longleftrightarrow> k < k'"
proof -
  have "unat x < 2 ^ (8 * 32)" for x :: publicKey
    using unsigned_less [of x] by simp
  then have "unat x mod 2 ^ (8 * 32) = unat x" for x :: publicKey
    by (rule mod_less)
  with less_loop_be_bytes [of 32 k k'] show ?thesis
    by (simp add: publicKey_less_def word_less_nat_alt)
qed

text \<open>
  The key comparison that decides the root of the tree: the byte loop of \<open>publicKey.less\<close> is the
  strict numeric order of the 32-byte big-endian key, so every two different keys are ordered, the
  same way at every node.
\<close>

theorem publicKey_less_numeric: "publicKey_less k k' \<longleftrightarrow> k < k'"
  by (rule publicKey_less_iff)

end
