(* ===== verification/Session.thy ===== *)
theory Session
  imports Crypto Varint
begin

text \<open>
  \<^verbatim>\<open>ironwood/encrypted/session.go\<close> and \<^verbatim>\<open>crypto.go\<close>: the end-to-end session with one remote key.
  \<^item> The nacl box (key generation, Diffie-Hellman, authenticated encryption) and the conversion of
    ed25519 keys to curve25519 keys are the parameter \<open>nacl\<close>; what the code relies on is \<open>nacl_correct\<close>.
  \<^item> What a handler uses besides its own state is the record \<open>world\<close>: private keys still to be drawn
    (an empty list is a failing random source, a panic in the code), numbers for timers and pointers,
    armed timers, and the calls made to the network (\<open>NetWrite\<close>) and to the reader (\<open>NetRecv\<close>).
  \<^item> \<open>time.Now()\<close> is an argument, in nanoseconds.
\<close>

type_synonym edPub = publicKey
type_synonym boxPub = "256 word"
type_synonym boxPriv = "256 word"
type_synonym boxShared = "256 word"

definition boxPubSize :: nat where "boxPubSize = 32"
definition boxOverhead :: nat where "boxOverhead = 16"
definition edSigSize :: nat where "edSigSize = 64"

record nacl =
  box_public :: "boxPriv \<Rightarrow> boxPub"
  box_shared :: "boxPub \<Rightarrow> boxPriv \<Rightarrow> boxShared"
  box_seal :: "boxShared \<Rightarrow> bytes \<Rightarrow> bytes \<Rightarrow> bytes"
  box_open :: "boxShared \<Rightarrow> bytes \<Rightarrow> bytes \<Rightarrow> bytes option"
  e2c_pub :: "edPub \<Rightarrow> boxPub"
  e2c_priv :: "privateKey \<Rightarrow> boxPriv"

text \<open>Documented behaviour: both sides compute the same secret, and what was sealed opens to the message.\<close>

definition nacl_correct :: "ed25519 \<Rightarrow> nacl \<Rightarrow> bool" where
  "nacl_correct ed nc \<longleftrightarrow>
     (\<forall>a b. box_shared nc (box_public nc a) b = box_shared nc (box_public nc b) a)
     \<and> (\<forall>k n m. box_open nc k n (box_seal nc k n m) = Some m \<and> length (box_seal nc k n m) = length m + 16)
     \<and> (\<forall>priv. box_public nc (e2c_priv nc priv) = e2c_pub nc (be_word (ed_public ed (priv_bytes priv))))"

subsection \<open>Constants\<close>

definition sessionTimeout :: int where "sessionTimeout = 60000000000"
definition sessionTrafficOverheadMin :: nat where "sessionTrafficOverheadMin = 1 + 1 + 1 + 1 + boxOverhead + boxPubSize"
definition sessionTrafficOverhead :: nat where "sessionTrafficOverhead = sessionTrafficOverheadMin + 9 + 9 + 9"
definition sessionInitSize :: nat where
  "sessionInitSize = 1 + boxPubSize + boxOverhead + edSigSize + boxPubSize + boxPubSize + 8 + 8"

definition sessionTypeDummy :: byte where "sessionTypeDummy = 0"
definition sessionTypeInit :: byte where "sessionTypeInit = 1"
definition sessionTypeAck :: byte where "sessionTypeAck = 2"
definition sessionTypeTraffic :: byte where "sessionTypeTraffic = 3"

lemmas session_sizes = sessionTrafficOverheadMin_def sessionTrafficOverhead_def sessionInitSize_def boxOverhead_def
  boxPubSize_def edSigSize_def
lemmas session_types = sessionTypeDummy_def sessionTypeInit_def sessionTypeAck_def sessionTypeTraffic_def

subsection \<open>The world of a handler\<close>

datatype session_timer = ExpireSession edPub nat | ExpireBuffer edPub nat
datatype session_out = NetWrite bytes edPub | NetRecv edPub bytes

record world =
  w_privs :: "boxPriv list"
  w_fresh :: nat
  w_armed :: "(nat \<times> session_timer) list"
  w_out :: "session_out list"

record session_env =
  se_ed :: ed25519
  se_nacl :: nacl
  se_secretEd :: privateKey
  se_secretBox :: boxPriv

definition newBoxKeys :: "nacl \<Rightarrow> world \<Rightarrow> ((boxPub \<times> boxPriv) \<times> world) result" where
  "newBoxKeys nc w = (case w_privs w of
     [] \<Rightarrow> Inl Panic | p # ps \<Rightarrow> Inr ((box_public nc p, p), w\<lparr> w_privs := ps \<rparr>))"

definition getShared :: "nacl \<Rightarrow> boxPub \<Rightarrow> boxPriv \<Rightarrow> boxShared" where
  "getShared nc pub priv = box_shared nc pub priv"

definition nonceForUint64 :: "u64 \<Rightarrow> bytes" where
  "nonceForUint64 u = replicate 16 0 @ be_bytes 8 u"

definition boxSeal :: "nacl \<Rightarrow> bytes \<Rightarrow> bytes \<Rightarrow> u64 \<Rightarrow> boxShared \<Rightarrow> bytes" where
  "boxSeal nc out msg nonce shared = out @ box_seal nc shared (nonceForUint64 nonce) msg"

definition boxOpen :: "nacl \<Rightarrow> bytes \<Rightarrow> u64 \<Rightarrow> boxShared \<Rightarrow> bytes option" where
  "boxOpen nc boxed nonce shared = box_open nc shared (nonceForUint64 nonce) boxed"

definition w_emit :: "session_out \<Rightarrow> world \<Rightarrow> world" where
  "w_emit out w = w\<lparr> w_out := w_out w @ [out] \<rparr>"

definition w_stop :: "nat option \<Rightarrow> world \<Rightarrow> world" where
  "w_stop timer w = (case timer of None \<Rightarrow> w | Some t \<Rightarrow> w\<lparr> w_armed := filter (\<lambda>a. fst a \<noteq> t) (w_armed w) \<rparr>)"

definition w_start :: "session_timer \<Rightarrow> world \<Rightarrow> nat \<times> world" where
  "w_start c w = (w_fresh w, w\<lparr> w_armed := (w_fresh w, c) # w_armed w, w_fresh := w_fresh w + 1 \<rparr>)"

subsection \<open>Session inits\<close>

record sessionInit =
  si_current :: boxPub
  si_next :: boxPub
  si_keySeq :: u64
  si_seq :: u64

text \<open>\<open>time.Now().Unix()\<close> rounds down to seconds.\<close>

definition newSessionInit :: "int \<Rightarrow> boxPub \<Rightarrow> boxPub \<Rightarrow> u64 \<Rightarrow> sessionInit" where
  "newSessionInit now current next keySeq =
     \<lparr> si_current = current, si_next = next, si_keySeq = keySeq, si_seq = of_int (now div 1000000000) \<rparr>"

definition edSign :: "ed25519 \<Rightarrow> bytes \<Rightarrow> privateKey \<Rightarrow> bytes" where
  "edSign ed msg priv = copy_array 64 (ed_sign ed (priv_bytes priv) msg)"

definition edCheck :: "ed25519 \<Rightarrow> bytes \<Rightarrow> bytes \<Rightarrow> edPub \<Rightarrow> bool" where
  "edCheck ed msg sig pub = ed_verify ed (key_bytes pub) msg sig"

definition init_encrypt :: "session_env \<Rightarrow> sessionInit \<Rightarrow> edPub \<Rightarrow> world \<Rightarrow> (bytes \<times> world) result" where
  "init_encrypt e init to w =
     and_then (newBoxKeys (se_nacl e) w) (\<lambda>((fromPub, fromPriv), w1).
     let toBox = e2c_pub (se_nacl e) to;
         sigBytes = key_bytes fromPub @ key_bytes (si_current init) @ key_bytes (si_next init)
           @ be_bytes 8 (si_keySeq init) @ be_bytes 8 (si_seq init);
         sig = edSign (se_ed e) sigBytes (se_secretEd e);
         payload = sig @ drop boxPubSize sigBytes;
         shared = getShared (se_nacl e) toBox fromPriv;
         bs = boxSeal (se_nacl e) [] payload 0 shared;
         data = [sessionTypeInit] @ key_bytes fromPub @ bs
     in if length data \<noteq> sessionInitSize then Inl Panic else Inr (data, w1))"

text \<open>\<open>decrypt\<close>: the init that the data holds, \<open>None\<close> when it returns false. An opened payload has 144 bytes.\<close>

definition init_decrypt :: "session_env \<Rightarrow> edPub \<Rightarrow> bytes \<Rightarrow> sessionInit option" where
  "init_decrypt e from data =
     (if length data \<noteq> sessionInitSize then None
      else
        (let fromBox = be_word (take 32 (drop 1 data));
             bs = drop (1 + 32) data;
             shared = getShared (se_nacl e) fromBox (se_secretBox e)
         in case boxOpen (se_nacl e) bs 0 shared of
              None \<Rightarrow> None
            | Some payload \<Rightarrow>
                (let sig = copy_array 64 payload;
                     tmp = drop 64 payload;
                     init = \<lparr> si_current = be_word (copy_array 32 tmp), si_next = be_word (copy_array 32 (drop 32 tmp)),
                              si_keySeq = be_word (take 8 (drop 64 tmp)), si_seq = be_word (take 8 (drop 72 tmp)) \<rparr>;
                     sigBytes = key_bytes fromBox @ tmp
                 in if edCheck (se_ed e) sigBytes sig from then Some init else None)))"

definition ack_encrypt :: "session_env \<Rightarrow> sessionInit \<Rightarrow> edPub \<Rightarrow> world \<Rightarrow> (bytes \<times> world) result" where
  "ack_encrypt e ack to w =
     and_then (init_encrypt e ack to w) (\<lambda>(data, w1). Inr (data[0 := sessionTypeAck], w1))"

definition mgr_sendInit :: "session_env \<Rightarrow> edPub \<Rightarrow> sessionInit \<Rightarrow> world \<Rightarrow> world result" where
  "mgr_sendInit e dest init w =
     and_then (init_encrypt e init dest w) (\<lambda>(bs, w1). Inr (w_emit (NetWrite bs dest) w1))"

definition mgr_sendAck :: "session_env \<Rightarrow> edPub \<Rightarrow> sessionInit \<Rightarrow> world \<Rightarrow> world result" where
  "mgr_sendAck e dest ack w =
     and_then (ack_encrypt e ack dest w) (\<lambda>(bs, w1). Inr (w_emit (NetWrite bs dest) w1))"

subsection \<open>Session state\<close>

record sessionInfo =
  s_id :: nat
  s_seq :: u64
  s_ed :: edPub
  s_remoteKeySeq :: u64
  s_current :: boxPub
  s_next :: boxPub
  s_localKeySeq :: u64
  s_recvPriv :: boxPriv
  s_recvPub :: boxPub
  s_recvShared :: boxShared
  s_recvNonce :: u64
  s_sendPriv :: boxPriv
  s_sendPub :: boxPub
  s_sendShared :: boxShared
  s_sendNonce :: u64
  s_nextPriv :: boxPriv
  s_nextPub :: boxPub
  s_timer :: "nat option"
  s_since :: int
  s_rotated :: int
  s_rx :: u64
  s_tx :: u64
  s_nextSendShared :: boxShared
  s_nextSendNonce :: u64
  s_nextRecvShared :: boxShared
  s_nextRecvNonce :: u64

definition fixShared :: "nacl \<Rightarrow> u64 \<Rightarrow> u64 \<Rightarrow> sessionInfo \<Rightarrow> sessionInfo" where
  "fixShared nc recvNonce sendNonce info = info\<lparr>
     s_recvShared := getShared nc (s_current info) (s_recvPriv info),
     s_sendShared := getShared nc (s_current info) (s_sendPriv info),
     s_nextSendShared := getShared nc (s_next info) (s_sendPriv info),
     s_nextRecvShared := getShared nc (s_next info) (s_recvPriv info),
     s_nextSendNonce := 0, s_nextRecvNonce := 0,
     s_recvNonce := recvNonce, s_sendNonce := sendNonce \<rparr>"

definition newSession :: "nacl \<Rightarrow> int \<Rightarrow> edPub \<Rightarrow> boxPub \<Rightarrow> boxPub \<Rightarrow> u64 \<Rightarrow> world \<Rightarrow> (sessionInfo \<times> world) result" where
  "newSession nc now ed current next seq w =
     and_then (newBoxKeys nc w) (\<lambda>((recvPub, recvPriv), w1).
     and_then (newBoxKeys nc w1) (\<lambda>((sendPub, sendPriv), w2).
     and_then (newBoxKeys nc w2) (\<lambda>((nextPub, nextPriv), w3).
       Inr (fixShared nc 0 0 \<lparr> s_id = w_fresh w3, s_seq = seq - 1, s_ed = ed, s_remoteKeySeq = 0, s_current = current, s_next = next,
         s_localKeySeq = 0, s_recvPriv = recvPriv, s_recvPub = recvPub, s_recvShared = 0, s_recvNonce = 0,
         s_sendPriv = sendPriv, s_sendPub = sendPub, s_sendShared = 0, s_sendNonce = 0, s_nextPriv = nextPriv, s_nextPub = nextPub,
         s_timer = None, s_since = now, s_rotated = zero_time, s_rx = 0, s_tx = 0, s_nextSendShared = 0, s_nextSendNonce = 0,
         s_nextRecvShared = 0, s_nextRecvNonce = 0 \<rparr>, w3\<lparr> w_fresh := w_fresh w3 + 1 \<rparr>))))"

definition resetTimer :: "sessionInfo \<Rightarrow> world \<Rightarrow> sessionInfo \<times> world" where
  "resetTimer info w =
     (let (t, w1) = w_start (ExpireSession (s_ed info) (s_id info)) (w_stop (s_timer info) w)
      in (info\<lparr> s_timer := Some t \<rparr>, w1))"

text \<open>The ratchet of our own keys, which the code repeats at each place: send becomes recv, next becomes send.\<close>

definition ratchet :: "boxPub \<times> boxPriv \<Rightarrow> sessionInfo \<Rightarrow> sessionInfo" where
  "ratchet new info = info\<lparr>
     s_recvPub := s_sendPub info, s_recvPriv := s_sendPriv info,
     s_sendPub := s_nextPub info, s_sendPriv := s_nextPriv info,
     s_nextPub := fst new, s_nextPriv := snd new,
     s_localKeySeq := s_localKeySeq info + 1 \<rparr>"

definition info_sendInit :: "session_env \<Rightarrow> int \<Rightarrow> sessionInfo \<Rightarrow> world \<Rightarrow> world result" where
  "info_sendInit e now info w =
     mgr_sendInit e (s_ed info) (newSessionInit now (s_sendPub info) (s_nextPub info) (s_localKeySeq info)) w"

definition info_sendAck :: "session_env \<Rightarrow> int \<Rightarrow> sessionInfo \<Rightarrow> world \<Rightarrow> world result" where
  "info_sendAck e now info w =
     mgr_sendAck e (s_ed info) (newSessionInit now (s_sendPub info) (s_nextPub info) (s_localKeySeq info)) w"

definition handleUpdate :: "nacl \<Rightarrow> sessionInit \<Rightarrow> sessionInfo \<Rightarrow> world \<Rightarrow> (sessionInfo \<times> world) result" where
  "handleUpdate nc init info w =
     (let info1 = info\<lparr> s_current := si_current init, s_next := si_next init, s_seq := si_seq init, s_remoteKeySeq := si_keySeq init \<rparr> in
      and_then (newBoxKeys nc w) (\<lambda>(new, w1).
        let info2 = ratchet new info1
        in Inr (resetTimer (fixShared nc 0 (s_sendNonce info2) info2) w1)))"

definition info_handleInit :: "session_env \<Rightarrow> int \<Rightarrow> sessionInit \<Rightarrow> sessionInfo \<Rightarrow> world \<Rightarrow> (sessionInfo \<times> world) result" where
  "info_handleInit e now init info w =
     (if si_seq init \<le> s_seq info then Inr (info, w)
      else and_then (handleUpdate (se_nacl e) init info w) (\<lambda>(info1, w1).
           and_then (info_sendAck e now info1 w1) (\<lambda>w2. Inr (info1, w2))))"

definition info_handleAck :: "session_env \<Rightarrow> sessionInit \<Rightarrow> sessionInfo \<Rightarrow> world \<Rightarrow> (sessionInfo \<times> world) result" where
  "info_handleAck e ack info w =
     (if si_seq ack \<le> s_seq info then Inr (info, w)
      else handleUpdate (se_nacl e) ack info w)"

subsection \<open>Traffic\<close>

text \<open>The header is written into a buffer with room for \<open>sessionTrafficOverhead\<close> bytes and the message.\<close>

definition traffic_header :: "nat \<Rightarrow> u64 \<Rightarrow> u64 \<Rightarrow> u64 \<Rightarrow> bytes result" where
  "traffic_header n localKeySeq remoteKeySeq nonce =
     (let bs = (replicate (sessionTrafficOverhead + n) 0)[0 := sessionTypeTraffic] in
      and_then (putUvarint bs 1 localKeySeq) (\<lambda>(bs1, off1).
      and_then (putUvarint bs1 off1 remoteKeySeq) (\<lambda>(bs2, off2).
      and_then (putUvarint bs2 off2 nonce) (\<lambda>(bs3, off3). Inr (take off3 bs3)))))"

definition info_doSend :: "session_env \<Rightarrow> bytes \<Rightarrow> sessionInfo \<Rightarrow> world \<Rightarrow> (sessionInfo \<times> world) result" where
  "info_doSend e msg info w =
     (let info0 = info\<lparr> s_sendNonce := s_sendNonce info + 1 \<rparr> in
      and_then (if s_sendNonce info0 = 0 then
                  and_then (newBoxKeys (se_nacl e) w) (\<lambda>(new, w1). Inr (fixShared (se_nacl e) 0 0 (ratchet new info0), w1))
                else Inr (info0, w)) (\<lambda>(info1, w1).
      and_then (traffic_header (length msg) (s_localKeySeq info1) (s_remoteKeySeq info1) (s_sendNonce info1)) (\<lambda>bs.
        let tmp = key_bytes (s_nextPub info1) @ msg;
            bs1 = boxSeal (se_nacl e) bs tmp (s_sendNonce info1) (s_sendShared info1);
            w2 = w_emit (NetWrite bs1 (s_ed info1)) w1
        in Inr (resetTimer (info1\<lparr> s_tx := s_tx info1 + of_nat (length msg) \<rparr>) w2))))"

text \<open>Which of our receiving keys a packet is for.\<close>

datatype recv_kind = RecvCurrent | NextToSend | NextToRecv

definition recv_case :: "u64 \<Rightarrow> u64 \<Rightarrow> sessionInfo \<Rightarrow> recv_kind option" where
  "recv_case remoteKeySeq localKeySeq info =
     (let fromCurrent = remoteKeySeq = s_remoteKeySeq info;
          fromNext = remoteKeySeq = s_remoteKeySeq info + 1;
          toRecv = localKeySeq + 1 = s_localKeySeq info;
          toSend = localKeySeq = s_localKeySeq info
      in if fromCurrent \<and> toRecv then Some RecvCurrent
         else if fromNext \<and> toSend then Some NextToSend
         else if fromNext \<and> toRecv then Some NextToRecv
         else None)"

fun case_nonce :: "recv_kind \<Rightarrow> sessionInfo \<Rightarrow> u64" where
  "case_nonce RecvCurrent info = s_recvNonce info"
| "case_nonce NextToSend info = s_nextSendNonce info"
| "case_nonce NextToRecv info = s_nextRecvNonce info"

fun case_shared :: "recv_kind \<Rightarrow> sessionInfo \<Rightarrow> boxShared" where
  "case_shared RecvCurrent info = s_recvShared info"
| "case_shared NextToSend info = s_nextSendShared info"
| "case_shared NextToRecv info = s_nextRecvShared info"

text \<open>The rotation in \<open>onSuccess\<close>, at most once a minute.\<close>

definition rotate :: "nacl \<Rightarrow> int \<Rightarrow> u64 \<Rightarrow> boxPub \<Rightarrow> sessionInfo \<Rightarrow> world \<Rightarrow> (sessionInfo \<times> world) result" where
  "rotate nc now nonce innerKey info w =
     (if s_rotated info = zero_time \<or> 60000000000 < time_sub now (s_rotated info) then
        (let info1 = info\<lparr> s_current := s_next info, s_next := innerKey, s_remoteKeySeq := s_remoteKeySeq info + 1 \<rparr> in
         and_then (newBoxKeys nc w) (\<lambda>(new, w1).
           Inr ((fixShared nc nonce 0 (ratchet new info1))\<lparr> s_rotated := now \<rparr>, w1)))
      else Inr (info, w))"

fun onSuccess :: "nacl \<Rightarrow> recv_kind \<Rightarrow> int \<Rightarrow> u64 \<Rightarrow> boxPub \<Rightarrow> sessionInfo \<Rightarrow> world \<Rightarrow> (sessionInfo \<times> world) result" where
  "onSuccess nc RecvCurrent now nonce innerKey info w = Inr (info\<lparr> s_recvNonce := nonce \<rparr>, w)"
| "onSuccess nc NextToSend now nonce innerKey info w = rotate nc now nonce innerKey (info\<lparr> s_nextSendNonce := nonce \<rparr>) w"
| "onSuccess nc NextToRecv now nonce innerKey info w = rotate nc now nonce innerKey (info\<lparr> s_nextRecvNonce := nonce \<rparr>) w"

text \<open>The three numbers at the front of a packet and what follows them.\<close>

definition parse_traffic :: "bytes \<Rightarrow> (u64 \<times> u64 \<times> u64 \<times> bytes) option" where
  "parse_traffic msg =
     (if length msg < sessionTrafficOverheadMin \<or> msg ! 0 \<noteq> sessionTypeTraffic then None
      else case uvarint (drop 1 msg) of (remoteKeySeq, rksLen) \<Rightarrow>
        if rksLen \<le> 0 then None
        else case uvarint (drop (1 + nat rksLen) msg) of (localKeySeq, lksLen) \<Rightarrow>
          if lksLen \<le> 0 then None
          else case uvarint (drop (1 + nat rksLen + nat lksLen) msg) of (nonce, nonceLen) \<Rightarrow>
            if nonceLen \<le> 0 then None
            else Some (remoteKeySeq, localKeySeq, nonce, drop (1 + nat rksLen + nat lksLen + nat nonceLen) msg))"

definition info_doRecv :: "session_env \<Rightarrow> int \<Rightarrow> bytes \<Rightarrow> sessionInfo \<Rightarrow> world \<Rightarrow> (sessionInfo \<times> world) result" where
  "info_doRecv e now msg info w =
     (case parse_traffic msg of
        None \<Rightarrow> Inr (info, w)
      | Some (remoteKeySeq, localKeySeq, nonce, boxed) \<Rightarrow>
          (case recv_case remoteKeySeq localKeySeq info of
             None \<Rightarrow> and_then (info_sendInit e now info w) (\<lambda>w1. Inr (info, w1))
           | Some c \<Rightarrow>
               if \<not> case_nonce c info < nonce then Inr (info, w)
               else (case boxOpen (se_nacl e) boxed nonce (case_shared c info) of
                   None \<Rightarrow> and_then (info_sendInit e now info w) (\<lambda>w1. Inr (info, w1))
                 | Some unboxed \<Rightarrow>
                     if length unboxed < boxPubSize then Inl Panic
                     else
                       (let key = be_word (take 32 unboxed); m = drop 32 unboxed; w1 = w_emit (NetRecv (s_ed info) m) w in
                        and_then (onSuccess (se_nacl e) c now nonce key info w1) (\<lambda>(info1, w2).
                          Inr (resetTimer (info1\<lparr> s_rx := s_rx info1 + of_nat (length m) \<rparr>) w2))))))"

end
