(* ===== verification/SessionSpec.thy ===== *)
theory SessionSpec
  imports Session
begin

text \<open>
  What sessions guarantee: inits survive their encryption, a packet is never accepted twice between two
  key exchanges, and two ways in which they fail.
\<close>

subsection \<open>Headers\<close>

definition header_bytes :: "u64 \<Rightarrow> u64 \<Rightarrow> u64 \<Rightarrow> bytes" where
  "header_bytes l r n = sessionTypeTraffic # uvarint_bytes l @ uvarint_bytes r @ uvarint_bytes n"

lemma uvarint_len_10: "length (uvarint_bytes x) \<le> 10"
  using length_uvarint_bytes_max [of x] by (simp add: MaxVarintLen64_def)

lemma uvarint_len_1: "1 \<le> length (uvarint_bytes x)"
  using uvarint_bytes_nonempty [of x] by (cases "uvarint_bytes x") simp_all

lemma header_length: "4 \<le> length (header_bytes l r n)" "length (header_bytes l r n) \<le> 31"
  using uvarint_len_1 [of l] uvarint_len_1 [of r] uvarint_len_1 [of n] uvarint_len_10 [of l] uvarint_len_10 [of r] uvarint_len_10 [of n]
  by (simp_all add: header_bytes_def)

lemma take_extend:
  assumes "length buf' = length buf" "take i buf' = take i buf" "take n (drop i buf') = ys" "take i buf = xs"
  shows "take (i + n) buf' = xs @ ys"
  using assms by (simp add: take_add)

lemma traffic_header_eq: "traffic_header n l r nonce = Inr (header_bytes l r nonce)"
proof -
  define bs where "bs = (replicate (sessionTrafficOverhead + n) 0)[0 := sessionTypeTraffic]"
  have len: "79 \<le> length bs" and t0: "take 1 bs = [sessionTypeTraffic]"
    by (simp_all add: bs_def session_sizes take_Suc hd_conv_nth)
  obtain b1 where b1: "putUvarint bs 1 l = Inr (b1, 1 + length (uvarint_bytes l))" "length b1 = length bs" "take 1 b1 = take 1 bs"
      "take (length (uvarint_bytes l)) (drop 1 b1) = uvarint_bytes l"
    using putUvarint_bytes [of l bs 1] order.trans [OF uvarint_len_10 [of l], of "length bs - 1"] len by force
  define o1 where "o1 = 1 + length (uvarint_bytes l)"
  have o1: "o1 \<le> 11" using uvarint_len_10 [of l] by (simp add: o1_def)
  obtain b2 where b2: "putUvarint b1 o1 r = Inr (b2, o1 + length (uvarint_bytes r))" "length b2 = length b1" "take o1 b2 = take o1 b1"
      "take (length (uvarint_bytes r)) (drop o1 b2) = uvarint_bytes r"
    using putUvarint_bytes [of r b1 o1] order.trans [OF uvarint_len_10 [of r], of "length b1 - o1"] len o1 b1(2) by force
  define o2 where "o2 = o1 + length (uvarint_bytes r)"
  have o2: "o2 \<le> 21" using uvarint_len_10 [of r] o1 by (simp add: o2_def)
  obtain b3 where b3: "putUvarint b2 o2 nonce = Inr (b3, o2 + length (uvarint_bytes nonce))" "length b3 = length b2" "take o2 b3 = take o2 b2"
      "take (length (uvarint_bytes nonce)) (drop o2 b3) = uvarint_bytes nonce"
    using putUvarint_bytes [of nonce b2 o2] order.trans [OF uvarint_len_10 [of nonce], of "length b2 - o2"] len o2 b1(2) b2(2) by force
  have "take o1 b1 = [sessionTypeTraffic] @ uvarint_bytes l" unfolding o1_def by (rule take_extend [OF b1(2-4) t0])
  then have "take o2 b2 = ([sessionTypeTraffic] @ uvarint_bytes l) @ uvarint_bytes r" unfolding o2_def by (rule take_extend [OF b2(2-4)])
  then have "take (o2 + length (uvarint_bytes nonce)) b3 = (([sessionTypeTraffic] @ uvarint_bytes l) @ uvarint_bytes r) @ uvarint_bytes nonce"
    by (rule take_extend [OF b3(2-4)])
  moreover have "putUvarint bs 1 l = Inr (b1, o1)" "putUvarint b1 o1 r = Inr (b2, o2)"
    using b1(1) b2(1) by (simp_all only: o1_def o2_def)
  ultimately show ?thesis
    unfolding traffic_header_def Let_def bs_def [symmetric] by (simp only: b3(1) and_then_simps prod.case) (simp add: header_bytes_def)
qed

lemma parse_header:
  assumes "52 \<le> length (header_bytes r l n @ boxed)"
  shows "parse_traffic (header_bytes r l n @ boxed) = Some (r, l, n, boxed)"
proof -
  have d: "drop (Suc (length xs)) (x # xs @ ys) = ys" "drop (Suc (length xs + length ys)) (x # xs @ ys @ zs) = zs"
      "drop (Suc (length xs + length ys + length zs)) (x # xs @ ys @ zs @ us) = us" for x :: byte and xs ys zs us
    by simp_all
  show ?thesis
    using assms by (simp add: parse_traffic_def session_sizes header_bytes_def uvarint_uvarint_bytes uvarint_len_1 d)
qed

subsection \<open>Inits\<close>

lemma be_word_parts:
  "be_word (copy_array 32 (key_bytes a @ rest)) = a" "be_word (take 32 (key_bytes a @ rest)) = a"
  by (simp_all add: copy_array_def be_word_key_bytes)

lemma init_encrypt_ok:
  assumes "ed_correct (se_ed e)" "nacl_correct (se_ed e) (se_nacl e)" "w_privs w = p # ps"
  shows "\<exists>data. init_encrypt e init to w = Inr (data, w\<lparr> w_privs := ps \<rparr>) \<and> length data = 193 \<and> data ! 0 = sessionTypeInit
    \<and> (\<forall>e' from t. se_ed e' = se_ed e \<longrightarrow> se_nacl e' = se_nacl e \<longrightarrow> to = be_word (ed_public (se_ed e) (priv_bytes (se_secretEd e')))
        \<longrightarrow> se_secretBox e' = e2c_priv (se_nacl e) (se_secretEd e') \<longrightarrow> from = be_word (ed_public (se_ed e) (priv_bytes (se_secretEd e)))
        \<longrightarrow> init_decrypt e' from (data[0 := t]) = Some init)"
proof -
  define fromPub where "fromPub = box_public (se_nacl e) p"
  define body where "body = key_bytes (si_current init) @ key_bytes (si_next init) @ be_bytes 8 (si_keySeq init) @ be_bytes 8 (si_seq init)"
  define sig where "sig = edSign (se_ed e) (key_bytes fromPub @ body) (se_secretEd e)"
  define shared where "shared = box_shared (se_nacl e) (e2c_pub (se_nacl e) to) p"
  define boxed where "boxed = box_seal (se_nacl e) shared (nonceForUint64 0) (sig @ body)"
  define data where "data = sessionTypeInit # key_bytes fromPub @ boxed"
  have sig: "length sig = 64" by (simp add: sig_def edSign_def)
  have body: "length body = 80" by (simp add: body_def)
  have boxed: "length boxed = 160" "box_open (se_nacl e) shared (nonceForUint64 0) boxed = Some (sig @ body)"
    using assms(2) sig body by (simp_all add: nacl_correct_def boxed_def)
  have enc: "init_encrypt e init to w = Inr (data, w\<lparr> w_privs := ps \<rparr>)"
    using boxed(1) assms(3)
    by (simp add: init_encrypt_def newBoxKeys_def Let_def session_sizes getShared_def boxSeal_def data_def
        flip: fromPub_def body_def) (simp add: boxed_def sig_def shared_def fromPub_def body_def)
  have dec: "init_decrypt e' from (data[0 := t]) = Some init"
    if e': "se_ed e' = se_ed e" "se_nacl e' = se_nacl e" "to = be_word (ed_public (se_ed e) (priv_bytes (se_secretEd e')))"
      "se_secretBox e' = e2c_priv (se_nacl e) (se_secretEd e')" "from = be_word (ed_public (se_ed e) (priv_bytes (se_secretEd e)))" for e' "from" t
  proof -
    have "shared = box_shared (se_nacl e) fromPub (se_secretBox e')"
      using assms(2) e' unfolding shared_def fromPub_def nacl_correct_def by metis
    moreover have "ed_verify (se_ed e) (key_bytes from) (key_bytes fromPub @ body) sig"
      using assms(1) e'(5) by (simp add: ed_correct_def sig_def edSign_def key_bytes_be_word)
    moreover have "copy_array 64 (sig @ body) = sig" using sig by (simp add: copy_array_def)
    moreover have "be_word (copy_array 32 body) = si_current init" "be_word (copy_array 32 (drop 32 body)) = si_next init"
        "be_word (take 8 (drop 64 body)) = si_keySeq init" "be_word (take 8 (drop 72 body)) = si_seq init"
      by (simp_all add: body_def copy_array_def be_word_key_bytes be_word_be_bytes)
    ultimately show ?thesis
      using boxed sig e'(1,2)
      by (simp add: init_decrypt_def data_def session_sizes Let_def getShared_def boxOpen_def edCheck_def be_word_key_bytes)
  qed
  show ?thesis using enc dec boxed(1) by (intro exI [of _ data]) (auto simp: data_def)
qed

subsection \<open>Accepted packets\<close>

text \<open>The packet passes all checks of \<open>doRecv\<close>, so its message is handed to the reader.\<close>

definition accepts :: "session_env \<Rightarrow> bytes \<Rightarrow> sessionInfo \<Rightarrow> bool" where
  "accepts e msg info =
     (case parse_traffic msg of
        None \<Rightarrow> False
      | Some (r, l, n, boxed) \<Rightarrow>
          (case recv_case r l info of
             None \<Rightarrow> False
           | Some c \<Rightarrow> case_nonce c info < n \<and> boxOpen (se_nacl e) boxed n (case_shared c info) \<noteq> None))"

text \<open>Packets sent and received between two key exchanges.\<close>

datatype info_event = InfoSend bytes | InfoRecv int bytes

fun info_run :: "session_env \<Rightarrow> info_event list \<Rightarrow> sessionInfo \<times> world \<Rightarrow> (sessionInfo \<times> world) result" where
  "info_run e [] s = Inr s"
| "info_run e (InfoSend msg # evs) s = and_then (info_doSend e msg (fst s) (snd s)) (info_run e evs)"
| "info_run e (InfoRecv now msg # evs) s = and_then (info_doRecv e now msg (fst s) (snd s)) (info_run e evs)"

text \<open>The packets of a run that pass the checks at the moment they arrive; all others leave the session as it is.\<close>

fun accepted :: "session_env \<Rightarrow> info_event list \<Rightarrow> sessionInfo \<times> world \<Rightarrow> bytes list" where
  "accepted e [] s = []"
| "accepted e (InfoSend msg # evs) s =
     (case info_doSend e msg (fst s) (snd s) of Inl _ \<Rightarrow> [] | Inr s' \<Rightarrow> accepted e evs s')"
| "accepted e (InfoRecv now msg # evs) s =
     (if accepts e msg (fst s) then [msg] else [])
       @ (case info_doRecv e now msg (fst s) (snd s) of Inl _ \<Rightarrow> [] | Inr s' \<Rightarrow> accepted e evs s')"

text \<open>The key numbers, its own and the other side's, under which a session seals the packets of a run.\<close>

fun sealed_under :: "session_env \<Rightarrow> info_event list \<Rightarrow> sessionInfo \<times> world \<Rightarrow> (u64 \<times> u64) list" where
  "sealed_under e [] s = []"
| "sealed_under e (InfoSend msg # evs) s =
     (case info_doSend e msg (fst s) (snd s) of
        Inl _ \<Rightarrow> []
      | Inr s' \<Rightarrow> (s_localKeySeq (fst s'), s_remoteKeySeq (fst s')) # sealed_under e evs s')"
| "sealed_under e (InfoRecv now msg # evs) s =
     (case info_doRecv e now msg (fst s) (snd s) of Inl _ \<Rightarrow> [] | Inr s' \<Rightarrow> sealed_under e evs s')"

text \<open>The packet was sealed by a run of the remote session: it carries a pair of key numbers of that run.\<close>

definition sealed_by :: "session_env \<Rightarrow> info_event list \<Rightarrow> sessionInfo \<times> world \<Rightarrow> bytes \<Rightarrow> bool" where
  "sealed_by e evs s msg \<longleftrightarrow> (\<exists>r l n boxed. parse_traffic msg = Some (r, l, n, boxed) \<and> (r, l) \<in> set (sealed_under e evs s))"

definition consistent :: "(u64 \<Rightarrow> u64) \<Rightarrow> bytes \<Rightarrow> bool" where
  "consistent f msg \<longleftrightarrow> (\<forall>r l n boxed. parse_traffic msg = Some (r, l, n, boxed) \<longrightarrow> l = f r)"

definition spent :: "u64 \<Rightarrow> u64 \<Rightarrow> u64 \<Rightarrow> sessionInfo \<Rightarrow> bool" where
  "spent r l n info \<longleftrightarrow> unat r < unat (s_remoteKeySeq info)
     \<or> (r = s_remoteKeySeq info \<and> (unat (l + 1) < unat (s_localKeySeq info) \<or> (l + 1 = s_localKeySeq info \<and> n \<le> s_recvNonce info)))
     \<or> (r = s_remoteKeySeq info + 1 \<and> (l = s_localKeySeq info \<and> n \<le> s_nextSendNonce info
          \<or> l + 1 = s_localKeySeq info \<and> n \<le> s_nextRecvNonce info))"

text \<open>Room for \<open>k\<close> more steps before one of the counters wraps.\<close>

definition room :: "nat \<Rightarrow> sessionInfo \<Rightarrow> bool" where
  "room k info \<longleftrightarrow> unat (s_remoteKeySeq info) + k < 2 ^ 64 \<and> unat (s_localKeySeq info) + k < 2 ^ 64
     \<and> unat (s_sendNonce info) + k < 2 ^ 64"

lemma unat_succ: "unat (x :: u64) + 1 < 2 ^ 64 \<Longrightarrow> unat (x + 1) = unat x + 1"
  using unat_plus_simple [of x 1] by (simp add: unat_word_ariths)

lemma word_succ_neq [simp]: "(x :: u64) + 1 \<noteq> x" "x \<noteq> x + 1"
  by simp_all

lemma spent_rejects:
  assumes "spent r l n info" "room 1 info" "recv_case r l info = Some c"
  shows "n \<le> case_nonce c info"
proof -
  have "unat (s_remoteKeySeq info + 1) = unat (s_remoteKeySeq info) + 1" using assms(2) by (intro unat_succ) (simp add: room_def)
  with assms(1,3) show ?thesis by (auto simp: spent_def recv_case_def Let_def split: if_splits)
qed

lemma rotate_fields:
  assumes "rotate nc now n key info w = Inr (info', w')"
  shows "(s_remoteKeySeq info' = s_remoteKeySeq info \<and> s_localKeySeq info' = s_localKeySeq info \<and> s_recvNonce info' = s_recvNonce info
      \<and> s_nextSendNonce info' = s_nextSendNonce info \<and> s_nextRecvNonce info' = s_nextRecvNonce info \<and> s_sendNonce info' = s_sendNonce info)
    \<or> (s_remoteKeySeq info' = s_remoteKeySeq info + 1 \<and> s_localKeySeq info' = s_localKeySeq info + 1 \<and> s_recvNonce info' = n
      \<and> s_nextSendNonce info' = 0 \<and> s_nextRecvNonce info' = 0 \<and> s_sendNonce info' = 0)"
  using assms by (auto simp: rotate_def Let_def and_then_eq_Inr fixShared_def ratchet_def split: if_splits)

lemma resetTimer_fields [simp]:
  "s_remoteKeySeq (fst (resetTimer info w)) = s_remoteKeySeq info" "s_localKeySeq (fst (resetTimer info w)) = s_localKeySeq info"
  "s_recvNonce (fst (resetTimer info w)) = s_recvNonce info" "s_nextSendNonce (fst (resetTimer info w)) = s_nextSendNonce info"
  "s_nextRecvNonce (fst (resetTimer info w)) = s_nextRecvNonce info" "s_sendNonce (fst (resetTimer info w)) = s_sendNonce info"
  "w_out (snd (resetTimer info w)) = w_out w"
  by (cases "s_timer info"; simp add: resetTimer_def w_start_def w_stop_def)+

lemma resetTimer_case_nonce [simp]: "case_nonce c (fst (resetTimer info w)) = case_nonce c info"
  by (cases c) simp_all

lemma case_nonce_rx [simp]: "case_nonce c (info\<lparr> s_rx := m \<rparr>) = case_nonce c info"
  by (cases c) simp_all

lemma doSend_fields:
  assumes "room 1 info" "info_doSend e msg info w = Inr (info', w')"
  shows "s_remoteKeySeq info' = s_remoteKeySeq info \<and> s_localKeySeq info' = s_localKeySeq info \<and> s_recvNonce info' = s_recvNonce info
    \<and> s_nextSendNonce info' = s_nextSendNonce info \<and> s_nextRecvNonce info' = s_nextRecvNonce info
    \<and> s_sendNonce info' = s_sendNonce info + 1"
proof -
  have "0 < unat (s_sendNonce info + 1)" using unat_succ [of "s_sendNonce info"] assms(1) by (simp add: room_def)
  then have "s_sendNonce info + 1 \<noteq> 0" using unsigned_0 by fastforce
  then have "\<exists>n w1. info_doSend e msg info w = Inr (resetTimer (info\<lparr> s_sendNonce := s_sendNonce info + 1, s_tx := n \<rparr>) w1)"
    by (simp add: info_doSend_def Let_def traffic_header_eq) blast
  then obtain n w1 where "info' = fst (resetTimer (info\<lparr> s_sendNonce := s_sendNonce info + 1, s_tx := n \<rparr>) w1)"
    using assms(2) by (metis Inr_inject fst_conv)
  then show ?thesis by simp
qed

text \<open>What \<open>doRecv\<close> does to the counters: nothing, unless it accepts the packet.\<close>

definition took_packet :: "u64 \<Rightarrow> u64 \<Rightarrow> u64 \<Rightarrow> sessionInfo \<Rightarrow> sessionInfo \<Rightarrow> bool" where
  "took_packet r l n info info' \<longleftrightarrow> (\<exists>c. recv_case r l info = Some c \<and> case_nonce c info < n
     \<and> (s_remoteKeySeq info' = s_remoteKeySeq info \<and> s_localKeySeq info' = s_localKeySeq info \<and> s_sendNonce info' = s_sendNonce info
          \<and> case_nonce c info' = n \<and> (\<forall>d. d \<noteq> c \<longrightarrow> case_nonce d info' = case_nonce d info)
        \<or> c \<noteq> RecvCurrent \<and> s_remoteKeySeq info' = s_remoteKeySeq info + 1 \<and> s_localKeySeq info' = s_localKeySeq info + 1
          \<and> s_recvNonce info' = n \<and> s_nextSendNonce info' = 0 \<and> s_nextRecvNonce info' = 0 \<and> s_sendNonce info' = 0))"

lemma all_recv_case: "(\<forall>d. P d) \<longleftrightarrow> P RecvCurrent \<and> P NextToSend \<and> P NextToRecv"
  by (metis recv_kind.exhaust)

lemma onSuccess_took:
  assumes "onSuccess nc c now n key info w = Inr (info', w')" "recv_case r l info = Some c" "case_nonce c info < n"
  shows "took_packet r l n info info'"
proof (cases c)
  case RecvCurrent
  then show ?thesis using assms by (auto simp: took_packet_def all_recv_case)
next
  case NextToSend
  then have "rotate nc now n key (info\<lparr> s_nextSendNonce := n \<rparr>) w = Inr (info', w')" using assms(1) by simp
  from rotate_fields [OF this] show ?thesis
    using assms(2,3) NextToSend unfolding took_packet_def all_recv_case by (intro exI [of _ c]) auto
next
  case NextToRecv
  then have "rotate nc now n key (info\<lparr> s_nextRecvNonce := n \<rparr>) w = Inr (info', w')" using assms(1) by simp
  from rotate_fields [OF this] show ?thesis
    using assms(2,3) NextToRecv unfolding took_packet_def all_recv_case by (intro exI [of _ c]) auto
qed

lemma doRecv_fields:
  assumes "info_doRecv e now msg info w = Inr (info', w')"
  shows "(info' = info \<and> \<not> accepts e msg info)
    \<or> (accepts e msg info \<and> (\<exists>r l n boxed. parse_traffic msg = Some (r, l, n, boxed) \<and> took_packet r l n info info'))"
proof (cases "accepts e msg info")
  case False
  then show ?thesis
    using assms by (auto simp: info_doRecv_def accepts_def and_then_eq_Inr split: option.splits if_splits)
next
  case True
  then obtain r l n boxed c unboxed where h: "parse_traffic msg = Some (r, l, n, boxed)" "recv_case r l info = Some c"
      "case_nonce c info < n" "boxOpen (se_nacl e) boxed n (case_shared c info) = Some unboxed"
    by (auto simp: accepts_def split: option.splits)
  obtain key w1 info1 w2 m where on: "onSuccess (se_nacl e) c now n key info w1 = Inr (info1, w2)"
      "resetTimer (info1\<lparr> s_rx := m \<rparr>) w2 = (info', w')"
    using assms h by (auto simp: info_doRecv_def Let_def and_then_eq_Inr split: if_splits)
  have "info' = fst (resetTimer (info1\<lparr> s_rx := m \<rparr>) w2)" using on(2) by (metis fst_conv)
  then have "took_packet r l n info info'"
    using onSuccess_took [OF on(1) h(2,3)] unfolding took_packet_def all_recv_case by simp
  with True h(1) show ?thesis by blast
qed

subsection \<open>No replay\<close>

lemma took_spends:
  assumes "took_packet r l n info info'" "room 2 info"
  shows "spent r l n info'"
proof -
  have u: "unat (s_localKeySeq info + 1) = unat (s_localKeySeq info) + 1" "unat (s_remoteKeySeq info + 1) = unat (s_remoteKeySeq info) + 1"
    using assms(2) by (intro unat_succ; simp add: room_def)+
  show ?thesis
    using assms(1) u unfolding took_packet_def spent_def all_recv_case
    by (auto simp: recv_case_def Let_def split: if_splits)
qed

lemma took_keeps_spent:
  assumes "took_packet r' l' n' info info'" "spent r l n info" "room 2 info" "l = f r" "l' = f r'"
  shows "spent r l n info'"
proof -
  have u: "unat (s_localKeySeq info + 1) = unat (s_localKeySeq info) + 1" "unat (s_remoteKeySeq info + 1) = unat (s_remoteKeySeq info) + 1"
    using assms(3) by (intro unat_succ; simp add: room_def)+
  obtain c where c: "recv_case r' l' info = Some c" using assms(1) by (auto simp: took_packet_def)
  show ?thesis
    using assms(1,2,4,5) u c unfolding took_packet_def spent_def all_recv_case
    by (auto simp: recv_case_def Let_def split: if_splits)
qed

lemma doRecv_room:
  assumes "took_packet r l n info info'" "room (Suc k) info"
  shows "room k info'"
proof -
  have u: "unat (s_localKeySeq info + 1) = unat (s_localKeySeq info) + 1" "unat (s_remoteKeySeq info + 1) = unat (s_remoteKeySeq info) + 1"
    using assms(2) by (intro unat_succ; simp add: room_def)+
  show ?thesis using assms(1,2) u by (auto simp: took_packet_def room_def)
qed

lemma doSend_room:
  assumes "info_doSend e msg info w = Inr (info', w')" "room (Suc k) info"
  shows "room k info'"
proof -
  have "room 1 info" using assms(2) by (simp add: room_def)
  moreover have "unat (s_sendNonce info + 1) = unat (s_sendNonce info) + 1"
    using assms(2) by (intro unat_succ) (simp add: room_def)
  ultimately show ?thesis using doSend_fields [OF _ assms(1)] assms(2) by (simp add: room_def)
qed

lemma room_less: "room j info \<Longrightarrow> k \<le> j \<Longrightarrow> room k info"
  by (simp add: room_def)

lemma doRecv_keeps:
  assumes "info_doRecv e now msg' info w = Inr (info', w')" "spent r (f r) n info" "room (Suc (Suc k)) info" "accepts e msg' info \<longrightarrow> consistent f msg'"
  shows "spent r (f r) n info' \<and> room (Suc k) info'"
  using doRecv_fields [OF assms(1)]
proof
  assume "info' = info \<and> \<not> accepts e msg' info"
  then show ?thesis using assms(2) room_less [OF assms(3), of "Suc k"] by simp
next
  assume "accepts e msg' info \<and> (\<exists>r l n boxed. parse_traffic msg' = Some (r, l, n, boxed) \<and> took_packet r l n info info')"
  then obtain r' l' n' boxed where p: "parse_traffic msg' = Some (r', l', n', boxed)" and t: "took_packet r' l' n' info info'" by blast
  have "l' = f r'" using assms(4) p \<open>accepts e msg' info \<and> _\<close> by (simp add: consistent_def)
  moreover have "room 2 info" using room_less [OF assms(3), of 2] by simp
  ultimately show ?thesis using took_keeps_spent [OF t assms(2), where f = f] doRecv_room [OF t assms(3)] by simp
qed

lemma doSend_keeps:
  assumes "info_doSend e msg' info w = Inr (info', w')" "spent r l n info" "room (Suc (Suc k)) info"
  shows "spent r l n info' \<and> room (Suc k) info'"
  using doSend_fields [OF _ assms(1)] doSend_room [OF assms(1,3)] assms(2) room_less [OF assms(3), of 1]
  by (simp add: spent_def)

lemma run_keeps:
  assumes "info_run e evs (info, w) = Inr (info', w')" "spent r (f r) n info" "room (Suc (length evs)) info"
    "\<forall>m \<in> set (accepted e evs (info, w)). consistent f m"
  shows "spent r (f r) n info' \<and> room 1 info'"
  using assms
proof (induction evs arbitrary: info w)
  case Nil
  then show ?case by simp
next
  case (Cons ev evs)
  show ?case
  proof (cases ev)
    case (InfoSend m)
    then obtain info1 w1 where 1: "info_doSend e m info w = Inr (info1, w1)" "info_run e evs (info1, w1) = Inr (info', w')"
      using Cons.prems(1) by (auto simp: and_then_eq_Inr)
    moreover have "\<forall>m \<in> set (accepted e evs (info1, w1)). consistent f m" using Cons.prems(4) InfoSend 1(1) by simp
    ultimately show ?thesis using Cons.IH [OF 1(2)] doSend_keeps [OF 1(1) Cons.prems(2)] Cons.prems(3) InfoSend by simp
  next
    case (InfoRecv now m)
    then obtain info1 w1 where 1: "info_doRecv e now m info w = Inr (info1, w1)" "info_run e evs (info1, w1) = Inr (info', w')"
      using Cons.prems(1) by (auto simp: and_then_eq_Inr)
    moreover have "\<forall>m \<in> set (accepted e evs (info1, w1)). consistent f m" "accepts e m info \<longrightarrow> consistent f m"
      using Cons.prems(4) InfoRecv 1(1) by simp_all
    ultimately show ?thesis using Cons.IH [OF 1(2)] doRecv_keeps [OF 1(1), where f = f and r = r and n = n] Cons.prems(2,3) InfoRecv by simp
  qed
qed

lemma spent_not_accepted:
  assumes "parse_traffic msg = Some (r, l, n, boxed)" "spent r l n info" "room 1 info"
  shows "\<not> accepts e msg info"
  using spent_rejects [OF assms(2,3)] assms(1) by (auto simp: accepts_def not_less split: option.splits)

text \<open>A session moves both key numbers together, so the numbers it seals under keep their difference.\<close>

lemma took_difference: "took_packet r l n info info' \<Longrightarrow> s_remoteKeySeq info' - s_localKeySeq info' = s_remoteKeySeq info - s_localKeySeq info"
  by (auto simp: took_packet_def)

lemma sealed_difference:
  assumes "room (length evs) info" "(r, l) \<in> set (sealed_under e evs (info, w))"
  shows "l - r = s_remoteKeySeq info - s_localKeySeq info"
  using assms
proof (induction evs arbitrary: info w)
  case (Cons ev evs)
  show ?case
  proof (cases ev)
    case (InfoSend m)
    obtain info1 w1 where 1: "info_doSend e m info w = Inr (info1, w1)"
      using Cons.prems(2) InfoSend by (cases "info_doSend e m info w") auto
    moreover have "(r, l) = (s_localKeySeq info1, s_remoteKeySeq info1) \<or> (r, l) \<in> set (sealed_under e evs (info1, w1))"
      using Cons.prems(2) InfoSend 1 by auto
    moreover have "s_remoteKeySeq info1 = s_remoteKeySeq info" "s_localKeySeq info1 = s_localKeySeq info" "room (length evs) info1"
      using doSend_fields [OF room_less 1] doSend_room [OF 1] Cons.prems(1) by simp_all
    ultimately show ?thesis using Cons.IH by auto
  next
    case (InfoRecv now m)
    obtain info1 w1 where 1: "info_doRecv e now m info w = Inr (info1, w1)" "(r, l) \<in> set (sealed_under e evs (info1, w1))"
      using Cons.prems(2) InfoRecv by (cases "info_doRecv e now m info w") auto
    have "room (length evs) info1 \<and> s_remoteKeySeq info1 - s_localKeySeq info1 = s_remoteKeySeq info - s_localKeySeq info"
      using doRecv_fields [OF 1(1)]
    proof
      assume "info1 = info \<and> \<not> accepts e m info"
      then show ?thesis using room_less [OF Cons.prems(1), of "length evs"] by simp
    next
      assume "accepts e m info \<and> (\<exists>r l n boxed. parse_traffic m = Some (r, l, n, boxed) \<and> took_packet r l n info info1)"
      then show ?thesis using doRecv_room Cons.prems(1) took_difference by auto
    qed
    then show ?thesis using Cons.IH 1(2) by metis
  qed
qed simp

text \<open>
  C7. A traffic packet that a session has accepted is not accepted a second time, whatever is sent and
  received after it until the next key exchange: not by the same receiving key, and not after the session has
  rotated its keys any number of times. Any bytes may arrive; those that decrypt and are accepted must have been
  sealed by a run of the remote session, under its key numbers, and the 64-bit counters of both sessions must have
  room for the packets considered.
\<close>

theorem no_replay:
  assumes "accepts e msg info" "info_doRecv e now msg info w = Inr (info1, w1)"
    and "info_run e evs (info1, w1) = Inr (info2, w2)"
    and "\<forall>m \<in> set (accepted e (InfoRecv now msg # evs) (info, w)). sealed_by remote revs (rinfo, rw) m"
    and "room (length evs + 2) info" "room (length revs) rinfo"
  shows "\<not> accepts e msg info2"
proof -
  define f where "f = (\<lambda>r. s_remoteKeySeq rinfo - s_localKeySeq rinfo + r)"
  have con: "consistent f m" if "sealed_by remote revs (rinfo, rw) m" for m
    using that sealed_difference [OF assms(6)] by (fastforce simp: sealed_by_def consistent_def f_def algebra_simps)
  obtain r l n boxed where p: "parse_traffic msg = Some (r, l, n, boxed)" and t: "took_packet r l n info info1"
    using doRecv_fields [OF assms(2)] assms(1) by blast
  have all: "consistent f msg" "\<forall>m \<in> set (accepted e evs (info1, w1)). consistent f m" using assms(1,2,4) con by simp_all
  then have l: "l = f r" using p by (simp add: consistent_def)
  have "spent r (f r) n info1" using took_spends [OF t] room_less [OF assms(5), of 2] l by simp
  moreover have "room (Suc (length evs)) info1" using doRecv_room [OF t] assms(5) by simp
  ultimately have "spent r (f r) n info2 \<and> room 1 info2" using run_keeps [OF assms(3), where f = f and r = r and n = n] all(2) by simp
  then show ?thesis using spent_not_accepted [OF p] l by blast
qed

subsection \<open>An instance\<close>

text \<open>A box that only marks its content, with keys that agree.\<close>

definition sample_nacl :: nacl where
  "sample_nacl = \<lparr> box_public = (\<lambda>p. p), box_shared = (\<lambda>pub priv. pub XOR priv), box_seal = (\<lambda>k n m. replicate 16 0 @ m),
     box_open = (\<lambda>k n b. if take 16 b = replicate 16 0 then Some (drop 16 b) else None),
     e2c_pub = (\<lambda>p. p), e2c_priv = (\<lambda>p. be_word (ed_public sample_ed (priv_bytes p))) \<rparr>"

lemma nacl_correct_sample: "nacl_correct sample_ed sample_nacl"
  by (simp add: nacl_correct_def sample_nacl_def xor.commute)

definition sample_senv :: "privateKey \<Rightarrow> session_env" where
  "sample_senv p = \<lparr> se_ed = sample_ed, se_nacl = sample_nacl, se_secretEd = p, se_secretBox = e2c_priv sample_nacl p \<rparr>"

definition sample_session :: sessionInfo where
  "sample_session = fixShared sample_nacl 0 0 \<lparr> s_id = 0, s_seq = 1, s_ed = 7, s_remoteKeySeq = 0, s_current = 11, s_next = 12,
     s_localKeySeq = 1, s_recvPriv = 1, s_recvPub = 1, s_recvShared = 0, s_recvNonce = 0, s_sendPriv = 2, s_sendPub = 2, s_sendShared = 0, s_sendNonce = 0,
     s_nextPriv = 3, s_nextPub = 3, s_timer = Some 1, s_since = 0, s_rotated = 1, s_rx = 0, s_tx = 0, s_nextSendShared = 0, s_nextSendNonce = 0,
     s_nextRecvShared = 0, s_nextRecvNonce = 0 \<rparr>"

definition sample_world :: world where
  "sample_world = \<lparr> w_privs = [4, 5, 6, 7], w_fresh = 2, w_armed = [(1, ExpireSession 7 0)], w_out = [] \<rparr>"

definition sample_sealed :: "u64 \<Rightarrow> u64 \<Rightarrow> u64 \<Rightarrow> bytes" where
  "sample_sealed r l n = header_bytes r l n @ replicate 48 0 @ [42]"

lemma parse_sample: "parse_traffic (sample_sealed r l n) = Some (r, l, n, replicate 48 0 @ [42])"
  using parse_header [of r l n "replicate 48 0 @ [42]"] header_length(1) [of r l n] by (simp add: sample_sealed_def)

lemma sample_session_fields [simp]: "s_remoteKeySeq sample_session = 0" "s_localKeySeq sample_session = 1" "s_recvNonce sample_session = 0"
  "s_nextSendNonce sample_session = 0" "s_sendNonce sample_session = 0" "s_rotated sample_session = 1" "s_seq sample_session = 1"
  "s_next sample_session = 12"
  by (simp_all add: sample_session_def fixShared_def)

lemma sample_accepts: "accepts (sample_senv p) (sample_sealed 0 0 1) sample_session"
  by (simp add: accepts_def parse_sample recv_case_def boxOpen_def sample_senv_def sample_nacl_def)

lemma sample_recv: "\<exists>info1 w1. info_doRecv (sample_senv p) 2 (sample_sealed 0 0 1) sample_session sample_world = Inr (info1, w1)"
  by (simp add: info_doRecv_def parse_sample recv_case_def boxOpen_def sample_senv_def sample_nacl_def boxPubSize_def Let_def)

definition sample_remote :: sessionInfo where
  "sample_remote = sample_session\<lparr> s_localKeySeq := 0 \<rparr>"

lemma sample_sealed_by: "sealed_by (sample_senv 8) [InfoSend [42]] (sample_remote, sample_world) (sample_sealed 0 0 1)"
proof -
  have r: "room 1 sample_remote" by (simp add: room_def sample_remote_def)
  then have "s_sendNonce sample_remote + 1 \<noteq> 0" by (simp add: sample_remote_def)
  then obtain s where s: "info_doSend (sample_senv 8) [42] sample_remote sample_world = Inr s"
    by (simp add: info_doSend_def Let_def traffic_header_eq)
  then show ?thesis
    using doSend_fields [OF r, of "sample_senv 8" "[42]" sample_world "fst s" "snd s"] by (simp add: sealed_by_def parse_sample sample_remote_def)
qed

theorem no_replay_witness:
  "accepts (sample_senv 3) (sample_sealed 0 0 1) sample_session
   \<and> (\<exists>info1 w1. info_doRecv (sample_senv 3) 2 (sample_sealed 0 0 1) sample_session sample_world = Inr (info1, w1)
       \<and> \<not> accepts (sample_senv 3) (sample_sealed 0 0 1) info1)"
proof -
  obtain info1 w1 where r: "info_doRecv (sample_senv 3) 2 (sample_sealed 0 0 1) sample_session sample_world = Inr (info1, w1)"
    using sample_recv by blast
  have "\<forall>m \<in> set (accepted (sample_senv 3) [InfoRecv 2 (sample_sealed 0 0 1)] (sample_session, sample_world)).
      sealed_by (sample_senv 8) [InfoSend [42]] (sample_remote, sample_world) m"
    using sample_sealed_by r by simp
  moreover have "room (length ([] :: info_event list) + 2) sample_session" "room (length [InfoSend [42]]) sample_remote"
    by (simp_all add: room_def sample_remote_def)
  ultimately show ?thesis
    using no_replay [OF sample_accepts r, of "[]" info1 w1 "sample_senv 8" "[InfoSend [42]]" sample_remote sample_world] sample_accepts r by auto
qed

end
