(* ===== verification/SessionManager.thy ===== *)
theory SessionManager
  imports SessionSpec
begin

text \<open>
  \<^verbatim>\<open>ironwood/encrypted/session.go\<close>, the session manager: sessions and buffers by remote key, the dispatch
  of what the network delivers, the first message to a new key, and expiry.
  \<^item> A handler of the manager and the actions it sends to a session's own inbox are one step: a session
    only receives actions from the manager, in order, and the manager reads nothing back from them.
  \<^item> A message that is a nil slice in the code is \<open>None\<close>.
\<close>

subsection \<open>State\<close>

record sessionBuffer =
  sb_id :: nat
  sb_data :: "bytes option"
  sb_init :: sessionInit
  sb_currentPriv :: boxPriv
  sb_nextPriv :: boxPriv
  sb_timer :: "nat option"

record sessionManager =
  sm_sessions :: "(edPub, sessionInfo) gomap"
  sm_buffers :: "(edPub, sessionBuffer) gomap"

type_synonym mgr_state = "sessionManager \<times> world"

definition mgr_init :: sessionManager where
  "mgr_init = \<lparr> sm_sessions = [], sm_buffers = [] \<rparr>"

definition slice :: "bytes option \<Rightarrow> bytes" where
  "slice msg = (case msg of None \<Rightarrow> [] | Some bs \<Rightarrow> bs)"

text \<open>An action of the session with \<open>pub\<close>.\<close>

definition act_session :: "edPub \<Rightarrow> (sessionInfo \<Rightarrow> world \<Rightarrow> (sessionInfo \<times> world) result) \<Rightarrow> mgr_state \<Rightarrow> mgr_state result" where
  "act_session pub f s =
     (case m_get (sm_sessions (fst s)) pub of
        None \<Rightarrow> Inr s
      | Some info \<Rightarrow> and_then (f info (snd s)) (\<lambda>(info1, w1).
          Inr ((fst s)\<lparr> sm_sessions := m_set (sm_sessions (fst s)) pub info1 \<rparr>, w1)))"

subsection \<open>Operations\<close>

definition mgr_newSession :: "nacl \<Rightarrow> int \<Rightarrow> edPub \<Rightarrow> boxPub \<Rightarrow> boxPub \<Rightarrow> u64 \<Rightarrow> mgr_state \<Rightarrow> mgr_state result" where
  "mgr_newSession nc now ed recv send seq s =
     and_then (newSession nc now ed recv send seq (snd s)) (\<lambda>(info, w1).
       let (info1, w2) = resetTimer info w1
       in Inr ((fst s)\<lparr> sm_sessions := m_set (sm_sessions (fst s)) (s_ed info1) info1 \<rparr>, w2))"

text \<open>A buffered first message left its keys with the buffer; the session takes them over.\<close>

definition adopt_keys :: "nacl \<Rightarrow> sessionBuffer \<Rightarrow> sessionInfo \<Rightarrow> sessionInfo" where
  "adopt_keys nc buf info = fixShared nc 0 0 (info\<lparr>
     s_sendPub := si_current (sb_init buf), s_sendPriv := sb_currentPriv buf,
     s_nextPub := si_next (sb_init buf), s_nextPriv := sb_nextPriv buf \<rparr>)"

definition sessionForInit :: "nacl \<Rightarrow> int \<Rightarrow> edPub \<Rightarrow> sessionInit \<Rightarrow> mgr_state \<Rightarrow> (sessionBuffer option \<times> mgr_state) result" where
  "sessionForInit nc now pub init s =
     (case m_get (sm_sessions (fst s)) pub of
        Some info \<Rightarrow> Inr (None, s)
      | None \<Rightarrow>
          and_then (mgr_newSession nc now pub (si_current init) (si_next init) (si_seq init) s) (\<lambda>s1.
          case m_get (sm_buffers (fst s1)) pub of
            None \<Rightarrow> Inr (None, s1)
          | Some buf \<Rightarrow>
              (let w1 = w_stop (sb_timer buf) (snd s1);
                   mgr1 = (fst s1)\<lparr> sm_buffers := m_del (sm_buffers (fst s1)) pub \<rparr>
               in and_then (act_session pub (\<lambda>info w. Inr (adopt_keys nc buf info, w)) (mgr1, w1)) (\<lambda>s2. Inr (Some buf, s2)))))"

definition send_buffered :: "session_env \<Rightarrow> edPub \<Rightarrow> sessionBuffer option \<Rightarrow> mgr_state \<Rightarrow> mgr_state result" where
  "send_buffered e pub buf s =
     (case buf of
        None \<Rightarrow> Inr s
      | Some b \<Rightarrow> (case sb_data b of None \<Rightarrow> Inr s | Some msg \<Rightarrow> act_session pub (info_doSend e msg) s))"

definition mgr_handleInit :: "session_env \<Rightarrow> int \<Rightarrow> edPub \<Rightarrow> sessionInit \<Rightarrow> mgr_state \<Rightarrow> mgr_state result" where
  "mgr_handleInit e now pub init s =
     and_then (sessionForInit (se_nacl e) now pub init s) (\<lambda>(buf, s1).
     and_then (act_session pub (info_handleInit e now init) s1) (send_buffered e pub buf))"

definition mgr_handleAck :: "session_env \<Rightarrow> int \<Rightarrow> edPub \<Rightarrow> sessionInit \<Rightarrow> mgr_state \<Rightarrow> mgr_state result" where
  "mgr_handleAck e now pub ack s =
     (let isOld = m_has (sm_sessions (fst s)) pub in
      and_then (sessionForInit (se_nacl e) now pub ack s) (\<lambda>(buf, s1).
      and_then (act_session pub (if isOld then info_handleAck e ack else info_handleInit e now ack) s1) (send_buffered e pub buf)))"

definition mgr_handleTraffic :: "session_env \<Rightarrow> int \<Rightarrow> edPub \<Rightarrow> bytes \<Rightarrow> mgr_state \<Rightarrow> mgr_state result" where
  "mgr_handleTraffic e now pub msg s =
     (case m_get (sm_sessions (fst s)) pub of
        Some _ \<Rightarrow> act_session pub (info_doRecv e now msg) s
      | None \<Rightarrow>
          and_then (newBoxKeys (se_nacl e) (snd s)) (\<lambda>((currentPub, _), w1).
          and_then (newBoxKeys (se_nacl e) w1) (\<lambda>((nextPub, _), w2).
          and_then (mgr_sendInit e pub (newSessionInit now currentPub nextPub 0) w2) (\<lambda>w3. Inr (fst s, w3)))))"

definition mgr_handleData :: "session_env \<Rightarrow> int \<Rightarrow> edPub \<Rightarrow> bytes \<Rightarrow> mgr_state \<Rightarrow> mgr_state result" where
  "mgr_handleData e now pub data s =
     (if data = [] then Inr s
      else if data ! 0 = sessionTypeInit then
        (case init_decrypt e pub data of None \<Rightarrow> Inr s | Some init \<Rightarrow> mgr_handleInit e now pub init s)
      else if data ! 0 = sessionTypeAck then
        (case init_decrypt e pub data of None \<Rightarrow> Inr s | Some ack \<Rightarrow> mgr_handleAck e now pub ack s)
      else if data ! 0 = sessionTypeTraffic then mgr_handleTraffic e now pub data s
      else Inr s)"

text \<open>A new buffer's first timer does nothing when it fires and is stopped at once, so it starts with none.\<close>

definition buffer_for :: "nacl \<Rightarrow> int \<Rightarrow> edPub \<Rightarrow> mgr_state \<Rightarrow> (sessionBuffer \<times> world) result" where
  "buffer_for nc now toKey s =
     (case m_get (sm_buffers (fst s)) toKey of
        Some buf \<Rightarrow> Inr (buf, snd s)
      | None \<Rightarrow>
          and_then (newBoxKeys nc (snd s)) (\<lambda>((currentPub, currentPriv), w1).
          and_then (newBoxKeys nc w1) (\<lambda>((nextPub, nextPriv), w2).
            Inr (\<lparr> sb_id = w_fresh w2, sb_data = None, sb_init = newSessionInit now currentPub nextPub 0,
                   sb_currentPriv = currentPriv, sb_nextPriv = nextPriv, sb_timer = None \<rparr>, w2\<lparr> w_fresh := w_fresh w2 + 1 \<rparr>))))"

definition bufferAndInit :: "session_env \<Rightarrow> int \<Rightarrow> edPub \<Rightarrow> bytes option \<Rightarrow> mgr_state \<Rightarrow> mgr_state result" where
  "bufferAndInit e now toKey msg s =
     and_then (buffer_for (se_nacl e) now toKey s) (\<lambda>(buf, w1).
     and_then (mgr_sendInit e toKey (sb_init buf) (w_stop (sb_timer buf) w1)) (\<lambda>w2.
       let (t, w3) = w_start (ExpireBuffer toKey (sb_id buf)) w2;
           buf1 = buf\<lparr> sb_data := msg, sb_timer := Some t \<rparr>
       in Inr ((fst s)\<lparr> sm_buffers := m_set (sm_buffers (fst s)) toKey buf1 \<rparr>, w3)))"

definition mgr_writeTo :: "session_env \<Rightarrow> int \<Rightarrow> edPub \<Rightarrow> bytes option \<Rightarrow> mgr_state \<Rightarrow> mgr_state result" where
  "mgr_writeTo e now toKey msg s =
     (case m_get (sm_sessions (fst s)) toKey of
        Some _ \<Rightarrow> act_session toKey (info_doSend e (slice msg)) s
      | None \<Rightarrow> bufferAndInit e now toKey msg s)"

text \<open>The closures of the timers: only the session or buffer that set the timer is removed.\<close>

fun mgr_expire :: "session_timer \<Rightarrow> mgr_state \<Rightarrow> mgr_state" where
  "mgr_expire (ExpireSession ed i) (mgr, w) =
     (case m_get (sm_sessions mgr) ed of
        None \<Rightarrow> (mgr, w)
      | Some oldInfo \<Rightarrow> if s_id oldInfo = i then (mgr\<lparr> sm_sessions := m_del (sm_sessions mgr) ed \<rparr>, w) else (mgr, w))"
| "mgr_expire (ExpireBuffer toKey i) (mgr, w) =
     (case m_get (sm_buffers mgr) toKey of
        None \<Rightarrow> (mgr, w)
      | Some b \<Rightarrow> if sb_id b = i then (mgr\<lparr> sm_buffers := m_del (sm_buffers mgr) toKey \<rparr>, w_stop (sb_timer b) w) else (mgr, w))"

record debugSessionInfo =
  ds_key :: bytes
  ds_uptime :: int
  ds_rx :: u64
  ds_tx :: u64

definition GetSessions :: "int \<Rightarrow> sessionManager \<Rightarrow> debugSessionInfo list" where
  "GetSessions now mgr = map (\<lambda>(key, session). \<lparr> ds_key = key_bytes key, ds_uptime = time_sub now (s_since session),
     ds_rx = s_rx session, ds_tx = s_tx session \<rparr>) (sm_sessions mgr)"

subsection \<open>Events\<close>

text \<open>
  A timer that has fired runs its closure in the manager's inbox, possibly after the session or buffer has
  set a new timer: the second component holds the closures that are waiting there.
\<close>

datatype mgr_event = MgrData edPub bytes | MgrWrite edPub "bytes option"

fun mgr_do :: "session_env \<Rightarrow> int \<Rightarrow> mgr_event \<Rightarrow> mgr_state \<Rightarrow> mgr_state result" where
  "mgr_do e now (MgrData pub data) s = mgr_handleData e now pub data s"
| "mgr_do e now (MgrWrite pub msg) s = mgr_writeTo e now pub msg s"

type_synonym mgr_system = "mgr_state \<times> session_timer list"

inductive mgr_step :: "session_env \<Rightarrow> mgr_system \<Rightarrow> mgr_system \<Rightarrow> bool" for e where
  mgr_handles: "mgr_do e now ev s = Inr s' \<Longrightarrow> mgr_step e (s, fired) (s', fired)"
| mgr_fires: "map_of (w_armed w) t = Some c \<Longrightarrow> mgr_step e ((mgr, w), fired) ((mgr, w_stop (Some t) w), c # fired)"
| mgr_runs: "fired = cs @ c # ds \<Longrightarrow> mgr_step e (s, fired) (mgr_expire c s, cs @ ds)"

inductive_cases mgr_stepE: "mgr_step e x y"

subsection \<open>Timers\<close>

fun timer_key :: "session_timer \<Rightarrow> edPub" where
  "timer_key (ExpireSession pub i) = pub"
| "timer_key (ExpireBuffer pub i) = pub"

definition timers_fresh :: "world \<Rightarrow> bool" where
  "timers_fresh w \<longleftrightarrow> (\<forall>t c. map_of (w_armed w) t = Some c \<longrightarrow> t < w_fresh w)"

text \<open>The timer will run the closure, or the closure is already waiting.\<close>

definition timer_held :: "session_timer list \<Rightarrow> world \<Rightarrow> nat \<Rightarrow> session_timer \<Rightarrow> bool" where
  "timer_held fired w t c \<longleftrightarrow> t < w_fresh w
     \<and> (map_of (w_armed w) t = Some c \<or> map_of (w_armed w) t = None \<and> c \<in> set fired)"

text \<open>What an action for \<open>pub\<close> does to the timers: new ones, and stopping those of \<open>pub\<close>.\<close>

definition timer_frame :: "edPub \<Rightarrow> world \<Rightarrow> world \<Rightarrow> bool" where
  "timer_frame pub w w' \<longleftrightarrow> timers_fresh w' \<and> w_fresh w \<le> w_fresh w'
     \<and> (\<forall>t < w_fresh w. map_of (w_armed w') t = map_of (w_armed w) t
          \<or> map_of (w_armed w') t = None \<and> (\<exists>c. map_of (w_armed w) t = Some c \<and> timer_key c = pub))"

lemma frame_trans: "timer_frame pub w w1 \<Longrightarrow> timer_frame pub w1 w2 \<Longrightarrow> timer_frame pub w w2"
  unfolding timer_frame_def by (metis option.distinct(1) order.strict_trans2 order.trans)

lemma frame_quiet:
  assumes "timers_fresh w" "w_fresh w' = w_fresh w" "w_armed w' = w_armed w"
  shows "timer_frame pub w w'"
  using assms by (simp add: timer_frame_def timers_fresh_def)

lemma frame_fresh: "timer_frame pub w w' \<Longrightarrow> timers_fresh w'"
  by (simp add: timer_frame_def)

lemma map_of_stop: "map_of (filter (\<lambda>a. fst a \<noteq> t) xs) x = (if x = t then None else map_of xs x)"
  by (induction xs) auto

lemma armed_stop [simp]: "map_of (w_armed (w_stop (Some t) w)) x = (if x = t then None else map_of (w_armed w) x)"
  "w_fresh (w_stop timer w) = w_fresh w" "w_stop None w = w"
  by (cases timer; simp add: w_stop_def map_of_stop)+

lemma held_frame:
  assumes "timer_held fired w t c" "timer_frame pub w w'" "timer_key c \<noteq> pub"
  shows "timer_held fired w' t c"
proof -
  have t: "t < w_fresh w" "t < w_fresh w'" using assms(1,2) by (auto simp: timer_held_def timer_frame_def)
  have "map_of (w_armed w') t = map_of (w_armed w) t
      \<or> map_of (w_armed w') t = None \<and> (\<exists>c'. map_of (w_armed w) t = Some c' \<and> timer_key c' = pub)"
    using assms(2) t(1) by (simp add: timer_frame_def)
  then show ?thesis using assms(1,3) t(2) by (auto simp: timer_held_def)
qed

lemma frame_stop:
  assumes "timers_fresh w" "\<forall>t. timer = Some t \<longrightarrow> timer_held fired w t c" "timer_key c = pub"
  shows "timer_frame pub w (w_stop timer w)"
proof (cases timer)
  case None
  then show ?thesis using assms(1) by (simp add: frame_quiet)
next
  case (Some t)
  then show ?thesis using assms by (auto simp: timer_frame_def timers_fresh_def timer_held_def)
qed

lemma frame_start:
  assumes "timers_fresh w" "w_start c w = (t, w')"
  shows "timer_frame pub w w' \<and> timer_held fired w' t c"
  using assms by (auto simp: timer_frame_def timers_fresh_def timer_held_def w_start_def less_Suc_eq)

subsection \<open>Sessions keep their keys and timers in order\<close>

definition shares_ok :: "nacl \<Rightarrow> sessionInfo \<Rightarrow> bool" where
  "shares_ok nc info \<longleftrightarrow> s_recvPub info = box_public nc (s_recvPriv info) \<and> s_sendPub info = box_public nc (s_sendPriv info)
     \<and> s_nextPub info = box_public nc (s_nextPriv info)
     \<and> s_recvShared info = box_shared nc (s_current info) (s_recvPriv info) \<and> s_sendShared info = box_shared nc (s_current info) (s_sendPriv info)
     \<and> s_nextSendShared info = box_shared nc (s_next info) (s_sendPriv info)
     \<and> s_nextRecvShared info = box_shared nc (s_next info) (s_recvPriv info)"

definition session_ok :: "nacl \<Rightarrow> session_timer list \<Rightarrow> world \<Rightarrow> edPub \<Rightarrow> sessionInfo \<Rightarrow> bool" where
  "session_ok nc fired w pub info \<longleftrightarrow> s_ed info = pub \<and> shares_ok nc info
     \<and> (\<exists>t. s_timer info = Some t \<and> timer_held fired w t (ExpireSession pub (s_id info)))"

definition buffer_ok :: "nacl \<Rightarrow> session_timer list \<Rightarrow> world \<Rightarrow> edPub \<Rightarrow> sessionBuffer \<Rightarrow> bool" where
  "buffer_ok nc fired w pub buf \<longleftrightarrow> si_current (sb_init buf) = box_public nc (sb_currentPriv buf)
     \<and> si_next (sb_init buf) = box_public nc (sb_nextPriv buf)
     \<and> (\<exists>t. sb_timer buf = Some t \<and> timer_held fired w t (ExpireBuffer pub (sb_id buf)))"

text \<open>Calls that leave timers and pointers alone.\<close>

definition quiet :: "world \<Rightarrow> world \<Rightarrow> bool" where
  "quiet w w' \<longleftrightarrow> w_fresh w' = w_fresh w \<and> w_armed w' = w_armed w"

lemma quiet_refl [simp]: "quiet w w" and quiet_emit [simp]: "quiet w (w_emit out w)"
  by (simp_all add: quiet_def w_emit_def)

lemma quiet_trans: "quiet w w1 \<Longrightarrow> quiet w1 w2 \<Longrightarrow> quiet w w2"
  by (simp add: quiet_def)

lemma newBoxKeys_quiet: "newBoxKeys nc w = Inr ((pub, priv), w') \<Longrightarrow> pub = box_public nc priv \<and> quiet w w'"
  by (auto simp: newBoxKeys_def quiet_def split: list.splits)

lemma init_encrypt_quiet: "init_encrypt e init to w = Inr (data, w') \<Longrightarrow> quiet w w'"
  by (auto simp: init_encrypt_def and_then_eq_Inr Let_def dest: newBoxKeys_quiet split: if_splits)

lemma send_quiet:
  "mgr_sendInit e pub init w = Inr w' \<Longrightarrow> quiet w w'" "mgr_sendAck e pub init w = Inr w' \<Longrightarrow> quiet w w'"
  by (auto simp: mgr_sendInit_def mgr_sendAck_def ack_encrypt_def and_then_eq_Inr intro: quiet_trans [OF init_encrypt_quiet])

lemma quiet_frame: "timers_fresh w \<Longrightarrow> quiet w w' \<Longrightarrow> timer_frame pub w w'"
  by (simp add: quiet_def frame_quiet)

lemma quiet_fresh: "quiet w w' \<Longrightarrow> timers_fresh w' \<longleftrightarrow> timers_fresh w"
  by (simp add: quiet_def timers_fresh_def)

lemma quiet_held: "quiet w w' \<Longrightarrow> timer_held fired w' t c \<longleftrightarrow> timer_held fired w t c"
  by (simp add: quiet_def timer_held_def)

lemma quiet_session: "quiet w w' \<Longrightarrow> session_ok nc fired w' pub info \<longleftrightarrow> session_ok nc fired w pub info"
  by (simp add: session_ok_def quiet_held)

lemma shares_fix [simp]: "s_recvPub info = box_public nc (s_recvPriv info) \<Longrightarrow> s_sendPub info = box_public nc (s_sendPriv info)
    \<Longrightarrow> s_nextPub info = box_public nc (s_nextPriv info) \<Longrightarrow> shares_ok nc (fixShared nc a b info)"
  by (simp add: shares_ok_def fixShared_def getShared_def)

lemma shares_ratchet:
  "shares_ok nc info \<Longrightarrow> newBoxKeys nc w = Inr (new, w') \<Longrightarrow> shares_ok nc (fixShared nc a b (ratchet new (info\<lparr> s_current := c, s_next := d,
      s_seq := i, s_remoteKeySeq := j \<rparr>)))"
  by (cases new) (auto simp: ratchet_def shares_ok_def fixShared_def getShared_def dest: newBoxKeys_quiet)

text \<open>An action of a session that keeps it in order and touches no other timers.\<close>

definition orderly :: "nacl \<Rightarrow> session_timer list \<Rightarrow> edPub \<Rightarrow> (sessionInfo \<Rightarrow> world \<Rightarrow> (sessionInfo \<times> world) result) \<Rightarrow> bool" where
  "orderly nc fired pub f \<longleftrightarrow> (\<forall>info w info' w'. session_ok nc fired w pub info \<longrightarrow> timers_fresh w \<longrightarrow> f info w = Inr (info', w')
     \<longrightarrow> session_ok nc fired w' pub info' \<and> timer_frame pub w w')"

lemma resetTimer_ok:
  assumes "resetTimer info w = (info', w')" "timers_fresh w" "s_ed info = pub" "shares_ok nc info"
    "\<forall>t. s_timer info = Some t \<longrightarrow> timer_held fired w t (ExpireSession pub (s_id info))"
  shows "session_ok nc fired w' pub info' \<and> timer_frame pub w w'"
proof -
  obtain t where t: "w_start (ExpireSession pub (s_id info)) (w_stop (s_timer info) w) = (t, w')" "info' = info\<lparr> s_timer := Some t \<rparr>"
    using assms(1,3) by (auto simp: resetTimer_def split: prod.splits)
  have stop: "timer_frame pub w (w_stop (s_timer info) w)" using frame_stop [OF assms(2,5)] by simp
  from frame_start [OF frame_fresh [OF this] t(1)] have "timer_frame pub w w'" "timer_held fired w' t (ExpireSession pub (s_id info))"
    using frame_trans [OF stop] by blast+
  then show ?thesis using assms(3,4) t(2) by (simp add: session_ok_def shares_ok_def)
qed

lemma resetTimer_keeps:
  assumes "resetTimer info w = (info', w')" "session_ok nc fired w0 pub info0" "timers_fresh w0" "quiet w0 w"
    "s_ed info = s_ed info0" "s_id info = s_id info0" "s_timer info = s_timer info0" "shares_ok nc info"
  shows "session_ok nc fired w' pub info' \<and> timer_frame pub w0 w'"
proof -
  have "session_ok nc fired w' pub info' \<and> timer_frame pub w w'"
    using assms quiet_held [OF assms(4)] quiet_fresh [OF assms(4)] by (intro resetTimer_ok [OF assms(1)]) (auto simp: session_ok_def)
  then show ?thesis using frame_trans quiet_frame assms(3,4) by blast
qed

lemma ratchet_fields [simp]:
  "s_ed (ratchet new info) = s_ed info" "s_id (ratchet new info) = s_id info" "s_timer (ratchet new info) = s_timer info"
  "s_ed (fixShared nc a b info) = s_ed info" "s_id (fixShared nc a b info) = s_id info" "s_timer (fixShared nc a b info) = s_timer info"
  by (simp_all add: ratchet_def fixShared_def)

lemma handleUpdate_orderly:
  assumes "session_ok nc fired w pub info" "timers_fresh w" "handleUpdate nc init info w = Inr (info', w')"
  shows "session_ok nc fired w' pub info' \<and> timer_frame pub w w'"
proof -
  obtain new w1 where n: "newBoxKeys nc w = Inr (new, w1)"
      "resetTimer (fixShared nc 0 (s_sendNonce info) (ratchet new (info\<lparr> s_current := si_current init, s_next := si_next init,
         s_seq := si_seq init, s_remoteKeySeq := si_keySeq init \<rparr>))) w1 = (info', w')"
    using assms(3) by (auto simp: handleUpdate_def Let_def and_then_eq_Inr ratchet_def)
  have "quiet w w1" using n(1) newBoxKeys_quiet by (cases new) blast
  with n assms(1,2) show ?thesis
    by (intro resetTimer_keeps [OF n(2)]) (auto simp: session_ok_def intro!: shares_ratchet)
qed

lemma orderlyI:
  assumes "\<And>info w info' w'. session_ok nc fired w pub info \<Longrightarrow> timers_fresh w \<Longrightarrow> f info w = Inr (info', w')
    \<Longrightarrow> session_ok nc fired w' pub info' \<and> timer_frame pub w w'"
  shows "orderly nc fired pub f"
  using assms by (simp add: orderly_def)

lemma quiet_orderly:
  assumes "session_ok nc fired w pub info" "timers_fresh w" "quiet w w'"
  shows "session_ok nc fired w' pub info \<and> timer_frame pub w w'"
  using assms quiet_frame quiet_session by blast

lemma orderly_handleAck: "orderly (se_nacl e) fired pub (info_handleAck e ack)"
  by (rule orderlyI) (auto simp: info_handleAck_def frame_quiet handleUpdate_orderly split: if_splits)

lemma orderly_handleInit: "orderly (se_nacl e) fired pub (info_handleInit e now init)"
proof (rule orderlyI, goal_cases)
  case (1 info w info' w')
  show ?case
  proof (cases "si_seq init \<le> s_seq info")
    case True
    then show ?thesis using 1 by (simp add: info_handleInit_def frame_quiet)
  next
    case False
    then obtain w1 where h: "handleUpdate (se_nacl e) init info w = Inr (info', w1)" "info_sendAck e now info' w1 = Inr w'"
      using 1(3) by (auto simp: info_handleInit_def and_then_eq_Inr)
    have q: "quiet w1 w'" using h(2) send_quiet(2) by (simp add: info_sendAck_def)
    have u: "session_ok (se_nacl e) fired w1 pub info'" "timer_frame pub w w1" using handleUpdate_orderly [OF 1(1,2) h(1)] by simp_all
    show ?thesis using quiet_orderly [OF u(1) frame_fresh [OF u(2)] q] frame_trans [OF u(2)] by blast
  qed
qed

lemma orderly_doSend: "orderly (se_nacl e) fired pub (info_doSend e msg)"
proof (rule orderlyI, goal_cases)
  case (1 info w info' w')
  define info0 where "info0 = info\<lparr> s_sendNonce := s_sendNonce info + 1 \<rparr>"
  obtain info1 w1 n out where h: "(if s_sendNonce info0 = 0 then
        and_then (newBoxKeys (se_nacl e) w) (\<lambda>(new, w1). Inr (fixShared (se_nacl e) 0 0 (ratchet new info0), w1)) else Inr (info0, w)) = Inr (info1, w1)"
      "resetTimer (info1\<lparr> s_tx := n \<rparr>) (w_emit out w1) = (info', w')"
    using 1(3) unfolding info_doSend_def Let_def info0_def [symmetric] traffic_header_eq by (auto simp: and_then_eq_Inr)
  have s0: "shares_ok (se_nacl e) info0" using 1(1) by (simp add: session_ok_def shares_ok_def info0_def)
  have "info1 = info0 \<and> w1 = w \<or> (\<exists>new. newBoxKeys (se_nacl e) w = Inr (new, w1) \<and> info1 = fixShared (se_nacl e) 0 0 (ratchet new info0))"
    using h(1) by (auto simp: and_then_eq_Inr split: if_splits)
  then have "quiet w w1 \<and> shares_ok (se_nacl e) info1 \<and> s_ed info1 = s_ed info \<and> s_id info1 = s_id info \<and> s_timer info1 = s_timer info"
  proof
    assume "info1 = info0 \<and> w1 = w"
    then show ?thesis using s0 by (simp add: info0_def)
  next
    assume "\<exists>new. newBoxKeys (se_nacl e) w = Inr (new, w1) \<and> info1 = fixShared (se_nacl e) 0 0 (ratchet new info0)"
    then obtain pub priv where n: "newBoxKeys (se_nacl e) w = Inr ((pub, priv), w1)" "info1 = fixShared (se_nacl e) 0 0 (ratchet (pub, priv) info0)" by auto
    have "shares_ok (se_nacl e) info1"
      using shares_ratchet [OF s0 n(1), where c = "s_current info0" and d = "s_next info0" and i = "s_seq info0" and j = "s_remoteKeySeq info0"] n(2) by simp
    then show ?thesis using n newBoxKeys_quiet [OF n(1)] by (simp add: info0_def)
  qed
  then show ?case using 1(1,2) h(2)
    by (intro resetTimer_keeps [OF h(2) 1(1,2)]) (auto simp: shares_ok_def intro: quiet_trans)
qed

lemma rotate_ok:
  assumes "rotate nc now n key info w = Inr (info', w')" "shares_ok nc info"
  shows "quiet w w' \<and> shares_ok nc info' \<and> s_ed info' = s_ed info \<and> s_id info' = s_id info \<and> s_timer info' = s_timer info"
proof (cases "s_rotated info = zero_time \<or> 60000000000 < time_sub now (s_rotated info)")
  case True
  then obtain pub priv where n: "newBoxKeys nc w = Inr ((pub, priv), w')" "info' = (fixShared nc n 0 (ratchet (pub, priv)
      (info\<lparr> s_current := s_next info, s_next := key, s_remoteKeySeq := s_remoteKeySeq info + 1 \<rparr>)))\<lparr> s_rotated := now \<rparr>"
    using assms(1) by (auto simp: rotate_def Let_def and_then_eq_Inr)
  have "shares_ok nc info'"
    using shares_ratchet [OF assms(2) n(1), where c = "s_next info" and d = key and i = "s_seq info" and j = "s_remoteKeySeq info + 1"] n(2) by (simp add: shares_ok_def)
  then show ?thesis using n newBoxKeys_quiet [OF n(1)] by simp
next
  case False
  then show ?thesis using assms by (simp add: rotate_def)
qed

lemma onSuccess_ok:
  assumes "onSuccess nc c now n key info w = Inr (info', w')" "shares_ok nc info"
  shows "quiet w w' \<and> shares_ok nc info' \<and> s_ed info' = s_ed info \<and> s_id info' = s_id info \<and> s_timer info' = s_timer info"
proof (cases c)
  case RecvCurrent
  then show ?thesis using assms by (auto simp: shares_ok_def)
next
  case NextToSend
  then show ?thesis using rotate_ok [of nc now n key "info\<lparr> s_nextSendNonce := n \<rparr>" w info' w'] assms by (simp add: shares_ok_def)
next
  case NextToRecv
  then show ?thesis using rotate_ok [of nc now n key "info\<lparr> s_nextRecvNonce := n \<rparr>" w info' w'] assms by (simp add: shares_ok_def)
qed

lemma doRecv_cases:
  assumes "info_doRecv e now msg info w = Inr (info', w')"
  shows "info' = info \<and> quiet w w' \<or> (\<exists>c n key out info1 w2 m. onSuccess (se_nacl e) c now n key info (w_emit out w) = Inr (info1, w2)
      \<and> resetTimer (info1\<lparr> s_rx := m \<rparr>) w2 = (info', w'))"
  using assms
  by (auto simp: info_doRecv_def info_sendInit_def Let_def and_then_eq_Inr dest: send_quiet split: option.splits if_splits prod.splits)

lemma orderly_doRecv: "orderly (se_nacl e) fired pub (info_doRecv e now msg)"
proof (rule orderlyI, goal_cases)
  case (1 info w info' w')
  from doRecv_cases [OF 1(3)] show ?case
  proof
    assume "info' = info \<and> quiet w w'"
    then show ?thesis using quiet_orderly [OF 1(1,2)] by blast
  next
    assume "\<exists>c n key out info1 w2 m. onSuccess (se_nacl e) c now n key info (w_emit out w) = Inr (info1, w2)
      \<and> resetTimer (info1\<lparr> s_rx := m \<rparr>) w2 = (info', w')"
    then obtain c n key out info1 w2 m where h: "onSuccess (se_nacl e) c now n key info (w_emit out w) = Inr (info1, w2)"
      "resetTimer (info1\<lparr> s_rx := m \<rparr>) w2 = (info', w')" by blast
    have "shares_ok (se_nacl e) info" using 1(1) by (simp add: session_ok_def)
    from onSuccess_ok [OF h(1) this] show ?thesis
      by (intro resetTimer_keeps [OF h(2) 1(1,2)]) (auto simp: shares_ok_def intro: quiet_trans [OF quiet_emit])
  qed
qed

subsection \<open>The manager's invariant\<close>

definition mgr_ok :: "nacl \<Rightarrow> mgr_system \<Rightarrow> bool" where
  "mgr_ok nc x \<longleftrightarrow> (case x of ((mgr, w), fired) \<Rightarrow> timers_fresh w
     \<and> (\<forall>pub info. m_get (sm_sessions mgr) pub = Some info \<longrightarrow> session_ok nc fired w pub info)
     \<and> (\<forall>pub buf. m_get (sm_buffers mgr) pub = Some buf \<longrightarrow> buffer_ok nc fired w pub buf)
     \<and> (\<forall>pub. m_get (sm_sessions mgr) pub = None \<or> m_get (sm_buffers mgr) pub = None))"

text \<open>A step that concerns one key: everything kept for other keys stays as it is.\<close>

definition other_keys_same :: "edPub \<Rightarrow> sessionManager \<Rightarrow> sessionManager \<Rightarrow> bool" where
  "other_keys_same pub mgr mgr' \<longleftrightarrow> (\<forall>k. k \<noteq> pub \<longrightarrow> m_get (sm_sessions mgr') k = m_get (sm_sessions mgr) k
     \<and> m_get (sm_buffers mgr') k = m_get (sm_buffers mgr) k)"

lemma session_frame: "session_ok nc fired w k info \<Longrightarrow> timer_frame pub w w' \<Longrightarrow> k \<noteq> pub \<Longrightarrow> session_ok nc fired w' k info"
  unfolding session_ok_def by (metis held_frame timer_key.simps(1))

lemma buffer_frame: "buffer_ok nc fired w k buf \<Longrightarrow> timer_frame pub w w' \<Longrightarrow> k \<noteq> pub \<Longrightarrow> buffer_ok nc fired w' k buf"
  unfolding buffer_ok_def by (metis held_frame timer_key.simps(2))

lemma mgr_okD:
  assumes "mgr_ok nc ((mgr, w), fired)"
  shows "timers_fresh w" "m_get (sm_sessions mgr) pub = Some info \<Longrightarrow> session_ok nc fired w pub info"
    "m_get (sm_buffers mgr) pub = Some buf \<Longrightarrow> buffer_ok nc fired w pub buf"
    "m_get (sm_sessions mgr) pub = Some info \<Longrightarrow> m_get (sm_buffers mgr) pub = None"
  using assms by (auto simp: mgr_ok_def) (metis option.distinct(1))

lemma mgr_ok_local:
  assumes ok: "mgr_ok nc ((mgr, w), fired)" and o: "other_keys_same pub mgr mgr'" and f: "timer_frame pub w w'"
    and s: "\<And>info. m_get (sm_sessions mgr') pub = Some info \<Longrightarrow> session_ok nc fired w' pub info \<and> m_get (sm_buffers mgr') pub = None"
    and b: "\<And>buf. m_get (sm_buffers mgr') pub = Some buf \<Longrightarrow> buffer_ok nc fired w' pub buf"
  shows "mgr_ok nc ((mgr', w'), fired)"
  unfolding mgr_ok_def prod.case
proof (intro conjI allI impI)
  show "timers_fresh w'" using f by (rule frame_fresh)
next
  fix k info assume "m_get (sm_sessions mgr') k = Some info"
  then show "session_ok nc fired w' k info"
    using s o session_frame [OF mgr_okD(2) [OF ok] f] by (cases "k = pub") (auto simp: other_keys_same_def)
next
  fix k buf assume "m_get (sm_buffers mgr') k = Some buf"
  then show "buffer_ok nc fired w' k buf"
    using b o buffer_frame [OF mgr_okD(3) [OF ok] f] by (cases "k = pub") (auto simp: other_keys_same_def)
next
  fix k show "m_get (sm_sessions mgr') k = None \<or> m_get (sm_buffers mgr') k = None"
  proof (cases "k = pub")
    case True
    then show ?thesis using s by (cases "m_get (sm_sessions mgr') pub") auto
  next
    case False
    then show ?thesis using ok o by (auto simp: mgr_ok_def other_keys_same_def)
  qed
qed

lemma act_session_ok:
  assumes "mgr_ok nc (s, fired)" "orderly nc fired pub f" "act_session pub f s = Inr s'"
  shows "mgr_ok nc (s', fired)"
proof (cases s)
  case (Pair mgr w)
  show ?thesis
  proof (cases "m_get (sm_sessions mgr) pub")
    case None
    then show ?thesis using assms Pair by (simp add: act_session_def)
  next
    case (Some info)
    then obtain info1 w1 where h: "f info w = Inr (info1, w1)" "s' = (mgr\<lparr> sm_sessions := m_set (sm_sessions mgr) pub info1 \<rparr>, w1)"
      using assms(3) Pair by (auto simp: act_session_def and_then_eq_Inr)
    have ok: "mgr_ok nc ((mgr, w), fired)" using assms(1) Pair by simp
    have "session_ok nc fired w1 pub info1 \<and> timer_frame pub w w1"
      using assms(2) h(1) mgr_okD(1,2) [OF ok] Some by (fastforce simp: orderly_def)
    then show ?thesis unfolding h(2) using mgr_okD(4) [OF ok Some]
      by (intro mgr_ok_local [OF ok, of pub]) (auto simp: other_keys_same_def)
  qed
qed

lemma quiet_mgr_ok: "mgr_ok nc ((mgr, w), fired) \<Longrightarrow> quiet w w' \<Longrightarrow> mgr_ok nc ((mgr, w'), fired)"
  by (auto simp: mgr_ok_def quiet_session quiet_fresh buffer_ok_def quiet_held)

lemma newSession_ok:
  assumes "newSession nc now pub cur next seq w = Inr (info, w')" "timers_fresh w"
  shows "s_ed info = pub \<and> shares_ok nc info \<and> s_timer info = None \<and> timer_frame p w w'"
proof -
  obtain p1 q1 w1 p2 q2 w2 p3 q3 w3 where k: "newBoxKeys nc w = Inr ((p1, q1), w1)" "newBoxKeys nc w1 = Inr ((p2, q2), w2)"
      "newBoxKeys nc w2 = Inr ((p3, q3), w3)" "w' = w3\<lparr> w_fresh := w_fresh w3 + 1 \<rparr>"
    using assms(1) by (auto simp: newSession_def and_then_eq_Inr)
  have q: "quiet w w3" "p1 = box_public nc q1" "p2 = box_public nc q2" "p3 = box_public nc q3"
    using newBoxKeys_quiet [OF k(1)] newBoxKeys_quiet [OF k(2)] newBoxKeys_quiet [OF k(3)] quiet_trans by blast+
  have "timer_frame p w w'" using assms(2) q(1) k(4) by (auto simp: timer_frame_def timers_fresh_def quiet_def less_Suc_eq)
  moreover have "s_ed info = pub \<and> shares_ok nc info \<and> s_timer info = None"
    using assms(1) q by (auto simp: newSession_def k)
  ultimately show ?thesis by simp
qed

lemma resetTimer_new:
  assumes "resetTimer info w = (info', w')" "s_timer info = None" "timers_fresh w"
  shows "timer_frame p w w'"
proof -
  obtain t where "w_start (ExpireSession (s_ed info) (s_id info)) w = (t, w')"
    using assms(1,2) by (auto simp: resetTimer_def split: prod.splits)
  then show ?thesis using frame_start [OF assms(3)] by blast
qed

lemma mgr_newSession_ok:
  assumes "mgr_newSession nc now pub cur next seq (mgr, w) = Inr s" "timers_fresh w"
  shows "\<exists>info w'. s = (mgr\<lparr> sm_sessions := m_set (sm_sessions mgr) pub info \<rparr>, w') \<and> session_ok nc fired w' pub info
    \<and> (\<forall>p. timer_frame p w w')"
proof -
  obtain info w1 where h: "newSession nc now pub cur next seq w = Inr (info, w1)"
    using assms(1) by (auto simp: mgr_newSession_def and_then_eq_Inr)
  obtain info1 w2 where r: "resetTimer info w1 = (info1, w2)" by (cases "resetTimer info w1")
  have s: "s = (mgr\<lparr> sm_sessions := m_set (sm_sessions mgr) (s_ed info1) info1 \<rparr>, w2)"
    using assms(1) h r by (simp add: mgr_newSession_def)
  note n = newSession_ok [OF h assms(2)]
  have "session_ok nc fired w2 pub info1"
    using n frame_fresh [of pub w w1] resetTimer_ok [OF r, of pub] by auto
  moreover have "timer_frame p w w2" for p using n [of p] frame_fresh [of p w w1] resetTimer_new [OF r] frame_trans by blast
  ultimately show ?thesis using s by (auto simp: session_ok_def)
qed

lemma adopt_ok:
  assumes "session_ok nc fired w pub info" "buffer_ok nc fired' w' pub buf"
  shows "session_ok nc fired w pub (adopt_keys nc buf info)"
  using assms by (auto simp: session_ok_def buffer_ok_def adopt_keys_def shares_ok_def fixShared_def getShared_def)

lemma sessionForInit_ok:
  assumes ok: "mgr_ok nc ((mgr, w), fired)" and h: "sessionForInit nc now pub init (mgr, w) = Inr (buf, s')"
  shows "mgr_ok nc (s', fired)"
proof (cases "m_get (sm_sessions mgr) pub")
  case (Some info)
  then show ?thesis using ok h by (simp add: sessionForInit_def)
next
  case None
  then obtain s1 where s1: "mgr_newSession nc now pub (si_current init) (si_next init) (si_seq init) (mgr, w) = Inr s1"
    using h by (auto simp: sessionForInit_def and_then_eq_Inr)
  obtain info w1 where n: "s1 = (mgr\<lparr> sm_sessions := m_set (sm_sessions mgr) pub info \<rparr>, w1)" "session_ok nc fired w1 pub info"
      "\<And>p. timer_frame p w w1"
    using mgr_newSession_ok [OF s1 mgr_okD(1) [OF ok]] by blast
  show ?thesis
  proof (cases "m_get (sm_buffers mgr) pub")
    case None
    then have "s' = s1" using h s1 n(1) \<open>m_get (sm_sessions mgr) pub = None\<close> by (simp add: sessionForInit_def)
    then show ?thesis using n None by (auto simp: other_keys_same_def intro!: mgr_ok_local [OF ok, of pub])
  next
    case (Some b)
    define w2 where "w2 = w_stop (sb_timer b) w1"
    have b: "buffer_ok nc fired w pub b" using mgr_okD(3) [OF ok Some] .
    have held: "\<forall>t. sb_timer b = Some t \<longrightarrow> timer_held fired w1 t (ExpireBuffer pub (sb_id b))"
      using b held_frame [OF _ n(3) [of "pub + 1"]] by (auto simp: buffer_ok_def)
    have f: "timer_frame pub w1 w2" unfolding w2_def using frame_stop [OF frame_fresh [OF n(3)] held] by simp
    have s': "s' = (mgr\<lparr> sm_buffers := m_del (sm_buffers mgr) pub, sm_sessions := m_set (sm_sessions mgr) pub (adopt_keys nc b info) \<rparr>, w2)"
      using h s1 n(1) Some \<open>m_get (sm_sessions mgr) pub = None\<close>
      by (auto simp: sessionForInit_def act_session_def Let_def w2_def)
    have "session_ok nc fired w2 pub info"
      using n(2) f held b by (auto simp: session_ok_def timer_held_def w2_def buffer_ok_def)
    from adopt_ok [OF this b] s' frame_trans [OF n(3) f] show ?thesis
      by (auto simp: other_keys_same_def intro!: mgr_ok_local [OF ok, of pub])
  qed
qed

lemma send_buffered_ok:
  assumes "mgr_ok (se_nacl e) (s, fired)" "send_buffered e pub buf s = Inr s'"
  shows "mgr_ok (se_nacl e) (s', fired)"
  using assms act_session_ok [OF assms(1) orderly_doSend]
  by (auto simp: send_buffered_def split: option.splits)

lemma handleInit_ok:
  assumes "mgr_ok (se_nacl e) (s, fired)" "mgr_handleInit e now pub init s = Inr s'"
  shows "mgr_ok (se_nacl e) (s', fired)"
proof -
  obtain buf s1 s2 where h: "sessionForInit (se_nacl e) now pub init s = Inr (buf, s1)"
      "act_session pub (info_handleInit e now init) s1 = Inr s2" "send_buffered e pub buf s2 = Inr s'"
    using assms(2) by (auto simp: mgr_handleInit_def and_then_eq_Inr)
  have "mgr_ok (se_nacl e) (s1, fired)" using sessionForInit_ok assms(1) h(1) by (cases s) blast
  from send_buffered_ok [OF act_session_ok [OF this orderly_handleInit h(2)] h(3)] show ?thesis .
qed

lemma handleAck_ok:
  assumes "mgr_ok (se_nacl e) (s, fired)" "mgr_handleAck e now pub ack s = Inr s'"
  shows "mgr_ok (se_nacl e) (s', fired)"
proof -
  define f where "f = (if m_has (sm_sessions (fst s)) pub then info_handleAck e ack else info_handleInit e now ack)"
  obtain buf s1 s2 where h: "sessionForInit (se_nacl e) now pub ack s = Inr (buf, s1)"
      "act_session pub f s1 = Inr s2" "send_buffered e pub buf s2 = Inr s'"
    using assms(2) unfolding mgr_handleAck_def Let_def f_def [symmetric] by (auto simp: and_then_eq_Inr)
  have "mgr_ok (se_nacl e) (s1, fired)" using sessionForInit_ok assms(1) h(1) by (cases s) blast
  moreover have "orderly (se_nacl e) fired pub f" using orderly_handleAck orderly_handleInit by (simp add: f_def)
  ultimately show ?thesis using act_session_ok h(2,3) send_buffered_ok by blast
qed

lemma mgr_handleTraffic_ok:
  assumes "mgr_ok (se_nacl e) (s, fired)" "mgr_handleTraffic e now pub msg s = Inr s'"
  shows "mgr_ok (se_nacl e) (s', fired)"
proof (cases "m_get (sm_sessions (fst s)) pub")
  case None
  then obtain w' p1 q1 w1 p2 q2 w2 where h: "s' = (fst s, w')" "newBoxKeys (se_nacl e) (snd s) = Inr ((p1, q1), w1)"
      "newBoxKeys (se_nacl e) w1 = Inr ((p2, q2), w2)" "mgr_sendInit e pub (newSessionInit now p1 p2 0) w2 = Inr w'"
    using assms(2) by (auto simp: mgr_handleTraffic_def and_then_eq_Inr)
  have "quiet (snd s) w'" using newBoxKeys_quiet [OF h(2)] newBoxKeys_quiet [OF h(3)] send_quiet(1) [OF h(4)] quiet_trans by blast
  then show ?thesis using quiet_mgr_ok [of "se_nacl e" "fst s" "snd s"] assms(1) h(1) by simp
next
  case (Some info)
  then show ?thesis using assms act_session_ok [OF assms(1) orderly_doRecv] by (simp add: mgr_handleTraffic_def)
qed

lemma handleData_cases:
  assumes "mgr_handleData e now pub data s = Inr s'"
  shows "s' = s \<or> (\<exists>init. mgr_handleInit e now pub init s = Inr s') \<or> (\<exists>ack. mgr_handleAck e now pub ack s = Inr s')
    \<or> mgr_handleTraffic e now pub data s = Inr s'"
  using assms unfolding mgr_handleData_def by (cases "init_decrypt e pub data") (simp_all split: if_splits, blast+)

lemma handleData_ok:
  assumes "mgr_ok (se_nacl e) (s, fired)" "mgr_handleData e now pub data s = Inr s'"
  shows "mgr_ok (se_nacl e) (s', fired)"
  using handleData_cases [OF assms(2)] handleInit_ok [OF assms(1)] handleAck_ok [OF assms(1)] mgr_handleTraffic_ok [OF assms(1)] assms(1)
  by blast

lemma buffer_for_ok:
  assumes ok: "mgr_ok nc ((mgr, w), fired)" and b: "buffer_for nc now pub (mgr, w) = Inr (buf, w1)"
  shows "si_current (sb_init buf) = box_public nc (sb_currentPriv buf) \<and> si_next (sb_init buf) = box_public nc (sb_nextPriv buf)
    \<and> timer_frame pub w w1 \<and> (\<forall>t. sb_timer buf = Some t \<longrightarrow> timer_held fired w1 t (ExpireBuffer pub (sb_id buf)))"
proof (cases "m_get (sm_buffers mgr) pub")
  case None
  then obtain p1 q1 v1 p2 q2 v2 where k: "newBoxKeys nc w = Inr ((p1, q1), v1)" "newBoxKeys nc v1 = Inr ((p2, q2), v2)"
      "buf = \<lparr> sb_id = w_fresh v2, sb_data = None, sb_init = newSessionInit now p1 p2 0,
         sb_currentPriv = q1, sb_nextPriv = q2, sb_timer = None \<rparr>" "w1 = v2\<lparr> w_fresh := w_fresh v2 + 1 \<rparr>"
    using b by (auto simp: buffer_for_def and_then_eq_Inr)
  have q: "quiet w v2" "p1 = box_public nc q1" "p2 = box_public nc q2"
    using newBoxKeys_quiet [OF k(1)] newBoxKeys_quiet [OF k(2)] quiet_trans by blast+
  then show ?thesis
    using k(3,4) mgr_okD(1) [OF ok] by (auto simp: newSessionInit_def timer_frame_def timers_fresh_def quiet_def less_Suc_eq)
next
  case (Some b')
  then show ?thesis
    using b mgr_okD(3) [OF ok Some] quiet_frame [OF mgr_okD(1) [OF ok]] by (auto simp: buffer_for_def buffer_ok_def)
qed

lemma bufferAndInit_ok:
  assumes ok: "mgr_ok (se_nacl e) ((mgr, w), fired)" and n: "m_get (sm_sessions mgr) pub = None"
    and h: "bufferAndInit e now pub msg (mgr, w) = Inr s'"
  shows "mgr_ok (se_nacl e) (s', fired)"
proof -
  obtain buf w1 w3 where b: "buffer_for (se_nacl e) now pub (mgr, w) = Inr (buf, w1)"
      and r: "mgr_sendInit e pub (sb_init buf) (w_stop (sb_timer buf) w1) = Inr w3"
    using h by (auto simp: bufferAndInit_def and_then_eq_Inr)
  note buf = buffer_for_ok [OF ok b]
  obtain t w4 where t: "w_start (ExpireBuffer pub (sb_id buf)) w3 = (t, w4)" by (cases "w_start (ExpireBuffer pub (sb_id buf)) w3")
  have s': "s' = (mgr\<lparr> sm_buffers := m_set (sm_buffers mgr) pub (buf\<lparr> sb_data := msg, sb_timer := Some t \<rparr>) \<rparr>, w4)"
    using h b r t by (simp add: bufferAndInit_def)
  define w2 where "w2 = w_stop (sb_timer buf) w1"
  have f2: "timer_frame pub w1 w2"
    unfolding w2_def using buf frame_fresh [of pub w w1] by (intro frame_stop [of _ _ fired "ExpireBuffer pub (sb_id buf)"]) auto
  have f3: "timer_frame pub w2 w3" using quiet_frame [OF frame_fresh [OF f2] send_quiet(1)] r by (simp add: w2_def)
  have f4: "timer_frame pub w3 w4" "timer_held fired w4 t (ExpireBuffer pub (sb_id buf))" using frame_start [OF frame_fresh [OF f3] t] by blast+
  have "timer_frame pub w w4" using frame_trans buf f2 f3 f4(1) by blast
  then show ?thesis unfolding s' using n buf f4(2)
    by (intro mgr_ok_local [OF ok, of pub]) (auto simp: other_keys_same_def buffer_ok_def)
qed

lemma writeTo_ok:
  assumes "mgr_ok (se_nacl e) (s, fired)" "mgr_writeTo e now pub msg s = Inr s'"
  shows "mgr_ok (se_nacl e) (s', fired)"
proof (cases "m_get (sm_sessions (fst s)) pub")
  case None
  then show ?thesis using assms bufferAndInit_ok by (cases s) (auto simp: mgr_writeTo_def)
next
  case (Some info)
  then show ?thesis using assms act_session_ok [OF assms(1) orderly_doSend] by (simp add: mgr_writeTo_def)
qed

lemma held_stop:
  assumes "timer_held fired w t0 c0" "map_of (w_armed w) t = Some c"
  shows "timer_held (c # fired) (w_stop (Some t) w) t0 c0"
  using assms by (auto simp: timer_held_def)

lemma fires_ok:
  assumes "mgr_ok nc ((mgr, w), fired)" "map_of (w_armed w) t = Some c"
  shows "mgr_ok nc ((mgr, w_stop (Some t) w), c # fired)"
proof -
  have "session_ok nc (c # fired) (w_stop (Some t) w) pub info" if "session_ok nc fired w pub info" for pub info
    using that held_stop [OF _ assms(2)] by (auto simp: session_ok_def)
  moreover have "buffer_ok nc (c # fired) (w_stop (Some t) w) pub buf" if "buffer_ok nc fired w pub buf" for pub buf
    using that held_stop [OF _ assms(2)] by (auto simp: buffer_ok_def)
  moreover have "timers_fresh (w_stop (Some t) w)" using mgr_okD(1) [OF assms(1)] by (simp add: timers_fresh_def)
  ultimately show ?thesis using assms(1) by (simp add: mgr_ok_def)
qed

lemma held_runs: "timer_held fired w t c \<Longrightarrow> set fired \<subseteq> insert d (set fired') \<Longrightarrow> c \<noteq> d \<Longrightarrow> timer_held fired' w t c"
  by (auto simp: timer_held_def)

lemma stop_other:
  assumes "timer_held fired w t c" "buffer_ok nc fired w pub b" "timer_key c \<noteq> pub" "timers_fresh w"
  shows "timer_held fired (w_stop (sb_timer b) w) t c"
proof -
  have "timer_frame pub w (w_stop (sb_timer b) w)"
    using assms(2,4) by (intro frame_stop [of _ _ fired "ExpireBuffer pub (sb_id b)"]) (auto simp: buffer_ok_def)
  then show ?thesis using held_frame assms(1,3) by blast
qed

lemma ok_runs:
  assumes "mgr_ok nc ((mgr, w), cs @ c # ds)"
    "\<And>pub info. m_get (sm_sessions mgr) pub = Some info \<Longrightarrow> ExpireSession pub (s_id info) \<noteq> c"
    "\<And>pub buf. m_get (sm_buffers mgr) pub = Some buf \<Longrightarrow> ExpireBuffer pub (sb_id buf) \<noteq> c"
  shows "mgr_ok nc ((mgr, w), cs @ ds)"
proof -
  have s: "session_ok nc (cs @ ds) w pub info" if "m_get (sm_sessions mgr) pub = Some info" for pub info
    using mgr_okD(2) [OF assms(1) that] assms(2) [OF that] held_runs [of "cs @ c # ds" w _ _ c "cs @ ds"] by (auto simp: session_ok_def)
  have b: "buffer_ok nc (cs @ ds) w pub buf" if "m_get (sm_buffers mgr) pub = Some buf" for pub buf
    using mgr_okD(3) [OF assms(1) that] assms(3) [OF that] held_runs [of "cs @ c # ds" w _ _ c "cs @ ds"] by (auto simp: buffer_ok_def)
  show ?thesis using s b assms(1) by (simp add: mgr_ok_def)
qed

lemma ok_without:
  assumes "mgr_ok nc ((mgr, w), fired)"
  shows "mgr_ok nc ((mgr\<lparr> sm_sessions := m_del (sm_sessions mgr) pub \<rparr>, w), fired)"
    "mgr_ok nc ((mgr\<lparr> sm_buffers := m_del (sm_buffers mgr) pub \<rparr>, w), fired)"
  using assms by (auto simp: mgr_ok_def)

lemma ok_stop_buffer:
  assumes "mgr_ok nc ((mgr, w), fired)" "m_get (sm_buffers mgr) pub = Some b"
  shows "mgr_ok nc ((mgr\<lparr> sm_buffers := m_del (sm_buffers mgr) pub \<rparr>, w_stop (sb_timer b) w), fired)"
proof -
  have "timer_frame pub w (w_stop (sb_timer b) w)"
    using mgr_okD(1) [OF assms(1)] mgr_okD(3) [OF assms]
    by (intro frame_stop [of _ _ fired "ExpireBuffer pub (sb_id b)"]) (auto simp: buffer_ok_def)
  moreover have "m_get (sm_sessions mgr) pub = None" using mgr_okD(4) [OF assms(1)] assms(2) by (cases "m_get (sm_sessions mgr) pub") auto
  ultimately show ?thesis by (intro mgr_ok_local [OF assms(1), of pub]) (auto simp: other_keys_same_def)
qed

lemma runs_ok:
  assumes ok: "mgr_ok nc ((mgr, w), cs @ c # ds)"
  shows "mgr_ok nc (mgr_expire c (mgr, w), cs @ ds)"
proof (cases c)
  case (ExpireSession pub i)
  show ?thesis
  proof (cases "\<exists>info. m_get (sm_sessions mgr) pub = Some info \<and> s_id info = i")
    case True
    moreover have "mgr_ok nc ((mgr\<lparr> sm_sessions := m_del (sm_sessions mgr) pub \<rparr>, w), cs @ ds)"
      using ExpireSession by (intro ok_runs [OF ok_without(1) [OF ok, of pub]]) (auto split: if_splits)
    ultimately show ?thesis using ExpireSession by auto
  next
    case False
    then show ?thesis using ok_runs [OF ok] ExpireSession by (auto split: option.splits)
  qed
next
  case (ExpireBuffer pub i)
  show ?thesis
  proof (cases "\<exists>b. m_get (sm_buffers mgr) pub = Some b \<and> sb_id b = i")
    case True
    then obtain b where b: "m_get (sm_buffers mgr) pub = Some b" "sb_id b = i" by blast
    moreover have "mgr_ok nc ((mgr\<lparr> sm_buffers := m_del (sm_buffers mgr) pub \<rparr>, w_stop (sb_timer b) w), cs @ ds)"
      using ExpireBuffer by (intro ok_runs [OF ok_stop_buffer [OF ok b(1)]]) (auto split: if_splits)
    ultimately show ?thesis using ExpireBuffer by auto
  next
    case False
    then show ?thesis using ok_runs [OF ok] ExpireBuffer by (auto split: option.splits)
  qed
qed

lemma mgr_do_ok:
  assumes "mgr_ok (se_nacl e) (s, fired)" "mgr_do e now ev s = Inr s'"
  shows "mgr_ok (se_nacl e) (s', fired)"
proof (cases ev)
  case (MgrData pub data)
  show ?thesis by (rule handleData_ok [OF assms(1) assms(2) [unfolded MgrData mgr_do.simps]])
next
  case (MgrWrite pub msg)
  show ?thesis by (rule writeTo_ok [OF assms(1) assms(2) [unfolded MgrWrite mgr_do.simps]])
qed

lemma mgr_step_ok:
  assumes "mgr_step e x y" "mgr_ok (se_nacl e) x"
  shows "mgr_ok (se_nacl e) y"
  using assms(1)
proof cases
  case (mgr_handles now ev s s' fired)
  then show ?thesis using mgr_do_ok assms(2) by blast
next
  case (mgr_fires w t c mgr fired)
  then show ?thesis using fires_ok assms(2) by blast
next
  case (mgr_runs fired cs c ds s)
  then show ?thesis using runs_ok [of "se_nacl e" "fst s" "snd s"] assms(2) by simp
qed

lemma mgr_init_ok: "w_armed w0 = [] \<Longrightarrow> mgr_ok nc ((mgr_init, w0), [])"
  by (simp add: mgr_ok_def mgr_init_def timers_fresh_def)

interpretation sessions_actor: actor_invariant "\<lambda>x. \<exists>w0. w_armed w0 = [] \<and> x = ((mgr_init, w0), [])" "mgr_step e" "mgr_ok (se_nacl e)" for e
  using mgr_init_ok mgr_step_ok by unfold_locales blast+

subsection \<open>Sessions never leak\<close>

text \<open>The closure runs when a timer of this object fires, or is waiting to run.\<close>

definition will_run :: "session_timer list \<Rightarrow> world \<Rightarrow> nat option \<Rightarrow> session_timer \<Rightarrow> bool" where
  "will_run fired w timer c \<longleftrightarrow> c \<in> set fired \<or> (\<exists>t. timer = Some t \<and> map_of (w_armed w) t = Some c)"

text \<open>
  C11. The tables of the session manager in every reachable state, whatever the network delivers, the user
  sends, and the timers do: a session is stored under its remote key, its public keys belong to its private
  keys and its four shared secrets to the keys they are meant for; every session and every buffered message
  has the timer set that removes it, so none stays forever; and no key has both a session and a buffer.
\<close>

theorem session_tables_in_order:
  assumes "w_armed w0 = []" "(mgr_step e)\<^sup>*\<^sup>* ((mgr_init, w0), []) ((mgr, w), fired)"
  shows "(\<forall>pub info. m_get (sm_sessions mgr) pub = Some info \<longrightarrow> s_ed info = pub \<and> shares_ok (se_nacl e) info
      \<and> m_get (sm_buffers mgr) pub = None \<and> will_run fired w (s_timer info) (ExpireSession pub (s_id info)))
    \<and> (\<forall>pub buf. m_get (sm_buffers mgr) pub = Some buf \<longrightarrow> will_run fired w (sb_timer buf) (ExpireBuffer pub (sb_id buf)))"
proof -
  have ok: "mgr_ok (se_nacl e) ((mgr, w), fired)" using sessions_actor.reachable_inv [OF _ assms(2)] assms(1) by blast
  show ?thesis
  proof (intro conjI allI impI, goal_cases)
    case (4 pub info)
    then show ?case using mgr_okD(2) [OF ok 4] by (auto simp: session_ok_def timer_held_def will_run_def)
  next
    case (5 pub buf)
    then show ?case using mgr_okD(3) [OF ok 5] by (auto simp: buffer_ok_def timer_held_def will_run_def)
  qed (use mgr_okD(2,4) [OF ok] in \<open>auto simp: session_ok_def\<close>)
qed

end
