(* ===== verification/SessionSystem.thy ===== *)
theory SessionSystem
  imports SessionManager
begin

text \<open>
  Two nodes that talk: the exchange of keys, the first buffered message and the reply, from the write at one
  node to the delivery at the other.
\<close>

subsection \<open>One session\<close>

text \<open>Whose keys a session holds, and that they fit together.\<close>

definition est :: "nacl \<Rightarrow> edPub \<Rightarrow> boxPub \<Rightarrow> boxPub \<Rightarrow> u64 \<Rightarrow> u64 \<Rightarrow> boxPriv \<Rightarrow> boxPriv \<Rightarrow> boxPriv \<Rightarrow> sessionInfo \<Rightarrow> bool" where
  "est nc pub cur nxt rk lk rp sp np info \<longleftrightarrow> s_ed info = pub \<and> shares_ok nc info \<and> s_current info = cur \<and> s_next info = nxt
     \<and> s_remoteKeySeq info = rk \<and> s_localKeySeq info = lk \<and> s_recvPriv info = rp \<and> s_sendPriv info = sp \<and> s_nextPriv info = np"

lemma stop_world [simp]: "w_privs (w_stop t w) = w_privs w" "w_out (w_stop t w) = w_out w"
  by (cases t; simp add: w_stop_def)+

lemma emit_world [simp]: "w_privs (w_emit out w) = w_privs w" "w_out (w_emit out w) = w_out w @ [out]"
  by (simp_all add: w_emit_def)

lemma resetTimer_eq:
  "\<exists>t w'. resetTimer info w = (info\<lparr> s_timer := Some t \<rparr>, w') \<and> w_privs w' = w_privs w \<and> w_out w' = w_out w"
  by (simp add: resetTimer_def w_start_def) blast

lemma est_timer [simp]: "est nc pub cur nxt rk lk rp sp np (info\<lparr> s_timer := t \<rparr>) \<longleftrightarrow> est nc pub cur nxt rk lk rp sp np info"
  by (simp add: est_def shares_ok_def)

lemma newBoxKeys_eq: "w_privs w = p # ps \<Longrightarrow> newBoxKeys nc w = Inr ((box_public nc p, p), w\<lparr> w_privs := ps \<rparr>)"
  by (simp add: newBoxKeys_def)

lemma handleUpdate_est:
  assumes "shares_ok nc info" "w_privs w = p # ps"
  shows "\<exists>info' w'. handleUpdate nc init info w = Inr (info', w') \<and> w_privs w' = ps \<and> w_out w' = w_out w
    \<and> est nc (s_ed info) (si_current init) (si_next init) (si_keySeq init) (s_localKeySeq info + 1) (s_sendPriv info) (s_nextPriv info) p info'
    \<and> s_recvNonce info' = 0 \<and> s_nextSendNonce info' = 0 \<and> s_nextRecvNonce info' = 0 \<and> s_sendNonce info' = s_sendNonce info
    \<and> s_rotated info' = s_rotated info \<and> s_seq info' = si_seq init"
proof -
  define info1 where "info1 = fixShared nc 0 (s_sendNonce info) (ratchet (box_public nc p, p) (info\<lparr> s_current := si_current init,
    s_next := si_next init, s_seq := si_seq init, s_remoteKeySeq := si_keySeq init \<rparr>))"
  obtain t w' where "resetTimer info1 (w\<lparr> w_privs := ps \<rparr>) = (info1\<lparr> s_timer := Some t \<rparr>, w')" "w_privs w' = ps" "w_out w' = w_out w"
    using resetTimer_eq [of info1 "w\<lparr> w_privs := ps \<rparr>"] by auto
  moreover have "est nc (s_ed info) (si_current init) (si_next init) (si_keySeq init) (s_localKeySeq info + 1) (s_sendPriv info) (s_nextPriv info) p info1"
    using assms(1) by (simp add: est_def shares_ok_def info1_def fixShared_def ratchet_def getShared_def)
  ultimately show ?thesis
    using assms(2) by (simp add: handleUpdate_def newBoxKeys_eq Let_def ratchet_def info1_def) (simp add: fixShared_def)
qed

text \<open>An init or ack in transit: whoever holds the private key of the addressee reads it.\<close>

definition carries :: "session_env \<Rightarrow> edPub \<Rightarrow> bytes \<Rightarrow> sessionInit \<Rightarrow> bool" where
  "carries e to data init \<longleftrightarrow> (\<forall>e'. se_ed e' = se_ed e \<longrightarrow> se_nacl e' = se_nacl e \<longrightarrow> to = be_word (ed_public (se_ed e) (priv_bytes (se_secretEd e')))
     \<longrightarrow> se_secretBox e' = e2c_priv (se_nacl e) (se_secretEd e')
     \<longrightarrow> init_decrypt e' (be_word (ed_public (se_ed e) (priv_bytes (se_secretEd e)))) data = Some init)"

definition crypto_ok :: "session_env \<Rightarrow> bool" where
  "crypto_ok e \<longleftrightarrow> ed_correct (se_ed e) \<and> nacl_correct (se_ed e) (se_nacl e)"

lemma sendInit_carries:
  assumes "crypto_ok e" "w_privs w = p # ps"
  shows "\<exists>data w'. mgr_sendInit e to init w = Inr w' \<and> w_privs w' = ps \<and> w_out w' = w_out w @ [NetWrite data to]
    \<and> data \<noteq> [] \<and> data ! 0 = sessionTypeInit \<and> carries e to data init"
proof -
  obtain data where d: "init_encrypt e init to w = Inr (data, w\<lparr> w_privs := ps \<rparr>)" "length data = 193" "data ! 0 = sessionTypeInit"
      "\<forall>e' from t. se_ed e' = se_ed e \<longrightarrow> se_nacl e' = se_nacl e \<longrightarrow> to = be_word (ed_public (se_ed e) (priv_bytes (se_secretEd e')))
        \<longrightarrow> se_secretBox e' = e2c_priv (se_nacl e) (se_secretEd e') \<longrightarrow> from = be_word (ed_public (se_ed e) (priv_bytes (se_secretEd e)))
        \<longrightarrow> init_decrypt e' from (data[0 := t]) = Some init"
    using init_encrypt_ok [of e w p ps init to] assms by (auto simp: crypto_ok_def)
  have "carries e to data init" unfolding carries_def using d(4) by (metis list_update_id)
  then show ?thesis using d(1-3) by (intro exI [of _ data]) (auto simp: mgr_sendInit_def)
qed

lemma sendAck_carries:
  assumes "crypto_ok e" "w_privs w = p # ps"
  shows "\<exists>data w'. mgr_sendAck e to ack w = Inr w' \<and> w_privs w' = ps \<and> w_out w' = w_out w @ [NetWrite data to]
    \<and> data \<noteq> [] \<and> data ! 0 = sessionTypeAck \<and> carries e to data ack"
proof -
  obtain data where d: "init_encrypt e ack to w = Inr (data, w\<lparr> w_privs := ps \<rparr>)" "length data = 193" "data ! 0 = sessionTypeInit"
      "\<forall>e' from t. se_ed e' = se_ed e \<longrightarrow> se_nacl e' = se_nacl e \<longrightarrow> to = be_word (ed_public (se_ed e) (priv_bytes (se_secretEd e')))
        \<longrightarrow> se_secretBox e' = e2c_priv (se_nacl e) (se_secretEd e') \<longrightarrow> from = be_word (ed_public (se_ed e) (priv_bytes (se_secretEd e)))
        \<longrightarrow> init_decrypt e' from (data[0 := t]) = Some ack"
    using init_encrypt_ok [of e w p ps ack to] assms by (auto simp: crypto_ok_def)
  have "carries e to (data[0 := sessionTypeAck]) ack" unfolding carries_def using d(4) by blast
  then show ?thesis using d(1-3) by (intro exI [of _ "data[0 := sessionTypeAck]"]) (auto simp: mgr_sendAck_def ack_encrypt_def)
qed

lemma handleInit_est:
  assumes "crypto_ok e" "shares_ok (se_nacl e) info" "w_privs w = p # q # ps" "s_seq info < si_seq init"
  shows "\<exists>info' w' data. info_handleInit e now init info w = Inr (info', w') \<and> w_privs w' = ps
    \<and> w_out w' = w_out w @ [NetWrite data (s_ed info)] \<and> data \<noteq> [] \<and> data ! 0 = sessionTypeAck
    \<and> carries e (s_ed info) data (newSessionInit now (box_public (se_nacl e) (s_nextPriv info)) (box_public (se_nacl e) p) (s_localKeySeq info + 1))
    \<and> est (se_nacl e) (s_ed info) (si_current init) (si_next init) (si_keySeq init) (s_localKeySeq info + 1) (s_sendPriv info) (s_nextPriv info) p info'
    \<and> s_recvNonce info' = 0 \<and> s_nextSendNonce info' = 0 \<and> s_nextRecvNonce info' = 0 \<and> s_sendNonce info' = s_sendNonce info
    \<and> s_rotated info' = s_rotated info \<and> s_seq info' = si_seq init"
proof -
  obtain info' w1 where u: "handleUpdate (se_nacl e) init info w = Inr (info', w1)" "w_privs w1 = q # ps" "w_out w1 = w_out w"
      "est (se_nacl e) (s_ed info) (si_current init) (si_next init) (si_keySeq init) (s_localKeySeq info + 1) (s_sendPriv info) (s_nextPriv info) p info'"
      "s_recvNonce info' = 0" "s_nextSendNonce info' = 0" "s_nextRecvNonce info' = 0" "s_sendNonce info' = s_sendNonce info"
      "s_rotated info' = s_rotated info" "s_seq info' = si_seq init"
    using handleUpdate_est [OF assms(2,3)] by blast
  have "s_ed info' = s_ed info" "s_sendPub info' = box_public (se_nacl e) (s_nextPriv info)" "s_nextPub info' = box_public (se_nacl e) p"
      "s_localKeySeq info' = s_localKeySeq info + 1"
    using u(4) by (auto simp: est_def shares_ok_def)
  moreover obtain data w' where "mgr_sendAck e (s_ed info) (newSessionInit now (box_public (se_nacl e) (s_nextPriv info)) (box_public (se_nacl e) p)
      (s_localKeySeq info + 1)) w1 = Inr w'" "w_privs w' = ps" "w_out w' = w_out w1 @ [NetWrite data (s_ed info)]" "data \<noteq> []" "data ! 0 = sessionTypeAck"
      "carries e (s_ed info) data (newSessionInit now (box_public (se_nacl e) (s_nextPriv info)) (box_public (se_nacl e) p) (s_localKeySeq info + 1))"
    using sendAck_carries [OF assms(1) u(2)] by blast
  ultimately show ?thesis using u assms(4)
    by (intro exI [of _ info'] exI [of _ w'] exI [of _ data]) (simp add: info_handleInit_def info_sendAck_def)
qed

subsection \<open>Traffic between two sessions\<close>

definition packet :: "nacl \<Rightarrow> boxShared \<Rightarrow> u64 \<Rightarrow> u64 \<Rightarrow> u64 \<Rightarrow> boxPub \<Rightarrow> bytes \<Rightarrow> bytes" where
  "packet nc shared l r n key msg = header_bytes l r n @ box_seal nc shared (nonceForUint64 n) (key_bytes key @ msg)"

lemma doSend_est:
  assumes "s_sendNonce info + 1 \<noteq> 0"
  shows "\<exists>t n w'. info_doSend e msg info w = Inr (info\<lparr> s_sendNonce := s_sendNonce info + 1, s_tx := n, s_timer := t \<rparr>, w') \<and> w_privs w' = w_privs w
    \<and> w_out w' = w_out w @ [NetWrite (packet (se_nacl e) (s_sendShared info) (s_localKeySeq info) (s_remoteKeySeq info) (s_sendNonce info + 1)
        (s_nextPub info) msg) (s_ed info)]"
proof -
  define out where "out = NetWrite (packet (se_nacl e) (s_sendShared info) (s_localKeySeq info) (s_remoteKeySeq info) (s_sendNonce info + 1)
        (s_nextPub info) msg) (s_ed info)"
  define info1 where "info1 = info\<lparr> s_sendNonce := s_sendNonce info + 1, s_tx := s_tx info + of_nat (length msg) \<rparr>"
  have "info_doSend e msg info w = Inr (resetTimer info1 (w_emit out w))"
    using assms by (simp add: info_doSend_def Let_def traffic_header_eq info1_def out_def packet_def boxSeal_def)
  moreover obtain t w' where "resetTimer info1 (w_emit out w) = (info1\<lparr> s_timer := Some t \<rparr>, w')" "w_privs w' = w_privs w" "w_out w' = w_out w @ [out]"
    using resetTimer_eq [of info1 "w_emit out w"] by auto
  ultimately show ?thesis unfolding out_def info1_def by auto
qed

lemma doRecv_accepts:
  assumes "crypto_ok e" "recv_case r l info = Some c" "case_nonce c info < n" "case_shared c info = shared"
    "onSuccess (se_nacl e) c now n key info (w_emit (NetRecv (s_ed info) msg) w) = Inr (info1, w1)"
  shows "\<exists>t m w'. info_doRecv e now (packet (se_nacl e) shared r l n key msg) info w = Inr (info1\<lparr> s_rx := m, s_timer := t \<rparr>, w')
    \<and> w_privs w' = w_privs w1 \<and> w_out w' = w_out w1"
proof -
  define boxed where "boxed = box_seal (se_nacl e) shared (nonceForUint64 n) (key_bytes key @ msg)"
  have boxed: "length boxed = length msg + 48" "boxOpen (se_nacl e) boxed n shared = Some (key_bytes key @ msg)"
    using assms(1) by (simp_all add: crypto_ok_def nacl_correct_def boxed_def boxOpen_def)
  have p: "parse_traffic (packet (se_nacl e) shared r l n key msg) = Some (r, l, n, boxed)"
    using parse_header [of r l n boxed] header_length(1) [of r l n] boxed(1) by (simp add: packet_def boxed_def)
  define m where "m = s_rx info1 + of_nat (length msg)"
  obtain t w' where "resetTimer (info1\<lparr> s_rx := m \<rparr>) w1 = (info1\<lparr> s_rx := m, s_timer := Some t \<rparr>, w')" "w_privs w' = w_privs w1" "w_out w' = w_out w1"
    using resetTimer_eq [of "info1\<lparr> s_rx := m \<rparr>" w1] by auto
  then show ?thesis using assms(2-5) boxed(2)
    by (simp add: info_doRecv_def p boxPubSize_def be_word_key_bytes Let_def flip: m_def) blast
qed

subsection \<open>The manager's side of a key exchange\<close>

definition unused :: "sessionInfo \<Rightarrow> bool" where
  "unused info \<longleftrightarrow> s_recvNonce info = 0 \<and> s_nextSendNonce info = 0 \<and> s_nextRecvNonce info = 0 \<and> s_sendNonce info = 0 \<and> s_rotated info = zero_time"

lemma mgr_newSession_est:
  assumes "w_privs w = p1 # p2 # p3 # ps"
  shows "\<exists>info w'. mgr_newSession nc now pub cur nxt seq (mgr, w) = Inr (mgr\<lparr> sm_sessions := m_set (sm_sessions mgr) pub info \<rparr>, w')
    \<and> w_privs w' = ps \<and> w_out w' = w_out w \<and> est nc pub cur nxt 0 0 p1 p2 p3 info \<and> unused info \<and> s_seq info = seq - 1"
proof -
  obtain info w1 where n: "newSession nc now pub cur nxt seq w = Inr (info, w1)" "w_privs w1 = ps" "w_out w1 = w_out w"
      "est nc pub cur nxt 0 0 p1 p2 p3 info" "unused info" "s_seq info = seq - 1"
    using assms by (simp add: newSession_def newBoxKeys_eq est_def shares_ok_def unused_def fixShared_def getShared_def)
  obtain t w' where r: "resetTimer info w1 = (info\<lparr> s_timer := Some t \<rparr>, w')" "w_privs w' = w_privs w1" "w_out w' = w_out w1"
    using resetTimer_eq by blast
  have "s_ed info = pub" using n(4) by (simp add: est_def)
  then show ?thesis using n r
    by (intro exI [of _ "info\<lparr> s_timer := Some t \<rparr>"] exI [of _ w']) (simp add: mgr_newSession_def unused_def)
qed

lemma sessionForInit_new:
  assumes "m_get (sm_sessions mgr) pub = None" "m_get (sm_buffers mgr) pub = None" "w_privs w = p1 # p2 # p3 # ps"
  shows "\<exists>info w'. sessionForInit nc now pub init (mgr, w) = Inr (None, mgr\<lparr> sm_sessions := m_set (sm_sessions mgr) pub info \<rparr>, w')
    \<and> w_privs w' = ps \<and> w_out w' = w_out w \<and> est nc pub (si_current init) (si_next init) 0 0 p1 p2 p3 info \<and> unused info \<and> s_seq info = si_seq init - 1"
proof -
  obtain info w' where "mgr_newSession nc now pub (si_current init) (si_next init) (si_seq init) (mgr, w)
        = Inr (mgr\<lparr> sm_sessions := m_set (sm_sessions mgr) pub info \<rparr>, w')"
      "w_privs w' = ps" "w_out w' = w_out w" "est nc pub (si_current init) (si_next init) 0 0 p1 p2 p3 info" "unused info" "s_seq info = si_seq init - 1"
    using mgr_newSession_est [OF assms(3)] by blast
  then show ?thesis using assms(1,2) by (intro exI [of _ info] exI [of _ w']) (simp add: sessionForInit_def)
qed

lemma sessionForInit_buffered:
  assumes "m_get (sm_sessions mgr) pub = None" "m_get (sm_buffers mgr) pub = Some buf" "w_privs w = p1 # p2 # p3 # ps"
    "si_current (sb_init buf) = box_public nc (sb_currentPriv buf)" "si_next (sb_init buf) = box_public nc (sb_nextPriv buf)"
  shows "\<exists>info w' mgr'. sessionForInit nc now pub init (mgr, w) = Inr (Some buf, mgr', w') \<and> m_get (sm_sessions mgr') pub = Some info
    \<and> w_privs w' = ps \<and> w_out w' = w_out w \<and> unused info \<and> s_seq info = si_seq init - 1
    \<and> est nc pub (si_current init) (si_next init) 0 0 p1 (sb_currentPriv buf) (sb_nextPriv buf) info"
proof -
  obtain info w' where n: "mgr_newSession nc now pub (si_current init) (si_next init) (si_seq init) (mgr, w)
        = Inr (mgr\<lparr> sm_sessions := m_set (sm_sessions mgr) pub info \<rparr>, w')"
      "w_privs w' = ps" "w_out w' = w_out w" "est nc pub (si_current init) (si_next init) 0 0 p1 p2 p3 info" "unused info" "s_seq info = si_seq init - 1"
    using mgr_newSession_est [OF assms(3)] by blast
  have "est nc pub (si_current init) (si_next init) 0 0 p1 (sb_currentPriv buf) (sb_nextPriv buf) (adopt_keys nc buf info)"
    using n(4) assms(4,5) by (simp add: est_def adopt_keys_def shares_ok_def fixShared_def getShared_def)
  moreover have "unused (adopt_keys nc buf info)" "s_seq (adopt_keys nc buf info) = si_seq init - 1"
    using n(5,6) by (simp_all add: unused_def adopt_keys_def fixShared_def)
  ultimately show ?thesis using assms(1,2) n(1-3)
    by (intro exI [of _ "adopt_keys nc buf info"]) (simp add: sessionForInit_def act_session_def Let_def)
qed

lemma pred_less: "(x :: u64) \<noteq> 0 \<Longrightarrow> x - 1 < x"
  using unat_gt_0 [of x] by (simp add: word_less_nat_alt unat_minus_one)

text \<open>The node that is addressed: a session and an ack.\<close>

lemma handleInit_new:
  assumes "crypto_ok e" "m_get (sm_sessions mgr) pub = None" "m_get (sm_buffers mgr) pub = None"
    "w_privs w = p1 # p2 # p3 # p4 # p5 # ps" "si_seq init \<noteq> 0"
  shows "\<exists>info mgr' w' data. mgr_handleInit e now pub init (mgr, w) = Inr (mgr', w') \<and> m_get (sm_sessions mgr') pub = Some info
    \<and> w_privs w' = ps \<and> w_out w' = w_out w @ [NetWrite data pub] \<and> data \<noteq> [] \<and> data ! 0 = sessionTypeAck
    \<and> carries e pub data (newSessionInit now (box_public (se_nacl e) p3) (box_public (se_nacl e) p4) 1)
    \<and> est (se_nacl e) pub (si_current init) (si_next init) (si_keySeq init) 1 p2 p3 p4 info \<and> unused info"
proof -
  obtain info w1 where s: "sessionForInit (se_nacl e) now pub init (mgr, w) = Inr (None, mgr\<lparr> sm_sessions := m_set (sm_sessions mgr) pub info \<rparr>, w1)"
      "w_privs w1 = p4 # p5 # ps" "w_out w1 = w_out w" "est (se_nacl e) pub (si_current init) (si_next init) 0 0 p1 p2 p3 info" "unused info"
      "s_seq info = si_seq init - 1"
    using sessionForInit_new [OF assms(2-4)] by blast
  have i: "shares_ok (se_nacl e) info" "s_ed info = pub" "s_localKeySeq info = 0" "s_sendPriv info = p2" "s_nextPriv info = p3"
    using s(4) by (simp_all add: est_def)
  have "s_seq info < si_seq init" using s(6) pred_less [OF assms(5)] by simp
  from handleInit_est [OF assms(1) i(1) s(2) this, of now, unfolded i] s show ?thesis
    by (auto simp: mgr_handleInit_def act_session_def send_buffered_def unused_def)
qed

text \<open>The node that has written: the ack makes the session, and the buffered message follows.\<close>

lemma handleAck_new:
  assumes "crypto_ok e" "m_get (sm_sessions mgr) pub = None" "m_get (sm_buffers mgr) pub = Some buf" "sb_data buf = Some msg"
    "si_current (sb_init buf) = box_public (se_nacl e) (sb_currentPriv buf)" "si_next (sb_init buf) = box_public (se_nacl e) (sb_nextPriv buf)"
    "w_privs w = p1 # p2 # p3 # p4 # p5 # ps" "si_seq ack \<noteq> 0"
  shows "\<exists>info mgr' w' data shared. mgr_handleAck e now pub ack (mgr, w) = Inr (mgr', w') \<and> m_get (sm_sessions mgr') pub = Some info
    \<and> w_privs w' = ps \<and> w_out w' = w_out w @ [NetWrite data pub, NetWrite (packet (se_nacl e) shared 1 (si_keySeq ack) 1 (box_public (se_nacl e) p4) msg) pub]
    \<and> data \<noteq> [] \<and> data ! 0 = sessionTypeAck \<and> shared = box_shared (se_nacl e) (si_current ack) (sb_nextPriv buf)
    \<and> carries e pub data (newSessionInit now (box_public (se_nacl e) (sb_nextPriv buf)) (box_public (se_nacl e) p4) 1)
    \<and> est (se_nacl e) pub (si_current ack) (si_next ack) (si_keySeq ack) 1 (sb_currentPriv buf) (sb_nextPriv buf) p4 info
    \<and> s_nextSendNonce info = 0 \<and> s_rotated info = zero_time"
proof -
  obtain info mgr1 w1 where s: "sessionForInit (se_nacl e) now pub ack (mgr, w) = Inr (Some buf, mgr1, w1)"
      "m_get (sm_sessions mgr1) pub = Some info" "w_privs w1 = p4 # p5 # ps" "w_out w1 = w_out w" "unused info" "s_seq info = si_seq ack - 1"
      "est (se_nacl e) pub (si_current ack) (si_next ack) 0 0 p1 (sb_currentPriv buf) (sb_nextPriv buf) info"
    using sessionForInit_buffered [OF assms(2,3,7,5,6)] by blast
  have i: "shares_ok (se_nacl e) info" "s_ed info = pub" "s_localKeySeq info = 0" "s_sendPriv info = sb_currentPriv buf" "s_nextPriv info = sb_nextPriv buf"
    using s(7) by (simp_all add: est_def)
  have "s_seq info < si_seq ack" using s(6) pred_less [OF assms(8)] by simp
  from handleInit_est [OF assms(1) i(1) s(3) this, of now, unfolded i] obtain info2 w2 data where
      h: "info_handleInit e now ack info w1 = Inr (info2, w2)" "w_privs w2 = ps" "w_out w2 = w_out w1 @ [NetWrite data pub]" "data \<noteq> []"
      "data ! 0 = sessionTypeAck" "carries e pub data (newSessionInit now (box_public (se_nacl e) (sb_nextPriv buf)) (box_public (se_nacl e) p4) (0 + 1))"
      "est (se_nacl e) pub (si_current ack) (si_next ack) (si_keySeq ack) (0 + 1) (sb_currentPriv buf) (sb_nextPriv buf) p4 info2"
      "s_nextSendNonce info2 = 0" "s_sendNonce info2 = s_sendNonce info" "s_rotated info2 = s_rotated info"
    by blast
  have n: "s_sendNonce info2 + 1 = 1" "s_sendNonce info2 + 1 \<noteq> 0" using h(9) s(5) by (simp_all add: unused_def)
  have k: "s_sendShared info2 = box_shared (se_nacl e) (si_current ack) (sb_nextPriv buf)" "s_localKeySeq info2 = 1" "s_remoteKeySeq info2 = si_keySeq ack"
      "s_nextPub info2 = box_public (se_nacl e) p4" "s_ed info2 = pub"
    using h(7) by (auto simp: est_def shares_ok_def)
  from doSend_est [OF n(2), of e msg w2, unfolded n(1) k] h s assms(2,4) show ?thesis
    by (auto simp: mgr_handleAck_def act_session_def send_buffered_def est_def shares_ok_def unused_def)
qed

lemma writeTo_new:
  assumes "crypto_ok e" "m_get (sm_sessions mgr) pub = None" "m_get (sm_buffers mgr) pub = None" "w_privs w = p1 # p2 # p3 # ps"
  shows "\<exists>buf mgr' w' data. mgr_writeTo e now pub msg (mgr, w) = Inr (mgr', w') \<and> m_get (sm_sessions mgr') pub = None
    \<and> m_get (sm_buffers mgr') pub = Some buf \<and> sb_data buf = msg \<and> sb_currentPriv buf = p1 \<and> sb_nextPriv buf = p2
    \<and> sb_init buf = newSessionInit now (box_public (se_nacl e) p1) (box_public (se_nacl e) p2) 0
    \<and> w_privs w' = ps \<and> w_out w' = w_out w @ [NetWrite data pub] \<and> data \<noteq> [] \<and> data ! 0 = sessionTypeInit
    \<and> carries e pub data (sb_init buf)"
proof -
  define init where "init = newSessionInit now (box_public (se_nacl e) p1) (box_public (se_nacl e) p2) 0"
  obtain buf w1 where b: "buffer_for (se_nacl e) now pub (mgr, w) = Inr (buf, w1)" "sb_timer buf = None" "sb_currentPriv buf = p1" "sb_nextPriv buf = p2"
      "sb_init buf = init" "w_privs w1 = p3 # ps" "w_out w1 = w_out w"
    using assms(3,4) by (simp add: buffer_for_def newBoxKeys_eq init_def)
  obtain data w2 where s: "mgr_sendInit e pub init w1 = Inr w2" "w_privs w2 = ps" "w_out w2 = w_out w1 @ [NetWrite data pub]"
      "data \<noteq> []" "data ! 0 = sessionTypeInit" "carries e pub data init"
    using sendInit_carries [OF assms(1) b(6)] by blast
  show ?thesis using assms(2) b s by (auto simp: mgr_writeTo_def bufferAndInit_def w_start_def init_def)
qed

lemma deliver_next:
  assumes "crypto_ok e" "est (se_nacl e) pub cur nxt rk lk rp sp np info" "s_nextSendNonce info < n" "s_rotated info = zero_time"
    "w_privs w = q # qs" "shared = box_shared (se_nacl e) nxt sp"
  shows "\<exists>info' w'. info_doRecv e now (packet (se_nacl e) shared (rk + 1) lk n key msg) info w = Inr (info', w') \<and> w_privs w' = qs
    \<and> w_out w' = w_out w @ [NetRecv pub msg] \<and> est (se_nacl e) pub nxt key (rk + 1) (lk + 1) sp np q info' \<and> s_sendNonce info' = 0"
proof -
  define info1 where "info1 = (fixShared (se_nacl e) n 0 (ratchet (box_public (se_nacl e) q, q) (info\<lparr> s_nextSendNonce := n, s_current := s_next info,
    s_next := key, s_remoteKeySeq := s_remoteKeySeq info + 1 \<rparr>)))\<lparr> s_rotated := now \<rparr>"
  have c: "recv_case (rk + 1) lk info = Some NextToSend" "case_shared NextToSend info = shared"
    using assms(2,6) by (simp_all add: recv_case_def est_def shares_ok_def)
  have o: "onSuccess (se_nacl e) NextToSend now n key info (w_emit (NetRecv (s_ed info) msg) w)
      = Inr (info1, (w_emit (NetRecv (s_ed info) msg) w)\<lparr> w_privs := qs \<rparr>)"
    using assms(4,5) by (simp add: rotate_def newBoxKeys_eq info1_def)
  have e1: "est (se_nacl e) pub nxt key (rk + 1) (lk + 1) sp np q info1" "s_sendNonce info1 = 0"
    using assms(2) by (simp_all add: est_def shares_ok_def info1_def fixShared_def ratchet_def getShared_def)
  obtain t m w' where r: "info_doRecv e now (packet (se_nacl e) shared (rk + 1) lk n key msg) info w = Inr (info1\<lparr> s_rx := m, s_timer := t \<rparr>, w')"
      "w_privs w' = qs" "w_out w' = w_out w @ [NetRecv (s_ed info) msg]"
    using doRecv_accepts [OF assms(1) c(1) _ c(2) o] assms(3) by auto
  have "s_ed info = pub" using assms(2) by (simp add: est_def)
  then show ?thesis using r e1 by (auto simp: est_def shares_ok_def)
qed

lemma deliver_current:
  assumes "crypto_ok e" "est (se_nacl e) pub cur nxt rk (lk + 1) rp sp np info" "s_recvNonce info < n" "shared = box_shared (se_nacl e) cur rp"
  shows "\<exists>info' w'. info_doRecv e now (packet (se_nacl e) shared rk lk n key msg) info w = Inr (info', w')
    \<and> w_out w' = w_out w @ [NetRecv pub msg] \<and> est (se_nacl e) pub cur nxt rk (lk + 1) rp sp np info' \<and> s_sendNonce info' = s_sendNonce info"
proof -
  have c: "recv_case rk lk info = Some RecvCurrent" "case_shared RecvCurrent info = shared"
    using assms(2,4) by (simp_all add: recv_case_def est_def shares_ok_def)
  have o: "onSuccess (se_nacl e) RecvCurrent now n key info (w_emit (NetRecv (s_ed info) msg) w)
      = Inr (info\<lparr> s_recvNonce := n \<rparr>, w_emit (NetRecv (s_ed info) msg) w)" by simp
  obtain t m w' where r: "info_doRecv e now (packet (se_nacl e) shared rk lk n key msg) info w = Inr (info\<lparr> s_recvNonce := n, s_rx := m, s_timer := t \<rparr>, w')"
      "w_out w' = w_out w @ [NetRecv (s_ed info) msg]"
    using doRecv_accepts [OF assms(1) c(1) _ c(2) o] assms(3) by auto
  have "s_ed info = pub" using assms(2) by (simp add: est_def)
  then show ?thesis using r assms(2) by (auto simp: est_def shares_ok_def)
qed

subsection \<open>The addressed node, with or without the second ack\<close>

lemma packet_type: "packet nc shared l r n key msg ! 0 = sessionTypeTraffic" "packet nc shared l r n key msg \<noteq> []"
  by (simp_all add: packet_def header_bytes_def)

lemma handleData_packet:
  assumes "m_get (sm_sessions mgr) pub = Some info" "info_doRecv e now (packet nc shared l r n key msg) info w = Inr (info', w')"
  shows "mgr_handleData e now pub (packet nc shared l r n key msg) (mgr, w) = Inr (mgr\<lparr> sm_sessions := m_set (sm_sessions mgr) pub info' \<rparr>, w')"
  using assms packet_type by (simp add: mgr_handleData_def session_types mgr_handleTraffic_def act_session_def)

lemma handleData_ack_old:
  assumes "m_get (sm_sessions mgr) pub = Some info" "data \<noteq> []" "data ! 0 = sessionTypeAck" "init_decrypt e pub data = Some ack"
    "info_handleAck e ack info w = Inr (info', w')"
  shows "mgr_handleData e now pub data (mgr, w) = Inr (mgr\<lparr> sm_sessions := m_set (sm_sessions mgr) pub info' \<rparr>, w')"
  using assms by (simp add: mgr_handleData_def session_types mgr_handleAck_def sessionForInit_def act_session_def send_buffered_def)

lemma message_arrives:
  assumes e: "crypto_ok e" and b: "est (se_nacl e) a a0 (box_public (se_nacl e) a1) 0 1 b1 b2 b3 info" "unused info" "m_get (sm_sessions mb) a = Some info"
    and p: "w_privs wb = q1 # q2 # qs" and ack: "data \<noteq> []" "data ! 0 = sessionTypeAck" "init_decrypt e a data = Some \<lparr> si_current = box_public (se_nacl e) a1,
      si_next = key, si_keySeq = 1, si_seq = seq \<rparr>"
    and traffic: "traffic = packet (se_nacl e) (box_shared (se_nacl e) (box_public (se_nacl e) b2) a1) 1 1 1 key msg"
  shows "\<exists>s2 mb3 wb3 info3 q. (if lost then s2 = (mb, wb) else mgr_handleData e t4 a data (mb, wb) = Inr s2)
    \<and> mgr_handleData e t5 a traffic s2 = Inr (mb3, wb3) \<and> w_out wb3 = w_out wb @ [NetRecv a msg] \<and> m_get (sm_sessions mb3) a = Some info3
    \<and> est (se_nacl e) a (box_public (se_nacl e) a1) key 1 2 b2 b3 q info3 \<and> s_sendNonce info3 = 0"
proof -
  define shared where "shared = box_shared (se_nacl e) (box_public (se_nacl e) b2) a1"
  have sym: "shared = box_shared (se_nacl e) (box_public (se_nacl e) a1) b2"
    using e unfolding shared_def crypto_ok_def nacl_correct_def by blast
  define ack where "ack = \<lparr> si_current = box_public (se_nacl e) a1, si_next = key, si_keySeq = (1 :: u64), si_seq = seq \<rparr>"
  have info: "s_nextSendNonce info < 1" "s_rotated info = zero_time" "shares_ok (se_nacl e) info" "s_ed info = a" "s_sendPriv info = b2" "s_nextPriv info = b3"
      "s_localKeySeq info = 1" "s_sendNonce info = 0"
    using b(1,2) by (simp_all add: unused_def est_def)
  obtain infoD wD where D: "info_doRecv e t5 traffic info wb = Inr (infoD, wD)" "w_out wD = w_out wb @ [NetRecv a msg]"
      "est (se_nacl e) a (box_public (se_nacl e) a1) key (0 + 1) (1 + 1) b2 b3 q1 infoD" "s_sendNonce infoD = 0"
    using deliver_next [OF e b(1) info(1,2) p sym, of t5 key msg] by (auto simp: traffic shared_def)
  have direct: "mgr_handleData e t5 a traffic (mb, wb) = Inr (mb\<lparr> sm_sessions := m_set (sm_sessions mb) a infoD \<rparr>, wD)"
    using handleData_packet [OF b(3)] D(1) by (simp add: traffic)
  show ?thesis
  proof (cases "lost \<or> seq \<le> s_seq info")
    case True
    have "(if lost then (mb, wb) = (mb, wb) else mgr_handleData e t4 a data (mb, wb) = Inr (mb\<lparr> sm_sessions := m_set (sm_sessions mb) a info \<rparr>, wb))"
      using True handleData_ack_old [OF b(3) ack, of wb info wb t4] by (cases lost) (simp_all add: info_handleAck_def)
    moreover have "mgr_handleData e t5 a traffic (mb\<lparr> sm_sessions := m_set (sm_sessions mb) a info \<rparr>, wb)
        = Inr (mb\<lparr> sm_sessions := m_set (sm_sessions mb) a infoD \<rparr>, wD)"
      using handleData_packet [of "mb\<lparr> sm_sessions := m_set (sm_sessions mb) a info \<rparr>" a info e t5] D(1) by (simp add: traffic)
    ultimately show ?thesis using direct D(2-4) by (cases lost) (auto intro!: exI [of _ "mb\<lparr> sm_sessions := m_set (sm_sessions mb) a infoD \<rparr>"])
  next
    case False
    obtain infoU wU where U: "handleUpdate (se_nacl e) ack info wb = Inr (infoU, wU)" "w_out wU = w_out wb"
        "est (se_nacl e) a (box_public (se_nacl e) a1) key 1 (1 + 1) b2 b3 q1 infoU" "s_recvNonce infoU = 0" "s_sendNonce infoU = 0"
      using handleUpdate_est [OF info(3) p, of ack] by (auto simp: info(4-8) ack_def)
    define mbU where "mbU = mb\<lparr> sm_sessions := m_set (sm_sessions mb) a infoU \<rparr>"
    have 1: "mgr_handleData e t4 a data (mb, wb) = Inr (mbU, wU)"
      using handleData_ack_old [OF b(3) ack, of wb infoU wU t4] U(1) False by (simp add: info_handleAck_def mbU_def ack_def)
    obtain infoC wC where C: "info_doRecv e t5 traffic infoU wU = Inr (infoC, wC)" "w_out wC = w_out wU @ [NetRecv a msg]"
        "est (se_nacl e) a (box_public (se_nacl e) a1) key 1 (1 + 1) b2 b3 q1 infoC" "s_sendNonce infoC = 0"
      using deliver_current [OF e U(3) _ sym, of 1 t5 key msg wU] U(4,5) by (auto simp: traffic shared_def)
    have "mgr_handleData e t5 a traffic (mbU, wU) = Inr (mbU\<lparr> sm_sessions := m_set (sm_sessions mbU) a infoC \<rparr>, wC)"
      using handleData_packet [of mbU a infoU] C(1) by (simp add: traffic mbU_def)
    then show ?thesis using 1 False C(2-4) U(2)
      by (intro exI [of _ "(mbU, wU)"] exI [of _ "mbU\<lparr> sm_sessions := m_set (sm_sessions mbU) a infoC \<rparr>"] exI [of _ wC] exI [of _ infoC] exI [of _ q1]) simp
  qed
qed

subsection \<open>From write to delivery\<close>

text \<open>The two keys of a node: the curve25519 key is the converted ed25519 key, as \<open>NewPacketConn\<close> sets it up.\<close>

definition node_key :: "session_env \<Rightarrow> edPub" where
  "node_key e = be_word (ed_public (se_ed e) (priv_bytes (se_secretEd e)))"

definition own_box :: "session_env \<Rightarrow> bool" where
  "own_box e \<longleftrightarrow> se_secretBox e = e2c_priv (se_nacl e) (se_secretEd e)"

lemma carries_decrypt:
  assumes "carries e to data init" "se_ed e' = se_ed e" "se_nacl e' = se_nacl e" "to = node_key e'" "own_box e'"
  shows "init_decrypt e' (node_key e) data = Some init"
  using assms unfolding carries_def node_key_def own_box_def by metis

lemma reply_arrives:
  assumes "crypto_ok ea" "crypto_ok eb" "se_nacl ea = nc" "se_nacl eb = nc" "m_get (sm_sessions mb) a = Some ib" "m_get (sm_sessions ma) b = Some ia"
    and "est nc a (box_public nc a1) nxt 1 2 b2 b3 q ib" "s_sendNonce ib = 0"
    and "est nc b (box_public nc b2) (box_public nc b3) 1 1 a0 a1 a2 ia" "s_nextSendNonce ia = 0" "s_rotated ia = zero_time" "w_privs wa = p # ps"
  shows "\<exists>mb4 wb4 answer ma3 wa3. mgr_writeTo eb t6 a (Some reply) (mb, wb) = Inr (mb4, wb4) \<and> w_out wb4 = w_out wb @ [NetWrite answer a]
      \<and> mgr_handleData ea t7 b answer (ma, wa) = Inr (ma3, wa3) \<and> w_out wa3 = w_out wa @ [NetRecv b reply]"
proof -
  have ib: "s_sendShared ib = box_shared nc (box_public nc a1) b3" "s_localKeySeq ib = 2" "s_remoteKeySeq ib = 1" "s_ed ib = a"
    using assms(7) by (simp_all add: est_def shares_ok_def)
  define answer where "answer = packet nc (box_shared nc (box_public nc a1) b3) 2 1 1 (s_nextPub ib) reply"
  obtain mb4 wb4 where R: "mgr_writeTo eb t6 a (Some reply) (mb, wb) = Inr (mb4, wb4)" "w_out wb4 = w_out wb @ [NetWrite answer a]"
    using doSend_est [of ib eb reply wb] assms(4,5,8) ib by (auto simp: mgr_writeTo_def act_session_def slice_def answer_def)
  have sym: "box_shared nc (box_public nc a1) b3 = box_shared nc (box_public nc b3) a1"
    using assms(1,3) unfolding crypto_ok_def nacl_correct_def by blast
  obtain infoF wF where F: "info_doRecv ea t7 answer ia wa = Inr (infoF, wF)" "w_out wF = w_out wa @ [NetRecv b reply]"
    using deliver_next [OF assms(1), unfolded assms(3), OF assms(9) _ assms(11,12) sym, of 1 t7 "s_nextPub ib" reply] assms(10)
    by (auto simp: answer_def)
  have "mgr_handleData ea t7 b answer (ma, wa) = Inr (ma\<lparr> sm_sessions := m_set (sm_sessions ma) b infoF \<rparr>, wF)"
    using handleData_packet [OF assms(6)] F(1) by (simp add: answer_def)
  with R F(2) show ?thesis by blast
qed

definition exchanged :: "session_env \<Rightarrow> session_env \<Rightarrow> edPub \<Rightarrow> edPub \<Rightarrow> bytes \<Rightarrow> int \<Rightarrow> mgr_state \<Rightarrow> mgr_state \<Rightarrow> bytes \<Rightarrow> bytes \<Rightarrow> bool" where
  "exchanged ea eb a b msg t3 sa sb ack2 traffic \<longleftrightarrow> (\<exists>a0 a1 a2 b1 b2 b3 ia ib p ps q1 q2 qs.
     m_get (sm_sessions (fst sb)) a = Some ib \<and> w_privs (snd sb) = q1 # q2 # qs
     \<and> est (se_nacl ea) a (box_public (se_nacl ea) a0) (box_public (se_nacl ea) a1) 0 1 b1 b2 b3 ib \<and> unused ib
     \<and> m_get (sm_sessions (fst sa)) b = Some ia \<and> w_privs (snd sa) = p # ps \<and> s_nextSendNonce ia = 0 \<and> s_rotated ia = zero_time
     \<and> est (se_nacl ea) b (box_public (se_nacl ea) b2) (box_public (se_nacl ea) b3) 1 1 a0 a1 a2 ia
     \<and> ack2 \<noteq> [] \<and> ack2 ! 0 = sessionTypeAck \<and> init_decrypt eb a ack2 = Some (newSessionInit t3 (box_public (se_nacl ea) a1) (box_public (se_nacl ea) a2) 1)
     \<and> traffic = packet (se_nacl ea) (box_shared (se_nacl ea) (box_public (se_nacl ea) b2) a1) 1 1 1 (box_public (se_nacl ea) a2) msg)"

lemma exchanged_delivers:
  assumes x: "exchanged ea eb a b msg t3 (ma, wa) (mb, wb) ack2 traffic" and e: "crypto_ok ea" "crypto_ok eb" "se_nacl eb = se_nacl ea"
  shows "\<exists>sb2 mb3 wb3 mb4 wb4 answer ma3 wa3.
        (if lost then sb2 = (mb, wb) else mgr_handleData eb t4 a ack2 (mb, wb) = Inr sb2)
        \<and> mgr_handleData eb t5 a traffic sb2 = Inr (mb3, wb3) \<and> w_out wb3 = w_out wb @ [NetRecv a msg]
        \<and> mgr_writeTo eb t6 a (Some reply) (mb3, wb3) = Inr (mb4, wb4) \<and> w_out wb4 = w_out wb3 @ [NetWrite answer a]
        \<and> mgr_handleData ea t7 b answer (ma, wa) = Inr (ma3, wa3) \<and> w_out wa3 = w_out wa @ [NetRecv b reply]"
proof -
  define nc where "nc = se_nacl ea"
  have nb: "se_nacl eb = nc" "se_nacl ea = nc" using e(3) by (simp_all add: nc_def)
  obtain a0 a1 a2 b1 b2 b3 ia ib p ps q1 q2 qs where h: "m_get (sm_sessions mb) a = Some ib" "w_privs wb = q1 # q2 # qs"
      "est nc a (box_public nc a0) (box_public nc a1) 0 1 b1 b2 b3 ib" "unused ib"
      "m_get (sm_sessions ma) b = Some ia" "w_privs wa = p # ps" "s_nextSendNonce ia = 0" "s_rotated ia = zero_time"
      "est nc b (box_public nc b2) (box_public nc b3) 1 1 a0 a1 a2 ia"
      "ack2 \<noteq> []" "ack2 ! 0 = sessionTypeAck" "init_decrypt eb a ack2 = Some (newSessionInit t3 (box_public nc a1) (box_public nc a2) 1)"
      "traffic = packet nc (box_shared nc (box_public nc b2) a1) 1 1 1 (box_public nc a2) msg"
    using x unfolding exchanged_def nc_def fst_conv snd_conv by blast
  obtain sb2 mb3 wb3 info3 q where M: "if lost then sb2 = (mb, wb) else mgr_handleData eb t4 a ack2 (mb, wb) = Inr sb2"
      "mgr_handleData eb t5 a traffic sb2 = Inr (mb3, wb3)" "w_out wb3 = w_out wb @ [NetRecv a msg]" "m_get (sm_sessions mb3) a = Some info3"
      "est nc a (box_public nc a1) (box_public nc a2) 1 2 b2 b3 q info3" "s_sendNonce info3 = 0"
    using message_arrives [OF e(2), unfolded nb, OF h(3,4,1,2,10,11) _ h(13), of "of_int (t3 div 1000000000)" lost t4 t5] h(12)
    unfolding newSessionInit_def by blast
  from reply_arrives [OF e(1,2) nb(2,1) M(4) h(5) M(5,6) h(9,7,8,6), of t6 reply wb3 t7] M(1-3) show ?thesis by blast
qed

lemma exchange:
  assumes "crypto_ok ea" "se_ed eb = se_ed ea" "se_nacl eb = se_nacl ea" "own_box ea" "own_box eb" "a = node_key ea" "b = node_key eb"
    and "m_get (sm_sessions ma) b = None" "m_get (sm_buffers ma) b = None" "m_get (sm_sessions mb) a = None" "m_get (sm_buffers mb) a = None"
    and wa: "w_privs wa = a0 # a1 # p3 # p4 # p5 # p6 # a2 # p8 # p9 # ps" and wb: "w_privs wb = b0 # b1 # b2 # b3 # q5 # q6 # q7 # qs"
    and "(of_int (t1 div 1000000000) :: u64) \<noteq> 0" "(of_int (t2 div 1000000000) :: u64) \<noteq> 0"
  shows "\<exists>ma1 wa1 init mb1 wb1 ack ma2 wa2 ack2 traffic.
    mgr_writeTo ea t1 b (Some msg) (ma, wa) = Inr (ma1, wa1) \<and> w_out wa1 = w_out wa @ [NetWrite init b]
    \<and> mgr_handleData eb t2 a init (mb, wb) = Inr (mb1, wb1) \<and> w_out wb1 = w_out wb @ [NetWrite ack a]
    \<and> mgr_handleData ea t3 b ack (ma1, wa1) = Inr (ma2, wa2) \<and> w_out wa2 = w_out wa1 @ [NetWrite ack2 b, NetWrite traffic b]
    \<and> exchanged ea eb a b msg t3 (ma2, wa2) (mb1, wb1) ack2 traffic"
proof -
  define nc where "nc = se_nacl ea"
  have eb: "crypto_ok eb" "se_nacl eb = nc" using assms(1-3) by (simp_all add: crypto_ok_def nc_def)
  obtain buf ma1 wa1 init where W: "mgr_writeTo ea t1 b (Some msg) (ma, wa) = Inr (ma1, wa1)" "m_get (sm_sessions ma1) b = None"
      "m_get (sm_buffers ma1) b = Some buf" "sb_data buf = Some msg" "sb_currentPriv buf = a0" "sb_nextPriv buf = a1"
      "sb_init buf = newSessionInit t1 (box_public nc a0) (box_public nc a1) 0" "w_privs wa1 = p4 # p5 # p6 # a2 # p8 # p9 # ps"
      "w_out wa1 = w_out wa @ [NetWrite init b]" "init \<noteq> []" "init ! 0 = sessionTypeInit" "carries ea b init (sb_init buf)"
    using writeTo_new [OF assms(1,8,9) wa, of t1 "Some msg"] unfolding nc_def by blast
  have dec: "init_decrypt eb a init = Some (sb_init buf)" using carries_decrypt [OF W(12) assms(2,3,7,5)] assms(6) by simp
  have si: "si_seq (sb_init buf) \<noteq> 0" "si_current (sb_init buf) = box_public nc a0" "si_next (sb_init buf) = box_public nc a1" "si_keySeq (sb_init buf) = 0"
    using W(7) assms(14) by (simp_all add: newSessionInit_def)
  obtain info mb1 wb1 ack where B: "mgr_handleInit eb t2 a (sb_init buf) (mb, wb) = Inr (mb1, wb1)" "m_get (sm_sessions mb1) a = Some info"
      "w_privs wb1 = q6 # q7 # qs" "w_out wb1 = w_out wb @ [NetWrite ack a]" "ack \<noteq> []" "ack ! 0 = sessionTypeAck"
      "carries eb a ack (newSessionInit t2 (box_public nc b2) (box_public nc b3) 1)"
      "est nc a (box_public nc a0) (box_public nc a1) 0 1 b1 b2 b3 info" "unused info"
    using handleInit_new [OF eb(1) assms(10,11) wb si(1), of t2] unfolding eb(2) si by blast
  define sack where "sack = newSessionInit t2 (box_public nc b2) (box_public nc b3) 1"
  have dack: "init_decrypt ea b ack = Some sack" using carries_decrypt [OF B(7) assms(2,3) [symmetric] assms(6,4)] assms(7) by (simp add: sack_def)
  have sk: "si_current (sb_init buf) = box_public (se_nacl ea) (sb_currentPriv buf)" "si_next (sb_init buf) = box_public (se_nacl ea) (sb_nextPriv buf)"
      "si_seq sack \<noteq> 0" "si_keySeq sack = 1" "si_current sack = box_public nc b2" "si_next sack = box_public nc b3"
    using W(5-7) assms(15) by (simp_all add: newSessionInit_def nc_def sack_def)
  define traffic where "traffic = packet nc (box_shared nc (box_public nc b2) a1) 1 1 1 (box_public nc a2) msg"
  obtain infoA ma2 wa2 ack2 where A: "mgr_handleAck ea t3 b sack (ma1, wa1) = Inr (ma2, wa2)" "m_get (sm_sessions ma2) b = Some infoA"
      "w_privs wa2 = p9 # ps" "w_out wa2 = w_out wa1 @ [NetWrite ack2 b, NetWrite traffic b]" "ack2 \<noteq> []" "ack2 ! 0 = sessionTypeAck"
      "carries ea b ack2 (newSessionInit t3 (box_public nc a1) (box_public nc a2) 1)"
      "est nc b (box_public nc b2) (box_public nc b3) 1 1 a0 a1 a2 infoA" "s_nextSendNonce infoA = 0" "s_rotated infoA = zero_time"
    using handleAck_new [OF assms(1) W(2-4) sk(1,2) W(8) sk(3), of t3] unfolding nc_def [symmetric] sk(4-6) W(5,6) traffic_def by blast
  have "init_decrypt eb a ack2 = Some (newSessionInit t3 (box_public nc a1) (box_public nc a2) 1)"
    using carries_decrypt [OF A(7) assms(2,3,7,5)] assms(6) by simp
  then have "exchanged ea eb a b msg t3 (ma2, wa2) (mb1, wb1) ack2 traffic"
    using A B unfolding exchanged_def traffic_def nc_def fst_conv snd_conv by blast
  moreover have "mgr_handleData eb t2 a init (mb, wb) = Inr (mb1, wb1)" using W(10,11) dec B(1) by (simp add: mgr_handleData_def)
  moreover have "mgr_handleData ea t3 b ack (ma1, wa1) = Inr (ma2, wa2)"
    using B(5,6) dack A(1) by (simp add: mgr_handleData_def session_types)
  ultimately show ?thesis using W(1,9) B(4) A(4) by blast
qed

text \<open>
  C2. Two nodes without a session deliver the first message and the reply, by four messages between them.
  Node a writes; its init reaches node b, whose ack reaches a; then a sends an ack of its own and the
  buffered message. The message reaches b's reader under a's key, also when a's ack is lost or comes too
  early to count, and b's reply reaches a's reader under b's key. Each node's clock shows some second other
  than 0 and no two clocks need to agree.
\<close>

theorem first_message_and_reply:
  assumes "crypto_ok ea" "se_ed eb = se_ed ea" "se_nacl eb = se_nacl ea" "own_box ea" "own_box eb" "a = node_key ea" "b = node_key eb"
    and "m_get (sm_sessions ma) b = None" "m_get (sm_buffers ma) b = None" "m_get (sm_sessions mb) a = None" "m_get (sm_buffers mb) a = None"
    and "9 \<le> length (w_privs wa)" "7 \<le> length (w_privs wb)"
    and "(of_int (t1 div 1000000000) :: u64) \<noteq> 0" "(of_int (t2 div 1000000000) :: u64) \<noteq> 0"
  shows "\<exists>ma1 wa1 init mb1 wb1 ack ma2 wa2 ack2 traffic.
    mgr_writeTo ea t1 b (Some msg) (ma, wa) = Inr (ma1, wa1) \<and> w_out wa1 = w_out wa @ [NetWrite init b]
    \<and> mgr_handleData eb t2 a init (mb, wb) = Inr (mb1, wb1) \<and> w_out wb1 = w_out wb @ [NetWrite ack a]
    \<and> mgr_handleData ea t3 b ack (ma1, wa1) = Inr (ma2, wa2) \<and> w_out wa2 = w_out wa1 @ [NetWrite ack2 b, NetWrite traffic b]
    \<and> (\<forall>lost. \<exists>sb2 mb3 wb3 mb4 wb4 answer ma3 wa3.
        (if lost then sb2 = (mb1, wb1) else mgr_handleData eb t4 a ack2 (mb1, wb1) = Inr sb2)
        \<and> mgr_handleData eb t5 a traffic sb2 = Inr (mb3, wb3) \<and> w_out wb3 = w_out wb1 @ [NetRecv a msg]
        \<and> mgr_writeTo eb t6 a (Some reply) (mb3, wb3) = Inr (mb4, wb4) \<and> w_out wb4 = w_out wb3 @ [NetWrite answer a]
        \<and> mgr_handleData ea t7 b answer (ma2, wa2) = Inr (ma3, wa3) \<and> w_out wa3 = w_out wa2 @ [NetRecv b reply])"
proof -
  have "crypto_ok eb" using assms(1-3) by (simp add: crypto_ok_def)
  obtain a0 a1 p3 p4 p5 p6 a2 p8 p9 ps where wa: "w_privs wa = a0 # a1 # p3 # p4 # p5 # p6 # a2 # p8 # p9 # ps"
    using assms(12) by (auto simp: numeral_eq_Suc Suc_le_length_iff)
  obtain b0 b1 b2 b3 q5 q6 q7 qs where wb: "w_privs wb = b0 # b1 # b2 # b3 # q5 # q6 # q7 # qs"
    using assms(13) by (auto simp: numeral_eq_Suc Suc_le_length_iff)
  obtain ma1 wa1 init mb1 wb1 ack ma2 wa2 ack2 traffic where x: "mgr_writeTo ea t1 b (Some msg) (ma, wa) = Inr (ma1, wa1)"
      "w_out wa1 = w_out wa @ [NetWrite init b]" "mgr_handleData eb t2 a init (mb, wb) = Inr (mb1, wb1)" "w_out wb1 = w_out wb @ [NetWrite ack a]"
      "mgr_handleData ea t3 b ack (ma1, wa1) = Inr (ma2, wa2)" "w_out wa2 = w_out wa1 @ [NetWrite ack2 b, NetWrite traffic b]"
      "exchanged ea eb a b msg t3 (ma2, wa2) (mb1, wb1) ack2 traffic"
    using exchange [OF assms(1-11) wa wb assms(14,15), of msg t3] by blast
  from exchanged_delivers [OF x(7) assms(1) \<open>crypto_ok eb\<close> assms(3), of _ t4 t5 t6 reply t7] x(1-6) show ?thesis by blast
qed

subsection \<open>A replay across a key exchange\<close>

text \<open>
  C35. A packet can be accepted twice when an init comes in between. A packet from the remote side's next key
  is accepted under its own counter; when the session has rotated less than a minute ago it does not rotate
  again. If the remote side then sends an init from that same key, the update makes the same pair of keys the
  current one and starts its counter at 0, so the same packet is accepted again.
\<close>

theorem init_reopens_packets:
  assumes "s_nextSendShared info = getShared (se_nacl e) (s_next info) (s_sendPriv info)" "s_rotated info \<noteq> zero_time"
    "time_sub now (s_rotated info) \<le> 60000000000"
    and "parse_traffic msg = Some (s_remoteKeySeq info + 1, s_localKeySeq info, n, boxed)" "accepts e msg info"
    and "info_doRecv e now msg info w = Inr (info1, w1)"
    and "si_current init = s_next info" "si_keySeq init = s_remoteKeySeq info + 1" "s_seq info < si_seq init"
    and "info_handleInit e t init info1 w1 = Inr (info2, w2)"
  shows "accepts e msg info2"
proof -
  have c: "recv_case (s_remoteKeySeq info + 1) (s_localKeySeq info) info = Some NextToSend" by (simp add: recv_case_def)
  obtain unboxed where u: "s_nextSendNonce info < n" "boxOpen (se_nacl e) boxed n (s_nextSendShared info) = Some unboxed"
    using assms(4,5) c by (auto simp: accepts_def)
  have "\<exists>m w0. resetTimer (info\<lparr> s_nextSendNonce := n, s_rx := m \<rparr>) w0 = (info1, w1)"
    using assms(2,3,4,6) c u by (auto simp: info_doRecv_def rotate_def Let_def split: if_splits)
  then have 1: "s_sendPriv info1 = s_sendPriv info" "s_localKeySeq info1 = s_localKeySeq info" "s_seq info1 = s_seq info"
    by (auto simp: resetTimer_def w_start_def)
  have "\<not> si_seq init \<le> s_seq info1" using assms(9) 1(3) by simp
  then obtain w0 where "handleUpdate (se_nacl e) init info1 w1 = Inr (info2, w0)"
    using assms(10) by (auto simp: info_handleInit_def and_then_eq_Inr)
  then have 2: "s_remoteKeySeq info2 = s_remoteKeySeq info + 1" "s_localKeySeq info2 = s_localKeySeq info + 1" "s_recvNonce info2 = 0"
      "s_recvShared info2 = getShared (se_nacl e) (s_next info) (s_sendPriv info)"
    using 1 assms(7,8) by (auto simp: handleUpdate_def and_then_eq_Inr Let_def resetTimer_def w_start_def fixShared_def ratchet_def)
  have "0 < n" using u(1) by (rule le_less_trans [OF word_zero_le])
  then show ?thesis using 2 assms(1,4) u(2) by (simp add: accepts_def recv_case_def)
qed

definition sample_init :: sessionInit where
  "sample_init = \<lparr> si_current = 12, si_next = 13, si_keySeq = 1, si_seq = 5 \<rparr>"

theorem init_reopens_packets_witness:
  "\<exists>info1 w1 info2 w2. info_doRecv (sample_senv 3) 2 (sample_sealed 1 1 1) sample_session sample_world = Inr (info1, w1)
    \<and> info_handleInit (sample_senv 3) 9 sample_init info1 w1 = Inr (info2, w2) \<and> accepts (sample_senv 3) (sample_sealed 1 1 1) info2"
proof -
  have a: "accepts (sample_senv 3) (sample_sealed 1 1 1) sample_session"
    by (simp add: accepts_def parse_sample recv_case_def boxOpen_def sample_senv_def sample_nacl_def)
  define info1 where "info1 = fst (resetTimer (sample_session\<lparr> s_nextSendNonce := 1, s_rx := s_rx sample_session + 1 \<rparr>) (w_emit (NetRecv (s_ed sample_session) [42]) sample_world))"
  define w1 where "w1 = snd (resetTimer (sample_session\<lparr> s_nextSendNonce := 1, s_rx := s_rx sample_session + 1 \<rparr>) (w_emit (NetRecv (s_ed sample_session) [42]) sample_world))"
  have r: "info_doRecv (sample_senv 3) 2 (sample_sealed 1 1 1) sample_session sample_world = Inr (info1, w1)"
    by (simp add: info_doRecv_def parse_sample recv_case_def boxOpen_def sample_senv_def sample_nacl_def boxPubSize_def Let_def rotate_def
        zero_time_def time_sub_def info1_def w1_def)
  have "\<exists>info2 w2. info_handleInit (sample_senv 3) 9 sample_init info1 w1 = Inr (info2, w2)"
    using handleInit_est [of "sample_senv 3" info1 w1 4 5 "[6, 7]" sample_init 9]
    by (simp add: crypto_ok_def sample_senv_def ed_correct_sample nacl_correct_sample sample_init_def info1_def w1_def resetTimer_def w_start_def)
      (auto simp: sample_world_def sample_session_def shares_ok_def fixShared_def getShared_def sample_nacl_def)
  then obtain info2 w2 where h: "info_handleInit (sample_senv 3) 9 sample_init info1 w1 = Inr (info2, w2)" by blast
  have "accepts (sample_senv 3) (sample_sealed 1 1 1) info2"
    by (rule init_reopens_packets [OF _ _ _ _ a r _ _ _ h, of 1 "replicate 48 0 @ [42]"])
      (simp_all add: parse_sample sample_init_def zero_time_def time_sub_def, simp add: sample_session_def fixShared_def sample_senv_def)
  with r h show ?thesis by blast
qed


subsection \<open>A remote crash\<close>

text \<open>
  C34. A node with which this node has a session can stop it. The length check before decryption counts the
  shortest header, so a packet with a longer header can hold fewer than the 32 bytes of the key that every
  payload starts with, and cutting them off panics.
\<close>

theorem short_payload_crashes:
  assumes "crypto_ok e" "m_get (sm_sessions mgr) pub = Some info" "recv_case r l info = Some c" "case_nonce c info < n"
    and "length payload < 32" "36 \<le> length (header_bytes r l n) + length payload"
  shows "mgr_handleData e now pub (header_bytes r l n @ box_seal (se_nacl e) (case_shared c info) (nonceForUint64 n) payload) (mgr, w) = Inl Panic"
proof -
  define boxed where "boxed = box_seal (se_nacl e) (case_shared c info) (nonceForUint64 n) payload"
  have boxed: "length boxed = length payload + 16" "boxOpen (se_nacl e) boxed n (case_shared c info) = Some payload"
    using assms(1) by (simp_all add: crypto_ok_def nacl_correct_def boxed_def boxOpen_def)
  have "info_doRecv e now (header_bytes r l n @ boxed) info w = Inl Panic"
    using assms(3-6) boxed parse_header [of r l n boxed] by (simp add: info_doRecv_def boxPubSize_def)
  moreover have "(header_bytes r l n @ boxed) ! 0 = sessionTypeTraffic" "header_bytes r l n @ boxed \<noteq> []" by (simp_all add: header_bytes_def)
  ultimately show ?thesis
    using assms(2) by (simp add: mgr_handleData_def session_types mgr_handleTraffic_def act_session_def flip: boxed_def)
qed

theorem short_payload_crashes_witness:
  "mgr_handleData (sample_senv 3) 2 7 (header_bytes 0 0 128 @ box_seal sample_nacl (s_recvShared sample_session) (nonceForUint64 128) (replicate 31 0))
     (\<lparr> sm_sessions = [(7, sample_session)], sm_buffers = [] \<rparr>, sample_world) = Inl Panic"
proof -
  have "length (header_bytes 0 0 128) = 5" by (simp add: header_bytes_def) code_simp
  moreover have "crypto_ok (sample_senv 3)" by (simp add: crypto_ok_def sample_senv_def ed_correct_sample nacl_correct_sample)
  ultimately show ?thesis
    using short_payload_crashes [of "sample_senv 3" "\<lparr> sm_sessions = [(7, sample_session)], sm_buffers = [] \<rparr>" 7 sample_session 0 0 RecvCurrent 128
        "replicate 31 0" 2 sample_world] by (simp add: recv_case_def sample_senv_def)
qed

subsection \<open>Two sample nodes\<close>

lemma sample_own: "own_box (sample_senv p)" "crypto_ok (sample_senv p)" "se_ed (sample_senv p) = sample_ed" "se_nacl (sample_senv p) = sample_nacl"
  by (simp_all add: own_box_def crypto_ok_def sample_senv_def ed_correct_sample nacl_correct_sample)

definition rich_world :: world where
  "rich_world = \<lparr> w_privs = [1, 2, 3, 4, 5, 6, 7, 8, 9], w_fresh = 0, w_armed = [], w_out = [] \<rparr>"

theorem first_message_and_reply_witness:
  "\<exists>ma1 wa1 init mb1 wb1 ack ma2 wa2 ack2 traffic mb3 wb3.
    mgr_writeTo (sample_senv 1) 5000000000 (node_key (sample_senv 2)) (Some [42]) (mgr_init, rich_world) = Inr (ma1, wa1)
    \<and> w_out wa1 = [NetWrite init (node_key (sample_senv 2))]
    \<and> mgr_handleData (sample_senv 2) 7000000000 (node_key (sample_senv 1)) init (mgr_init, rich_world) = Inr (mb1, wb1)
    \<and> w_out wb1 = [NetWrite ack (node_key (sample_senv 1))]
    \<and> mgr_handleData (sample_senv 1) 6000000000 (node_key (sample_senv 2)) ack (ma1, wa1) = Inr (ma2, wa2)
    \<and> w_out wa2 = w_out wa1 @ [NetWrite ack2 (node_key (sample_senv 2)), NetWrite traffic (node_key (sample_senv 2))]
    \<and> mgr_handleData (sample_senv 2) 8000000000 (node_key (sample_senv 1)) traffic (mb1, wb1) = Inr (mb3, wb3)
    \<and> w_out wb3 = w_out wb1 @ [NetRecv (node_key (sample_senv 1)) [42]]"
proof -
  have n: "m_get (sm_sessions mgr_init) k = None" "m_get (sm_buffers mgr_init) k = None" for k by (simp_all add: mgr_init_def)
  have p: "9 \<le> length (w_privs rich_world)" "7 \<le> length (w_privs rich_world)" "w_out rich_world = []" by (simp_all add: rich_world_def)
  have t: "(of_int (5000000000 div 1000000000) :: u64) \<noteq> 0" "(of_int (7000000000 div 1000000000) :: u64) \<noteq> 0" by simp_all
  have e: "se_ed (sample_senv 2) = se_ed (sample_senv 1)" "se_nacl (sample_senv 2) = se_nacl (sample_senv 1)" by (simp_all add: sample_own)
  obtain ma1 wa1 init mb1 wb1 ack ma2 wa2 ack2 traffic where
      x: "mgr_writeTo (sample_senv 1) 5000000000 (node_key (sample_senv 2)) (Some [42]) (mgr_init, rich_world) = Inr (ma1, wa1)"
      "w_out wa1 = w_out rich_world @ [NetWrite init (node_key (sample_senv 2))]"
      "mgr_handleData (sample_senv 2) 7000000000 (node_key (sample_senv 1)) init (mgr_init, rich_world) = Inr (mb1, wb1)"
      "w_out wb1 = w_out rich_world @ [NetWrite ack (node_key (sample_senv 1))]"
      "mgr_handleData (sample_senv 1) 6000000000 (node_key (sample_senv 2)) ack (ma1, wa1) = Inr (ma2, wa2)"
      "w_out wa2 = w_out wa1 @ [NetWrite ack2 (node_key (sample_senv 2)), NetWrite traffic (node_key (sample_senv 2))]"
      and d: "\<forall>lost. \<exists>sb2 mb3 wb3 mb4 wb4 answer ma3 wa3.
        (if lost then sb2 = (mb1, wb1) else mgr_handleData (sample_senv 2) 0 (node_key (sample_senv 1)) ack2 (mb1, wb1) = Inr sb2)
        \<and> mgr_handleData (sample_senv 2) 8000000000 (node_key (sample_senv 1)) traffic sb2 = Inr (mb3, wb3) \<and> w_out wb3 = w_out wb1 @ [NetRecv (node_key (sample_senv 1)) [42]]
        \<and> mgr_writeTo (sample_senv 2) 0 (node_key (sample_senv 1)) (Some [43]) (mb3, wb3) = Inr (mb4, wb4) \<and> w_out wb4 = w_out wb3 @ [NetWrite answer (node_key (sample_senv 1))]
        \<and> mgr_handleData (sample_senv 1) 0 (node_key (sample_senv 2)) answer (ma2, wa2) = Inr (ma3, wa3) \<and> w_out wa3 = w_out wa2 @ [NetRecv (node_key (sample_senv 2)) [43]]"
    using first_message_and_reply [OF sample_own(2) e sample_own(1) sample_own(1) refl refl n n p(1,2) t, of "[42]" 6000000000 0 8000000000 0 "[43]" 0] by blast
  from d [THEN spec, of True] x p(3) show ?thesis by auto
qed

theorem session_tables_in_order_witness:
  "\<exists>mgr w buf. (mgr_step (sample_senv 2))\<^sup>*\<^sup>* ((mgr_init, rich_world), []) ((mgr, w), [])
    \<and> m_get (sm_buffers mgr) 7 = Some buf \<and> will_run [] w (sb_timer buf) (ExpireBuffer 7 (sb_id buf))"
proof -
  have n: "m_get (sm_sessions mgr_init) 7 = None" "m_get (sm_buffers mgr_init) 7 = None" by (simp_all add: mgr_init_def)
  have p: "w_privs rich_world = 1 # 2 # 3 # [4, 5, 6, 7, 8, 9]" "w_armed rich_world = []" by (simp_all add: rich_world_def)
  obtain buf mgr w where w: "mgr_writeTo (sample_senv 2) 0 7 None (mgr_init, rich_world) = Inr (mgr, w)" "m_get (sm_buffers mgr) 7 = Some buf"
    using writeTo_new [OF sample_own(2) n p(1), of 2 0 None] by blast
  have r: "(mgr_step (sample_senv 2))\<^sup>*\<^sup>* ((mgr_init, rich_world), []) ((mgr, w), [])"
    using w(1) by (intro r_into_rtranclp mgr_handles [where ev = "MgrWrite 7 None" and now = 0]) simp
  then show ?thesis using w(2) session_tables_in_order [OF p(2) r] by blast
qed

end
