(* ===== verification/Codec.thy ===== *)
theory Codec
  imports Crypto
begin

text \<open>
  The interface \<open>wireEncodeable\<close> of \<^verbatim>\<open>ironwood/network/wire.go\<close> as a locale:
  every message has a size, an encoder that appends to a buffer and panics when it did not
  append exactly that size, and a decoder. A provider shows three laws about the bytes its
  encoder appends; what the callers need (no panic, round trip, relaying) follows once.
\<close>

definition wireEncode :: "bytes \<Rightarrow> wirePacketType \<Rightarrow> (bytes \<Rightarrow> bytes result) \<Rightarrow> bytes result" where
  "wireEncode out pType obj_encode = obj_encode (out @ [wire_code pType])"

text \<open>The closing test of every encoder: \<open>if end-start != size() { panic }\<close>.\<close>

definition check_size :: "nat \<Rightarrow> bytes \<Rightarrow> nat result \<Rightarrow> bytes result" where
  "check_size start out sz =
     and_then sz (\<lambda>n. if int (length out) - int start \<noteq> int n then Inl Panic else Inr out)"

lemma check_size_append [wire_simps]:
  "check_size (length out) (out @ bs) (Inr (length bs)) = Inr (out @ bs)"
  by (simp add: check_size_def)

locale wire_codec =
  fixes size_of :: "'a \<Rightarrow> nat result"
    and encode :: "bytes \<Rightarrow> 'a \<Rightarrow> bytes result"
    and decode :: "bytes \<Rightarrow> 'a result"
    and wf :: "'a \<Rightarrow> bool"
    and payload :: "'a \<Rightarrow> bytes"
  assumes size_payload: "size_of x = Inr (length (payload x))"
    and encode_payload: "encode out x = Inr (out @ payload x)"
    and decode_payload: "wf x \<Longrightarrow> decode (payload x) = Inr x"
    and decode_wf: "decode bs = Inr x \<Longrightarrow> wf x"
begin

lemma encode_total:
  "\<exists>bs. encode out x = Inr (out @ bs) \<and> size_of x = Inr (length bs)"
  by (simp add: encode_payload size_payload)

lemma decode_encode:
  "wf x \<Longrightarrow> encode [] x = Inr bs \<Longrightarrow> decode bs = Inr x"
  by (auto simp: encode_payload decode_payload)

lemma relay:
  "decode bs = Inr x \<Longrightarrow> \<exists>bs'. encode [] x = Inr bs' \<and> decode bs' = Inr x"
  by (auto simp: encode_payload decode_payload dest: decode_wf)

lemma payload_inject: "wf x \<Longrightarrow> wf y \<Longrightarrow> payload x = payload y \<Longrightarrow> x = y"
  by (metis decode_payload sum.inject(2))

lemma wireEncode_payload:
  "wireEncode out t (\<lambda>o'. encode o' x) = Inr (out @ wire_code t # payload x)"
  by (simp add: wireEncode_def encode_payload)

end

end
