(* ===== verification/Messages.thy ===== *)
theory Messages
  imports Codec
begin

text \<open>
  The protocol messages: \<open>routerSigReq\<close>, \<open>routerSigRes\<close>, \<open>routerAnnounce\<close> and \<open>routerInfo\<close>
  of \<^verbatim>\<open>ironwood/network/router.go\<close>, \<open>pathLookup\<close>, \<open>pathNotifyInfo\<close>, \<open>pathNotify\<close>
  and \<open>pathBroken\<close> of \<^verbatim>\<open>ironwood/network/pathfinder.go\<close> and \<open>traffic\<close> of
  \<^verbatim>\<open>ironwood/network/traffic.go\<close>, each with its size, encoder, decoder and signature
  checks. An embedded struct is a field. Every message interprets \<open>wire_codec\<close>: its encoder
  cannot panic, decoding inverts encoding, and whatever decodes can be relayed unchanged.
\<close>

subsection \<open>routerSigReq\<close>

record routerSigReq =
  req_seq :: u64
  req_nonce :: u64

definition routerSigReq_size :: "routerSigReq \<Rightarrow> nat result" where
  "routerSigReq_size req =
     and_then (wireSizeUint (req_seq req)) (\<lambda>n.
     and_then (wireSizeUint (req_nonce req)) (\<lambda>m. Inr (n + m)))"

definition routerSigReq_encode :: "bytes \<Rightarrow> routerSigReq \<Rightarrow> bytes result" where
  "routerSigReq_encode out req =
     (let start = length out;
          out1 = wireAppendUint out (req_seq req);
          out2 = wireAppendUint out1 (req_nonce req)
      in check_size start out2 (routerSigReq_size req))"

definition routerSigReq_bytesForSig :: "routerSigReq \<Rightarrow> publicKey \<Rightarrow> publicKey \<Rightarrow> bytes result" where
  "routerSigReq_bytesForSig req node parent =
     routerSigReq_encode (key_bytes node @ key_bytes parent) req"

definition routerSigReq_chop :: "bytes \<Rightarrow> (routerSigReq \<times> bytes) result" where
  "routerSigReq_chop data =
     and_then (ok_or ErrDecode (wireChopUint data)) (\<lambda>(seq, data).
     and_then (ok_or ErrDecode (wireChopUint data)) (\<lambda>(nonce, data).
       Inr (\<lparr>req_seq = seq, req_nonce = nonce\<rparr>, data)))"

definition routerSigReq_decode :: "bytes \<Rightarrow> routerSigReq result" where
  "routerSigReq_decode data =
     and_then (routerSigReq_chop data) (\<lambda>(tmp, data).
       if data \<noteq> [] then Inl (Error ErrDecode) else Inr tmp)"

definition sigReq_bytes :: "routerSigReq \<Rightarrow> bytes" where
  "sigReq_bytes req = uvarint_bytes (req_seq req) @ uvarint_bytes (req_nonce req)"

lemma routerSigReq_size_eq [wire_simps]:
  "routerSigReq_size req = Inr (length (sigReq_bytes req))"
  by (simp add: routerSigReq_size_def sigReq_bytes_def wire_simps)

lemma routerSigReq_encode_eq [wire_simps]:
  "routerSigReq_encode out req = Inr (out @ sigReq_bytes req)"
proof -
  have "wireAppendUint (wireAppendUint out (req_seq req)) (req_nonce req) = out @ sigReq_bytes req"
    by (simp add: sigReq_bytes_def wire_simps)
  then show ?thesis
    by (simp add: routerSigReq_encode_def routerSigReq_size_eq check_size_append)
qed

lemma routerSigReq_chop_bytes [wire_simps]:
  "routerSigReq_chop (sigReq_bytes req @ rest) = Inr (req, rest)"
  by (simp add: routerSigReq_chop_def sigReq_bytes_def wire_simps)

interpretation sigReq: wire_codec
  routerSigReq_size routerSigReq_encode routerSigReq_decode "\<lambda>_. True" sigReq_bytes
  using routerSigReq_chop_bytes [where rest = "[]"]
  by unfold_locales (simp_all add: wire_simps routerSigReq_decode_def)

subsection \<open>routerSigRes\<close>

record routerSigRes =
  res_req :: routerSigReq
  res_port :: peerPort
  res_psig :: signature

definition routerSigRes_bytesForSig :: "routerSigRes \<Rightarrow> publicKey \<Rightarrow> publicKey \<Rightarrow> bytes result" where
  "routerSigRes_bytesForSig res node parent =
     and_then (routerSigReq_bytesForSig (res_req res) node parent)
       (\<lambda>bs. Inr (wireAppendUint bs (res_port res)))"

definition routerSigRes_check :: "ed25519 \<Rightarrow> routerSigRes \<Rightarrow> publicKey \<Rightarrow> publicKey \<Rightarrow> bool result" where
  "routerSigRes_check ed res node parent =
     and_then (routerSigRes_bytesForSig res node parent)
       (\<lambda>bs. Inr (publicKey_verify ed parent bs (res_psig res)))"

definition routerSigRes_size :: "routerSigRes \<Rightarrow> nat result" where
  "routerSigRes_size res =
     and_then (routerSigReq_size (res_req res)) (\<lambda>n.
     and_then (wireSizeUint (res_port res)) (\<lambda>m. Inr (n + m + signatureSize)))"

definition routerSigRes_encode :: "bytes \<Rightarrow> routerSigRes \<Rightarrow> bytes result" where
  "routerSigRes_encode out res =
     (let start = length out in
      and_then (routerSigReq_encode out (res_req res)) (\<lambda>out.
        let out1 = wireAppendUint out (res_port res);
            out2 = out1 @ sig_bytes (res_psig res)
        in check_size start out2 (routerSigRes_size res)))"

definition routerSigRes_chop :: "bytes \<Rightarrow> (routerSigRes \<times> bytes) result" where
  "routerSigRes_chop data =
     and_then (routerSigReq_chop data) (\<lambda>(req, data).
     and_then (ok_or ErrDecode (wireChopUint data)) (\<lambda>(port, data).
     and_then (ok_or ErrDecode (wireChopSlice signatureSize data)) (\<lambda>(psig, data).
       Inr (\<lparr>res_req = req, res_port = port, res_psig = be_word psig\<rparr>, data))))"

definition routerSigRes_decode :: "bytes \<Rightarrow> routerSigRes result" where
  "routerSigRes_decode data =
     and_then (routerSigRes_chop data) (\<lambda>(tmp, data).
       if data \<noteq> [] then Inl (Error ErrDecode) else Inr tmp)"

definition sigRes_bytes :: "routerSigRes \<Rightarrow> bytes" where
  "sigRes_bytes res =
     sigReq_bytes (res_req res) @ uvarint_bytes (res_port res) @ sig_bytes (res_psig res)"

lemma routerSigRes_size_eq [wire_simps]:
  "routerSigRes_size res = Inr (length (sigRes_bytes res))"
  by (simp add: routerSigRes_size_def sigRes_bytes_def wire_simps signatureSize_def)

lemma routerSigRes_encode_eq [wire_simps]:
  "routerSigRes_encode out res = Inr (out @ sigRes_bytes res)"
proof -
  have "wireAppendUint (out @ sigReq_bytes (res_req res)) (res_port res) @ sig_bytes (res_psig res)
      = out @ sigRes_bytes res"
    by (simp add: sigRes_bytes_def wire_simps)
  then show ?thesis
    by (simp add: routerSigRes_encode_def routerSigRes_size_eq check_size_append
        routerSigReq_encode_eq Let_def)
qed

lemma routerSigRes_chop_bytes [wire_simps]:
  "routerSigRes_chop (sigRes_bytes res @ rest) = Inr (res, rest)"
  by (simp add: routerSigRes_chop_def sigRes_bytes_def wire_simps signatureSize_def)

interpretation sigRes: wire_codec
  routerSigRes_size routerSigRes_encode routerSigRes_decode "\<lambda>_. True" sigRes_bytes
  using routerSigRes_chop_bytes [where rest = "[]"]
  by unfold_locales (simp_all add: wire_simps routerSigRes_decode_def)

text \<open>The bytes a parent signs for a child: both keys, the request and the port.\<close>

definition sigRes_message :: "routerSigRes \<Rightarrow> publicKey \<Rightarrow> publicKey \<Rightarrow> bytes" where
  "sigRes_message res node parent =
     key_bytes node @ key_bytes parent @ sigReq_bytes (res_req res) @ uvarint_bytes (res_port res)"

lemma routerSigRes_bytesForSig_eq [wire_simps]:
  "routerSigRes_bytesForSig res node parent = Inr (sigRes_message res node parent)"
  by (simp add: routerSigRes_bytesForSig_def routerSigReq_bytesForSig_def sigRes_message_def
      wire_simps)

text \<open>The signed bytes determine everything they are meant to bind.\<close>

lemma sigRes_message_inject:
  assumes "sigRes_message res node parent = sigRes_message res' node' parent'"
  shows "node = node' \<and> parent = parent' \<and> res_req res = res_req res' \<and> res_port res = res_port res'"
proof -
  from assms have keys: "key_bytes node = key_bytes node'" "key_bytes parent = key_bytes parent'"
    and rest: "sigReq_bytes (res_req res) @ uvarint_bytes (res_port res)
      = sigReq_bytes (res_req res') @ uvarint_bytes (res_port res')"
    by (auto simp: sigRes_message_def)
  from rest have "routerSigReq_chop (sigReq_bytes (res_req res) @ uvarint_bytes (res_port res))
      = routerSigReq_chop (sigReq_bytes (res_req res') @ uvarint_bytes (res_port res'))"
    by simp
  then have req: "res_req res = res_req res'"
    and port: "uvarint_bytes (res_port res) = uvarint_bytes (res_port res')"
    by (simp_all add: routerSigReq_chop_bytes)
  from port have "wireChopUint (uvarint_bytes (res_port res) @ [])
      = wireChopUint (uvarint_bytes (res_port res') @ [])" by simp
  then have "res_port res = res_port res'" by (simp only: wireChopUint_append option.inject prod.inject)
  with keys req show ?thesis by (simp add: be_bytes_inject)
qed

subsection \<open>routerAnnounce and routerInfo\<close>

record routerAnnounce =
  ann_key :: publicKey
  ann_parent :: publicKey
  ann_res :: routerSigRes
  ann_sig :: signature

abbreviation ann_port :: "routerAnnounce \<Rightarrow> peerPort" where
  "ann_port ann \<equiv> res_port (ann_res ann)"

abbreviation ann_seq :: "routerAnnounce \<Rightarrow> u64" where
  "ann_seq ann \<equiv> req_seq (res_req (ann_res ann))"

abbreviation ann_nonce :: "routerAnnounce \<Rightarrow> u64" where
  "ann_nonce ann \<equiv> req_nonce (res_req (ann_res ann))"

definition routerAnnounce_check :: "ed25519 \<Rightarrow> routerAnnounce \<Rightarrow> bool result" where
  "routerAnnounce_check ed ann =
     (if ann_port ann = 0 \<and> ann_key ann \<noteq> ann_parent ann then Inr False
      else and_then (routerSigRes_bytesForSig (ann_res ann) (ann_key ann) (ann_parent ann))
        (\<lambda>bs. Inr (publicKey_verify ed (ann_key ann) bs (ann_sig ann) \<and>
                    publicKey_verify ed (ann_parent ann) bs (res_psig (ann_res ann)))))"

definition routerAnnounce_size :: "routerAnnounce \<Rightarrow> nat result" where
  "routerAnnounce_size ann =
     and_then (routerSigRes_size (ann_res ann))
       (\<lambda>n. Inr (publicKeySize + publicKeySize + n + signatureSize))"

definition routerAnnounce_encode :: "bytes \<Rightarrow> routerAnnounce \<Rightarrow> bytes result" where
  "routerAnnounce_encode out ann =
     (let start = length out;
          out1 = out @ key_bytes (ann_key ann);
          out2 = out1 @ key_bytes (ann_parent ann)
      in and_then (routerSigRes_encode out2 (ann_res ann)) (\<lambda>out3.
           check_size start (out3 @ sig_bytes (ann_sig ann)) (routerAnnounce_size ann)))"

definition routerAnnounce_decode :: "bytes \<Rightarrow> routerAnnounce result" where
  "routerAnnounce_decode data =
     and_then (ok_or ErrDecode (wireChopSlice publicKeySize data)) (\<lambda>(key, data).
     and_then (ok_or ErrDecode (wireChopSlice publicKeySize data)) (\<lambda>(parent, data).
     and_then (routerSigRes_chop data) (\<lambda>(res, data).
     and_then (ok_or ErrDecode (wireChopSlice signatureSize data)) (\<lambda>(sig, data).
       if data \<noteq> [] then Inl (Error ErrDecode)
       else Inr \<lparr>ann_key = be_word key, ann_parent = be_word parent,
                 ann_res = res, ann_sig = be_word sig\<rparr>))))"

definition announce_bytes :: "routerAnnounce \<Rightarrow> bytes" where
  "announce_bytes ann =
     key_bytes (ann_key ann) @ key_bytes (ann_parent ann) @ sigRes_bytes (ann_res ann)
       @ sig_bytes (ann_sig ann)"

lemma routerAnnounce_size_eq [wire_simps]:
  "routerAnnounce_size ann = Inr (length (announce_bytes ann))"
  by (simp add: routerAnnounce_size_def announce_bytes_def wire_simps signatureSize_def
      publicKeySize_def)

lemma routerAnnounce_encode_eq [wire_simps]:
  "routerAnnounce_encode out ann = Inr (out @ announce_bytes ann)"
proof -
  have "((out @ key_bytes (ann_key ann)) @ key_bytes (ann_parent ann)) @ sigRes_bytes (ann_res ann)
      @ sig_bytes (ann_sig ann) = out @ announce_bytes ann"
    by (simp add: announce_bytes_def)
  then show ?thesis
    using check_size_append [of out "announce_bytes ann"]
    by (simp add: routerAnnounce_encode_def routerAnnounce_size_eq routerSigRes_encode_eq Let_def)
qed

lemma routerAnnounce_decode_bytes: "routerAnnounce_decode (announce_bytes ann) = Inr ann"
  by (simp add: routerAnnounce_decode_def announce_bytes_def publicKeySize_def signatureSize_def
      wireChopSlice_append routerSigRes_chop_bytes be_word_key_bytes be_word_sig_bytes
      wireChopSlice_append [where ys = "[]", simplified])

interpretation announce: wire_codec
  routerAnnounce_size routerAnnounce_encode routerAnnounce_decode "\<lambda>_. True" announce_bytes
  by unfold_locales (simp_all add: wire_simps routerAnnounce_decode_bytes)

text \<open>The value stored in \<open>router.infos\<close>.\<close>

record routerInfo =
  info_parent :: publicKey
  info_res :: routerSigRes
  info_sig :: signature

abbreviation info_seq :: "routerInfo \<Rightarrow> u64" where
  "info_seq info \<equiv> req_seq (res_req (info_res info))"

abbreviation info_nonce :: "routerInfo \<Rightarrow> u64" where
  "info_nonce info \<equiv> req_nonce (res_req (info_res info))"

abbreviation info_port :: "routerInfo \<Rightarrow> peerPort" where
  "info_port info \<equiv> res_port (info_res info)"

definition getAnnounce :: "routerInfo \<Rightarrow> publicKey \<Rightarrow> routerAnnounce" where
  "getAnnounce info key =
     \<lparr>ann_key = key, ann_parent = info_parent info, ann_res = info_res info,
      ann_sig = info_sig info\<rparr>"

subsection \<open>pathLookup\<close>

record pathLookup =
  lookup_source :: publicKey
  lookup_dest :: publicKey
  lookup_from :: "peerPort list"

definition pathLookup_size :: "pathLookup \<Rightarrow> nat result" where
  "pathLookup_size l =
     and_then (wireSizePath (lookup_from l)) (\<lambda>n. Inr (publicKeySize + publicKeySize + n))"

definition pathLookup_encode :: "bytes \<Rightarrow> pathLookup \<Rightarrow> bytes result" where
  "pathLookup_encode out l =
     (let start = length out;
          out1 = out @ key_bytes (lookup_source l);
          out2 = out1 @ key_bytes (lookup_dest l);
          out3 = wireAppendPath out2 (lookup_from l)
      in check_size start out3 (pathLookup_size l))"

definition pathLookup_decode :: "bytes \<Rightarrow> pathLookup result" where
  "pathLookup_decode data =
     and_then (ok_or ErrDecode (wireChopSlice publicKeySize data)) (\<lambda>(source, data).
     and_then (ok_or ErrDecode (wireChopSlice publicKeySize data)) (\<lambda>(dest, data).
     and_then (ok_or ErrDecode (wireChopPath [] data)) (\<lambda>(from, data).
       if data \<noteq> [] then Inl (Error ErrDecode)
       else Inr \<lparr>lookup_source = be_word source, lookup_dest = be_word dest,
                 lookup_from = from\<rparr>)))"

definition lookup_wf :: "pathLookup \<Rightarrow> bool" where
  "lookup_wf l \<longleftrightarrow> 0 \<notin> set (lookup_from l)"

definition lookup_bytes :: "pathLookup \<Rightarrow> bytes" where
  "lookup_bytes l =
     key_bytes (lookup_source l) @ key_bytes (lookup_dest l) @ path_bytes (lookup_from l)"

lemma pathLookup_size_eq [wire_simps]: "pathLookup_size l = Inr (length (lookup_bytes l))"
  by (simp add: pathLookup_size_def lookup_bytes_def wire_simps publicKeySize_def)

lemma pathLookup_encode_eq [wire_simps]: "pathLookup_encode out l = Inr (out @ lookup_bytes l)"
  using check_size_append [of out "lookup_bytes l"]
  by (simp add: pathLookup_encode_def pathLookup_size_eq wireAppendPath_append Let_def,
      simp add: lookup_bytes_def)

lemma wireChopPath_wf:
  "wireChopPath [] data = Some (path, rest) \<Longrightarrow> 0 \<notin> set path"
  using wireChopPath_Some(1) by fastforce

lemmas wireChopPath_exact = wireChopPath_append [where rest = "[]", simplified]

lemma pathLookup_decode_bytes: "lookup_wf l \<Longrightarrow> pathLookup_decode (lookup_bytes l) = Inr l"
  by (simp add: pathLookup_decode_def lookup_bytes_def lookup_wf_def publicKeySize_def
      wireChopSlice_append be_word_key_bytes wireChopPath_exact)

lemma pathLookup_decode_wf: "pathLookup_decode data = Inr l \<Longrightarrow> lookup_wf l"
  by (auto simp: pathLookup_decode_def lookup_wf_def and_then_eq_Inr split: if_splits
      dest: wireChopPath_wf)

interpretation pathLookup: wire_codec
  pathLookup_size pathLookup_encode pathLookup_decode lookup_wf lookup_bytes
  by unfold_locales
    (simp_all add: wire_simps pathLookup_decode_bytes pathLookup_decode_wf)

subsection \<open>pathNotifyInfo\<close>

record pathNotifyInfo =
  nfo_seq :: u64
  nfo_path :: "peerPort list"
  nfo_sig :: signature

text \<open>\<open>equal\<close> compares the sequence number and the path and ignores the signature.\<close>

fun path_equal_loop :: "peerPort list \<Rightarrow> peerPort list \<Rightarrow> bool" where
  "path_equal_loop (a # as) (b # bs) = (if a \<noteq> b then False else path_equal_loop as bs)"
| "path_equal_loop _ _ = True"

definition pathNotifyInfo_equal :: "pathNotifyInfo \<Rightarrow> pathNotifyInfo \<Rightarrow> bool" where
  "pathNotifyInfo_equal info cmp =
     (if nfo_seq info \<noteq> nfo_seq cmp then False
      else if length (nfo_path info) \<noteq> length (nfo_path cmp) then False
      else path_equal_loop (nfo_path info) (nfo_path cmp))"

definition pathNotifyInfo_bytesForSig :: "pathNotifyInfo \<Rightarrow> bytes" where
  "pathNotifyInfo_bytesForSig info =
     wireAppendPath (wireAppendUint [] (nfo_seq info)) (nfo_path info)"

definition pathNotifyInfo_sign :: "ed25519 \<Rightarrow> pathNotifyInfo \<Rightarrow> privateKey \<Rightarrow> pathNotifyInfo" where
  "pathNotifyInfo_sign ed info key =
     info\<lparr>nfo_sig := privateKey_sign ed key (pathNotifyInfo_bytesForSig info)\<rparr>"

definition pathNotifyInfo_size :: "pathNotifyInfo \<Rightarrow> nat result" where
  "pathNotifyInfo_size info =
     and_then (wireSizeUint (nfo_seq info)) (\<lambda>n.
     and_then (wireSizePath (nfo_path info)) (\<lambda>m. Inr (n + m + signatureSize)))"

definition pathNotifyInfo_encode :: "bytes \<Rightarrow> pathNotifyInfo \<Rightarrow> bytes result" where
  "pathNotifyInfo_encode out info =
     (let start = length out;
          out1 = wireAppendUint out (nfo_seq info);
          out2 = wireAppendPath out1 (nfo_path info);
          out3 = out2 @ sig_bytes (nfo_sig info)
      in check_size start out3 (pathNotifyInfo_size info))"

definition pathNotifyInfo_decode :: "bytes \<Rightarrow> pathNotifyInfo result" where
  "pathNotifyInfo_decode data =
     and_then (ok_or ErrDecode (wireChopUint data)) (\<lambda>(seq, data).
     and_then (ok_or ErrDecode (wireChopPath [] data)) (\<lambda>(path, data).
     and_then (ok_or ErrDecode (wireChopSlice signatureSize data)) (\<lambda>(sig, data).
       if data \<noteq> [] then Inl (Error ErrDecode)
       else Inr \<lparr>nfo_seq = seq, nfo_path = path, nfo_sig = be_word sig\<rparr>)))"

definition nfo_wf :: "pathNotifyInfo \<Rightarrow> bool" where
  "nfo_wf info \<longleftrightarrow> 0 \<notin> set (nfo_path info)"

definition nfo_bytes :: "pathNotifyInfo \<Rightarrow> bytes" where
  "nfo_bytes info =
     uvarint_bytes (nfo_seq info) @ path_bytes (nfo_path info) @ sig_bytes (nfo_sig info)"

lemma path_equal_loop_eq: "length xs = length ys \<Longrightarrow> path_equal_loop xs ys \<longleftrightarrow> xs = ys"
  by (induction xs ys rule: list_induct2) auto

lemma pathNotifyInfo_equal_iff:
  "pathNotifyInfo_equal info cmp \<longleftrightarrow> nfo_seq info = nfo_seq cmp \<and> nfo_path info = nfo_path cmp"
  by (auto simp: pathNotifyInfo_equal_def path_equal_loop_eq)

lemma pathNotifyInfo_size_eq [wire_simps]:
  "pathNotifyInfo_size info = Inr (length (nfo_bytes info))"
  by (simp add: pathNotifyInfo_size_def nfo_bytes_def wire_simps signatureSize_def)

lemma pathNotifyInfo_encode_eq [wire_simps]:
  "pathNotifyInfo_encode out info = Inr (out @ nfo_bytes info)"
  using check_size_append [of out "nfo_bytes info"]
  by (simp add: pathNotifyInfo_encode_def pathNotifyInfo_size_eq wireAppendPath_append
      wireAppendUint_append Let_def, simp add: nfo_bytes_def)

lemma pathNotifyInfo_decode_bytes:
  "nfo_wf info \<Longrightarrow> pathNotifyInfo_decode (nfo_bytes info) = Inr info"
  by (simp add: pathNotifyInfo_decode_def nfo_bytes_def nfo_wf_def signatureSize_def
      wireChopUint_append wireChopPath_append be_word_sig_bytes
      wireChopSlice_append [where ys = "[]", simplified])

lemma pathNotifyInfo_decode_wf: "pathNotifyInfo_decode data = Inr info \<Longrightarrow> nfo_wf info"
  by (auto simp: pathNotifyInfo_decode_def nfo_wf_def and_then_eq_Inr split: if_splits
      dest: wireChopPath_wf)

interpretation pathNotifyInfo: wire_codec
  pathNotifyInfo_size pathNotifyInfo_encode pathNotifyInfo_decode nfo_wf nfo_bytes
  by unfold_locales
    (simp_all add: wire_simps pathNotifyInfo_decode_bytes pathNotifyInfo_decode_wf)

subsection \<open>pathNotify\<close>

record pathNotify =
  notify_path :: "peerPort list"
  notify_watermark :: u64
  notify_source :: publicKey
  notify_dest :: publicKey
  notify_info :: pathNotifyInfo

definition pathNotify_check :: "ed25519 \<Rightarrow> pathNotify \<Rightarrow> bool" where
  "pathNotify_check ed notify =
     publicKey_verify ed (notify_source notify)
       (pathNotifyInfo_bytesForSig (notify_info notify)) (nfo_sig (notify_info notify))"

definition pathNotify_size :: "pathNotify \<Rightarrow> nat result" where
  "pathNotify_size notify =
     and_then (wireSizePath (notify_path notify)) (\<lambda>n.
     and_then (wireSizeUint (notify_watermark notify)) (\<lambda>m.
     and_then (pathNotifyInfo_size (notify_info notify)) (\<lambda>k.
       Inr (n + m + publicKeySize + publicKeySize + k))))"

definition pathNotify_encode :: "bytes \<Rightarrow> pathNotify \<Rightarrow> bytes result" where
  "pathNotify_encode out notify =
     (let start = length out;
          out1 = wireAppendPath out (notify_path notify);
          out2 = wireAppendUint out1 (notify_watermark notify);
          out3 = out2 @ key_bytes (notify_source notify);
          out4 = out3 @ key_bytes (notify_dest notify)
      in and_then (pathNotifyInfo_encode out4 (notify_info notify)) (\<lambda>out5.
           check_size start out5 (pathNotify_size notify)))"

definition pathNotify_decode :: "bytes \<Rightarrow> pathNotify result" where
  "pathNotify_decode data =
     and_then (ok_or ErrDecode (wireChopPath [] data)) (\<lambda>(path, data).
     and_then (ok_or ErrDecode (wireChopUint data)) (\<lambda>(watermark, data).
     and_then (ok_or ErrDecode (wireChopSlice publicKeySize data)) (\<lambda>(source, data).
     and_then (ok_or ErrDecode (wireChopSlice publicKeySize data)) (\<lambda>(dest, data).
     and_then (pathNotifyInfo_decode data) (\<lambda>info.
       Inr \<lparr>notify_path = path, notify_watermark = watermark, notify_source = be_word source,
            notify_dest = be_word dest, notify_info = info\<rparr>)))))"

definition notify_wf :: "pathNotify \<Rightarrow> bool" where
  "notify_wf n \<longleftrightarrow> 0 \<notin> set (notify_path n) \<and> nfo_wf (notify_info n)"

definition notify_bytes :: "pathNotify \<Rightarrow> bytes" where
  "notify_bytes n =
     path_bytes (notify_path n) @ uvarint_bytes (notify_watermark n)
       @ key_bytes (notify_source n) @ key_bytes (notify_dest n) @ nfo_bytes (notify_info n)"

lemma pathNotify_size_eq [wire_simps]: "pathNotify_size n = Inr (length (notify_bytes n))"
  by (simp add: pathNotify_size_def notify_bytes_def wire_simps publicKeySize_def)

lemma pathNotify_encode_eq [wire_simps]: "pathNotify_encode out n = Inr (out @ notify_bytes n)"
  using check_size_append [of out "notify_bytes n"]
  by (simp add: pathNotify_encode_def pathNotify_size_eq wireAppendPath_append
      wireAppendUint_append pathNotifyInfo_encode_eq Let_def, simp add: notify_bytes_def)

lemma pathNotify_decode_bytes: "notify_wf n \<Longrightarrow> pathNotify_decode (notify_bytes n) = Inr n"
  by (simp add: pathNotify_decode_def notify_bytes_def notify_wf_def publicKeySize_def
      wireChopUint_append wireChopPath_append wireChopSlice_append be_word_key_bytes
      pathNotifyInfo_decode_bytes)

lemma pathNotify_decode_wf: "pathNotify_decode data = Inr n \<Longrightarrow> notify_wf n"
  by (auto simp: pathNotify_decode_def notify_wf_def and_then_eq_Inr
      dest: wireChopPath_wf pathNotifyInfo_decode_wf)

interpretation pathNotify: wire_codec
  pathNotify_size pathNotify_encode pathNotify_decode notify_wf notify_bytes
  by unfold_locales
    (simp_all add: wire_simps pathNotify_decode_bytes pathNotify_decode_wf)

subsection \<open>pathBroken\<close>

record pathBroken =
  broken_path :: "peerPort list"
  broken_watermark :: u64
  broken_source :: publicKey
  broken_dest :: publicKey

definition pathBroken_size :: "pathBroken \<Rightarrow> nat result" where
  "pathBroken_size broken =
     and_then (wireSizePath (broken_path broken)) (\<lambda>n.
     and_then (wireSizeUint (broken_watermark broken)) (\<lambda>m.
       Inr (n + m + publicKeySize + publicKeySize)))"

definition pathBroken_encode :: "bytes \<Rightarrow> pathBroken \<Rightarrow> bytes result" where
  "pathBroken_encode out broken =
     (let start = length out;
          out1 = wireAppendPath out (broken_path broken);
          out2 = wireAppendUint out1 (broken_watermark broken);
          out3 = out2 @ key_bytes (broken_source broken);
          out4 = out3 @ key_bytes (broken_dest broken)
      in check_size start out4 (pathBroken_size broken))"

definition pathBroken_decode :: "bytes \<Rightarrow> pathBroken result" where
  "pathBroken_decode data =
     and_then (ok_or ErrDecode (wireChopPath [] data)) (\<lambda>(path, data).
     and_then (ok_or ErrDecode (wireChopUint data)) (\<lambda>(watermark, data).
     and_then (ok_or ErrDecode (wireChopSlice publicKeySize data)) (\<lambda>(source, data).
     and_then (ok_or ErrDecode (wireChopSlice publicKeySize data)) (\<lambda>(dest, data).
       if data \<noteq> [] then Inl (Error ErrDecode)
       else Inr \<lparr>broken_path = path, broken_watermark = watermark,
                 broken_source = be_word source, broken_dest = be_word dest\<rparr>))))"

definition broken_wf :: "pathBroken \<Rightarrow> bool" where
  "broken_wf b \<longleftrightarrow> 0 \<notin> set (broken_path b)"

definition broken_bytes :: "pathBroken \<Rightarrow> bytes" where
  "broken_bytes b =
     path_bytes (broken_path b) @ uvarint_bytes (broken_watermark b)
       @ key_bytes (broken_source b) @ key_bytes (broken_dest b)"

lemma pathBroken_size_eq [wire_simps]: "pathBroken_size b = Inr (length (broken_bytes b))"
  by (simp add: pathBroken_size_def broken_bytes_def wire_simps publicKeySize_def)

lemma pathBroken_encode_eq [wire_simps]: "pathBroken_encode out b = Inr (out @ broken_bytes b)"
  using check_size_append [of out "broken_bytes b"]
  by (simp add: pathBroken_encode_def pathBroken_size_eq wireAppendPath_append
      wireAppendUint_append Let_def, simp add: broken_bytes_def)

lemma pathBroken_decode_bytes: "broken_wf b \<Longrightarrow> pathBroken_decode (broken_bytes b) = Inr b"
  by (simp add: pathBroken_decode_def broken_bytes_def broken_wf_def publicKeySize_def
      wireChopUint_append wireChopPath_append wireChopSlice_append be_word_key_bytes
      wireChopSlice_append [where ys = "[]", simplified])

lemma pathBroken_decode_wf: "pathBroken_decode data = Inr b \<Longrightarrow> broken_wf b"
  by (auto simp: pathBroken_decode_def broken_wf_def and_then_eq_Inr split: if_splits
      dest: wireChopPath_wf)

interpretation pathBroken: wire_codec
  pathBroken_size pathBroken_encode pathBroken_decode broken_wf broken_bytes
  by unfold_locales
    (simp_all add: wire_simps pathBroken_decode_bytes pathBroken_decode_wf)

subsection \<open>traffic\<close>

record traffic =
  tr_path :: "peerPort list"
  tr_from :: "peerPort list"
  tr_source :: publicKey
  tr_dest :: publicKey
  tr_watermark :: u64
  tr_payload :: bytes

definition traffic_size :: "traffic \<Rightarrow> nat result" where
  "traffic_size tr =
     and_then (wireSizePath (tr_path tr)) (\<lambda>n.
     and_then (wireSizePath (tr_from tr)) (\<lambda>m.
     and_then (wireSizeUint (tr_watermark tr)) (\<lambda>k.
       Inr (n + m + publicKeySize + publicKeySize + k + length (tr_payload tr)))))"

definition traffic_encode :: "bytes \<Rightarrow> traffic \<Rightarrow> bytes result" where
  "traffic_encode out tr =
     (let start = length out;
          out1 = wireAppendPath out (tr_path tr);
          out2 = wireAppendPath out1 (tr_from tr);
          out3 = out2 @ key_bytes (tr_source tr);
          out4 = out3 @ key_bytes (tr_dest tr);
          out5 = wireAppendUint out4 (tr_watermark tr);
          out6 = out5 @ tr_payload tr
      in check_size start out6 (traffic_size tr))"

definition traffic_decode :: "bytes \<Rightarrow> traffic result" where
  "traffic_decode data =
     and_then (ok_or ErrDecode (wireChopPath [] data)) (\<lambda>(path, data).
     and_then (ok_or ErrDecode (wireChopPath [] data)) (\<lambda>(from, data).
     and_then (ok_or ErrDecode (wireChopSlice publicKeySize data)) (\<lambda>(source, data).
     and_then (ok_or ErrDecode (wireChopSlice publicKeySize data)) (\<lambda>(dest, data).
     and_then (ok_or ErrDecode (wireChopUint data)) (\<lambda>(watermark, data).
       Inr \<lparr>tr_path = path, tr_from = from, tr_source = be_word source,
            tr_dest = be_word dest, tr_watermark = watermark, tr_payload = data\<rparr>)))))"

definition traffic_wf :: "traffic \<Rightarrow> bool" where
  "traffic_wf tr \<longleftrightarrow> 0 \<notin> set (tr_path tr) \<and> 0 \<notin> set (tr_from tr)"

definition traffic_bytes :: "traffic \<Rightarrow> bytes" where
  "traffic_bytes tr =
     path_bytes (tr_path tr) @ path_bytes (tr_from tr) @ key_bytes (tr_source tr)
       @ key_bytes (tr_dest tr) @ uvarint_bytes (tr_watermark tr) @ tr_payload tr"

lemma traffic_size_eq [wire_simps]: "traffic_size tr = Inr (length (traffic_bytes tr))"
  by (simp add: traffic_size_def traffic_bytes_def wire_simps publicKeySize_def)

lemma traffic_encode_eq [wire_simps]: "traffic_encode out tr = Inr (out @ traffic_bytes tr)"
  using check_size_append [of out "traffic_bytes tr"]
  by (simp add: traffic_encode_def traffic_size_eq wireAppendPath_append
      wireAppendUint_append Let_def, simp add: traffic_bytes_def)

lemma traffic_decode_bytes: "traffic_wf tr \<Longrightarrow> traffic_decode (traffic_bytes tr) = Inr tr"
  by (simp add: traffic_decode_def traffic_bytes_def traffic_wf_def publicKeySize_def
      wireChopUint_append wireChopPath_append wireChopSlice_append be_word_key_bytes)

lemma traffic_decode_wf: "traffic_decode data = Inr tr \<Longrightarrow> traffic_wf tr"
  by (auto simp: traffic_decode_def traffic_wf_def and_then_eq_Inr dest: wireChopPath_wf)

interpretation traffic_codec: wire_codec
  traffic_size traffic_encode traffic_decode traffic_wf traffic_bytes
  by unfold_locales
    (simp_all add: wire_simps traffic_decode_bytes traffic_decode_wf)

subsection \<open>Properties\<close>

text \<open>
  The tree protocol messages (\<open>routerSigReq\<close>, \<open>routerSigRes\<close>, \<open>routerAnnounce\<close>): every value is
  encoded without the size panic, to as many bytes as \<open>size\<close> promises, and decodes to itself.
\<close>

theorem tree_messages_roundtrip:
  "(\<exists>bs. routerSigReq_encode [] req = Inr bs \<and> routerSigReq_size req = Inr (length bs)
      \<and> routerSigReq_decode bs = Inr req)
   \<and> (\<exists>bs. routerSigRes_encode [] res = Inr bs \<and> routerSigRes_size res = Inr (length bs)
      \<and> routerSigRes_decode bs = Inr res)
   \<and> (\<exists>bs. routerAnnounce_encode [] ann = Inr bs \<and> routerAnnounce_size ann = Inr (length bs)
      \<and> routerAnnounce_decode bs = Inr ann)"
  by (simp add: sigReq.encode_payload sigReq.size_payload sigReq.decode_payload
      sigRes.encode_payload sigRes.size_payload sigRes.decode_payload
      announce.encode_payload announce.size_payload announce.decode_payload)

text \<open>
  The messages that carry paths (\<open>pathLookup\<close>, \<open>pathNotify\<close>, \<open>pathBroken\<close>, \<open>traffic\<close>): the encoders
  never panic, and when the paths are free of the zero port, which ends a path on the wire, the
  bytes decode to the message.
\<close>

theorem path_messages_roundtrip:
  assumes "lookup_wf lk" "notify_wf notify" "broken_wf broken" "traffic_wf tr"
  shows "(\<exists>bs. pathLookup_encode [] lk = Inr bs \<and> pathLookup_size lk = Inr (length bs)
      \<and> pathLookup_decode bs = Inr lk)
   \<and> (\<exists>bs. pathNotify_encode [] notify = Inr bs \<and> pathNotify_size notify = Inr (length bs)
      \<and> pathNotify_decode bs = Inr notify)
   \<and> (\<exists>bs. pathBroken_encode [] broken = Inr bs \<and> pathBroken_size broken = Inr (length bs)
      \<and> pathBroken_decode bs = Inr broken)
   \<and> (\<exists>bs. traffic_encode [] tr = Inr bs \<and> traffic_size tr = Inr (length bs)
      \<and> traffic_decode bs = Inr tr)"
  using assms
  by (simp add: pathLookup.encode_payload pathLookup.size_payload pathLookup.decode_payload
      pathNotify.encode_payload pathNotify.size_payload pathNotify.decode_payload
      pathBroken.encode_payload pathBroken.size_payload pathBroken.decode_payload
      traffic_codec.encode_payload traffic_codec.size_payload traffic_codec.decode_payload)

definition sample_lookup :: pathLookup where
  "sample_lookup = \<lparr> lookup_source = 1, lookup_dest = 2, lookup_from = [3, 4] \<rparr>"

definition sample_notify :: pathNotify where
  "sample_notify = \<lparr> notify_path = [3], notify_watermark = NOT 0, notify_source = 2, notify_dest = 1,
     notify_info = \<lparr> nfo_seq = 7, nfo_path = [5, 6], nfo_sig = 0 \<rparr> \<rparr>"

definition sample_broken :: pathBroken where
  "sample_broken = \<lparr> broken_path = [3], broken_watermark = 9, broken_source = 1, broken_dest = 2 \<rparr>"

definition sample_traffic :: traffic where
  "sample_traffic = \<lparr> tr_path = [5, 6], tr_from = [3], tr_source = 1, tr_dest = 2, tr_watermark = 9,
     tr_payload = [1, 2, 3] \<rparr>"

lemma samples_wf:
  "lookup_wf sample_lookup" "notify_wf sample_notify" "broken_wf sample_broken" "traffic_wf sample_traffic"
  by (simp_all add: lookup_wf_def notify_wf_def nfo_wf_def broken_wf_def traffic_wf_def
      sample_lookup_def sample_notify_def sample_broken_def sample_traffic_def)

theorem path_messages_roundtrip_witness:
  "\<exists>bs. traffic_encode [] sample_traffic = Inr bs \<and> traffic_decode bs = Inr sample_traffic"
  using path_messages_roundtrip [OF samples_wf] by blast

text \<open>
  Relaying: a node that decodes a message from the wire and encodes it again for the next hop
  sends bytes that decode to the same message, for every byte string a peer may have sent.
\<close>

theorem relayed_messages_survive:
  "(\<forall>lk. pathLookup_decode data = Inr lk \<longrightarrow>
      (\<exists>bs. pathLookup_encode [] lk = Inr bs \<and> pathLookup_decode bs = Inr lk))
   \<and> (\<forall>notify. pathNotify_decode data = Inr notify \<longrightarrow>
      (\<exists>bs. pathNotify_encode [] notify = Inr bs \<and> pathNotify_decode bs = Inr notify))
   \<and> (\<forall>broken. pathBroken_decode data = Inr broken \<longrightarrow>
      (\<exists>bs. pathBroken_encode [] broken = Inr bs \<and> pathBroken_decode bs = Inr broken))
   \<and> (\<forall>tr. traffic_decode data = Inr tr \<longrightarrow>
      (\<exists>bs. traffic_encode [] tr = Inr bs \<and> traffic_decode bs = Inr tr))"
  by (blast dest: pathLookup.relay pathNotify.relay pathBroken.relay traffic_codec.relay)

theorem relayed_messages_survive_witness:
  "traffic_decode (traffic_bytes sample_traffic) = Inr sample_traffic
   \<and> (\<exists>bs. traffic_encode [] sample_traffic = Inr bs \<and> traffic_decode bs = Inr sample_traffic)"
proof -
  have "traffic_decode (traffic_bytes sample_traffic) = Inr sample_traffic"
    by (rule traffic_decode_bytes) (rule samples_wf)
  with relayed_messages_survive [of "traffic_bytes sample_traffic"] show ?thesis by blast
qed

text \<open>
  What a signature binds: the bytes that a node and its parent sign are equal exactly when node,
  parent, sequence number, nonce and port are; a signature cannot be moved to another edge of the tree.
\<close>

theorem signed_bytes_bind:
  "routerSigRes_bytesForSig res node parent = routerSigRes_bytesForSig res' node' parent' \<longleftrightarrow>
     node = node' \<and> parent = parent' \<and> res_req res = res_req res' \<and> res_port res = res_port res'"
  using sigRes_message_inject [of res node parent res' node' parent']
  by (auto simp: routerSigRes_bytesForSig_eq) (simp add: sigRes_message_def)

end
