(* ===== verification/RouterTree.thy ===== *)
theory RouterTree
  imports Messages
begin

text \<open>
  The spanning tree as a node sees it: the part of \<^verbatim>\<open>ironwood/network/router.go\<close> that
  walks the parent pointers stored in \<open>router.infos\<close> (\<open>_getRootAndDists\<close>, \<open>_getRootAndPath\<close>,
  \<open>_getDist\<close>, \<open>_backwardsAncestry\<close>, \<open>_getAncestry\<close>). The three walks are \<open>for\<close> loops without a
  bound, over a map that a remote peer fills; each is a recursive function with the visited set
  in its measure. The ancestry of a key is the reference: the other walks are shown to read
  their results off it. The theory ends with the distance of two tree paths as a metric.
\<close>

type_synonym router_infos = "(publicKey, routerInfo) gomap"

subsection \<open>Operations\<close>

lemma card_unvisited:
  assumes "m_get m k = Some v" "k \<notin> A"
  shows "card (set (m_keys m) - insert k A) < card (set (m_keys m) - A)"
proof (rule psubset_card_mono)
  show "finite (set (m_keys m) - A)" by (simp add: finite_dom_map_of)
  have "k \<in> set (m_keys m)"
    using assms(1) m_has_iff [of m k] by simp
  with assms(2) show "set (m_keys m) - insert k A \<subset> set (m_keys m) - A" by auto
qed

text \<open>\<open>_getRootAndDists\<close>: the loop variables are \<open>root\<close>, \<open>dists\<close>, \<open>dist\<close> and \<open>next\<close>.\<close>

function getRootAndDists_loop ::
  "router_infos \<Rightarrow> publicKey \<Rightarrow> (publicKey, u64) gomap \<Rightarrow> u64 \<Rightarrow> publicKey
     \<Rightarrow> publicKey \<times> (publicKey, u64) gomap" where
  "getRootAndDists_loop infos root dists dist nxt =
     (if m_has dists nxt then (root, dists)
      else case m_get infos nxt of
          None \<Rightarrow> (root, dists)
        | Some info \<Rightarrow>
            getRootAndDists_loop infos nxt (m_set dists nxt dist) (dist + 1) (info_parent info))"
  by pat_completeness auto
termination
  by (relation "measure (\<lambda>(infos, _, dists, _, _). card (set (m_keys infos) - set (m_keys dists)))")
    (auto simp: map_of_eq_None_iff intro!: card_unvisited [simplified])

definition getRootAndDists :: "router_infos \<Rightarrow> publicKey \<Rightarrow> publicKey \<times> (publicKey, u64) gomap" where
  "getRootAndDists infos dest = getRootAndDists_loop infos 0 [] 0 dest"

text \<open>
  \<open>_getRootAndPath\<close>: \<open>None\<close> is the early return \<open>return dest, nil\<close> of a loop or a dead end;
  a walk that breaks at a root hands its \<open>root\<close> and \<open>ports\<close> to the reversal below it.
\<close>

function getRootAndPath_loop ::
  "router_infos \<Rightarrow> publicKey list \<Rightarrow> peerPort list \<Rightarrow> publicKey \<Rightarrow> (publicKey \<times> peerPort list) option" where
  "getRootAndPath_loop infos visited ports nxt =
     (if nxt \<in> set visited then None
      else case m_get infos nxt of
          None \<Rightarrow> None
        | Some info \<Rightarrow>
            if nxt = info_parent info then Some (nxt, ports)
            else getRootAndPath_loop infos (nxt # visited) (ports @ [res_port (info_res info)])
                   (info_parent info))"
  by pat_completeness auto
termination
  by (relation "measure (\<lambda>(infos, visited, _, _). card (set (m_keys infos) - set visited))")
    (auto intro!: card_unvisited [simplified])

text \<open>The two-index swap loop that reverses a slice in place.\<close>

function swap_loop :: "'a list \<Rightarrow> nat \<Rightarrow> nat \<Rightarrow> 'a list" where
  "swap_loop xs left right =
     (if left < right then swap_loop (xs[left := xs ! right, right := xs ! left]) (left + 1) (right - 1)
      else xs)"
  by pat_completeness auto
termination
  by (relation "measure (\<lambda>(_, left, right). right - left)") auto

definition reverse_slice :: "'a list \<Rightarrow> 'a list" where
  "reverse_slice xs = (if xs = [] then xs else swap_loop xs 0 (length xs - 1))"

definition getRootAndPath :: "router_infos \<Rightarrow> publicKey \<Rightarrow> publicKey \<times> peerPort list" where
  "getRootAndPath infos dest =
     (case getRootAndPath_loop infos [] [] dest of
        None \<Rightarrow> (dest, [])
      | Some (root, ports) \<Rightarrow> (root, reverse_slice ports))"

text \<open>
  \<open>_getDist\<close> fills \<open>router.cache\<close> on a miss. Its distance loop subtracts two from a
  \<open>uint64\<close> for every common leading port.
\<close>

fun dist_loop :: "peerPort list \<Rightarrow> peerPort list \<Rightarrow> u64 \<Rightarrow> u64" where
  "dist_loop (k # keyPath) (d # destPath) dist =
     (if k = d then dist_loop keyPath destPath (dist - 2) else dist)"
| "dist_loop _ _ dist = dist"

definition path_dist :: "peerPort list \<Rightarrow> peerPort list \<Rightarrow> u64" where
  "path_dist destPath keyPath =
     dist_loop keyPath destPath (of_nat (length keyPath + length destPath))"

type_synonym path_cache = "(publicKey, peerPort list) gomap"

definition cached_path :: "router_infos \<Rightarrow> path_cache \<Rightarrow> publicKey \<Rightarrow> peerPort list" where
  "cached_path infos cache key =
     (case m_get cache key of Some c \<Rightarrow> c | None \<Rightarrow> snd (getRootAndPath infos key))"

definition getDist ::
  "router_infos \<Rightarrow> path_cache \<Rightarrow> peerPort list \<Rightarrow> publicKey \<Rightarrow> u64 \<times> path_cache" where
  "getDist infos cache destPath key =
     (let keyPath = cached_path infos cache key;
          cache' = (if m_has cache key then cache else m_set cache key keyPath)
      in (path_dist destPath keyPath, cache'))"

text \<open>\<open>_backwardsAncestry\<close> and \<open>_getAncestry\<close>.\<close>

function backwardsAncestry :: "router_infos \<Rightarrow> publicKey list \<Rightarrow> publicKey \<Rightarrow> publicKey list" where
  "backwardsAncestry infos anc here =
     (if here \<in> set anc then anc
      else case m_get infos here of
          None \<Rightarrow> anc
        | Some info \<Rightarrow> backwardsAncestry infos (anc @ [here]) (info_parent info))"
  by pat_completeness auto
termination
  by (relation "measure (\<lambda>(infos, anc, _). card (set (m_keys infos) - set anc))")
    (auto intro!: card_unvisited [simplified])

definition getAncestry :: "router_infos \<Rightarrow> publicKey \<Rightarrow> publicKey list" where
  "getAncestry infos key = reverse_slice (backwardsAncestry infos [] key)"

declare getRootAndDists_loop.simps [simp del] getRootAndPath_loop.simps [simp del]
  swap_loop.simps [simp del] backwardsAncestry.simps [simp del]


lemma swap_loop_middle: "swap_loop (a @ m @ b) (length a) (length a + length m - 1) = a @ rev m @ b"
proof (induction m arbitrary: a b rule: measure_induct_rule [of length])
  case (less m)
  show ?case
  proof (cases "length m \<le> 1")
    case True
    then have "rev m = m"
      by (cases m) auto
    moreover have "\<not> length a < length a + length m - 1"
      using True by linarith
    ultimately show ?thesis
      by (subst swap_loop.simps) (simp del: One_nat_def)
  next
    case False
    then obtain x m' y where m: "m = x # m' @ [y]"
      by (cases m; cases "tl m" rule: rev_cases) auto
    have swapped: "(a @ m @ b)[length a := (a @ m @ b) ! (length a + length m - 1),
        length a + length m - 1 := (a @ m @ b) ! length a] = (a @ [y]) @ m' @ (x # b)"
      by (simp add: m list_update_append nth_append)
    have "swap_loop (a @ m @ b) (length a) (length a + length m - 1)
        = swap_loop ((a @ [y]) @ m' @ (x # b)) (length (a @ [y])) (length (a @ [y]) + length m' - 1)"
      by (subst swap_loop.simps, subst swapped) (simp add: m)
    also have "\<dots> = (a @ [y]) @ rev m' @ (x # b)"
      by (rule less.IH) (simp add: m)
    finally show ?thesis by (simp add: m)
  qed
qed

lemma reverse_slice_rev [simp]: "reverse_slice xs = rev xs"
  using swap_loop_middle [of "[]" xs "[]"] by (simp add: reverse_slice_def)

subsection \<open>The ancestry as the reference walk\<close>

definition parent_of :: "router_infos \<Rightarrow> publicKey \<Rightarrow> publicKey option" where
  "parent_of infos k = map_option info_parent (m_get infos k)"

definition port_of :: "router_infos \<Rightarrow> publicKey \<Rightarrow> peerPort" where
  "port_of infos k = (case m_get infos k of None \<Rightarrow> 0 | Some info \<Rightarrow> res_port (info_res info))"

text \<open>
  \<open>walk_ok infos key w\<close>: \<open>w\<close> follows parent pointers from \<open>key\<close> without repetition, inside
  the known infos, and ends only where the next hop is unknown or was already visited.
\<close>

definition walk_ok :: "router_infos \<Rightarrow> publicKey \<Rightarrow> publicKey list \<Rightarrow> bool" where
  "walk_ok infos key w \<longleftrightarrow>
     distinct w \<and> set w \<subseteq> set (m_keys infos) \<and>
     successively (\<lambda>a b. parent_of infos a = Some b) w \<and>
     (if w = [] then \<not> m_has infos key
      else hd w = key \<and>
        (\<exists>nxt. parent_of infos (last w) = Some nxt \<and> (nxt \<in> set w \<or> \<not> m_has infos nxt)))"

definition partial_walk :: "router_infos \<Rightarrow> publicKey \<Rightarrow> publicKey list \<Rightarrow> publicKey \<Rightarrow> bool" where
  "partial_walk infos key w here \<longleftrightarrow>
     distinct w \<and> set w \<subseteq> set (m_keys infos) \<and>
     successively (\<lambda>a b. parent_of infos a = Some b) w \<and>
     (if w = [] then here = key else hd w = key \<and> parent_of infos (last w) = Some here)"

lemma partial_walk_step:
  assumes "partial_walk infos key w here" "here \<notin> set w" "m_get infos here = Some info"
  shows "partial_walk infos key (w @ [here]) (info_parent info)"
proof -
  have "here \<in> set (m_keys infos)"
    using assms(3) m_has_iff [of infos here] by simp
  with assms show ?thesis
    by (auto simp: partial_walk_def successively_append_iff parent_of_def split: if_splits)
qed

lemma backwardsAncestry_walk:
  "partial_walk infos key anc here \<Longrightarrow> walk_ok infos key (backwardsAncestry infos anc here)"
proof (induction infos anc here rule: backwardsAncestry.induct)
  case (1 infos anc here)
  show ?case
  proof (cases "here \<in> set anc \<or> m_get infos here = None")
    case True
    with "1.prems" show ?thesis
      by (subst backwardsAncestry.simps) (auto simp: partial_walk_def walk_ok_def split: if_splits)
  next
    case False
    then obtain info where "here \<notin> set anc" "m_get infos here = Some info" by auto
    with 1 partial_walk_step [OF "1.prems"] show ?thesis
      by (subst backwardsAncestry.simps) simp
  qed
qed

lemma getAncestry_walk: "walk_ok infos key (rev (getAncestry infos key))"
  by (simp add: getAncestry_def backwardsAncestry_walk partial_walk_def)

lemma getAncestry_known: "set (getAncestry infos key) \<subseteq> set (m_keys infos)"
  using getAncestry_walk [of infos key] by (simp add: walk_ok_def)

lemma getAncestry_distinct: "distinct (getAncestry infos key)"
  using getAncestry_walk [of infos key] by (simp add: walk_ok_def)

text \<open>The table of \<open>_getRootAndDists\<close> numbers the walk from the destination upwards.\<close>

definition dist_table :: "publicKey list \<Rightarrow> (publicKey, u64) gomap" where
  "dist_table w = zip w (map of_nat [0..<length w])"

lemma m_keys_dist_table [simp]: "map fst (dist_table w) = w"
  by (simp add: dist_table_def)

lemma update_new: "k \<notin> fst ` set m \<Longrightarrow> m_set m k v = m @ [(k, v)]"
  by (induction m) auto

lemma dist_table_step:
  "k \<notin> set w \<Longrightarrow> m_set (dist_table w) k (of_nat (length w)) = dist_table (w @ [k])"
  by (subst update_new) (auto simp: dist_table_def dest: set_zip_leftD)

lemma m_has_dist_table: "m_get (dist_table w) k = None \<longleftrightarrow> k \<notin> set w"
  by (metis m_has_iff m_keys_dist_table)

lemma getRootAndDists_loop_walk:
  "getRootAndDists_loop infos (if anc = [] then 0 else last anc) (dist_table anc)
      (of_nat (length anc)) here
   = (let w = backwardsAncestry infos anc here in (if w = [] then 0 else last w, dist_table w))"
proof (induction infos anc here rule: backwardsAncestry.induct)
  case (1 infos anc here)
  show ?case
  proof (cases "here \<in> set anc \<or> m_get infos here = None")
    case True
    then show ?thesis
      by (subst backwardsAncestry.simps, subst getRootAndDists_loop.simps)
        (auto simp: m_has_dist_table)
  next
    case False
    then obtain info where i: "here \<notin> set anc" "m_get infos here = Some info" by auto
    have "getRootAndDists_loop infos here (dist_table (anc @ [here])) (of_nat (length anc) + 1)
        (info_parent info) = (let w = backwardsAncestry infos (anc @ [here]) (info_parent info) in
          (if w = [] then 0 else last w, dist_table w))"
      using "1.IH" [OF i] by (simp add: add.commute)
    moreover have "backwardsAncestry infos anc here
        = backwardsAncestry infos (anc @ [here]) (info_parent info)"
      by (subst backwardsAncestry.simps) (simp add: i)
    ultimately show ?thesis
      by (subst getRootAndDists_loop.simps) (simp add: i m_has_dist_table dist_table_step)
  qed
qed

lemma getRootAndDists_ancestry:
  "getRootAndDists infos dest =
     (case getAncestry infos dest of
        [] \<Rightarrow> (0, [])
      | root # anc \<Rightarrow> (root, dist_table (rev (root # anc))))"
  using getRootAndDists_loop_walk [of infos "[]" dest]
  by (auto simp: getRootAndDists_def getAncestry_def Let_def dist_table_def last_rev
      split: list.split dest: arg_cong [of _ _ rev])

text \<open>A path exists exactly when the walk ends in a key that is its own parent.\<close>

definition rooted :: "router_infos \<Rightarrow> publicKey list \<Rightarrow> bool" where
  "rooted infos w \<longleftrightarrow> w \<noteq> [] \<and> parent_of infos (last w) = Some (last w)"

lemma backwardsAncestry_root:
  assumes "here \<notin> set anc" "m_get infos here = Some info" "info_parent info = here"
  shows "backwardsAncestry infos anc here = anc @ [here]"
  using assms
  by (subst backwardsAncestry.simps, simp, subst backwardsAncestry.simps, simp)

lemma getRootAndPath_loop_walk:
  assumes "\<forall>k \<in> set anc. parent_of infos k \<noteq> Some k" "set visited = set anc"
    "ports = map (port_of infos) anc"
  shows "getRootAndPath_loop infos visited ports here =
     (let w = backwardsAncestry infos anc here in
      if rooted infos w then Some (last w, map (port_of infos) (butlast w)) else None)"
  using assms
proof (induction infos anc here arbitrary: visited ports rule: backwardsAncestry.induct)
  case (1 infos anc here)
  consider (stop) "here \<in> set anc \<or> m_get infos here = None"
    | (root) info where "here \<notin> set anc" "m_get infos here = Some info" "info_parent info = here"
    | (up) info where "here \<notin> set anc" "m_get infos here = Some info" "info_parent info \<noteq> here"
    by auto
  then show ?case
  proof cases
    case stop
    then have "backwardsAncestry infos anc here = anc"
      by (subst backwardsAncestry.simps) auto
    moreover have "\<not> rooted infos anc"
      using "1.prems"(1) by (auto simp: rooted_def)
    ultimately show ?thesis
      using stop "1.prems" by (subst getRootAndPath_loop.simps) auto
  next
    case root
    then show ?thesis
      using "1.prems"
      by (subst getRootAndPath_loop.simps)
        (simp add: backwardsAncestry_root rooted_def parent_of_def)
  next
    case up
    have "getRootAndPath_loop infos (here # visited) (ports @ [res_port (info_res info)])
        (info_parent info)
      = (let w = backwardsAncestry infos (anc @ [here]) (info_parent info) in
          if rooted infos w then Some (last w, map (port_of infos) (butlast w)) else None)"
      using up "1.prems"
      by (intro "1.IH") (auto simp: parent_of_def port_of_def)
    moreover have "backwardsAncestry infos anc here
        = backwardsAncestry infos (anc @ [here]) (info_parent info)"
      by (subst backwardsAncestry.simps) (simp add: up)
    ultimately show ?thesis
      using up "1.prems" by (subst getRootAndPath_loop.simps) simp
  qed
qed

lemma getRootAndPath_ancestry:
  "getRootAndPath infos dest =
     (case getAncestry infos dest of
        [] \<Rightarrow> (dest, [])
      | root # anc \<Rightarrow>
          if parent_of infos root = Some root then (root, map (port_of infos) anc) else (dest, []))"
proof -
  define w where "w = backwardsAncestry infos [] dest"
  have "getRootAndPath infos dest =
      (if rooted infos w then (last w, rev (map (port_of infos) (butlast w))) else (dest, []))"
    by (simp add: getRootAndPath_def getRootAndPath_loop_walk [of "[]" _ "[]"] w_def Let_def)
  then show ?thesis
    by (cases w rule: rev_cases) (auto simp: getAncestry_def w_def [symmetric] rooted_def rev_map)
qed

subsection \<open>The distance of two paths is a metric\<close>

fun lcp :: "'a list \<Rightarrow> 'a list \<Rightarrow> nat" where
  "lcp (x # xs) (y # ys) = (if x = y then Suc (lcp xs ys) else 0)"
| "lcp _ _ = 0"

lemma lcp_sym: "lcp xs ys = lcp ys xs"
  by (induction xs ys rule: lcp.induct) (auto elim: lcp.elims)

lemma lcp_le: "lcp xs ys \<le> length xs" "lcp xs ys \<le> length ys"
  by (induction xs ys rule: lcp.induct) auto

lemma lcp_full: "lcp xs ys = length xs \<Longrightarrow> lcp xs ys = length ys \<Longrightarrow> xs = ys"
  by (induction xs ys rule: lcp.induct) (auto split: if_splits)

lemma lcp_same [simp]: "lcp xs xs = length xs"
  by (induction xs) auto

lemma lcp_trans: "min (lcp xs ys) (lcp ys zs) \<le> lcp xs zs"
proof (induction xs ys arbitrary: zs rule: lcp.induct)
  case (1 x xs y ys)
  then show ?case by (cases zs) auto
qed auto

text \<open>The number of tree edges between two nodes whose paths from the root are given.\<close>

definition tree_dist :: "peerPort list \<Rightarrow> peerPort list \<Rightarrow> nat" where
  "tree_dist xs ys = length xs + length ys - 2 * lcp xs ys"

lemma tree_dist_sum: "tree_dist xs ys + 2 * lcp xs ys = length xs + length ys"
  using lcp_le [of xs ys] by (simp add: tree_dist_def)

lemma tree_dist_sym: "tree_dist xs ys = tree_dist ys xs"
  by (simp add: tree_dist_def lcp_sym add.commute)

lemma tree_dist_eq_0: "tree_dist xs ys = 0 \<longleftrightarrow> xs = ys"
proof
  assume "tree_dist xs ys = 0"
  then have "lcp xs ys = length xs" "lcp xs ys = length ys"
    using lcp_le [of xs ys] tree_dist_sum [of xs ys] by auto
  then show "xs = ys" by (rule lcp_full)
qed (simp add: tree_dist_def)

lemma tree_dist_triangle: "tree_dist xs zs \<le> tree_dist xs ys + tree_dist ys zs"
proof -
  have "lcp xs ys + lcp ys zs \<le> length ys + lcp xs zs"
    using lcp_trans [of xs ys zs] lcp_le [of xs ys] lcp_le [of ys zs] by linarith
  then show ?thesis
    using tree_dist_sum [of xs ys] tree_dist_sum [of ys zs] tree_dist_sum [of xs zs] by linarith
qed

lemma tree_dist_child: "tree_dist xs (xs @ [p]) = 1"
proof -
  have "lcp xs (xs @ [p]) = length xs" by (induction xs) auto
  then show ?thesis by (simp add: tree_dist_def)
qed

lemma dist_loop_lcp: "dist_loop xs ys d = d - of_nat (2 * lcp xs ys)"
  by (induction xs ys arbitrary: d rule: lcp.induct) auto

lemma path_dist_tree_dist: "path_dist destPath keyPath = of_nat (tree_dist destPath keyPath)"
proof -
  have "(of_nat (tree_dist destPath keyPath) :: u64) + of_nat (2 * lcp destPath keyPath)
      = of_nat (length keyPath + length destPath)"
    using tree_dist_sum [of destPath keyPath] by (metis add.commute of_nat_add)
  then show ?thesis
    by (simp add: path_dist_def dist_loop_lcp lcp_sym [of keyPath] algebra_simps)
qed

text \<open>
  A path is a Go slice, so two of them together are far below \<open>2 ^ 64\<close> ports and the
  \<open>uint64\<close> distance never wraps.
\<close>

lemma unat_path_dist:
  assumes "length destPath + length keyPath < 2 ^ 64"
  shows "unat (path_dist destPath keyPath) = tree_dist destPath keyPath"
proof -
  have "tree_dist destPath keyPath < 2 ^ 64"
    using assms tree_dist_sum [of destPath keyPath] by linarith
  then show ?thesis
    by (simp add: path_dist_tree_dist unat64_of_nat)
qed

subsection \<open>The path cache\<close>

definition cache_ok :: "router_infos \<Rightarrow> path_cache \<Rightarrow> bool" where
  "cache_ok infos cache \<longleftrightarrow>
     (\<forall>key path. m_get cache key = Some path \<longrightarrow> path = snd (getRootAndPath infos key))"

lemma cache_ok_empty [simp]: "cache_ok infos []"
  by (simp add: cache_ok_def)

lemma cached_path_ok: "cache_ok infos cache \<Longrightarrow> cached_path infos cache key = snd (getRootAndPath infos key)"
  by (auto simp: cached_path_def cache_ok_def split: option.split)

lemma getDist_ok:
  assumes "cache_ok infos cache"
  shows "fst (getDist infos cache destPath key) = path_dist destPath (snd (getRootAndPath infos key))"
    and "cache_ok infos (snd (getDist infos cache destPath key))"
  using assms by (auto simp: getDist_def Let_def cached_path_ok) (auto simp: cache_ok_def)

subsection \<open>Properties\<close>

text \<open>
  C30. The three unbounded walks over parent pointers end on every map of infos, also on one with
  loops and dead ends, and agree: the ancestry follows parents from the key without repetition and
  stops only at an unknown or a visited key; \<open>_getRootAndDists\<close> returns its root end and
  numbers it from the destination upwards; \<open>_getRootAndPath\<close> returns the ports below the root, or
  \<open>(dest, nil)\<close> when the ancestry does not end in a self-rooted key.
\<close>

theorem tree_walks_agree:
  "walk_ok infos dest (rev (getAncestry infos dest)) \<and>
   getRootAndDists infos dest =
     (case getAncestry infos dest of
        [] \<Rightarrow> (0, [])
      | root # anc \<Rightarrow> (root, dist_table (rev (root # anc)))) \<and>
   getRootAndPath infos dest =
     (case getAncestry infos dest of
        [] \<Rightarrow> (dest, [])
      | root # anc \<Rightarrow>
          if parent_of infos root = Some root then (root, map (port_of infos) anc) else (dest, []))"
  by (simp only: getAncestry_walk getRootAndDists_ancestry getRootAndPath_ancestry simp_thms)

text \<open>
  The tree distance that \<open>_getDist\<close> computes on \<open>uint64\<close> is a metric on paths: it is zero exactly
  for equal paths, symmetric, and satisfies the triangle inequality; parent and child are at
  distance one; and its loop of subtractions never wraps below zero, because the result is
  the number of tree edges between the two nodes.
\<close>

theorem path_dist_metric:
  assumes "length a < 2 ^ 62" "length b < 2 ^ 62" "length c < 2 ^ 62"
  shows "(path_dist a b = 0 \<longleftrightarrow> a = b) \<and> path_dist a b = path_dist b a
    \<and> unat (path_dist a c) \<le> unat (path_dist a b) + unat (path_dist b c)
    \<and> path_dist a (a @ [port]) = 1
    \<and> unat (path_dist a b) = length a + length b - 2 * lcp a b"
proof -
  have d: "unat (path_dist x y) = tree_dist x y"
    if "length x < 2 ^ 62" "length y < 2 ^ 62" for x y
    using that by (intro unat_path_dist) simp
  have "path_dist a b = 0 \<longleftrightarrow> a = b"
    using d [OF assms(1,2)] tree_dist_eq_0 [of a b] by (simp add: word_unat_eq_iff)
  moreover have "path_dist a b = path_dist b a"
    by (simp add: path_dist_tree_dist tree_dist_sym)
  moreover have "path_dist a (a @ [port]) = 1"
    by (simp add: path_dist_tree_dist tree_dist_child)
  moreover have "unat (path_dist a c) \<le> unat (path_dist a b) + unat (path_dist b c)"
    using d assms tree_dist_triangle [of a c b] by simp
  moreover have "unat (path_dist a b) = length a + length b - 2 * lcp a b"
    using d [OF assms(1,2)] by (simp only: tree_dist_def)
  ultimately show ?thesis by blast
qed

theorem path_dist_metric_witness:
  "unat (path_dist [1] [3]) \<le> unat (path_dist [1] [1, 2]) + unat (path_dist [1, 2] [3])"
proof -
  have "length [1 :: peerPort] < 2 ^ 62" "length [1, 2 :: peerPort] < 2 ^ 62" "length [3 :: peerPort] < 2 ^ 62"
    by simp_all
  from path_dist_metric [OF this] show ?thesis by blast
qed

end
