(* ===== verification/RouterCost.thy ===== *)
theory RouterCost
  imports RouterTree "HOL-Library.Signed_Division"
begin

text \<open>
  Link costs: the lag estimates and the disconnect and loss penalties of
  \<^verbatim>\<open>ironwood/network/router.go\<close> (\<open>_getCost\<close>, \<open>_penaltyKeyForPeer\<close>, \<open>_addPenalty\<close>,
  \<open>_getDecayedPenalty\<close>, \<open>_recordDisconnect\<close>, \<open>_penalizeMissedResponses\<close>), over the two maps
  \<open>router.penalties\<close> and \<open>router.lags\<close>. A \<open>time.Duration\<close> and a count of milliseconds are Go
  \<open>int64\<close> values: an \<open>int\<close> whose products and sums wrap by \<open>i64\<close>, divided with truncation
  towards zero. A point in time is an \<open>int\<close> of nanoseconds, and the current time is an argument.
\<close>

subsection \<open>Durations\<close>

definition i64 :: "int \<Rightarrow> int" where
  "i64 x = (x + 2 ^ 63) mod 2 ^ 64 - 2 ^ 63"

lemma i64_id: "- (2 ^ 63) \<le> x \<Longrightarrow> x < 2 ^ 63 \<Longrightarrow> i64 x = x"
  by (simp add: i64_def)

lemma i64_range: "- (2 ^ 63) \<le> i64 x" "i64 x < 2 ^ 63"
  by (simp_all add: i64_def)

definition milliseconds :: "int \<Rightarrow> int" where
  "milliseconds d = d sdiv 1000000"

definition routerUnknownLatency :: int where "routerUnknownLatency = 4294967295"
definition penaltyHalfLife :: int where "penaltyHalfLife = 300000000000"
definition minDisconnectPenalty :: int where "minDisconnectPenalty = 200000000"
definition minLossPenalty :: int where "minLossPenalty = 50000000"
definition maxPenalty :: int where "maxPenalty = 30000000000"
definition penaltyCleanupThreshold :: int where "penaltyCleanupThreshold = 1000000"

lemma sdiv_nonneg: "0 \<le> a \<Longrightarrow> 0 < b \<Longrightarrow> a sdiv b = a div (b :: int)"
  by (cases "a = 0") (simp_all add: signed_divide_int_def)

lemma smod_nonneg: "0 \<le> a \<Longrightarrow> 0 < b \<Longrightarrow> a smod b = a mod (b :: int)"
  by (cases "a = 0") (simp_all add: signed_modulo_int_def)

lemma duration_ms [simp]:
  "milliseconds penaltyHalfLife = 300000" "milliseconds minDisconnectPenalty = 200"
  "milliseconds minLossPenalty = 50" "milliseconds maxPenalty = 30000"
  "milliseconds penaltyCleanupThreshold = 1"
  by (simp_all add: milliseconds_def penaltyHalfLife_def minDisconnectPenalty_def
      minLossPenalty_def maxPenalty_def penaltyCleanupThreshold_def sdiv_nonneg)

lemma milliseconds_mono: "0 \<le> d \<Longrightarrow> d \<le> d' \<Longrightarrow> milliseconds d \<le> milliseconds d'"
  by (simp add: milliseconds_def sdiv_nonneg zdiv_mono1)

lemma milliseconds_nonneg: "0 \<le> d \<Longrightarrow> 0 \<le> milliseconds d"
  by (simp add: milliseconds_def sdiv_nonneg)

subsection \<open>Data\<close>

text \<open>
  The fields of \<open>*peer\<close> that the router reads; they are set once, when \<open>peers.addPeer\<close> creates
  the peer. \<open>p_id\<close> is the pointer: two connections to one node are two peers with one key.
\<close>

record peer =
  p_id :: nat
  p_key :: publicKey
  p_protocol :: string
  p_port :: peerPort
  p_prio :: byte
  p_order :: u64

record routerPenaltyEntry =
  penaltyMs :: int
  recordedAt :: int

record routerPenaltyKey =
  pk_key :: publicKey
  pk_protocol :: string

type_synonym penalties = "(routerPenaltyKey, routerPenaltyEntry) gomap"
type_synonym lags = "(peer, int) gomap"

subsection \<open>Operations\<close>

definition penaltyKeyForPeer :: "peer \<Rightarrow> routerPenaltyKey" where
  "penaltyKeyForPeer p = \<lparr> pk_key = p_key p, pk_protocol = p_protocol p \<rparr>"

definition getDecayedPenalty :: "int \<Rightarrow> penalties \<Rightarrow> routerPenaltyKey \<Rightarrow> int \<times> penalties" where
  "getDecayedPenalty now pens key =
     (case m_get pens key of
        None \<Rightarrow> (0, pens)
      | Some entry \<Rightarrow>
          (let elapsed0 = time_sub now (recordedAt entry);
               elapsed = (if elapsed0 < 0 then 0 else elapsed0);
               halfLifeMs = milliseconds penaltyHalfLife;
               elapsedMs = milliseconds elapsed;
               shifts = elapsedMs sdiv halfLifeMs
           in if shifts \<ge> 63 then (0, m_del pens key)
              else
                (let p1 = penaltyMs entry div 2 ^ nat shifts;
                     fracMs = elapsedMs smod halfLifeMs;
                     twoHL = 2 * halfLifeMs;
                     p2 = i64 (p1 * (twoHL - fracMs)) sdiv twoHL
                 in if p2 < milliseconds penaltyCleanupThreshold then (0, m_del pens key)
                    else (p2, pens))))"

definition addPenalty :: "int \<Rightarrow> penalties \<Rightarrow> routerPenaltyKey \<Rightarrow> int \<Rightarrow> penalties" where
  "addPenalty now pens key component =
     (if component \<le> 0 then pens
      else
        (let (existing, pens') = getDecayedPenalty now pens key;
             total = i64 (existing + component);
             total' = (if total > milliseconds maxPenalty then milliseconds maxPenalty else total)
         in m_set pens' key \<lparr> penaltyMs = total', recordedAt = now \<rparr>))"

definition getCost :: "int \<Rightarrow> lags \<Rightarrow> penalties \<Rightarrow> peer \<Rightarrow> u64 \<times> penalties" where
  "getCost now lgs pens p =
     (let lag = milliseconds (m_get0 0 lgs p);
          (penalty, pens') = getDecayedPenalty now pens (penaltyKeyForPeer p);
          c = (word_of_int (i64 (lag + penalty)) :: u64)
      in (if c = 0 then 1 else c, pens'))"

definition recordDisconnect :: "int \<Rightarrow> lags \<Rightarrow> penalties \<Rightarrow> peer \<Rightarrow> penalties" where
  "recordDisconnect now lgs pens p =
     (case m_get lgs p of
        None \<Rightarrow> pens
      | Some lag \<Rightarrow>
          if lag = routerUnknownLatency then pens
          else
            (let component = max (milliseconds minDisconnectPenalty) (milliseconds lag)
             in addPenalty now pens (penaltyKeyForPeer p) component))"

text \<open>
  The body of the inner loop of \<open>_penalizeMissedResponses\<close> for one connection, then the loops.
\<close>

definition missed_response ::
  "int \<Rightarrow> peer list \<Rightarrow> peer \<Rightarrow> lags \<times> penalties \<Rightarrow> lags \<times> penalties" where
  "missed_response now responded p = (\<lambda>(lgs, pens).
     if p \<in> set responded then (lgs, pens)
     else
       (let lag = m_get0 0 lgs p in
        if lag = routerUnknownLatency then (lgs, pens)
        else
          (let increased0 = i64 (lag + lag sdiv 8);
               increased = (if increased0 > routerUnknownLatency then routerUnknownLatency
                            else increased0);
               component = max (milliseconds minLossPenalty) (milliseconds (i64 (increased - lag)))
           in (m_set lgs p increased, addPenalty now pens (penaltyKeyForPeer p) component))))"

definition penalizeMissedResponses ::
  "int \<Rightarrow> (publicKey, peer list) gomap \<Rightarrow> (publicKey, routerSigReq) gomap \<Rightarrow> peer list
     \<Rightarrow> lags \<times> penalties \<Rightarrow> lags \<times> penalties" where
  "penalizeMissedResponses now prs requests responded =
     fold (\<lambda>(pk, ps). if m_has requests pk then fold (missed_response now responded) ps else id) prs"

text \<open>The part of \<open>_handleResponse\<close> that updates the lag estimate with a round-trip time.\<close>

definition update_lag :: "int \<Rightarrow> int \<Rightarrow> int" where
  "update_lag lag rtt =
     (if lag = routerUnknownLatency then i64 (rtt * 2)
      else i64 (i64 (lag * 7) sdiv 8 + min rtt (i64 (lag * 2)) sdiv 8))"

subsection \<open>Decay\<close>

definition decay :: "int \<Rightarrow> int \<Rightarrow> int" where
  "decay p e = (p div 2 ^ nat (e div 300000)) * (600000 - e mod 300000) div 600000"

definition elapsed_ms :: "int \<Rightarrow> int \<Rightarrow> int" where
  "elapsed_ms now t = milliseconds (max 0 (time_sub now t))"

lemma elapsed_ms_nonneg: "0 \<le> elapsed_ms now t"
  by (simp add: elapsed_ms_def milliseconds_nonneg)

lemma elapsed_ms_mono: "now \<le> now' \<Longrightarrow> elapsed_ms now t \<le> elapsed_ms now' t"
  unfolding elapsed_ms_def time_sub_def by (rule milliseconds_mono) auto

text \<open>The range in which \<open>_addPenalty\<close> keeps an entry, so no product of the decay wraps.\<close>

definition penalty_ok :: "routerPenaltyEntry \<Rightarrow> bool" where
  "penalty_ok e \<longleftrightarrow> 0 < penaltyMs e \<and> penaltyMs e \<le> 30000"

definition penalties_ok :: "penalties \<Rightarrow> bool" where
  "penalties_ok pens \<longleftrightarrow> (\<forall>key e. m_get pens key = Some e \<longrightarrow> penalty_ok e)"

lemma decay_pos_form:
  assumes "0 \<le> p" "0 \<le> e"
  shows "0 \<le> decay p e" and "decay p e \<le> p div 2 ^ nat (e div 300000)"
    and "p div 2 ^ nat (e div 300000) div 2 \<le> decay p e"
proof -
  let ?q = "p div 2 ^ nat (e div 300000)"
  have q: "0 \<le> ?q"
    using assms by (simp add: pos_imp_zdiv_nonneg_iff)
  have f: "0 \<le> e mod 300000" "e mod 300000 < 300000" by auto
  show "0 \<le> decay p e"
    using q f by (simp add: decay_def pos_imp_zdiv_nonneg_iff)
  have "?q * (600000 - e mod 300000) \<le> ?q * 600000"
    using q f by (intro mult_left_mono) auto
  from zdiv_mono1 [OF this, of 600000] show "decay p e \<le> ?q"
    by (simp add: decay_def)
  have "?q * 300000 \<le> ?q * (600000 - e mod 300000)"
    using q f by (intro mult_left_mono) auto
  from zdiv_mono1 [OF this, of 600000] have "?q * 300000 div 600000 \<le> decay p e"
    by (simp add: decay_def)
  then show "?q div 2 \<le> decay p e"
    by (simp add: div_mult_mult1_if [of 300000 ?q 2, simplified] mult.commute)
qed

lemma decay_mono:
  assumes "0 \<le> p" "0 \<le> e" "e \<le> e'"
  shows "decay p e' \<le> decay p e"
proof (cases "e div 300000 = e' div 300000")
  case True
  then have "e mod 300000 \<le> e' mod 300000"
    using assms(3) by (metis add_le_cancel_left div_mult_mod_eq)
  then have "p div 2 ^ nat (e div 300000) * (600000 - e' mod 300000)
      \<le> p div 2 ^ nat (e div 300000) * (600000 - e mod 300000)"
    using assms by (intro mult_left_mono) (auto simp: pos_imp_zdiv_nonneg_iff)
  then show ?thesis
    unfolding decay_def True by (rule zdiv_mono1) simp
next
  case False
  moreover have "e div 300000 \<le> e' div 300000" "0 \<le> e div 300000"
    using assms by (auto simp: zdiv_mono1 pos_imp_zdiv_nonneg_iff)
  ultimately have n: "Suc (nat (e div 300000)) \<le> nat (e' div 300000)" by linarith
  have "decay p e' \<le> p div 2 ^ nat (e' div 300000)"
    using decay_pos_form(2) assms by simp
  also have "\<dots> \<le> p div 2 ^ Suc (nat (e div 300000))"
    using assms n by (intro zdiv_mono2) (auto intro: power_increasing simp del: power_Suc)
  also have "\<dots> = p div 2 ^ nat (e div 300000) div 2"
    by (simp only: power_Suc2) (simp add: zdiv_zmult2_eq)
  also have "\<dots> \<le> decay p e"
    using decay_pos_form(3) assms by simp
  finally show ?thesis .
qed

lemma getDecayedPenalty_decay:
  assumes "m_get pens key = Some e" "penalty_ok e"
  shows "getDecayedPenalty now pens key =
    (let d = decay (penaltyMs e) (elapsed_ms now (recordedAt e))
     in if d < 1 then (0, m_del pens key) else (d, pens))"
proof -
  let ?el = "elapsed_ms now (recordedAt e)" and ?p = "penaltyMs e"
  let ?q = "?p div 2 ^ nat (?el div 300000)"
  have el: "0 \<le> ?el" by (rule elapsed_ms_nonneg)
  have p: "0 \<le> ?p" "?p \<le> 30000" using assms(2) by (auto simp: penalty_ok_def)
  have q: "0 \<le> ?q" "?q \<le> 30000"
    using p by (auto simp: pos_imp_zdiv_nonneg_iff intro: order_trans [OF zdiv_mono2 [of ?p 1]])
  have pos: "0 \<le> ?q * (600000 - ?el mod 300000)"
    using q by (intro mult_nonneg_nonneg) (auto simp: pos_mod_bound intro: order_trans [of _ 300000] less_imp_le)
  have prod: "i64 (?q * (600000 - ?el mod 300000)) = ?q * (600000 - ?el mod 300000)"
  proof (rule i64_id)
    from pos show "- (2 ^ 63) \<le> ?q * (600000 - ?el mod 300000)" by (rule order_trans [rotated]) simp
    have "?q * (600000 - ?el mod 300000) \<le> 30000 * 600000"
      using q by (intro mult_mono) auto
    then show "?q * (600000 - ?el mod 300000) < 2 ^ 63" by (rule le_less_trans) simp
  qed
  have big: "?el div 300000 \<ge> 63 \<Longrightarrow> ?q = 0"
  proof -
    assume "?el div 300000 \<ge> 63"
    then have "(2 :: int) ^ 63 \<le> 2 ^ nat (?el div 300000)"
      by (intro power_increasing) auto
    then show "?q = 0" using p by (intro div_pos_pos_trivial) auto
  qed
  have el_def: "milliseconds (if time_sub now (recordedAt e) < 0 then 0
      else time_sub now (recordedAt e)) = ?el"
    by (auto simp: elapsed_ms_def max_def)
  have form: "getDecayedPenalty now pens key =
    (if ?el div 300000 \<ge> 63 then (0, m_del pens key)
     else if decay ?p ?el < 1 then (0, m_del pens key) else (decay ?p ?el, pens))"
    using assms(1) el prod sdiv_nonneg [OF pos, of 600000]
    by (simp add: getDecayedPenalty_def Let_def el_def sdiv_nonneg smod_nonneg decay_def)
  have "?el div 300000 \<ge> 63 \<Longrightarrow> decay ?p ?el = 0"
    using big by (simp add: decay_def)
  with form show ?thesis by (auto simp: Let_def)
qed

lemma penalties_ok_get: "penalties_ok pens \<Longrightarrow> m_get pens key = Some e \<Longrightarrow> penalty_ok e"
  by (simp add: penalties_ok_def)

text \<open>The penalty that applies at a given time, as a value.\<close>

definition penalty_at :: "int \<Rightarrow> penalties \<Rightarrow> routerPenaltyKey \<Rightarrow> int" where
  "penalty_at now pens key =
     (case m_get pens key of
        None \<Rightarrow> 0 | Some e \<Rightarrow> decay (penaltyMs e) (elapsed_ms now (recordedAt e)))"

lemma penalty_at_nonneg: "penalties_ok pens \<Longrightarrow> 0 \<le> penalty_at now pens key"
  by (auto simp: penalty_at_def penalty_ok_def elapsed_ms_nonneg decay_pos_form
      dest!: penalties_ok_get split: option.split)

lemma fst_getDecayedPenalty:
  assumes "penalties_ok pens"
  shows "fst (getDecayedPenalty now pens key) = penalty_at now pens key"
proof (cases "m_get pens key")
  case None
  then show ?thesis by (simp add: getDecayedPenalty_def penalty_at_def)
next
  case (Some e)
  with penalty_at_nonneg [OF assms, of now key] penalties_ok_get [OF assms Some] show ?thesis
    by (simp add: getDecayedPenalty_decay Let_def penalty_at_def)
qed

lemma snd_getDecayedPenalty:
  "snd (getDecayedPenalty now pens key) \<in> {pens, m_del pens key}"
  by (simp add: getDecayedPenalty_def Let_def split: option.split)

lemma penalties_ok_del: "penalties_ok pens \<Longrightarrow> penalties_ok (m_del pens key)"
  by (simp add: penalties_ok_def)

lemma penalties_ok_getDecayedPenalty:
  "penalties_ok pens \<Longrightarrow> penalties_ok (snd (getDecayedPenalty now pens key))"
  using snd_getDecayedPenalty [of now pens key] by (auto simp: penalties_ok_del)

lemma m_get_getDecayedPenalty:
  "key' \<noteq> key \<Longrightarrow> m_get (snd (getDecayedPenalty now pens key)) key' = m_get pens key'"
  using snd_getDecayedPenalty [of now pens key] by auto

lemma penalty_at_le:
  assumes "penalties_ok pens"
  shows "penalty_at now pens key \<le> 30000"
proof (cases "m_get pens key")
  case (Some e)
  then have e: "0 \<le> penaltyMs e" "penaltyMs e \<le> 30000"
    using penalties_ok_get [OF assms Some] by (auto simp: penalty_ok_def)
  let ?el = "elapsed_ms now (recordedAt e)"
  have "penalty_at now pens key \<le> penaltyMs e div 2 ^ nat (?el div 300000)"
    using Some decay_pos_form(2) [OF e(1) elapsed_ms_nonneg] by (simp add: penalty_at_def)
  also have "\<dots> \<le> penaltyMs e"
    using zdiv_mono2 [of "penaltyMs e" 1 "2 ^ nat (?el div 300000)"] e by simp
  finally show ?thesis using e by simp
qed (simp add: penalty_at_def)

lemma addPenalty_get:
  assumes "penalties_ok pens" "0 < component" "component < 2 ^ 62"
  shows "m_get (addPenalty now pens key component) key' =
    (if key' = key then Some \<lparr> penaltyMs = min 30000 (penalty_at now pens key + component),
                               recordedAt = now \<rparr>
     else m_get pens key')"
proof -
  have "i64 (penalty_at now pens key + component) = penalty_at now pens key + component"
    using assms penalty_at_nonneg [OF assms(1), of now key] penalty_at_le [OF assms(1), of now key]
    by (intro i64_id) auto
  with assms fst_getDecayedPenalty [OF assms(1), of now key] show ?thesis
    by (simp add: addPenalty_def Let_def case_prod_beta m_get_getDecayedPenalty)
qed

lemma penalties_ok_addPenalty:
  assumes "penalties_ok pens" "component < 2 ^ 62"
  shows "penalties_ok (addPenalty now pens key component)"
proof (cases "0 < component")
  case True
  have "penalty_ok \<lparr> penaltyMs = min 30000 (penalty_at now pens key + component), recordedAt = now \<rparr>"
    using True penalty_at_nonneg [OF assms(1), of now key] by (auto simp: penalty_ok_def)
  then show ?thesis
    using assms(1) addPenalty_get [OF assms(1) True assms(2)] by (auto simp: penalties_ok_def)
next
  case False
  with assms show ?thesis by (simp add: addPenalty_def)
qed

lemma milliseconds_less: "- (2 ^ 63) \<le> d \<Longrightarrow> d < 2 ^ 63 \<Longrightarrow> milliseconds d < 2 ^ 62"
  by (auto simp: milliseconds_def signed_divide_int_def sgn_if)

lemma getCost_nonzero: "fst (getCost now lgs pens p) \<noteq> 0"
  by (simp add: getCost_def Let_def case_prod_beta)

lemma penalties_ok_getCost: "penalties_ok pens \<Longrightarrow> penalties_ok (snd (getCost now lgs pens p))"
  by (simp add: getCost_def Let_def case_prod_beta penalties_ok_getDecayedPenalty)

text \<open>Every stored lag is a Go duration.\<close>

definition lags_ok :: "lags \<Rightarrow> bool" where
  "lags_ok lgs \<longleftrightarrow> (\<forall>p d. m_get lgs p = Some d \<longrightarrow> - (2 ^ 63) \<le> d \<and> d < 2 ^ 63)"

lemma lags_ok_set: "lags_ok lgs \<Longrightarrow> - (2 ^ 63) \<le> d \<Longrightarrow> d < 2 ^ 63 \<Longrightarrow> lags_ok (m_set lgs p d)"
  by (simp add: lags_ok_def)

lemma penalties_ok_recordDisconnect:
  assumes "lags_ok lgs" "penalties_ok pens"
  shows "penalties_ok (recordDisconnect now lgs pens p)"
proof (cases "m_get lgs p")
  case (Some lag)
  then have "milliseconds lag < 2 ^ 62"
    using assms(1) by (intro milliseconds_less) (auto simp: lags_ok_def)
  with Some assms(2) show ?thesis
    by (simp add: recordDisconnect_def Let_def penalties_ok_addPenalty)
qed (simp add: recordDisconnect_def assms)

lemma missed_response_ok:
  assumes "lags_ok lgs" "penalties_ok pens"
  shows "lags_ok (fst (missed_response now responded p (lgs, pens)))"
    and "penalties_ok (snd (missed_response now responded p (lgs, pens)))"
proof -
  have "lags_ok (m_set lgs p (if i64 d > routerUnknownLatency then routerUnknownLatency else i64 d))" for d
    using assms(1) i64_range [of d] by (auto intro!: lags_ok_set simp: routerUnknownLatency_def)
  then show "lags_ok (fst (missed_response now responded p (lgs, pens)))"
    using assms(1) by (simp add: missed_response_def Let_def)
  have "milliseconds (i64 d) < 2 ^ 62" for d
    using i64_range by (intro milliseconds_less)
  then show "penalties_ok (snd (missed_response now responded p (lgs, pens)))"
    using assms(2) by (simp add: missed_response_def Let_def penalties_ok_addPenalty)
qed

subsection \<open>Properties\<close>

text \<open>
  Decay: the penalty of a key and protocol never grows by waiting, stays between zero and thirty
  seconds, and after \<open>n\<close> full half-lives is at most the recorded penalty divided by \<open>2 ^ n\<close> (so it is
  gone after fifteen of them).
\<close>

theorem penalty_decays:
  assumes "penalties_ok pens" "now \<le> now'"
  shows "0 \<le> fst (getDecayedPenalty now' pens key)
    \<and> fst (getDecayedPenalty now' pens key) \<le> fst (getDecayedPenalty now pens key)
    \<and> fst (getDecayedPenalty now pens key) \<le> 30000
    \<and> fst (getDecayedPenalty now pens key)
        \<le> (case m_get pens key of None \<Rightarrow> 0
           | Some e \<Rightarrow> penaltyMs e div 2 ^ nat (elapsed_ms now (recordedAt e) div 300000))"
proof (cases "m_get pens key")
  case None
  then show ?thesis by (simp add: getDecayedPenalty_def)
next
  case (Some e)
  then have e: "0 \<le> penaltyMs e" using penalties_ok_get [OF assms(1) Some] by (simp add: penalty_ok_def)
  have "penalty_at now' pens key \<le> penalty_at now pens key"
    using Some decay_mono [OF e elapsed_ms_nonneg elapsed_ms_mono [OF assms(2)]]
    by (simp add: penalty_at_def)
  with Some assms(1) decay_pos_form(2) [OF e elapsed_ms_nonneg] show ?thesis
    by (simp add: fst_getDecayedPenalty penalty_at_nonneg penalty_at_le) (simp add: penalty_at_def)
qed

definition slow_peer :: peer where
  "slow_peer = \<lparr> p_id = 0, p_key = 1, p_protocol = ''TCP'', p_port = 1, p_prio = 0, p_order = 0 \<rparr>"

definition slow_penalties :: penalties where
  "slow_penalties = [(penaltyKeyForPeer slow_peer, \<lparr> penaltyMs = 200, recordedAt = 0 \<rparr>)]"

lemma slow_penalties_ok: "penalties_ok slow_penalties"
  by (simp add: slow_penalties_def penalties_ok_def penalty_ok_def)

theorem penalty_decays_witness:
  "fst (getDecayedPenalty 300000000000 slow_penalties (penaltyKeyForPeer slow_peer))
     \<le> fst (getDecayedPenalty 0 slow_penalties (penaltyKeyForPeer slow_peer))"
  using penalty_decays [OF slow_penalties_ok, of 0 300000000000] by simp

text \<open>
  Accumulation: a penalty adds to what is left of the old one, is capped at thirty seconds, is
  recorded with the current time, and touches no other key or protocol, so the links of a
  node over different transports are judged separately; the cost of a link is never zero.
\<close>

theorem penalty_accumulates:
  assumes "penalties_ok pens" "0 < component" "component < 2 ^ 62"
  shows "m_get (addPenalty now pens key component) key' =
      (if key' = key
       then Some \<lparr> penaltyMs = min 30000 (fst (getDecayedPenalty now pens key) + component),
                   recordedAt = now \<rparr>
       else m_get pens key')
    \<and> penalties_ok (addPenalty now pens key component)
    \<and> fst (getCost now lgs pens p) \<noteq> 0"
  using addPenalty_get [OF assms] fst_getDecayedPenalty [OF assms(1)]
    penalties_ok_addPenalty [OF assms(1,3)] getCost_nonzero by simp

theorem penalty_accumulates_witness:
  "penaltyKeyForPeer slow_peer \<in> m_dom (addPenalty 0 slow_penalties (penaltyKeyForPeer slow_peer) 200)
   \<and> fst (getCost 0 [] slow_penalties slow_peer) \<noteq> 0"
  using penalty_accumulates [OF slow_penalties_ok, of 200 0 "penaltyKeyForPeer slow_peer"
      "penaltyKeyForPeer slow_peer" "[]" slow_peer] by auto

text \<open>
  A link whose lag estimate has grown to the value that means "unknown" loses its history: after
  a missed response at that level the lag is \<open>routerUnknownLatency\<close>, and a disconnect then records
  no penalty, although the peer did complete exchanges before.
\<close>

theorem saturated_lag_forgets_exchange:
  assumes "p \<notin> set responded" "m_get lgs p = Some lag" "lag < routerUnknownLatency"
    and "routerUnknownLatency < lag + lag div 8" "0 \<le> lag"
  shows "m_get (fst (missed_response now responded p (lgs, pens))) p = Some routerUnknownLatency
    \<and> recordDisconnect now' (fst (missed_response now responded p (lgs, pens)))
        (snd (missed_response now responded p (lgs, pens))) p
      = snd (missed_response now responded p (lgs, pens))"
proof -
  have "i64 (lag + lag sdiv 8) = lag + lag div 8"
    using assms(3,5) by (simp add: sdiv_nonneg) (rule i64_id, auto simp: routerUnknownLatency_def)
  with assms have "m_get (fst (missed_response now responded p (lgs, pens))) p = Some routerUnknownLatency"
    by (simp add: missed_response_def Let_def m_get0_def)
  then show ?thesis by (simp add: recordDisconnect_def)
qed

theorem saturated_lag_forgets_exchange_witness:
  "m_get (fst (missed_response 0 [] slow_peer ([(slow_peer, 4000000000)], []))) slow_peer = Some routerUnknownLatency"
  using saturated_lag_forgets_exchange [of slow_peer "[]" "[(slow_peer, 4000000000)]" 4000000000 0 "[]" 0]
  by (simp add: routerUnknownLatency_def)

end
