(* ===== verification/Bloom.thy ===== *)
theory Bloom
  imports Codec
begin

text \<open>
  The bloom filter of \<^verbatim>\<open>ironwood/network/bloomfilter.go\<close> (lines 13 to 116): the filter
  operations the network uses and its run-length wire format. Every filter of the program is made
  by \<open>newBloom\<close> or \<open>decode\<close>, so it has \<open>bloomFilterM = 8192\<close> bits and \<open>bloomFilterK = 8\<close>
  hashes: a \<open>*bfilter.BloomFilter\<close> is the word of its 8192 bits, \<open>bloom_words\<close> is
  \<open>BitSet().Bytes()\<close> and \<open>bloom_from\<close> is \<open>bfilter.From\<close>. The murmur digest of the filter library is the parameter
  \<open>baseHashes\<close>; the derivation of the bit locations from it is modelled.
\<close>

definition bloomFilterF :: nat where "bloomFilterF = 16"
definition bloomFilterU :: nat where "bloomFilterU = bloomFilterF * 8"
definition bloomFilterB :: nat where "bloomFilterB = bloomFilterU * 8"
definition bloomFilterM :: nat where "bloomFilterM = bloomFilterB * 8"
definition bloomFilterK :: nat where "bloomFilterK = 8"

lemma bloom_constants [simp]:
  "bloomFilterF = 16" "bloomFilterU = 128" "bloomFilterB = 1024" "bloomFilterM = 8192"
  "bloomFilterK = 8"
  by (simp_all add: bloomFilterF_def bloomFilterU_def bloomFilterB_def bloomFilterM_def
      bloomFilterK_def)

type_synonym bloom = "8192 word"
type_synonym hashes = "u64 \<times> u64 \<times> u64 \<times> u64"

subsection \<open>Filter operations\<close>

definition newBloom :: bloom where "newBloom = 0"

fun hash_at :: "hashes \<Rightarrow> nat \<Rightarrow> u64" where
  "hash_at (h0, h1, h2, h3) i = [h0, h1, h2, h3] ! i"

definition location :: "hashes \<Rightarrow> nat \<Rightarrow> nat" where
  "location h i =
     unat (hash_at h (i mod 2) + of_nat i * hash_at h (2 + ((i + i mod 2) mod 4) div 2))
       mod bloomFilterM"

definition addKey :: "(bytes \<Rightarrow> hashes) \<Rightarrow> bloom \<Rightarrow> publicKey \<Rightarrow> bloom" where
  "addKey baseHashes b key =
     fold (\<lambda>i f. set_bit (location (baseHashes (key_bytes key)) i) f) [0..<bloomFilterK] b"

definition addFilter :: "bloom \<Rightarrow> bloom \<Rightarrow> bloom" where
  "addFilter b f = b OR f"

definition filter_Test :: "(bytes \<Rightarrow> hashes) \<Rightarrow> bloom \<Rightarrow> bytes \<Rightarrow> bool" where
  "filter_Test baseHashes b d = list_all (\<lambda>i. bit b (location (baseHashes d) i)) [0..<bloomFilterK]"

definition bloom_words :: "bloom \<Rightarrow> u64 list" where
  "bloom_words b = map (\<lambda>i. ucast (drop_bit (64 * i) b)) [0..<bloomFilterU]"

definition bloom_from :: "u64 list \<Rightarrow> bloom" where
  "bloom_from us = foldr (\<lambda>u b. push_bit 64 b OR ucast u) us 0"

subsection \<open>Wire format\<close>

definition bloom_size :: "bloom \<Rightarrow> nat result" where
  "bloom_size b =
     Inr (bloomFilterF + bloomFilterF +
       8 * length (filter (\<lambda>u. u \<noteq> 0 \<and> u \<noteq> NOT 0) (bloom_words b)))"

definition flag_mask :: "nat \<Rightarrow> byte" where
  "flag_mask idx = drop_bit (idx mod 8) 0x80"

definition flag_set :: "bytes \<Rightarrow> nat \<Rightarrow> bytes" where
  "flag_set flags idx = flags[idx div 8 := (flags ! (idx div 8)) OR flag_mask idx]"

definition flag_get :: "bytes \<Rightarrow> nat \<Rightarrow> bool" where
  "flag_get flags idx \<longleftrightarrow> (flags ! (idx div 8)) AND flag_mask idx \<noteq> 0"

fun bloom_encode_loop :: "nat \<Rightarrow> u64 list \<Rightarrow> bytes \<Rightarrow> bytes \<Rightarrow> u64 list \<Rightarrow> bytes \<times> bytes \<times> u64 list" where
  "bloom_encode_loop idx [] flags0 flags1 keep = (flags0, flags1, keep)"
| "bloom_encode_loop idx (u # us) flags0 flags1 keep =
     (if u = 0 then bloom_encode_loop (idx + 1) us (flag_set flags0 idx) flags1 keep
      else if u = NOT 0 then bloom_encode_loop (idx + 1) us flags0 (flag_set flags1 idx) keep
      else bloom_encode_loop (idx + 1) us flags0 flags1 (keep @ [u]))"

definition bloom_encode :: "bytes \<Rightarrow> bloom \<Rightarrow> bytes result" where
  "bloom_encode out b =
     (let zeros = replicate bloomFilterF 0;
          (flags0, flags1, keep) = bloom_encode_loop 0 (bloom_words b) zeros zeros [];
          out' = fold (\<lambda>u o'. o' @ be_bytes 8 u) keep (out @ flags0 @ flags1)
      in check_size (length out) out' (bloom_size b))"

text \<open>The loop of \<open>decode\<close>, over the indices that are left.\<close>

fun bloom_decode_loop :: "bytes \<Rightarrow> bytes \<Rightarrow> nat list \<Rightarrow> bytes \<Rightarrow> u64 list \<Rightarrow> (u64 list \<times> bytes) option" where
  "bloom_decode_loop flags0 flags1 [] dat us = Some (us, dat)"
| "bloom_decode_loop flags0 flags1 (idx # idxs) dat us =
     (if flag_get flags0 idx \<and> flag_get flags1 idx then None
      else if flag_get flags0 idx then bloom_decode_loop flags0 flags1 idxs dat (us @ [0])
      else if flag_get flags1 idx then bloom_decode_loop flags0 flags1 idxs dat (us @ [NOT 0])
      else if length dat \<ge> 8 then
        bloom_decode_loop flags0 flags1 idxs (drop 8 dat) (us @ [be_word (take 8 dat)])
      else None)"

definition bloom_decode :: "bytes \<Rightarrow> bloom result" where
  "bloom_decode data0 =
     and_then (ok_or ErrDecode (wireChopSlice bloomFilterF data0)) (\<lambda>(flags0, data1).
     and_then (ok_or ErrDecode (wireChopSlice bloomFilterF data1)) (\<lambda>(flags1, data2).
     and_then (ok_or ErrDecode (bloom_decode_loop flags0 flags1 [0..<bloomFilterU] data2 [])) (\<lambda>(us, data3).
     if data3 \<noteq> [] then Inl (Error ErrDecode) else Inr (bloom_from us))))"

subsection \<open>No false negatives\<close>

lemma location_less: "location h i < 8192"
  by (simp add: location_def)

lemma bit_fold_set_bit:
  assumes "\<forall>i \<in> set is. loc i < 8192"
  shows "bit (fold (\<lambda>i f. set_bit (loc i) f) is (b :: bloom)) n \<longleftrightarrow> bit b n \<or> n \<in> loc ` set is"
  using assms by (induction "is" arbitrary: b) (auto simp: bit_simps)

lemma bit_addKey:
  "bit (addKey bh b key) n \<longleftrightarrow> bit b n \<or> n \<in> location (bh (key_bytes key)) ` {..<8}"
  by (auto simp: addKey_def bit_fold_set_bit location_less)

lemma filter_Test_bits:
  "filter_Test bh b d \<longleftrightarrow> (\<forall>i < 8. bit b (location (bh d) i))"
  by (auto simp: filter_Test_def list_all_iff)

lemma filter_Test_addKey: "filter_Test bh (addKey bh b key) (key_bytes key)"
  by (auto simp: filter_Test_bits bit_addKey)

lemma filter_Test_addFilter:
  "filter_Test bh b d \<or> filter_Test bh f d \<Longrightarrow> filter_Test bh (addFilter b f) d"
  by (auto simp: filter_Test_bits addFilter_def bit_simps)

lemma filter_Test_addKey_mono: "filter_Test bh b d \<Longrightarrow> filter_Test bh (addKey bh b key) d"
  by (auto simp: filter_Test_bits bit_addKey)

subsection \<open>Words of a filter\<close>

lemma bit_bloom_from: "bit (bloom_from us) n \<longleftrightarrow> n < 8192 \<and> n div 64 < length us \<and> bit (us ! (n div 64)) (n mod 64)"
proof (induction us arbitrary: n)
  case Nil
  then show ?case by (simp add: bloom_from_def)
next
  case (Cons u us)
  show ?case
  proof (cases "n < 64")
    case True
    then show ?thesis by (simp add: bloom_from_def bit_simps)
  next
    case False
    then obtain m where m: "n = m + 64" by (metis add.commute le_iff_add not_less)
    have "\<not> bit (ucast u :: bloom) n"
      using False by (auto simp: bit_simps dest: bit_imp_le_length)
    then have "bit (bloom_from (u # us)) n \<longleftrightarrow> n < 8192 \<and> bit (bloom_from us) (n - 64)"
      using False by (auto simp: bloom_from_def bit_simps)
    moreover have "(m + 64) div 64 = Suc (m div 64)" by simp
    ultimately show ?thesis
      using Cons.IH [of "n - 64"] by (auto simp: m)
  qed
qed

lemma bloom_from_words: "bloom_from (bloom_words b) = b"
proof (rule bit_word_eqI)
  fix n assume n: "n < LENGTH(8192)"
  then have "n div 64 < 128" by auto
  then have "bit (bloom_words b ! (n div 64)) (n mod 64) \<longleftrightarrow> bit b n"
    by (simp add: bloom_words_def bit_simps)
  with n show "bit (bloom_from (bloom_words b)) n \<longleftrightarrow> bit b n"
    by (auto simp: bit_bloom_from bloom_words_def)
qed

lemma length_bloom_words [simp]: "length (bloom_words b) = 128"
  by (simp add: bloom_words_def)

subsection \<open>The codec\<close>

lemma flag_mask_pow: "flag_mask idx = 2 ^ (7 - idx mod 8)"
proof -
  have "idx mod 8 < 8" by simp
  then consider "idx mod 8 = 0" | "idx mod 8 = 1" | "idx mod 8 = 2" | "idx mod 8 = 3"
    | "idx mod 8 = 4" | "idx mod 8 = 5" | "idx mod 8 = 6" | "idx mod 8 = 7" by linarith
  then show ?thesis by cases (simp_all add: flag_mask_def)
qed

lemma flag_get_bit: "flag_get flags idx \<longleftrightarrow> bit (flags ! (idx div 8)) (7 - idx mod 8)"
  by (simp add: flag_get_def flag_mask_pow and_exp_eq_0_iff_not_bit)

lemma flag_get_set:
  assumes "i div 8 < length flags"
  shows "flag_get (flag_set flags i) j \<longleftrightarrow> j = i \<or> flag_get flags j"
proof (cases "i div 8 = j div 8")
  case False
  then show ?thesis by (auto simp: flag_get_def flag_set_def)
next
  case True
  have r: "i mod 8 < 8" "j mod 8 < 8" by simp_all
  have "bit (flag_mask i) (7 - j mod 8) \<longleftrightarrow> i mod 8 = j mod 8"
    using r by (auto simp: flag_mask_pow bit_simps)
  moreover have "i mod 8 = j mod 8 \<longleftrightarrow> i = j"
    using True by (metis div_mult_mod_eq)
  ultimately show ?thesis
    using assms True by (auto simp: flag_get_bit flag_set_def bit_simps)
qed

lemma length_flag_set [simp]: "length (flag_set flags i) = length flags"
  by (simp add: flag_set_def)

abbreviation mixed :: "u64 \<Rightarrow> bool" where
  "mixed u \<equiv> u \<noteq> 0 \<and> u \<noteq> NOT 0"

definition occurs :: "nat \<Rightarrow> u64 list \<Rightarrow> u64 \<Rightarrow> nat \<Rightarrow> bool" where
  "occurs idx us v j \<longleftrightarrow> idx \<le> j \<and> j < idx + length us \<and> us ! (j - idx) = v"

lemma occurs_simps [simp]:
  "\<not> occurs idx [] v j"
  "occurs idx (u # us) v j \<longleftrightarrow> j = idx \<and> u = v \<or> occurs (Suc idx) us v j"
  by (cases "j = idx"; auto simp: occurs_def nth_Cons' Suc_le_eq)+

lemma bloom_encode_loop_spec:
  assumes "bloom_encode_loop idx us f0 f1 keep = (g0, g1, kept)"
    "idx + length us \<le> 8 * length f0" "length f1 = length f0"
  shows "length g0 = length f0 \<and> length g1 = length f0 \<and> kept = keep @ filter mixed us \<and>
    (\<forall>j. flag_get g0 j \<longleftrightarrow> flag_get f0 j \<or> occurs idx us 0 j) \<and>
    (\<forall>j. flag_get g1 j \<longleftrightarrow> flag_get f1 j \<or> occurs idx us (NOT 0) j)"
  using assms
proof (induction idx us f0 f1 keep rule: bloom_encode_loop.induct)
  case (1 idx flags0 flags1 keep)
  then show ?case by auto
next
  case (2 idx u us f0 f1 keep)
  have range: "idx div 8 < length f0" "idx div 8 < length f1"
    using "2.prems" by auto
  consider "u = 0" | "u = NOT 0" "u \<noteq> 0" | "mixed u" by blast
  then show ?case
    using 2 range by cases (auto simp: flag_get_set)
qed

lemma flag_get_zeros: "j < 128 \<Longrightarrow> \<not> flag_get (replicate 16 0) j"
  by (auto simp: flag_get_bit nth_replicate)

lemma bloom_decode_loop_spec:
  assumes "\<forall>j < length us. flag_get f0 j \<longleftrightarrow> us ! j = 0" "\<forall>j < length us. flag_get f1 j \<longleftrightarrow> us ! j = NOT 0"
    "idx \<le> length us"
  shows "bloom_decode_loop f0 f1 [idx..<length us]
      (concat (map (be_bytes 8) (filter mixed (drop idx us))) @ rest) (take idx us) = Some (us, rest)"
  using assms(3)
proof (induction "length us - idx" arbitrary: idx)
  case 0
  then show ?case by simp
next
  case (Suc n)
  then have lt: "idx < length us" by simp
  have dr: "drop idx us = us ! idx # drop (Suc idx) us"
    using lt by (simp add: Cons_nth_drop_Suc)
  have tk: "take idx us @ [us ! idx] = take (Suc idx) us"
    using lt by (simp add: take_Suc_conv_app_nth)
  have IH: "bloom_decode_loop f0 f1 [Suc idx..<length us]
      (concat (map (be_bytes 8) (filter mixed (drop (Suc idx) us))) @ rest)
      (take idx us @ [us ! idx]) = Some (us, rest)"
    unfolding tk using Suc by simp
  have be: "be_word (be_bytes 8 (us ! idx)) = us ! idx"
    by (rule be_word_be_bytes) simp
  have up: "[idx..<length us] = idx # [Suc idx..<length us]"
    using lt by (simp add: upt_rec)
  show ?case
    using IH assms(1,2) lt be
    by (cases "us ! idx = 0"; cases "us ! idx = NOT 0") (simp_all add: up dr)
qed

definition bloom_bytes :: "bloom \<Rightarrow> bytes" where
  "bloom_bytes b =
     (let (flags0, flags1, keep) =
        bloom_encode_loop 0 (bloom_words b) (replicate 16 0) (replicate 16 0) []
      in flags0 @ flags1 @ concat (map (be_bytes 8) keep))"

lemma fold_append_concat: "fold (\<lambda>u o'. o' @ f u) us out = out @ concat (map f us)"
  by (induction us arbitrary: out) auto

lemma length_concat_be_bytes: "length (concat (map (be_bytes n) us)) = n * length us"
  by (induction us) auto

lemma bloom_encode_loop_bloom:
  obtains g0 g1 where
    "bloom_encode_loop 0 (bloom_words b) (replicate 16 0) (replicate 16 0) []
       = (g0, g1, filter mixed (bloom_words b))"
    "length g0 = 16" "length g1 = 16"
    "\<forall>j < 128. flag_get g0 j \<longleftrightarrow> bloom_words b ! j = 0"
    "\<forall>j < 128. flag_get g1 j \<longleftrightarrow> bloom_words b ! j = NOT 0"
proof -
  obtain g0 g1 kept where e: "bloom_encode_loop 0 (bloom_words b) (replicate 16 0) (replicate 16 0) []
      = (g0, g1, kept)" by (metis prod_cases3)
  note spec = bloom_encode_loop_spec [OF e]
  show thesis
    by (rule that [of g0 g1]) (use spec e in \<open>auto simp: flag_get_zeros occurs_def\<close>)
qed

lemma bloom_size_eq: "bloom_size b = Inr (length (bloom_bytes b))"
  by (rule bloom_encode_loop_bloom [of b])
    (simp add: bloom_size_def bloom_bytes_def length_concat_be_bytes)

lemma bloom_encode_eq: "bloom_encode out b = Inr (out @ bloom_bytes b)"
proof (rule bloom_encode_loop_bloom [of b])
  fix g0 g1
  assume e: "bloom_encode_loop 0 (bloom_words b) (replicate 16 0) (replicate 16 0) []
       = (g0, g1, filter mixed (bloom_words b))"
  have "bloom_encode out b = check_size (length out) (out @ bloom_bytes b) (bloom_size b)"
    using e by (simp add: bloom_encode_def bloom_bytes_def fold_append_concat)
  then show ?thesis
    by (simp add: bloom_size_eq check_size_append)
qed

lemma bloom_decode_bytes: "bloom_decode (bloom_bytes b) = Inr b"
proof (rule bloom_encode_loop_bloom [of b])
  fix g0 g1
  assume e: "bloom_encode_loop 0 (bloom_words b) (replicate 16 0) (replicate 16 0) []
       = (g0, g1, filter mixed (bloom_words b))"
    and len: "length g0 = 16" "length g1 = 16"
    and g0: "\<forall>j < 128. flag_get g0 j \<longleftrightarrow> bloom_words b ! j = 0"
    and g1: "\<forall>j < 128. flag_get g1 j \<longleftrightarrow> bloom_words b ! j = NOT 0"
  have "bloom_decode_loop g0 g1 [0..<128]
      (concat (map (be_bytes 8) (filter mixed (bloom_words b)))) [] = Some (bloom_words b, [])"
    using bloom_decode_loop_spec [of "bloom_words b" g0 g1 0 "[]"] g0 g1 by simp
  then show ?thesis
    using e len
    by (simp add: bloom_decode_def bloom_bytes_def wireChopSlice_append bloom_from_words
        del: upt_rec_numeral)
qed

interpretation bloom_codec: wire_codec
  bloom_size bloom_encode bloom_decode "\<lambda>_. True" bloom_bytes
  by unfold_locales (simp_all add: bloom_size_eq bloom_encode_eq bloom_decode_bytes)

subsection \<open>Property\<close>

text \<open>
  The bloom filter codec: the run-length format with its two flag arrays loses nothing, for any of
  the \<open>2 ^ 8192\<close> filters; encoding does not panic and has the announced size, which is at most
  1056 bytes.
\<close>

theorem bloom_roundtrip:
  "\<exists>bs. bloom_encode [] b = Inr bs \<and> bloom_size b = Inr (length bs) \<and> bloom_decode bs = Inr b
     \<and> 32 \<le> length bs \<and> length bs \<le> 1056"
proof -
  have "length (filter mixed (bloom_words b)) \<le> 128"
    using length_filter_le [of mixed "bloom_words b"] by simp
  moreover have "length (bloom_bytes b) = 32 + 8 * length (filter mixed (bloom_words b))"
    using bloom_size_eq [of b] by (simp add: bloom_size_def)
  ultimately show ?thesis
    by (simp add: bloom_codec.encode_payload bloom_codec.size_payload bloom_codec.decode_payload)
qed

end
