(* ===== verification/RouterState.thy ===== *)
theory RouterState
  imports RouterCost Bloom
begin

text \<open>
  The state of the router actor: \<^verbatim>\<open>config.go\<close>, \<^verbatim>\<open>core.go\<close> and the struct
  declarations of \<^verbatim>\<open>router.go\<close>, \<^verbatim>\<open>bloomfilter.go\<close> and \<^verbatim>\<open>pathfinder.go\<close>
  (all under \<^verbatim>\<open>ironwood/network\<close>). The router, its blooms and its pathfinder run on
  one actor, so they form one record.
  \<^item> What a node never changes after \<open>core.init\<close> (keys, configuration, and the parameters that
    stand for ed25519 and the murmur digest) is the record \<open>env\<close>.
  \<^item> A message to another actor (a peer's writer, the packet conn, a callback) and a message to the
    router's own inbox is an \<open>effect\<close>, appended to \<open>outbox\<close> in the order of the calls.
  \<^item> A \<open>*time.Timer\<close> is the number of its creation, \<open>fresh\<close> being the next one; starting, resetting
    and stopping it are outputs, and the closure it runs is an operation of its own.
  \<^item> \<open>crand.Read\<close> consumes \<open>entropy\<close>; when there is none the nonce keeps its zero bytes, as in
    the code, which ignores the error.
\<close>

subsection \<open>Configuration\<close>

record config =
  routerRefresh :: int
  routerTimeout :: int
  peerKeepAliveDelay :: int
  peerTimeout :: int
  peerMaxMessageSize :: u64
  bloomTransform :: "bytes \<Rightarrow> bytes"
  pathTimeout :: int
  pathThrottle :: int

definition configDefaults :: config where
  "configDefaults = \<lparr>
     routerRefresh = 240000000000,
     routerTimeout = 300000000000,
     peerKeepAliveDelay = 1000000000,
     peerTimeout = 3000000000,
     peerMaxMessageSize = 1048576,
     bloomTransform = (\<lambda>key. key),
     pathTimeout = 60000000000,
     pathThrottle = 1000000000 \<rparr>"

datatype netOption =
    WithRouterRefresh int | WithRouterTimeout int | WithPeerKeepAliveDelay int
  | WithPeerTimeout int | WithPeerMaxMessageSize u64 | WithBloomTransform "bytes \<Rightarrow> bytes"
  | WithPathTimeout int | WithPathThrottle int

fun apply_option :: "netOption \<Rightarrow> config \<Rightarrow> config" where
  "apply_option (WithRouterRefresh d) c = c\<lparr> routerRefresh := d \<rparr>"
| "apply_option (WithRouterTimeout d) c = c\<lparr> routerTimeout := d \<rparr>"
| "apply_option (WithPeerKeepAliveDelay d) c = c\<lparr> peerKeepAliveDelay := d \<rparr>"
| "apply_option (WithPeerTimeout d) c = c\<lparr> peerTimeout := d \<rparr>"
| "apply_option (WithPeerMaxMessageSize n) c = c\<lparr> peerMaxMessageSize := n \<rparr>"
| "apply_option (WithBloomTransform f) c = c\<lparr> bloomTransform := f \<rparr>"
| "apply_option (WithPathTimeout d) c = c\<lparr> pathTimeout := d \<rparr>"
| "apply_option (WithPathThrottle d) c = c\<lparr> pathThrottle := d \<rparr>"

record env =
  env_ed :: ed25519
  env_hashes :: "bytes \<Rightarrow> hashes"
  env_config :: config
  env_crypto :: crypto

abbreviation self_key :: "env \<Rightarrow> publicKey" where
  "self_key E \<equiv> crypto_publicKey (env_crypto E)"

text \<open>\<open>core.init\<close>: the defaults first, then the caller's options in order.\<close>

definition core_env :: "ed25519 \<Rightarrow> (bytes \<Rightarrow> hashes) \<Rightarrow> bytes \<Rightarrow> netOption list \<Rightarrow> env" where
  "core_env ed hs secret opts =
     \<lparr> env_ed = ed, env_hashes = hs, env_config = fold apply_option opts configDefaults,
       env_crypto = crypto_init ed secret \<rparr>"

subsection \<open>Packets, outputs, tables\<close>

text \<open>The implementations of \<open>pqPacket\<close>.\<close>

datatype pqPacket =
    PathLookup pathLookup | PathNotify pathNotify | PathBroken pathBroken | Traffic traffic

datatype effect =
    SendSigReq peer routerSigReq
  | SendSigRes peer routerSigRes
  | SendAnnounce peer routerAnnounce
  | SendBloom peer bloom
  | SendQueued peer pqPacket
  | Deliver traffic
  | SelfTraffic traffic
  | PathNotifyCallback publicKey
  | TimerStart nat int
  | TimerReset nat int
  | TimerStop nat

record bloomInfo =
  bi_send :: bloom
  bi_recv :: bloom
  bi_seq :: u16
  bi_onTree :: bool
  bi_zDirty :: bool

record pathInfo =
  pi_path :: "peerPort list"
  pi_seq :: u64
  pi_reqTime :: int
  pi_timer :: nat
  pi_traffic :: "traffic option"
  pi_broken :: bool

record pathRumor =
  rumor_traffic :: "traffic option"
  rumor_sendTime :: int
  rumor_timer :: nat

record pathfinder =
  pf_info :: pathNotifyInfo
  pf_paths :: "(publicKey, pathInfo) gomap"
  pf_rumors :: "(publicKey, pathRumor) gomap"

subsection \<open>The router\<close>

record router =
  r_pathfinder :: pathfinder
  r_blooms :: "(publicKey, bloomInfo) gomap"
  r_peers :: "(publicKey, peer list) gomap"
  r_sent :: "(publicKey, publicKey list) gomap"
  r_ports :: "(peerPort, publicKey) gomap"
  r_infos :: router_infos
  r_timers :: "(publicKey, nat) gomap"
  r_ancs :: "(publicKey, publicKey list) gomap"
  r_cache :: path_cache
  r_lags :: lags
  r_penalties :: penalties
  r_requests :: "(publicKey, routerSigReq) gomap"
  r_responses :: "(publicKey, routerSigRes) gomap"
  r_responded :: "peer list"
  r_resSeqs :: "(publicKey, u64) gomap"
  r_resSeqCtr :: u64
  r_refresh :: bool
  r_doRoot1 :: bool
  r_doRoot2 :: bool
  r_mainTimer :: "nat option"
  r_fresh :: nat
  r_entropy :: "u64 list"
  r_outbox :: "effect list"

definition emit :: "effect list \<Rightarrow> router \<Rightarrow> router" where
  "emit os r = r\<lparr> r_outbox := r_outbox r @ os \<rparr>"

text \<open>A set \<open>map[k]struct{}\<close> is a list without repetition.\<close>

definition set_add :: "'a \<Rightarrow> 'a list \<Rightarrow> 'a list" where
  "set_add x xs = (if x \<in> set xs then xs else xs @ [x])"

definition set_del :: "'a \<Rightarrow> 'a list \<Rightarrow> 'a list" where
  "set_del x xs = filter (\<lambda>y. y \<noteq> x) xs"

lemma set_set_add [simp]: "set (set_add x xs) = insert x (set xs)"
  by (auto simp: set_add_def)

lemma distinct_set_add [simp]: "distinct (set_add x xs) \<longleftrightarrow> distinct xs"
  by (auto simp: set_add_def)

lemma set_set_del [simp]: "set (set_del x xs) = set xs - {x}"
  by (auto simp: set_del_def)

lemma distinct_set_del [simp]: "distinct xs \<Longrightarrow> distinct (set_del x xs)"
  by (simp add: set_del_def)

abbreviation peers_of :: "router \<Rightarrow> publicKey \<Rightarrow> peer list" where
  "peers_of r k \<equiv> m_get0 [] (r_peers r) k"

text \<open>The zero \<open>routerInfo\<close> and \<open>routerSigReq\<close>, read for a missing key.\<close>

definition zero_req :: routerSigReq where
  "zero_req = \<lparr> req_seq = 0, req_nonce = 0 \<rparr>"

definition zero_info :: routerInfo where
  "zero_info = \<lparr> info_parent = 0, info_res = \<lparr> res_req = zero_req, res_port = 0, res_psig = 0 \<rparr>,
     info_sig = 0 \<rparr>"

abbreviation info_of :: "router \<Rightarrow> publicKey \<Rightarrow> routerInfo" where
  "info_of r k \<equiv> m_get0 zero_info (r_infos r) k"

end
