(* ===== verification/Blooms.thy ===== *)
theory Blooms
  imports RouterState
begin

text \<open>
  The blooms of the router, \<^verbatim>\<open>ironwood/network/bloomfilter.go\<close> from line 118: one
  sent and one received filter per peer key, the on-tree flag, and the multicast of lookups along
  tree links whose received filter may contain the destination.
\<close>

subsection \<open>Operations\<close>

definition isOnTree :: "router \<Rightarrow> publicKey \<Rightarrow> bool" where
  "isOnTree r key = (case m_get (r_blooms r) key of None \<Rightarrow> False | Some pbi \<Rightarrow> bi_onTree pbi)"

definition send_to_all :: "router \<Rightarrow> publicKey \<Rightarrow> (peer \<Rightarrow> effect) \<Rightarrow> router" where
  "send_to_all r k msg = emit (map msg (peers_of r k)) r"

text \<open>
  The body of the loop of \<open>_fixOnTree\<close> for the entry of \<open>pk\<close>. The loop ranges over
  \<open>bs.blooms\<close> and assigns only the entry it is at.
\<close>

definition fixOnTree_entry :: "publicKey \<Rightarrow> routerInfo \<Rightarrow> publicKey \<times> bloomInfo \<Rightarrow> router \<Rightarrow> router" where
  "fixOnTree_entry selfKey selfInfo = (\<lambda>(pk, pbi) r.
     (let wasOn = bi_onTree pbi;
          on = (if info_parent selfInfo = pk then True
                else case m_get (r_infos r) pk of
                    None \<Rightarrow> False
                  | Some info \<Rightarrow> info_parent info = selfKey);
          pbi1 = pbi\<lparr> bi_onTree := on \<rparr>;
          dropped = wasOn \<and> \<not> on;
          pbi2 = (if dropped then pbi1\<lparr> bi_send := newBloom \<rparr> else pbi1);
          r1 = (if dropped then send_to_all r pk (\<lambda>p. SendBloom p newBloom) else r)
      in r1\<lparr> r_blooms := m_set (r_blooms r1) pk pbi2 \<rparr>))"

definition fixOnTree :: "env \<Rightarrow> router \<Rightarrow> router result" where
  "fixOnTree E r =
     (case m_get (r_infos r) (self_key E) of
        None \<Rightarrow> Inl Panic
      | Some selfInfo \<Rightarrow> Inr (fold (fixOnTree_entry (self_key E) selfInfo) (r_blooms r) r))"

definition xKey :: "env \<Rightarrow> publicKey \<Rightarrow> publicKey" where
  "xKey E key = be_word (copy_array publicKeySize (bloomTransform (env_config E) (key_bytes key)))"

definition addInfo :: "publicKey \<Rightarrow> router \<Rightarrow> router" where
  "addInfo key r = r\<lparr> r_blooms := m_set (r_blooms r) key
     \<lparr> bi_send = newBloom, bi_recv = newBloom, bi_seq = 0, bi_onTree = False, bi_zDirty = False \<rparr> \<rparr>"

definition removeInfo :: "publicKey \<Rightarrow> router \<Rightarrow> router" where
  "removeInfo key r = r\<lparr> r_blooms := m_del (r_blooms r) key \<rparr>"

definition handleBloom :: "peer \<Rightarrow> bloom \<Rightarrow> router \<Rightarrow> router" where
  "handleBloom fromPeer b r =
     (case m_get (r_blooms r) (p_key fromPeer) of
        None \<Rightarrow> r
      | Some pbi \<Rightarrow> r\<lparr> r_blooms := m_set (r_blooms r) (p_key fromPeer) (pbi\<lparr> bi_recv := b \<rparr>) \<rparr>)"

text \<open>
  The filter \<open>_getBloomFor\<close> builds for \<open>key\<close>: our own transformed key, then what the other
  on-tree peers sent us.
\<close>

definition fresh_bloom :: "env \<Rightarrow> router \<Rightarrow> publicKey \<Rightarrow> bloom" where
  "fresh_bloom E r key =
     fold (\<lambda>(k, pbi) b. if \<not> bi_onTree pbi \<or> k = key then b else addFilter b (bi_recv pbi))
       (r_blooms r) (addKey (env_hashes E) newBloom (xKey E (self_key E)))"

text \<open>
  \<open>_getBloomFor\<close>. The variable \<open>pbi\<close> is a copy of the map's entry, and it is written back only
  in the branch that stores a new filter.
\<close>

definition getBloomFor :: "env \<Rightarrow> publicKey \<Rightarrow> bool \<Rightarrow> router \<Rightarrow> (bloom \<times> bool \<times> router) result" where
  "getBloomFor E key keepOnes r =
     (case m_get (r_blooms r) key of
        None \<Rightarrow> Inl Panic
      | Some pbi \<Rightarrow>
          (let c = fresh_bloom E r key;
               b = (if keepOnes then addFilter c (bi_send pbi) else c);
               pbi1 = (if keepOnes
                       then (if \<not> bi_zDirty pbi \<and> b \<noteq> c then pbi\<lparr> bi_zDirty := True \<rparr> else pbi)
                       else pbi\<lparr> bi_zDirty := False \<rparr>)
           in if b = bi_send pbi1 then Inr (bi_send pbi1, False, r)
              else Inr (b, True, r\<lparr> r_blooms := m_set (r_blooms r) key (pbi1\<lparr> bi_send := b \<rparr>) \<rparr>)))"

text \<open>\<open>_sendBloom\<close>; without an entry the sent filter is a nil pointer, which its encoder dereferences.\<close>

definition sendBloom :: "peer \<Rightarrow> router \<Rightarrow> router result" where
  "sendBloom p r =
     (case m_get (r_blooms r) (p_key p) of
        None \<Rightarrow> Inl Panic
      | Some pbi \<Rightarrow> Inr (emit [SendBloom p (bi_send pbi)] r))"

definition sendAllBlooms_entry :: "env \<Rightarrow> publicKey \<Rightarrow> router \<Rightarrow> router result" where
  "sendAllBlooms_entry E k r =
     (case m_get (r_blooms r) k of
        None \<Rightarrow> Inr r
      | Some pbi0 \<Rightarrow>
          if \<not> bi_onTree pbi0 then Inr r
          else
            and_then (getBloomFor E k (\<not> bi_zDirty pbi0) r) (\<lambda>(b, isNew, r1).
              case m_get (r_blooms r1) k of
                None \<Rightarrow> Inl Panic
              | Some pbi \<Rightarrow>
                  (let sq = bi_seq pbi + 1 in
                   if isNew \<or> sq \<ge> 3600 then
                     (if m_has (r_peers r1) k then
                        (let r2 = send_to_all r1 k (\<lambda>p. SendBloom p b)
                         in Inr (r2\<lparr> r_blooms := m_set (r_blooms r2) k (pbi\<lparr> bi_seq := 0 \<rparr>) \<rparr>))
                      else Inl Panic)
                   else Inr (r1\<lparr> r_blooms := m_set (r_blooms r1) k (pbi\<lparr> bi_seq := sq \<rparr>) \<rparr>))))"

definition sendAllBlooms :: "env \<Rightarrow> router \<Rightarrow> router result" where
  "sendAllBlooms E r = range_loop (sendAllBlooms_entry E) (m_keys (r_blooms r)) r"

definition blooms_doMaintenance :: "env \<Rightarrow> router \<Rightarrow> router result" where
  "blooms_doMaintenance E r = and_then (fixOnTree E r) (sendAllBlooms E)"

text \<open>The loop of \<open>_sendMulticast\<close> that picks the link of lowest priority value to a peer.\<close>

fun best_prio :: "peer option \<Rightarrow> peer list \<Rightarrow> peer option" where
  "best_prio bestPeer [] = bestPeer"
| "best_prio None (p # ps) = best_prio (Some p) ps"
| "best_prio (Some q) (p # ps) = best_prio (Some (if p_prio p < p_prio q then p else q)) ps"

definition multicast_wants :: "env \<Rightarrow> publicKey \<Rightarrow> publicKey \<Rightarrow> publicKey \<times> bloomInfo \<Rightarrow> bool" where
  "multicast_wants E fromKey toKey = (\<lambda>(k, pbi).
     bi_onTree pbi \<and> k \<noteq> fromKey \<and>
     filter_Test (env_hashes E) (bi_recv pbi) (key_bytes (xKey E toKey)))"

definition multicast_entry ::
  "env \<Rightarrow> pqPacket \<Rightarrow> publicKey \<Rightarrow> publicKey \<Rightarrow> publicKey \<times> bloomInfo \<Rightarrow> router \<Rightarrow> router result" where
  "multicast_entry E packet fromKey toKey = (\<lambda>(k, pbi) r.
     if \<not> multicast_wants E fromKey toKey (k, pbi) then Inr r
     else case best_prio None (peers_of r k) of
         None \<Rightarrow> Inl Panic
       | Some bestPeer \<Rightarrow> Inr (emit [SendQueued bestPeer packet] r))"

definition sendMulticast :: "env \<Rightarrow> pqPacket \<Rightarrow> publicKey \<Rightarrow> publicKey \<Rightarrow> router \<Rightarrow> router result" where
  "sendMulticast E packet fromKey toKey r =
     range_loop (multicast_entry E packet fromKey toKey) (r_blooms r) r"

subsection \<open>What the filters promise\<close>

lemma fold_filters_Test:
  assumes "filter_Test bh b d \<or> (\<exists>(k, pbi) \<in> set bs. bi_onTree pbi \<and> k \<noteq> key \<and> filter_Test bh (bi_recv pbi) d)"
  shows "filter_Test bh (fold (\<lambda>(k, pbi) b. if \<not> bi_onTree pbi \<or> k = key then b else addFilter b (bi_recv pbi)) bs b) d"
  using assms
proof (induction bs arbitrary: b)
  case (Cons x bs)
  then show ?case by (cases x) (auto intro!: Cons.IH filter_Test_addFilter)
qed simp

lemma fresh_bloom_covers:
  "filter_Test (env_hashes E) (fresh_bloom E r key) (key_bytes (xKey E (self_key E)))"
  "(k, pbi) \<in> set (r_blooms r) \<Longrightarrow> bi_onTree pbi \<Longrightarrow> k \<noteq> key \<Longrightarrow>
     filter_Test (env_hashes E) (bi_recv pbi) d \<Longrightarrow> filter_Test (env_hashes E) (fresh_bloom E r key) d"
  unfolding fresh_bloom_def
  by (rule fold_filters_Test, simp add: filter_Test_addKey)
    (rule fold_filters_Test, auto)

text \<open>
  What a pass over the blooms does: \<open>advertises K r s\<close> says that only the filters sent to the keys of
  \<open>K\<close> may change from \<open>r\<close> to \<open>s\<close>, that a changed filter goes out over every link to its
  peer, and that only filters on record go out.
\<close>

definition sent_to :: "router \<Rightarrow> publicKey \<Rightarrow> bloom option" where
  "sent_to r k = map_option bi_send (m_get (r_blooms r) k)"

definition got_from :: "router \<Rightarrow> publicKey \<Rightarrow> bloom option" where
  "got_from r k = map_option bi_recv (m_get (r_blooms r) k)"

definition advertises :: "publicKey set \<Rightarrow> router \<Rightarrow> router \<Rightarrow> bool" where
  "advertises K r s \<longleftrightarrow> r_peers s = r_peers r \<and> r_infos s = r_infos r \<and> got_from s = got_from r \<and>
     (\<forall>k. k \<notin> K \<longrightarrow> sent_to s k = sent_to r k) \<and>
     (\<exists>out. r_outbox s = r_outbox r @ out \<and>
        (\<forall>k b p. sent_to s k = Some b \<longrightarrow> sent_to r k \<noteq> Some b \<longrightarrow> p \<in> set (peers_of r k) \<longrightarrow> SendBloom p b \<in> set out) \<and>
        (\<forall>p b. SendBloom p b \<in> set out \<longrightarrow> (\<exists>k \<in> K. p \<in> set (peers_of r k) \<and> sent_to s k = Some b)))"

lemma advertises_refl [simp]: "advertises K r r"
  by (simp add: advertises_def)

lemma advertises_trans:
  assumes "advertises K r s" "advertises L s t" "K \<inter> L = {}"
  shows "advertises (K \<union> L) r t"
proof -
  obtain o1 where o1: "r_outbox s = r_outbox r @ o1"
      "\<forall>k b p. sent_to s k = Some b \<longrightarrow> sent_to r k \<noteq> Some b \<longrightarrow> p \<in> set (peers_of r k) \<longrightarrow> SendBloom p b \<in> set o1"
      "\<forall>p b. SendBloom p b \<in> set o1 \<longrightarrow> (\<exists>k \<in> K. p \<in> set (peers_of r k) \<and> sent_to s k = Some b)"
    using assms(1) unfolding advertises_def by blast
  obtain o2 where o2: "r_outbox t = r_outbox s @ o2"
      "\<forall>k b p. sent_to t k = Some b \<longrightarrow> sent_to s k \<noteq> Some b \<longrightarrow> p \<in> set (peers_of s k) \<longrightarrow> SendBloom p b \<in> set o2"
      "\<forall>p b. SendBloom p b \<in> set o2 \<longrightarrow> (\<exists>k \<in> L. p \<in> set (peers_of s k) \<and> sent_to t k = Some b)"
    using assms(2) unfolding advertises_def by blast
  have f: "r_peers s = r_peers r" "r_peers t = r_peers s" "r_infos t = r_infos r" "got_from t = got_from r"
      "\<And>k. k \<notin> K \<Longrightarrow> sent_to s k = sent_to r k" "\<And>k. k \<notin> L \<Longrightarrow> sent_to t k = sent_to s k"
    using assms(1,2) by (simp_all add: advertises_def)
  have "SendBloom p b \<in> set (o1 @ o2)"
    if "sent_to t k = Some b" "sent_to r k \<noteq> Some b" "p \<in> set (peers_of r k)" for k b p
  proof (cases "sent_to s k = Some b")
    case True
    then show ?thesis using that o1(2) by simp
  next
    case False
    then show ?thesis using that o2(2) f(1) by simp
  qed
  moreover have "\<exists>k \<in> K \<union> L. p \<in> set (peers_of r k) \<and> sent_to t k = Some b" if "SendBloom p b \<in> set (o1 @ o2)" for p b
  proof -
    have "SendBloom p b \<in> set o1 \<or> SendBloom p b \<in> set o2" using that by simp
    then show ?thesis
    proof
      assume "SendBloom p b \<in> set o1"
      then obtain k where "k \<in> K" "p \<in> set (peers_of r k)" "sent_to s k = Some b" using o1(3) by blast
      moreover from this have "sent_to t k = sent_to s k" using assms(3) f(6) by blast
      ultimately show ?thesis by auto
    next
      assume "SendBloom p b \<in> set o2"
      then show ?thesis using o2(3) f(1) by fastforce
    qed
  qed
  moreover have "r_outbox t = r_outbox r @ o1 @ o2" using o1(1) o2(1) by simp
  ultimately show ?thesis using f unfolding advertises_def by (intro conjI exI [of _ "o1 @ o2"]) simp_all
qed

text \<open>One entry is replaced, and the filter it records goes out when it is new.\<close>

lemma advertises_entry:
  assumes "m_get (r_blooms r) k = Some pbi" "bi_recv pbi' = bi_recv pbi"
    and "os = map (\<lambda>p. SendBloom p (bi_send pbi')) (peers_of r k) \<or> os = [] \<and> bi_send pbi' = bi_send pbi"
    and "bi_send pbi' \<noteq> bi_send pbi \<or> os \<noteq> [] \<Longrightarrow> k \<in> K"
  shows "advertises K r (emit os r\<lparr> r_blooms := m_set (r_blooms r) k pbi' \<rparr>)"
proof -
  let ?s = "emit os r\<lparr> r_blooms := m_set (r_blooms r) k pbi' \<rparr>"
  have s: "r_peers ?s = r_peers r" "r_infos ?s = r_infos r" "r_outbox ?s = r_outbox r @ os" "got_from ?s = got_from r"
      "sent_to ?s = (sent_to r)(k \<mapsto> bi_send pbi')" "sent_to r k = Some (bi_send pbi)"
    using assms(1,2) by (auto simp: sent_to_def got_from_def emit_def fun_eq_iff)
  have "k \<in> K" "p \<in> set (peers_of r k)" "b = bi_send pbi'" if "SendBloom p b \<in> set os" for p b
    using that assms(3) by (auto intro!: assms(4))
  moreover have "SendBloom p (bi_send pbi') \<in> set os" if "bi_send pbi' \<noteq> bi_send pbi" "p \<in> set (peers_of r k)" for p
    using that assms(3) by auto
  ultimately show ?thesis using assms(4) unfolding advertises_def s by (auto simp: s(6))
qed

definition on_tree :: "publicKey \<Rightarrow> routerInfo \<Rightarrow> router \<Rightarrow> publicKey \<Rightarrow> bool" where
  "on_tree selfKey selfInfo r k \<longleftrightarrow> info_parent selfInfo = k
     \<or> (\<exists>info. m_get (r_infos r) k = Some info \<and> info_parent info = selfKey)"

lemma fixOnTree_entry_result:
  assumes "m_get (r_blooms r) k = Some pbi" and s_def: "s = fixOnTree_entry self selfInfo (k, pbi) r"
  shows "advertises ({k} - Collect (on_tree self selfInfo r)) r s"
    and "m_get (r_blooms s) = (m_get (r_blooms r))(k \<mapsto> pbi\<lparr> bi_onTree := on_tree self selfInfo r k,
      bi_send := if bi_onTree pbi \<and> \<not> on_tree self selfInfo r k then newBloom else bi_send pbi \<rparr>)"
proof -
  let ?on = "on_tree self selfInfo r k"
  let ?os = "if bi_onTree pbi \<and> \<not> ?on then map (\<lambda>p. SendBloom p newBloom) (peers_of r k) else []"
  let ?new = "pbi\<lparr> bi_onTree := ?on, bi_send := if bi_onTree pbi \<and> \<not> ?on then newBloom else bi_send pbi \<rparr>"
  have s: "s = emit ?os r\<lparr> r_blooms := m_set (r_blooms r) k ?new \<rparr>"
    by (auto simp: s_def fixOnTree_entry_def on_tree_def Let_def send_to_all_def emit_def split: option.splits)
  show "advertises ({k} - Collect (on_tree self selfInfo r)) r s"
    unfolding s by (rule advertises_entry [OF assms(1)]) (auto split: if_splits)
  show "m_get (r_blooms s) = (m_get (r_blooms r))(k \<mapsto> ?new)"
    by (auto simp: s)
qed

lemma fixOnTree_fold:
  assumes "m_ok es" "\<And>k pbi. (k, pbi) \<in> set es \<Longrightarrow> m_get (r_blooms r) k = Some pbi"
    and s_def: "s = fold (fixOnTree_entry self selfInfo) es r"
  shows "advertises (fst ` set es - Collect (on_tree self selfInfo r)) r s
    \<and> (\<forall>k. m_get (r_blooms s) k = (if k \<in> fst ` set es
         then map_option (\<lambda>pbi. pbi\<lparr> bi_onTree := on_tree self selfInfo r k,
           bi_send := if bi_onTree pbi \<and> \<not> on_tree self selfInfo r k then newBloom else bi_send pbi \<rparr>) (m_get (r_blooms r) k)
         else m_get (r_blooms r) k))"
  using assms(1,2) unfolding s_def
proof (induction es arbitrary: r)
  case (Cons e es)
  obtain k pbi where e: "e = (k, pbi)" by (cases e)
  let ?r = "fixOnTree_entry self selfInfo (k, pbi) r"
  have k: "m_get (r_blooms r) k = Some pbi" "k \<notin> fst ` set es" using Cons.prems by (auto simp: e simp del: m_keys_dom)
  note one = fixOnTree_entry_result [OF k(1) refl, of self selfInfo]
  have on: "on_tree self selfInfo ?r = on_tree self selfInfo r"
    using one(1) by (simp add: on_tree_def advertises_def fun_eq_iff)
  have keys: "fst ` set es \<inter> {k} = {}" "fst ` set (e # es) = insert k (fst ` set es)" using k(2) by (simp_all add: e del: m_keys_dom)
  have "m_get (r_blooms ?r) j = Some p" if "(j, p) \<in> set es" for j p
    using that k(2) Cons.prems(2) [of j p] one(2) by (auto simp: image_iff simp del: m_keys_dom)
  then have rest: "advertises (fst ` set es - Collect (on_tree self selfInfo r)) ?r (fold (fixOnTree_entry self selfInfo) es ?r)"
      "\<And>j. m_get (r_blooms (fold (fixOnTree_entry self selfInfo) es ?r)) j = (if j \<in> fst ` set es
         then map_option (\<lambda>pbi. pbi\<lparr> bi_onTree := on_tree self selfInfo r j,
           bi_send := if bi_onTree pbi \<and> \<not> on_tree self selfInfo r j then newBloom else bi_send pbi \<rparr>) (m_get (r_blooms ?r) j)
         else m_get (r_blooms ?r) j)"
    using Cons.IH [of ?r] Cons.prems(1) unfolding on by (simp_all del: m_keys_dom)
  have "advertises (({k} - Collect (on_tree self selfInfo r)) \<union> (fst ` set es - Collect (on_tree self selfInfo r))) r
      (fold (fixOnTree_entry self selfInfo) es ?r)"
    using keys(1) by (intro advertises_trans [OF one(1) rest(1)]) (auto simp del: m_keys_dom)
  then have "advertises (fst ` set (e # es) - Collect (on_tree self selfInfo r)) r (fold (fixOnTree_entry self selfInfo) (e # es) r)"
    by (simp add: e insert_Diff_if Un_commute split: if_splits del: m_keys_dom)
  moreover have "m_get (r_blooms (fold (fixOnTree_entry self selfInfo) (e # es) r)) j = (if j \<in> fst ` set (e # es)
         then map_option (\<lambda>pbi. pbi\<lparr> bi_onTree := on_tree self selfInfo r j,
           bi_send := if bi_onTree pbi \<and> \<not> on_tree self selfInfo r j then newBloom else bi_send pbi \<rparr>) (m_get (r_blooms r) j)
         else m_get (r_blooms r) j)" for j
    using rest(2) [of j] k unfolding keys(2) by (auto simp: e one(2) simp del: m_keys_dom)
  ultimately show ?case by blast
qed simp

lemma fixOnTree_fold_ok: "m_ok (r_blooms r) \<Longrightarrow> m_ok (r_blooms (fold (fixOnTree_entry self selfInfo) es r))"
  by (rule fold_inv) (auto simp: fixOnTree_entry_def Let_def send_to_all_def emit_def)

lemma getBloomFor_result:
  assumes "m_get (r_blooms r) key = Some pbi" "getBloomFor E key keepOnes r = Inr (b, isNew, r')"
  shows "b = (if keepOnes then addFilter (fresh_bloom E r key) (bi_send pbi) else fresh_bloom E r key)"
    and "isNew \<longleftrightarrow> b \<noteq> bi_send pbi" "\<not> isNew \<Longrightarrow> r' = r"
    and "isNew \<Longrightarrow> \<exists>z. r' = r\<lparr> r_blooms := m_set (r_blooms r) key (pbi\<lparr> bi_zDirty := z, bi_send := b \<rparr>) \<rparr>"
proof -
  let ?b = "if keepOnes then addFilter (fresh_bloom E r key) (bi_send pbi) else fresh_bloom E r key"
  have "\<exists>z. (if keepOnes then (if \<not> bi_zDirty pbi \<and> ?b \<noteq> fresh_bloom E r key then pbi\<lparr> bi_zDirty := True \<rparr> else pbi)
      else pbi\<lparr> bi_zDirty := False \<rparr>) = pbi\<lparr> bi_zDirty := z \<rparr>" (is "\<exists>z. ?pbi = _")
    by (rule exI [of _ "if keepOnes then bi_zDirty pbi \<or> ?b \<noteq> fresh_bloom E r key else False"]) (cases pbi, auto)
  then obtain z where z: "?pbi = pbi\<lparr> bi_zDirty := z \<rparr>" ..
  have "getBloomFor E key keepOnes r = (if ?b = bi_send pbi then Inr (bi_send pbi, False, r)
      else Inr (?b, True, r\<lparr> r_blooms := m_set (r_blooms r) key (pbi\<lparr> bi_zDirty := z, bi_send := ?b \<rparr>) \<rparr>))"
    unfolding getBloomFor_def assms(1) Let_def option.case z by simp
  then show "b = ?b" "isNew \<longleftrightarrow> b \<noteq> bi_send pbi" "\<not> isNew \<Longrightarrow> r' = r"
      "isNew \<Longrightarrow> \<exists>z. r' = r\<lparr> r_blooms := m_set (r_blooms r) key (pbi\<lparr> bi_zDirty := z, bi_send := b \<rparr>) \<rparr>"
    using assms(2) by (auto split: if_splits)
qed

lemma getBloomFor_complete:
  assumes "m_get (r_blooms r) key = Some pbi" "getBloomFor E key keepOnes r = Inr (b, isNew, r')"
  shows "filter_Test (env_hashes E) b (key_bytes (xKey E (self_key E)))"
    and "m_get (r_blooms r) k = Some p \<Longrightarrow> bi_onTree p \<Longrightarrow> k \<noteq> key \<Longrightarrow>
         filter_Test (env_hashes E) (bi_recv p) d \<Longrightarrow> filter_Test (env_hashes E) b d"
  using fresh_bloom_covers(1) [where E = E and r = r and key = key] fresh_bloom_covers(2) [OF map_of_SomeD, of r k p key E d]
  unfolding getBloomFor_result(1) [OF assms] by (auto intro: filter_Test_addFilter)

text \<open>The filter on record for \<open>k\<close> has no false negatives.\<close>

definition complete_for :: "env \<Rightarrow> router \<Rightarrow> publicKey \<Rightarrow> bool" where
  "complete_for E r k \<longleftrightarrow> (\<exists>b. sent_to r k = Some b \<and> filter_Test (env_hashes E) b (key_bytes (xKey E (self_key E))) \<and>
     (\<forall>j c d. isOnTree r j \<longrightarrow> j \<noteq> k \<longrightarrow> got_from r j = Some c \<longrightarrow> filter_Test (env_hashes E) c d \<longrightarrow> filter_Test (env_hashes E) b d))"

lemma sent_entry:
  assumes "sendAllBlooms_entry E k r = Inr s" "m_get (r_blooms r) k = Some pbi" "bi_onTree pbi"
    and "getBloomFor E k (\<not> bi_zDirty pbi) r = Inr (b, isNew, r1)"
  shows "\<exists>os pbi'. s = emit os r\<lparr> r_blooms := m_set (r_blooms r) k pbi' \<rparr> \<and> bi_send pbi' = b
    \<and> bi_recv pbi' = bi_recv pbi \<and> bi_onTree pbi'
    \<and> (os = map (\<lambda>p. SendBloom p b) (peers_of r k) \<or> os = [] \<and> b = bi_send pbi)"
proof (cases isNew)
  case True
  then obtain z where "r1 = r\<lparr> r_blooms := m_set (r_blooms r) k (pbi\<lparr> bi_zDirty := z, bi_send := b \<rparr>) \<rparr>"
    using getBloomFor_result(4) [OF assms(2,4)] by blast
  then show ?thesis
    using assms True
    by (intro exI [of _ "map (\<lambda>p. SendBloom p b) (peers_of r k)"] exI [of _ "pbi\<lparr> bi_zDirty := z, bi_send := b, bi_seq := 0 \<rparr>"])
      (auto simp: sendAllBlooms_entry_def Let_def send_to_all_def emit_def split: if_splits)
next
  case False
  then have r1: "r1 = r" "b = bi_send pbi" using getBloomFor_result(2,3) [OF assms(2,4)] by auto
  show ?thesis
  proof (cases "bi_seq pbi + 1 \<ge> 3600")
    case True
    then show ?thesis
      using assms r1 False
      by (intro exI [of _ "map (\<lambda>p. SendBloom p b) (peers_of r k)"] exI [of _ "pbi\<lparr> bi_seq := 0 \<rparr>"])
        (auto simp: sendAllBlooms_entry_def Let_def send_to_all_def emit_def split: if_splits)
  next
    case below: False
    show ?thesis
      using assms r1 False below
      by (intro exI [of _ "[]"] exI [of _ "pbi\<lparr> bi_seq := bi_seq pbi + 1 \<rparr>"])
        (auto simp: sendAllBlooms_entry_def Let_def emit_def split: if_splits)
  qed
qed

lemma sendAllBlooms_entry_result:
  assumes "sendAllBlooms_entry E k r = Inr s"
  shows "advertises ({k} \<inter> Collect (isOnTree r)) r s" "isOnTree s = isOnTree r" "isOnTree r k \<Longrightarrow> complete_for E s k"
proof -
  have *: "advertises ({k} \<inter> Collect (isOnTree r)) r s \<and> isOnTree s = isOnTree r \<and> (isOnTree r k \<longrightarrow> complete_for E s k)"
  proof (cases "isOnTree r k")
    case False
    then have "s = r" using assms by (auto simp: sendAllBlooms_entry_def isOnTree_def split: option.splits)
    then show ?thesis using False by simp
  next
    case True
    then obtain pbi where pbi: "m_get (r_blooms r) k = Some pbi" "bi_onTree pbi" by (auto simp: isOnTree_def split: option.splits)
    have "\<exists>x. getBloomFor E k (\<not> bi_zDirty pbi) r = Inr x"
      using assms pbi by (auto simp: sendAllBlooms_entry_def and_then_eq_Inr)
    then obtain b isNew r1 where g: "getBloomFor E k (\<not> bi_zDirty pbi) r = Inr (b, isNew, r1)" by auto
    note full = getBloomFor_complete [OF pbi(1) g]
    obtain os pbi' where s: "s = emit os r\<lparr> r_blooms := m_set (r_blooms r) k pbi' \<rparr>" "bi_send pbi' = b"
        "bi_recv pbi' = bi_recv pbi" "bi_onTree pbi'"
        "os = map (\<lambda>p. SendBloom p b) (peers_of r k) \<or> os = [] \<and> b = bi_send pbi"
      using sent_entry [OF assms pbi g] by blast
    have "advertises ({k} \<inter> Collect (isOnTree r)) r s"
      unfolding s(1) using s True by (intro advertises_entry [OF pbi(1)]) auto
    moreover have "isOnTree s = isOnTree r"
      using pbi s(4) by (auto simp: s(1) isOnTree_def fun_eq_iff)
    moreover have "complete_for E s k"
      using full by (auto simp: s complete_for_def sent_to_def got_from_def isOnTree_def emit_def split: option.splits)
    ultimately show ?thesis by blast
  qed
  then show "advertises ({k} \<inter> Collect (isOnTree r)) r s" "isOnTree s = isOnTree r" "isOnTree r k \<Longrightarrow> complete_for E s k"
    by blast+
qed

lemma complete_for_kept:
  assumes "complete_for E r k" "advertises K r s" "k \<notin> K" "isOnTree s = isOnTree r"
  shows "complete_for E s k"
  using assms by (simp add: complete_for_def advertises_def)

lemma sendAllBlooms_loop:
  assumes "range_loop (sendAllBlooms_entry E) ks r = Inr s" "distinct ks"
  shows "advertises (set ks \<inter> Collect (isOnTree r)) r s \<and> isOnTree s = isOnTree r
    \<and> (\<forall>k \<in> set ks. isOnTree r k \<longrightarrow> complete_for E s k)"
  using assms
proof (induction ks arbitrary: r)
  case (Cons k ks)
  then obtain r1 where r1: "sendAllBlooms_entry E k r = Inr r1" "range_loop (sendAllBlooms_entry E) ks r1 = Inr s"
    by (auto simp: and_then_eq_Inr)
  note one = sendAllBlooms_entry_result [OF r1(1)]
  have rest: "advertises (set ks \<inter> Collect (isOnTree r)) r1 s" "isOnTree s = isOnTree r"
      "\<And>j. j \<in> set ks \<Longrightarrow> isOnTree r j \<Longrightarrow> complete_for E s j"
    using Cons.IH [OF r1(2)] Cons.prems(2) one(2) by auto
  have "advertises (({k} \<inter> Collect (isOnTree r)) \<union> (set ks \<inter> Collect (isOnTree r))) r s"
    using Cons.prems(2) by (intro advertises_trans [OF one(1) rest(1)]) auto
  moreover have "complete_for E s k" if "isOnTree r k"
    using complete_for_kept [OF one(3) [OF that] rest(1)] Cons.prems(2) rest(2) one(2) by simp
  ultimately show ?case using rest by (auto simp: Int_Un_distrib2 [symmetric])
qed simp

lemma blooms_doMaintenance_result:
  assumes "m_ok (r_blooms r)" "blooms_doMaintenance E r = Inr r'"
  shows "\<exists>self. m_get (r_infos r) (self_key E) = Some self \<and> advertises (m_dom (r_blooms r)) r r'
    \<and> (\<forall>k. isOnTree r' k \<longleftrightarrow> k \<in> m_dom (r_blooms r) \<and> on_tree (self_key E) self r k)
    \<and> (\<forall>k. isOnTree r' k \<longrightarrow> complete_for E r' k)
    \<and> (\<forall>k old. \<not> isOnTree r' k \<longrightarrow> m_get (r_blooms r) k = Some old \<longrightarrow>
         sent_to r' k = Some (if bi_onTree old then newBloom else bi_send old))"
proof -
  obtain self s where m: "m_get (r_infos r) (self_key E) = Some self"
      "s = fold (fixOnTree_entry (self_key E) self) (r_blooms r) r" "sendAllBlooms E s = Inr r'"
    using assms(2) by (auto simp: blooms_doMaintenance_def fixOnTree_def and_then_eq_Inr split: option.splits)
  let ?on = "on_tree (self_key E) self r"
  have fixed: "advertises (m_dom (r_blooms r) - Collect ?on) r s"
      "m_get (r_blooms s) k = map_option (\<lambda>pbi. pbi\<lparr> bi_onTree := ?on k,
         bi_send := if bi_onTree pbi \<and> \<not> ?on k then newBloom else bi_send pbi \<rparr>) (m_get (r_blooms r) k)" for k
    using fixOnTree_fold [OF assms(1) _ m(2)] assms(1) by (simp, cases "m_get (r_blooms r) k") auto
  have on: "isOnTree s k \<longleftrightarrow> k \<in> m_dom (r_blooms r) \<and> ?on k" for k
    by (auto simp: isOnTree_def fixed(2) split: option.splits)
  have "m_ok (r_blooms s)" using fixOnTree_fold_ok [OF assms(1)] by (simp add: m(2))
  from sendAllBlooms_loop [OF m(3) [unfolded sendAllBlooms_def] this]
  have sent: "advertises (m_dom (r_blooms s) \<inter> Collect (isOnTree s)) s r'" "isOnTree r' = isOnTree s"
      "\<And>k. isOnTree s k \<Longrightarrow> complete_for E r' k"
    by (simp_all add: isOnTree_def domIff split: option.splits)
  have dom: "m_dom (r_blooms s) = m_dom (r_blooms r)" by (auto simp: dom_def fixed(2))
  have "m_dom (r_blooms r) - Collect ?on \<union> (m_dom (r_blooms s) \<inter> Collect (isOnTree s)) = m_dom (r_blooms r)"
    unfolding dom by (auto simp: on)
  moreover have "(m_dom (r_blooms r) - Collect ?on) \<inter> (m_dom (r_blooms s) \<inter> Collect (isOnTree s)) = {}"
    by (auto simp: on)
  ultimately have "advertises (m_dom (r_blooms r)) r r'" using advertises_trans [OF fixed(1) sent(1)] by simp
  moreover have "sent_to r' k = Some (if bi_onTree old then newBloom else bi_send old)"
    if "\<not> isOnTree r' k" "m_get (r_blooms r) k = Some old" for k old
    using that sent(1,2) on [of k] fixed(2) [of k] by (auto simp: advertises_def sent_to_def)
  ultimately show ?thesis using m(1) sent(2,3) on by (intro exI [of _ self]) simp
qed

text \<open>
  C31. No false negatives. Maintenance marks as on the tree exactly our parent and the peers whose parent we
  are, and leaves in every on-tree peer's entry, as the filter sent to it, one that contains our own
  (transformed) key and everything in the filters received from the other on-tree peers, whatever
  bits it kept from before. A peer that leaves the tree gets the empty filter, one that stays
  off it keeps what it had. A filter that differs from the one on record before goes out over every link
  to the peer, and no filter goes out but the one on record.
\<close>

theorem advertised_bloom_complete:
  assumes "m_ok (r_blooms r)" "blooms_doMaintenance E r = Inr r'"
  shows "\<exists>self out. m_get (r_infos r) (self_key E) = Some self \<and> r_outbox r' = r_outbox r @ out
    \<and> (\<forall>k pbi. m_get (r_blooms r') k = Some pbi \<longrightarrow>
         (bi_onTree pbi \<longleftrightarrow> info_parent self = k
            \<or> (\<exists>info. m_get (r_infos r) k = Some info \<and> info_parent info = self_key E))
       \<and> (bi_onTree pbi \<longrightarrow> filter_Test (env_hashes E) (bi_send pbi) (key_bytes (xKey E (self_key E)))
            \<and> (\<forall>j q d. m_get (r_blooms r') j = Some q \<longrightarrow> bi_onTree q \<longrightarrow> j \<noteq> k \<longrightarrow>
                 filter_Test (env_hashes E) (bi_recv q) d \<longrightarrow> filter_Test (env_hashes E) (bi_send pbi) d))
       \<and> (\<exists>old. m_get (r_blooms r) k = Some old \<and> bi_recv pbi = bi_recv old
            \<and> (\<not> bi_onTree pbi \<longrightarrow> bi_send pbi = (if bi_onTree old then newBloom else bi_send old))
            \<and> (bi_send pbi \<noteq> bi_send old \<longrightarrow> (\<forall>p \<in> set (peers_of r k). SendBloom p (bi_send pbi) \<in> set out))))
    \<and> (\<forall>p b. SendBloom p b \<in> set out \<longrightarrow>
         (\<exists>k pbi. p \<in> set (peers_of r k) \<and> m_get (r_blooms r') k = Some pbi \<and> b = bi_send pbi))"
proof -
  obtain self where self: "m_get (r_infos r) (self_key E) = Some self" "advertises (m_dom (r_blooms r)) r r'"
      "\<And>k. isOnTree r' k \<longleftrightarrow> k \<in> m_dom (r_blooms r) \<and> on_tree (self_key E) self r k"
      "\<And>k. isOnTree r' k \<Longrightarrow> complete_for E r' k"
      "\<And>k old. \<not> isOnTree r' k \<Longrightarrow> m_get (r_blooms r) k = Some old \<Longrightarrow>
         sent_to r' k = Some (if bi_onTree old then newBloom else bi_send old)"
    using blooms_doMaintenance_result [OF assms] by blast
  obtain out where out: "r_outbox r' = r_outbox r @ out"
      "\<And>k b p. sent_to r' k = Some b \<Longrightarrow> sent_to r k \<noteq> Some b \<Longrightarrow> p \<in> set (peers_of r k) \<Longrightarrow> SendBloom p b \<in> set out"
      "\<And>p b. SendBloom p b \<in> set out \<Longrightarrow> \<exists>k. p \<in> set (peers_of r k) \<and> sent_to r' k = Some b"
    using self(2) unfolding advertises_def by blast
  have got: "got_from r' = got_from r" using self(2) by (simp add: advertises_def)
  have entry: "(bi_onTree pbi \<longleftrightarrow> on_tree (self_key E) self r k)
      \<and> (bi_onTree pbi \<longrightarrow> filter_Test (env_hashes E) (bi_send pbi) (key_bytes (xKey E (self_key E)))
            \<and> (\<forall>j q d. m_get (r_blooms r') j = Some q \<longrightarrow> bi_onTree q \<longrightarrow> j \<noteq> k \<longrightarrow>
                 filter_Test (env_hashes E) (bi_recv q) d \<longrightarrow> filter_Test (env_hashes E) (bi_send pbi) d))
      \<and> (\<exists>old. m_get (r_blooms r) k = Some old \<and> bi_recv pbi = bi_recv old
            \<and> (\<not> bi_onTree pbi \<longrightarrow> bi_send pbi = (if bi_onTree old then newBloom else bi_send old))
            \<and> (bi_send pbi \<noteq> bi_send old \<longrightarrow> (\<forall>p \<in> set (peers_of r k). SendBloom p (bi_send pbi) \<in> set out)))"
    if pbi: "m_get (r_blooms r') k = Some pbi" for k pbi
  proof -
    have tree: "isOnTree r' k \<longleftrightarrow> bi_onTree pbi" and b: "sent_to r' k = Some (bi_send pbi)"
      using pbi by (simp_all add: isOnTree_def sent_to_def)
    have "got_from r' k = Some (bi_recv pbi)" using pbi by (simp add: got_from_def)
    then obtain old where old: "m_get (r_blooms r) k = Some old" "bi_recv pbi = bi_recv old"
      unfolding got by (auto simp: got_from_def)
    have "filter_Test (env_hashes E) (bi_send pbi) d"
      if "bi_onTree pbi" "m_get (r_blooms r') j = Some q" "bi_onTree q" "j \<noteq> k" "filter_Test (env_hashes E) (bi_recv q) d" for j q d
    proof -
      have "isOnTree r' j" "got_from r' j = Some (bi_recv q)" using that(2,3) by (simp_all add: isOnTree_def got_from_def)
      then show ?thesis using self(4) [of k] tree b that(1,4,5) by (auto simp: complete_for_def)
    qed
    moreover have "sent_to r k = Some (bi_send old)" using old by (simp add: sent_to_def)
    ultimately show ?thesis
      using self(3,4) [of k] self(5) [OF _ old(1)] tree b old out(2) [of k] by (auto simp: complete_for_def)
  qed
  show ?thesis
    using self(1) out(1) entry out(3) unfolding on_tree_def sent_to_def map_option_eq_Some
    by (intro exI [of _ self] exI [of _ out]) blast
qed

definition bloom_node :: router where
  "bloom_node = \<lparr> r_pathfinder = \<lparr> pf_info = \<lparr> nfo_seq = 0, nfo_path = [], nfo_sig = 0 \<rparr>, pf_paths = [], pf_rumors = [] \<rparr>,
     r_blooms = [(7, \<lparr> bi_send = 0, bi_recv = 0, bi_seq = 0, bi_onTree = True, bi_zDirty = False \<rparr>)],
     r_peers = [], r_sent = [], r_ports = [], r_infos = [], r_timers = [], r_ancs = [], r_cache = [],
     r_lags = [], r_penalties = [], r_requests = [], r_responses = [], r_responded = [], r_resSeqs = [],
     r_resSeqCtr = 0, r_refresh = False, r_doRoot1 = False, r_doRoot2 = False, r_mainTimer = None,
     r_fresh = 0, r_entropy = [], r_outbox = [] \<rparr>"

definition bloom_env :: env where
  "bloom_env = core_env sample_ed (\<lambda>_. (1, 2, 3, 4)) (replicate 64 0) []"

text \<open>A node with its parent 7 and a peer 8 that is off the tree.\<close>

definition tree_node :: router where
  "tree_node = bloom_node\<lparr> r_infos := [(self_key bloom_env, zero_info\<lparr> info_parent := 7 \<rparr>)],
     r_blooms := [(7, \<lparr> bi_send = 0, bi_recv = 0, bi_seq = 0, bi_onTree = False, bi_zDirty = False \<rparr>),
                  (8, \<lparr> bi_send = 0, bi_recv = NOT 0, bi_seq = 0, bi_onTree = True, bi_zDirty = False \<rparr>)],
     r_peers := [(7, []), (8, [])] \<rparr>"

lemma sendAllBlooms_total:
  assumes "m_dom (r_blooms r) \<subseteq> m_dom (r_peers r)"
  shows "\<exists>r'. sendAllBlooms E r = Inr r'"
proof -
  have "\<exists>s'. sendAllBlooms_entry E k s = Inr s' \<and> r_peers s' = r_peers r"
    if "k \<in> m_dom (r_peers r)" "r_peers s = r_peers r" for k s
    using that by (auto simp: sendAllBlooms_entry_def getBloomFor_def Let_def send_to_all_def emit_def split: option.splits)
  with assms have "\<exists>r'. range_loop (sendAllBlooms_entry E) (m_keys (r_blooms r)) r = Inr r' \<and> r_peers r' = r_peers r"
    by (intro range_loop_inv) (simp_all add: subset_iff)
  then show ?thesis by (auto simp: sendAllBlooms_def)
qed

lemma tree_node_maintained:
  "\<exists>r'. blooms_doMaintenance bloom_env tree_node = Inr r' \<and> isOnTree r' 7"
proof -
  let ?info = "zero_info\<lparr> info_parent := 7 \<rparr>"
  let ?s = "fold (fixOnTree_entry (self_key bloom_env) ?info) (r_blooms tree_node) tree_node"
  have ok: "m_ok (r_blooms tree_node)" by (simp add: tree_node_def)
  have info: "m_get (r_infos tree_node) (self_key bloom_env) = Some ?info" by (simp add: tree_node_def)
  have "r_peers ?s = r_peers tree_node" "m_dom (r_blooms ?s) = m_dom (r_blooms tree_node)"
    using fixOnTree_fold [OF ok _ refl, of tree_node "self_key bloom_env" ?info] ok
    by (simp_all add: advertises_def dom_def)
  moreover have "m_dom (r_blooms tree_node) \<subseteq> m_dom (r_peers tree_node)" by (auto simp: tree_node_def)
  ultimately obtain r' where "sendAllBlooms bloom_env ?s = Inr r'" using sendAllBlooms_total [of ?s bloom_env] by auto
  then have r': "blooms_doMaintenance bloom_env tree_node = Inr r'"
    by (simp add: blooms_doMaintenance_def fixOnTree_def info)
  then have "isOnTree r' 7"
    using blooms_doMaintenance_result [OF ok r'] info by (auto simp: on_tree_def tree_node_def)
  with r' show ?thesis by blast
qed

theorem advertised_bloom_complete_witness:
  "\<exists>r' pbi. blooms_doMaintenance bloom_env tree_node = Inr r' \<and> m_get (r_blooms r') 7 = Some pbi
     \<and> bi_onTree pbi \<and> filter_Test (env_hashes bloom_env) (bi_send pbi) (key_bytes (xKey bloom_env (self_key bloom_env)))"
proof -
  obtain r' where r': "blooms_doMaintenance bloom_env tree_node = Inr r'" "isOnTree r' 7" using tree_node_maintained by blast
  then obtain pbi where pbi: "m_get (r_blooms r') 7 = Some pbi" "bi_onTree pbi" by (auto simp: isOnTree_def split: option.splits)
  have "m_ok (r_blooms tree_node)" by (simp add: tree_node_def)
  from advertised_bloom_complete [OF this r'(1)] r'(1) pbi show ?thesis by blast
qed

text \<open>
  Stale ones are never cleared: when the fresh filter for a clean on-tree peer only lacks bits of
  the filter sent before, maintenance leaves the sent filter and the dirty flag as they are, so
  the next maintenance does the same, although the code means to drop the extra bits "next time".
\<close>

theorem stale_bits_stay:
  assumes "m_get (r_blooms r) k = Some pbi" "bi_onTree pbi" "\<not> bi_zDirty pbi"
    and "addFilter (fresh_bloom E r k) (bi_send pbi) = bi_send pbi" "fresh_bloom E r k \<noteq> bi_send pbi"
    and "bi_seq pbi + 1 < 3600"
  shows "sendAllBlooms_entry E k r
    = Inr (r\<lparr> r_blooms := m_set (r_blooms r) k (pbi\<lparr> bi_seq := bi_seq pbi + 1 \<rparr>) \<rparr>)"
  using assms by (auto simp: sendAllBlooms_entry_def getBloomFor_def Let_def not_le)

definition stale_node :: router where
  "stale_node = bloom_node\<lparr> r_blooms :=
     [(7, \<lparr> bi_send = NOT 0, bi_recv = 0, bi_seq = 0, bi_onTree = True, bi_zDirty = False \<rparr>)] \<rparr>"

lemma stale_fresh: "fresh_bloom bloom_env stale_node 7 \<noteq> NOT 0"
proof -
  have "fresh_bloom bloom_env stale_node 7 = addKey (\<lambda>_. (1, 2, 3, 4)) 0 (xKey bloom_env (self_key bloom_env))"
    by (simp add: fresh_bloom_def stale_node_def bloom_node_def bloom_env_def core_env_def newBloom_def)
  moreover have "\<not> bit (addKey (\<lambda>_. (1, 2, 3, 4)) 0 key) 8191" for key
    by (auto simp: bit_addKey location_def lessThan_nat_numeral lessThan_Suc)
  moreover have "bit (NOT 0 :: bloom) 8191" by (simp add: bit_simps)
  ultimately show ?thesis by metis
qed

theorem stale_bits_stay_witness:
  "\<exists>r'. sendAllBlooms_entry bloom_env 7 stale_node = Inr r' \<and> m_get (r_blooms r') 7
     = Some \<lparr> bi_send = NOT 0, bi_recv = 0, bi_seq = 1, bi_onTree = True, bi_zDirty = False \<rparr>"
proof -
  have g: "m_get (r_blooms stale_node) 7
      = Some \<lparr> bi_send = NOT 0, bi_recv = 0, bi_seq = 0, bi_onTree = True, bi_zDirty = False \<rparr>"
    by (simp add: stale_node_def)
  have "addFilter f (NOT 0) = NOT 0" for f by (simp add: addFilter_def)
  then show ?thesis
    using stale_bits_stay [OF g, of bloom_env] stale_fresh by simp
qed

lemma best_prio_spec:
  "\<exists>q. best_prio (Some p) ps = Some q \<and> q \<in> set (p # ps) \<and> (\<forall>x \<in> set (p # ps). p_prio q \<le> p_prio x)"
proof (induction ps arbitrary: p)
  case (Cons x ps)
  let ?p = "if p_prio x < p_prio p then x else p"
  obtain q where "best_prio (Some ?p) ps = Some q" "q \<in> set (?p # ps)" "\<forall>y \<in> set (?p # ps). p_prio q \<le> p_prio y"
    using Cons by blast
  moreover have "p_prio ?p \<le> p_prio p" "p_prio ?p \<le> p_prio x" by auto
  ultimately show ?case by (auto intro: order_trans)
qed simp

lemma range_loop_emit:
  assumes "\<And>x s. x \<in> set xs \<Longrightarrow> r_peers s = r_peers r \<Longrightarrow> f x s = Inr (emit (g x) s)"
  shows "range_loop f xs r = Inr (emit (concat (map g xs)) r)"
proof -
  have "range_loop f xs (emit os r) = Inr (emit (os @ concat (map g xs)) r)" for os
    using assms
  proof (induction xs arbitrary: os)
    case (Cons x xs)
    have "f x (emit os r) = Inr (emit (os @ g x) r)"
      using Cons.prems [of x "emit os r"] by (simp add: emit_def)
    then show ?case using Cons by simp
  qed simp
  from this [of "[]"] show ?thesis by (simp add: emit_def)
qed

text \<open>
  Multicast: a lookup is sent exactly once to each on-tree peer, other than the one it came from,
  whose filter may contain the destination, over a link to that peer; nobody else gets it.
\<close>

theorem multicast_exact:
  assumes "\<forall>k \<in> fst ` set (r_blooms r). \<exists>p ps. m_get (r_peers r) k = Some (p # ps)"
  shows "\<exists>link. sendMulticast E packet fromKey toKey r
      = Inr (emit (map (\<lambda>(k, pbi). SendQueued (link k) packet)
                     (filter (multicast_wants E fromKey toKey) (r_blooms r))) r)
    \<and> (\<forall>k \<in> fst ` set (r_blooms r). link k \<in> set (peers_of r k)
         \<and> (\<forall>p \<in> set (peers_of r k). p_prio (link k) \<le> p_prio p))"
proof -
  let ?link = "\<lambda>k. the (best_prio None (peers_of r k))"
  have link: "best_prio None (peers_of r k) = Some (?link k) \<and> ?link k \<in> set (peers_of r k)
      \<and> (\<forall>p \<in> set (peers_of r k). p_prio (?link k) \<le> p_prio p)" if k: "k \<in> fst ` set (r_blooms r)" for k
  proof -
    obtain p ps where "m_get (r_peers r) k = Some (p # ps)" using assms k by blast
    then have "peers_of r k = p # ps" by (simp add: m_get0_def)
    then show ?thesis using best_prio_spec [of p ps] by auto
  qed
  have "sendMulticast E packet fromKey toKey r
      = Inr (emit (concat (map (\<lambda>x. if multicast_wants E fromKey toKey x then [SendQueued (?link (fst x)) packet] else [])
          (r_blooms r))) r)"
    unfolding sendMulticast_def
  proof (rule range_loop_emit)
    fix x and s :: router
    assume x: "x \<in> set (r_blooms r)" and s: "r_peers s = r_peers r"
    obtain k pbi where xp: "x = (k, pbi)" by (cases x)
    have "k \<in> fst ` set (r_blooms r)" by (rule image_eqI [OF _ x]) (simp add: xp)
    then obtain q where "best_prio None (peers_of r k) = Some q" using link by blast
    with s show "multicast_entry E packet fromKey toKey x s
      = Inr (emit (if multicast_wants E fromKey toKey x then [SendQueued (?link (fst x)) packet] else []) s)"
      by (simp add: xp emit_def multicast_entry_def)
  qed
  moreover have "concat (map (\<lambda>x. if multicast_wants E fromKey toKey x then [SendQueued (?link (fst x)) packet] else []) bs)
      = map (\<lambda>(k, pbi). SendQueued (?link k) packet) (filter (multicast_wants E fromKey toKey) bs)" for bs
    by (induction bs) auto
  ultimately show ?thesis using link by (intro exI [of _ ?link]) simp
qed

definition multicast_node :: router where
  "multicast_node = bloom_node\<lparr> r_peers := [(7, [\<lparr> p_id = 0, p_key = 7, p_protocol = ''TCP'', p_port = 1,
     p_prio = 0, p_order = 0 \<rparr>])] \<rparr>"

theorem multicast_exact_witness:
  "\<exists>r'. sendMulticast bloom_env (PathLookup sample_lookup) 7 2 multicast_node = Inr r'
     \<and> r_outbox r' = []"
proof -
  have "\<forall>k \<in> fst ` set (r_blooms multicast_node). \<exists>p ps. m_get (r_peers multicast_node) k = Some (p # ps)"
    by (auto simp: multicast_node_def bloom_node_def simp del: m_keys_dom)
  from multicast_exact [OF this, of bloom_env "PathLookup sample_lookup" 7 2] show ?thesis
    by (auto simp: multicast_node_def bloom_node_def emit_def multicast_wants_def)
qed


end
