(* ===== verification/Router.thy ===== *)
theory Router
  imports Blooms
begin

text \<open>
  The operations of the router actor, \<^verbatim>\<open>ironwood/network/router.go\<close> lines 86 to 704 and
  808 to 881, in the order of the file: peers come and go, the node picks a parent or becomes a
  root, announcements spread through the update rule, and \<open>_lookup\<close> picks the next hop of a packet.
  Every \<open>panic\<close> and every write to a nil map is the value \<open>Inl Panic\<close>. The argument \<open>now\<close> is the
  current time.
\<close>

subsection \<open>Updates\<close>

definition resetCache :: "router \<Rightarrow> router" where
  "resetCache r = r\<lparr> r_cache := [] \<rparr>"

definition forget_sent :: "publicKey \<Rightarrow> router \<Rightarrow> router" where
  "forget_sent key r = r\<lparr> r_sent := map (\<lambda>(pk, s). (pk, set_del key s)) (r_sent r) \<rparr>"

text \<open>The \<open>switch\<close> of \<open>_update\<close>: may the announcement replace what we know?\<close>

definition update_wins :: "routerInfo \<Rightarrow> routerAnnounce \<Rightarrow> bool" where
  "update_wins info ann =
     (if info_seq info > ann_seq ann then False
      else if info_seq info < ann_seq ann then True
      else if publicKey_less (info_parent info) (ann_parent ann) then False
      else if publicKey_less (ann_parent ann) (info_parent info) then True
      else if ann_nonce ann < info_nonce info then True
      else False)"

definition info_of_announce :: "routerAnnounce \<Rightarrow> routerInfo" where
  "info_of_announce ann = \<lparr> info_parent = ann_parent ann, info_res = ann_res ann, info_sig = ann_sig ann \<rparr>"

definition router_update :: "env \<Rightarrow> routerAnnounce \<Rightarrow> router \<Rightarrow> bool \<times> router" where
  "router_update E ann r =
     (if (case m_get (r_infos r) (ann_key ann) of None \<Rightarrow> False | Some info \<Rightarrow> \<not> update_wins info ann)
      then (False, r)
      else
        (let r1 = resetCache (forget_sent (ann_key ann) r);
             timer = r_fresh r1;
             delay = (if ann_key ann = self_key E then routerRefresh (env_config E)
                      else routerTimeout (env_config E));
             r2 = emit (TimerStart timer delay #
                    (case m_get (r_timers r1) (ann_key ann) of None \<Rightarrow> [] | Some old \<Rightarrow> [TimerStop old])) r1
         in (True, r2\<lparr> r_fresh := timer + 1,
                       r_timers := m_set (r_timers r2) (ann_key ann) timer,
                       r_infos := m_set (r_infos r2) (ann_key ann) (info_of_announce ann) \<rparr>)))"

text \<open>The closures of the two timers that \<open>_update\<close> starts.\<close>

definition info_timer_fired :: "env \<Rightarrow> publicKey \<Rightarrow> nat \<Rightarrow> router \<Rightarrow> router" where
  "info_timer_fired E key timer r =
     (if m_get (r_timers r) key \<noteq> Some timer then r
      else if key = self_key E then r\<lparr> r_refresh := True \<rparr>
      else
        (let r1 = emit [TimerStop timer] r;
             r2 = r1\<lparr> r_infos := m_del (r_infos r1) key, r_timers := m_del (r_timers r1) key \<rparr>
         in resetCache (forget_sent key r2)))"

definition newReq :: "env \<Rightarrow> router \<Rightarrow> routerSigReq \<times> router" where
  "newReq E r =
     (let (nonce, rest) = (case r_entropy r of [] \<Rightarrow> (0, []) | n # ns \<Rightarrow> (n, ns))
      in (\<lparr> req_seq = info_seq (info_of r (self_key E)) + 1, req_nonce = nonce \<rparr>,
          r\<lparr> r_entropy := rest \<rparr>))"

definition becomeRoot :: "env \<Rightarrow> router \<Rightarrow> (bool \<times> router) result" where
  "becomeRoot E r =
     (let self = self_key E;
          (req, r1) = newReq E r;
          res = \<lparr> res_req = req, res_port = 0, res_psig = 0 \<rparr>
      in and_then (routerSigRes_bytesForSig res self self) (\<lambda>bs.
           let psig = privateKey_sign (env_ed E) (crypto_privateKey (env_crypto E)) bs;
               ann = \<lparr> ann_key = self, ann_parent = self, ann_res = res\<lparr> res_psig := psig \<rparr>,
                       ann_sig = psig \<rparr>
           in and_then (routerAnnounce_check (env_ed E) ann) (\<lambda>valid.
                if \<not> valid then Inl Panic else Inr (router_update E ann r1))))"

definition useResponse :: "env \<Rightarrow> publicKey \<Rightarrow> routerSigRes \<Rightarrow> router \<Rightarrow> (bool \<times> router) result" where
  "useResponse E peerKey res r =
     and_then (routerSigRes_bytesForSig res (self_key E) peerKey) (\<lambda>bs.
       let info = \<lparr> info_parent = peerKey, info_res = res,
                    info_sig = privateKey_sign (env_ed E) (crypto_privateKey (env_crypto E)) bs \<rparr>
       in Inr (router_update E (getAnnounce info (self_key E)) r))"

subsection \<open>Requests\<close>

definition clearReqs :: "router \<Rightarrow> router" where
  "clearReqs r = r\<lparr> r_requests := [], r_responses := [], r_resSeqs := [], r_resSeqCtr := 0 \<rparr>"

definition sendReqs_entry :: "env \<Rightarrow> publicKey \<times> peer list \<Rightarrow> router \<Rightarrow> router" where
  "sendReqs_entry E = (\<lambda>(pk, ps) r.
     (let (req, r1) = newReq E r;
          r2 = r1\<lparr> r_requests := m_set (r_requests r1) pk req,
                   r_responded := fold set_del ps (r_responded r1) \<rparr>
      in emit (map (\<lambda>p. SendSigReq p req) ps) r2))"

definition sendReqs :: "env \<Rightarrow> int \<Rightarrow> router \<Rightarrow> router" where
  "sendReqs E now r =
     (let (lgs, pens) = penalizeMissedResponses now (r_peers r) (r_requests r) (r_responded r)
                          (r_lags r, r_penalties r);
          r1 = clearReqs (r\<lparr> r_lags := lgs, r_penalties := pens \<rparr>)
      in fold (sendReqs_entry E) (r_peers r1) r1)"

definition handleRequest :: "env \<Rightarrow> peer \<Rightarrow> routerSigReq \<Rightarrow> router \<Rightarrow> router result" where
  "handleRequest E p req r =
     (let res = \<lparr> res_req = req, res_port = p_port p, res_psig = 0 \<rparr>
      in and_then (routerSigRes_bytesForSig res (p_key p) (self_key E)) (\<lambda>bs.
           Inr (emit [SendSigRes p
             (res\<lparr> res_psig := privateKey_sign (env_ed E) (crypto_privateKey (env_crypto E)) bs \<rparr>)] r)))"

definition handleResponse :: "peer \<Rightarrow> routerSigRes \<Rightarrow> int \<Rightarrow> router \<Rightarrow> router" where
  "handleResponse p res rtt r =
     (let r1 = (if \<not> m_has (r_responses r) (p_key p)
                   \<and> m_get0 zero_req (r_requests r) (p_key p) = res_req res
                then r\<lparr> r_resSeqCtr := r_resSeqCtr r + 1,
                        r_resSeqs := m_set (r_resSeqs r) (p_key p) (r_resSeqCtr r + 1),
                        r_responses := m_set (r_responses r) (p_key p) res \<rparr>
                else r)
      in if p \<notin> set (r_responded r1) \<and> m_get0 zero_req (r_requests r1) (p_key p) = res_req res
         then r1\<lparr> r_responded := set_add p (r_responded r1),
                  r_lags := m_set (r_lags r1) p (update_lag (m_get0 0 (r_lags r1) p) rtt) \<rparr>
         else r1)"

subsection \<open>Peers\<close>

text \<open>
  \<open>addPeer\<close> in three parts: the branch on whether the key is connected already, the link itself,
  and the request and bloom sent to the new link.
\<close>

definition addPeer_register :: "peer \<Rightarrow> router \<Rightarrow> router result" where
  "addPeer_register p r =
     (if \<not> m_has (r_peers r) (p_key p) then
        Inr (addInfo (p_key p) (r\<lparr>
          r_peers := m_set (r_peers r) (p_key p) [],
          r_sent := m_set (r_sent r) (p_key p) [],
          r_ports := m_set (r_ports r) (p_port p) (p_key p) \<rparr>))
      else
        range_loop (\<lambda>k r'. case m_get (r_infos r') k of
            None \<Rightarrow> Inl Panic
          | Some info \<Rightarrow> Inr (emit [SendAnnounce p (getAnnounce info k)] r'))
          (m_get0 [] (r_sent r) (p_key p)) r)"

definition addPeer_link :: "peer \<Rightarrow> router \<Rightarrow> router" where
  "addPeer_link p r =
     r\<lparr> r_peers := m_set (r_peers r) (p_key p) (set_add p (peers_of r (p_key p))),
        r_lags := m_set (r_lags r) p routerUnknownLatency \<rparr>"

definition addPeer_request :: "env \<Rightarrow> peer \<Rightarrow> router \<Rightarrow> router result" where
  "addPeer_request E p r =
     (let r1 = (if m_has (r_requests r) (p_key p) then r
                else (let (req, r0) = newReq E r
                      in r0\<lparr> r_requests := m_set (r_requests r0) (p_key p) req \<rparr>));
          req = m_get0 zero_req (r_requests r1) (p_key p);
          r2 = r1\<lparr> r_responded := set_del p (r_responded r1) \<rparr>
      in sendBloom p (emit [SendSigReq p req] r2))"

definition addPeer :: "env \<Rightarrow> peer \<Rightarrow> router \<Rightarrow> router result" where
  "addPeer E p r = and_then (addPeer_register p r) (\<lambda>r1. addPeer_request E p (addPeer_link p r1))"

text \<open>
  \<open>removePeer\<close>: \<open>ps\<close> is the set stored in the map (a map is a reference), and reading a missing key
  yields a nil set that is not stored.
\<close>

definition removePeer :: "int \<Rightarrow> peer \<Rightarrow> router \<Rightarrow> router result" where
  "removePeer now p r =
     (let ps = set_del p (peers_of r (p_key p));
          r1 = (if m_has (r_peers r) (p_key p) then r\<lparr> r_peers := m_set (r_peers r) (p_key p) ps \<rparr> else r);
          r2 = r1\<lparr> r_penalties := recordDisconnect now (r_lags r1) (r_penalties r1) p \<rparr>;
          r3 = r2\<lparr> r_lags := m_del (r_lags r2) p, r_responded := set_del p (r_responded r2) \<rparr>
      in if ps = [] then
           Inr (removeInfo (p_key p) (r3\<lparr>
             r_peers := m_del (r_peers r3) (p_key p),
             r_sent := m_del (r_sent r3) (p_key p),
             r_ports := m_del (r_ports r3) (p_port p),
             r_requests := m_del (r_requests r3) (p_key p),
             r_responses := m_del (r_responses r3) (p_key p),
             r_resSeqs := m_del (r_resSeqs r3) (p_key p),
             r_ancs := m_del (r_ancs r3) (p_key p),
             r_cache := m_del (r_cache r3) (p_key p) \<rparr>))
         else range_loop sendBloom ps r3)"

definition updateAncestries :: "router \<Rightarrow> router" where
  "updateAncestries r =
     fold (\<lambda>pkey r'.
       let anc = getAncestry (r_infos r') pkey;
           old = m_get0 [] (r_ancs r') pkey
       in if anc \<noteq> old then r'\<lparr> r_ancs := m_set (r_ancs r') pkey anc \<rparr> else r')
     (m_keys (r_peers r)) r"

subsection \<open>Parent selection\<close>

text \<open>The loop over the links to one peer: the least \<open>dist * cost\<close>, from \<open>^uint64(0)\<close> down.\<close>

fun min_cost :: "int \<Rightarrow> lags \<Rightarrow> u64 \<Rightarrow> peer list \<Rightarrow> u64 \<times> penalties \<Rightarrow> u64 \<times> penalties" where
  "min_cost now lgs dist [] acc = acc"
| "min_cost now lgs dist (p # ps) (cost, pens) =
     (let (c0, pens') = getCost now lgs pens p;
          c = dist * c0
      in min_cost now lgs dist ps (if c < cost then c else cost, pens'))"

record fix_state =
  bestRoot :: publicKey
  bestParent :: publicKey
  bestCost :: u64
  fix_penalties :: penalties

definition fix_current :: "env \<Rightarrow> int \<Rightarrow> router \<Rightarrow> fix_state" where
  "fix_current E now r =
     (let self = info_of r (self_key E);
          init = \<lparr> bestRoot = self_key E, bestParent = self_key E, bestCost = NOT 0,
                   fix_penalties = r_penalties r \<rparr>
      in if m_has (r_peers r) (info_parent self) then
           (let (root, dists) = getRootAndDists (r_infos r) (self_key E) in
            if publicKey_less root (self_key E) then
              (let (cost, pens) = min_cost now (r_lags r) (m_get0 0 dists root)
                                    (peers_of r (info_parent self)) (NOT 0, r_penalties r)
               in \<lparr> bestRoot = root, bestParent = info_parent self, bestCost = cost,
                    fix_penalties = pens \<rparr>)
            else init)
         else init)"

definition fix_candidate :: "env \<Rightarrow> int \<Rightarrow> router \<Rightarrow> publicKey \<Rightarrow> fix_state \<Rightarrow> fix_state" where
  "fix_candidate E now r pk f =
     (if \<not> m_has (r_infos r) pk then f
      else
        (let (pRoot, pDists) = getRootAndDists (r_infos r) pk in
         if m_has pDists (self_key E) then f
         else
           (let (cost, pens) = min_cost now (r_lags r) (m_get0 0 pDists pRoot) (peers_of r pk)
                                 (NOT 0, fix_penalties f);
                f0 = f\<lparr> fix_penalties := pens \<rparr>;
                take_it = (\<lambda>g. g\<lparr> bestRoot := pRoot, bestParent := pk, bestCost := cost \<rparr>);
                improve = (\<lambda>g. if (r_refresh r \<and> cost * 2 < bestCost g)
                                 \<or> (bestParent g \<noteq> info_parent (info_of r (self_key E))
                                    \<and> cost < bestCost g)
                               then take_it g else g)
            in if publicKey_less pRoot (bestRoot f0) then improve (take_it f0)
               else if pRoot \<noteq> bestRoot f0 then f0
               else improve f0)))"

definition fix_best :: "env \<Rightarrow> int \<Rightarrow> router \<Rightarrow> fix_state" where
  "fix_best E now r = fold (fix_candidate E now r) (m_keys (r_responses r)) (fix_current E now r)"

definition fix_clear :: "env \<Rightarrow> int \<Rightarrow> router \<Rightarrow> router" where
  "fix_clear E now r = sendReqs E now (r\<lparr> r_refresh := False, r_doRoot1 := False, r_doRoot2 := False \<rparr>)"

definition fix_self_root :: "env \<Rightarrow> int \<Rightarrow> router \<Rightarrow> router result" where
  "fix_self_root E now r =
     (if r_doRoot2 r then
        and_then (becomeRoot E r) (\<lambda>(done, r1). if \<not> done then Inl Panic else Inr (fix_clear E now r1))
      else if \<not> r_doRoot1 r then Inr (r\<lparr> r_doRoot1 := True \<rparr>)
      else Inr r)"

definition router_fix :: "env \<Rightarrow> int \<Rightarrow> router \<Rightarrow> router result" where
  "router_fix E now r =
     (let self = info_of r (self_key E);
          f = fix_best E now r;
          r1 = r\<lparr> r_penalties := fix_penalties f \<rparr>
      in if r_refresh r1 \<or> r_doRoot1 r1 \<or> r_doRoot2 r1 \<or> info_parent self \<noteq> bestParent f then
           (case m_get (r_responses r1) (bestParent f) of
              None \<Rightarrow> fix_self_root E now r1
            | Some res \<Rightarrow>
                if bestRoot f \<noteq> self_key E then
                  and_then (useResponse E (bestParent f) res r1) (\<lambda>(used, r2).
                    if used then Inr (fix_clear E now r2) else fix_self_root E now r1)
                else fix_self_root E now r1)
         else Inr r1)"

subsection \<open>Announcements\<close>

definition collect_unsent :: "publicKey list \<Rightarrow> publicKey list \<times> publicKey list \<Rightarrow> publicKey list \<times> publicKey list" where
  "collect_unsent = fold (\<lambda>k (toSend, sent). if k \<in> set sent then (toSend, sent) else (toSend @ [k], set_add k sent))"

fun prepare_announces :: "router_infos \<Rightarrow> publicKey list \<Rightarrow> routerAnnounce list result" where
  "prepare_announces infos [] = Inr []"
| "prepare_announces infos (k # ks) =
     (case m_get infos k of
        None \<Rightarrow> Inl Panic
      | Some info \<Rightarrow> and_then (prepare_announces infos ks) (\<lambda>anns. Inr (getAnnounce info k # anns)))"

definition sendAnnounces_entry :: "publicKey list \<Rightarrow> publicKey \<times> publicKey list \<Rightarrow> router \<Rightarrow> router result" where
  "sendAnnounces_entry selfAnc = (\<lambda>(peerKey, sent) r.
     (let peerAnc = getAncestry (r_infos r) peerKey;
          (toSend, sent') = collect_unsent peerAnc (collect_unsent selfAnc ([], sent));
          r1 = r\<lparr> r_sent := m_set (r_sent r) peerKey sent' \<rparr>
      in and_then (prepare_announces (r_infos r1) toSend) (\<lambda>anns.
           Inr (emit (concat (map (\<lambda>p. map (SendAnnounce p) anns) (peers_of r1 peerKey))) r1))))"

definition sendAnnounces :: "env \<Rightarrow> router \<Rightarrow> router result" where
  "sendAnnounces E r =
     range_loop (sendAnnounces_entry (getAncestry (r_infos r) (self_key E))) (r_sent r) r"

definition mark_sent :: "publicKey \<Rightarrow> publicKey \<Rightarrow> router \<Rightarrow> router result" where
  "mark_sent peerKey key r =
     (case m_get (r_sent r) peerKey of
        None \<Rightarrow> Inl Panic
      | Some s \<Rightarrow> Inr (r\<lparr> r_sent := m_set (r_sent r) peerKey (set_add key s) \<rparr>))"

definition handleAnnounce :: "env \<Rightarrow> peer \<Rightarrow> routerAnnounce \<Rightarrow> router \<Rightarrow> router result" where
  "handleAnnounce E p ann r =
     (let (accepted, r1) = router_update E ann r in
      if accepted then
        mark_sent (p_key p) (ann_key ann)
          (if ann_key ann = self_key E then r1\<lparr> r_refresh := True \<rparr> else r1)
      else
        (let oldInfo = info_of r1 (ann_key ann) in
         if info_of_announce ann \<noteq> oldInfo then
           and_then (mark_sent (p_key p) (ann_key ann) r1) (\<lambda>r2.
             Inr (emit [SendAnnounce p (getAnnounce oldInfo (ann_key ann))] r2))
         else mark_sent (p_key p) (ann_key ann) r1))"

subsection \<open>Maintenance\<close>

definition doMaintenance :: "env \<Rightarrow> int \<Rightarrow> router \<Rightarrow> router result" where
  "doMaintenance E now r =
     (case r_mainTimer r of
        None \<Rightarrow> Inr r
      | Some timer \<Rightarrow>
          (let r1 = updateAncestries (resetCache (r\<lparr> r_doRoot2 := r_doRoot2 r \<or> r_doRoot1 r \<rparr>))
           in and_then (router_fix E now r1) (\<lambda>r2.
              and_then (sendAnnounces E r2) (\<lambda>r3.
              and_then (blooms_doMaintenance E r3) (\<lambda>r4.
              Inr (emit [TimerReset timer 1000000000] r4))))))"

definition router_shutdown :: "router \<Rightarrow> router" where
  "router_shutdown r =
     (case r_mainTimer r of
        None \<Rightarrow> r
      | Some timer \<Rightarrow> (emit [TimerStop timer] r)\<lparr> r_mainTimer := None \<rparr>)"

text \<open>\<open>init\<close>, up to the two messages it leaves in the inbox.\<close>

definition router_init :: "env \<Rightarrow> u64 list \<Rightarrow> router" where
  "router_init E entropy =
     \<lparr> r_pathfinder = \<lparr>
         pf_info = pathNotifyInfo_sign (env_ed E) \<lparr> nfo_seq = 0, nfo_path = [], nfo_sig = 0 \<rparr>
                     (crypto_privateKey (env_crypto E)),
         pf_paths = [], pf_rumors = [] \<rparr>,
       r_blooms = [], r_peers = [], r_sent = [], r_ports = [], r_infos = [], r_timers = [],
       r_ancs = [], r_cache = [], r_lags = [], r_penalties = [], r_requests = [], r_responses = [],
       r_responded = [], r_resSeqs = [], r_resSeqCtr = 0, r_refresh = False, r_doRoot1 = False,
       r_doRoot2 = True, r_mainTimer = Some 0, r_fresh = 1, r_entropy = entropy,
       r_outbox = [TimerStart 0 1000000000] \<rparr>"

subsection \<open>Next hop\<close>

definition lookup_candidates ::
  "router_infos \<Rightarrow> peerPort list \<Rightarrow> u64 \<Rightarrow> (publicKey, peer list) gomap \<Rightarrow> path_cache
     \<Rightarrow> peer list \<times> path_cache" where
  "lookup_candidates infos path bestDist prs cache =
     fold (\<lambda>(k, ps) (cands, c).
       let (dist, c') = getDist infos c path k
       in (if dist < bestDist then cands @ ps else cands, c')) prs ([], cache)"

text \<open>The \<open>switch\<close> of \<open>_lookup\<close> against the best peer so far.\<close>

definition lookup_accept :: "peer \<Rightarrow> u64 \<Rightarrow> u64 \<Rightarrow> peer \<Rightarrow> u64 \<Rightarrow> u64 \<Rightarrow> bool" where
  "lookup_accept p cost dist best bCost bDist =
     (if p_key p = p_key best \<and> p_prio p < p_prio best then True
      else if p_key p = p_key best \<and> p_prio p > p_prio best then False
      else if cost * dist < bCost * bDist then True
      else if cost * dist > bCost * bDist then False
      else if dist < bDist then True
      else if dist > bDist then False
      else if cost < bCost then True
      else if cost > bCost then False
      else p_order p < p_order best)"

fun lookup_select ::
  "int \<Rightarrow> router_infos \<Rightarrow> lags \<Rightarrow> peerPort list \<Rightarrow> peer list
     \<Rightarrow> (peer \<times> u64 \<times> u64) option \<Rightarrow> path_cache \<Rightarrow> penalties
     \<Rightarrow> (peer \<times> u64 \<times> u64) option \<times> path_cache \<times> penalties" where
  "lookup_select now infos lgs path [] best cache pens = (best, cache, pens)"
| "lookup_select now infos lgs path (p # ps) best cache pens =
     (let (dist, cache') = getDist infos cache path (p_key p);
          (cost, pens') = getCost now lgs pens p;
          best' = (case best of
              None \<Rightarrow> Some (p, cost, dist)
            | Some (q, bCost, bDist) \<Rightarrow>
                if lookup_accept p cost dist q bCost bDist then Some (p, cost, dist) else best)
      in lookup_select now infos lgs path ps best' cache' pens')"

text \<open>
  \<open>_lookup\<close>, called with a watermark everywhere: the peer, the lowered watermark, and the router
  with its path cache filled and stale penalties dropped.
\<close>

definition lookup :: "env \<Rightarrow> int \<Rightarrow> peerPort list \<Rightarrow> u64 \<Rightarrow> router \<Rightarrow> peer option \<times> u64 \<times> router" where
  "lookup E now path watermark r =
     (let (dist, cache0) = getDist (r_infos r) (r_cache r) path (self_key E) in
      if dist < watermark then
        (let (cands, cache1) = lookup_candidates (r_infos r) path dist (r_peers r) cache0;
             (best, cache2, pens) = lookup_select now (r_infos r) (r_lags r) path cands None cache1
                                      (r_penalties r)
         in (map_option fst best, dist, r\<lparr> r_cache := cache2, r_penalties := pens \<rparr>))
      else (None, watermark, r\<lparr> r_cache := cache0 \<rparr>))"

end
