(* ===== verification/RouterInv.thy ===== *)
theory RouterInv
  imports Router
begin

text \<open>
  The invariant of the router actor and its preservation by the operations of
  \<^verbatim>\<open>router.go\<close> and \<^verbatim>\<open>bloomfilter.go\<close>. It is what the code's
  \<open>panic("this should never happen")\<close> calls rely on: one bloom and one sent-set per connected
  key, at least one link per connected key, sent-sets inside the known infos, our own info known
  after the first maintenance, and a path cache that agrees with the infos.
\<close>

subsection \<open>The invariant\<close>

definition peers_inv :: "(publicKey, peer list) gomap \<Rightarrow> bool" where
  "peers_inv prs \<longleftrightarrow> m_ok prs \<and>
     (\<forall>k ps. m_get prs k = Some ps \<longrightarrow> ps \<noteq> [] \<and> distinct ps \<and> (\<forall>p \<in> set ps. p_key p = k))"

definition sent_inv :: "(publicKey, publicKey list) gomap \<Rightarrow> router_infos \<Rightarrow> bool" where
  "sent_inv sent infos \<longleftrightarrow> m_ok sent \<and>
     (\<forall>k s. m_get sent k = Some s \<longrightarrow> set s \<subseteq> m_dom infos)"

text \<open>
  Every stored info carries the signatures of its key and of its parent over one message, every
  stored response that of the peer, and a packet that waits on a path is addressed to its key.
\<close>

definition announce_signed :: "ed25519 \<Rightarrow> routerAnnounce \<Rightarrow> bool" where
  "announce_signed ed ann \<longleftrightarrow>
     (let msg = sigRes_message (ann_res ann) (ann_key ann) (ann_parent ann)
      in publicKey_verify ed (ann_key ann) msg (ann_sig ann) \<and>
         publicKey_verify ed (ann_parent ann) msg (res_psig (ann_res ann)))"

definition infos_signed :: "ed25519 \<Rightarrow> router_infos \<Rightarrow> bool" where
  "infos_signed ed infos \<longleftrightarrow>
     (\<forall>k info. m_get infos k = Some info \<longrightarrow> announce_signed ed (getAnnounce info k))"

definition responses_signed :: "ed25519 \<Rightarrow> publicKey \<Rightarrow> (publicKey, routerSigRes) gomap \<Rightarrow> bool" where
  "responses_signed ed self ress \<longleftrightarrow>
     (\<forall>k res. m_get ress k = Some res \<longrightarrow> publicKey_verify ed k (sigRes_message res self k) (res_psig res))"

definition pf_inv :: "pathfinder \<Rightarrow> bool" where
  "pf_inv pf \<longleftrightarrow>
     (\<forall>k info tr. m_get (pf_paths pf) k = Some info \<longrightarrow> pi_traffic info = Some tr \<longrightarrow> tr_dest tr = k)"

definition router_inv :: "env \<Rightarrow> router \<Rightarrow> bool" where
  "router_inv E r \<longleftrightarrow>
     peers_inv (r_peers r) \<and> m_ok (r_blooms r) \<and> m_ok (r_infos r) \<and>
     m_dom (r_blooms r) = m_dom (r_peers r) \<and>
     m_dom (r_sent r) = m_dom (r_peers r) \<and>
     sent_inv (r_sent r) (r_infos r) \<and>
     self_key E \<in> m_dom (r_infos r) \<and>
     m_dom (r_timers r) = m_dom (r_infos r) \<and>
     cache_ok (r_infos r) (r_cache r) \<and>
     penalties_ok (r_penalties r) \<and> lags_ok (r_lags r) \<and>
     m_dom (r_requests r) \<subseteq> m_dom (r_peers r) \<and>
     m_dom (r_responses r) \<subseteq> m_dom (r_peers r) \<and>
     pf_inv (r_pathfinder r) \<and>
     infos_signed (env_ed E) (r_infos r) \<and>
     responses_signed (env_ed E) (self_key E) (r_responses r)"

text \<open>
  Most operations change few fields. The invariant is a property of the fields it mentions, so an
  operation that leaves them alone preserves it by simplification.
\<close>

lemma router_invD:
  assumes "router_inv E r"
  shows "peers_inv (r_peers r)" "m_ok (r_blooms r)" "m_ok (r_infos r)"
    "m_dom (r_blooms r) = m_dom (r_peers r)" "m_dom (r_sent r) = m_dom (r_peers r)"
    "sent_inv (r_sent r) (r_infos r)" "self_key E \<in> m_dom (r_infos r)"
    "m_dom (r_timers r) = m_dom (r_infos r)" "cache_ok (r_infos r) (r_cache r)"
    "penalties_ok (r_penalties r)" "lags_ok (r_lags r)"
    "m_dom (r_requests r) \<subseteq> m_dom (r_peers r)"
    "m_dom (r_responses r) \<subseteq> m_dom (r_peers r)" "pf_inv (r_pathfinder r)"
    "infos_signed (env_ed E) (r_infos r)"
    "responses_signed (env_ed E) (self_key E) (r_responses r)"
  using assms by (simp_all add: router_inv_def)

lemma m_keysE: "k \<in> m_dom m \<Longrightarrow> (\<And>v. m_get m k = Some v \<Longrightarrow> thesis) \<Longrightarrow> thesis"
  by auto

lemma router_inv_emit [simp]: "router_inv E (emit os r) \<longleftrightarrow> router_inv E r"
  by (simp add: router_inv_def emit_def)

lemma emit_fields [simp]:
  "r_peers (emit os r) = r_peers r" "r_blooms (emit os r) = r_blooms r"
  "r_infos (emit os r) = r_infos r" "r_sent (emit os r) = r_sent r"
  "r_timers (emit os r) = r_timers r" "r_cache (emit os r) = r_cache r"
  "r_penalties (emit os r) = r_penalties r" "r_lags (emit os r) = r_lags r"
  "r_requests (emit os r) = r_requests r" "r_responses (emit os r) = r_responses r"
  "r_responded (emit os r) = r_responded r" "r_mainTimer (emit os r) = r_mainTimer r"
  "r_outbox (emit os r) = r_outbox r @ os" "r_fresh (emit os r) = r_fresh r"
  "r_pathfinder (emit os r) = r_pathfinder r" "r_entropy (emit os r) = r_entropy r"
  "r_refresh (emit os r) = r_refresh r" "r_doRoot1 (emit os r) = r_doRoot1 r"
  "r_doRoot2 (emit os r) = r_doRoot2 r"
  by (simp_all add: emit_def)

lemma router_inv_blooms:
  "router_inv E r \<Longrightarrow> m_ok b \<Longrightarrow> m_dom b = m_dom (r_blooms r) \<Longrightarrow>
     router_inv E (r\<lparr> r_blooms := b \<rparr>)"
  by (simp add: router_inv_def)

lemma router_inv_set_bloom:
  "router_inv E r \<Longrightarrow> k \<in> m_dom (r_peers r) \<Longrightarrow>
     router_inv E (r\<lparr> r_blooms := m_set (r_blooms r) k v \<rparr>)"
  by (rule router_inv_blooms) (auto dest: router_invD)

lemma router_inv_cost:
  "router_inv E r \<Longrightarrow> penalties_ok pens \<Longrightarrow> router_inv E (r\<lparr> r_penalties := pens \<rparr>)"
  by (simp add: router_inv_def)

subsection \<open>Blooms\<close>

lemma router_inv_bloomE:
  assumes "router_inv E r" "k \<in> m_dom (r_peers r)"
  obtains pbi where "m_get (r_blooms r) k = Some pbi"
  using assms(2) router_invD(4) [OF assms(1)] by blast

lemma sendBloom_ok:
  assumes "router_inv E r" "p_key p \<in> m_dom (r_peers r)"
  shows "\<exists>b. sendBloom p r = Inr (emit [SendBloom p b] r)"
  by (rule router_inv_bloomE [OF assms]) (auto simp: sendBloom_def)

lemma fixOnTree_entry_inv:
  "router_inv E r \<Longrightarrow> pk \<in> m_dom (r_peers r) \<Longrightarrow>
     router_inv E (fixOnTree_entry selfKey selfInfo (pk, pbi) r)
     \<and> r_peers (fixOnTree_entry selfKey selfInfo (pk, pbi) r) = r_peers r"
  using router_inv_set_bloom [of E "emit os r" pk for os]
  by (auto simp: fixOnTree_entry_def Let_def send_to_all_def router_inv_set_bloom)

lemma fixOnTree_ok:
  assumes "router_inv E r"
  shows "\<exists>r'. fixOnTree E r = Inr r' \<and> router_inv E r' \<and> r_peers r' = r_peers r"
proof -
  obtain selfInfo where s: "m_get (r_infos r) (self_key E) = Some selfInfo"
    using router_invD(7) [OF assms] by (rule m_keysE)
  let ?f = "fixOnTree_entry (self_key E) selfInfo"
  have "router_inv E (fold ?f (r_blooms r) r) \<and> r_peers (fold ?f (r_blooms r) r) = r_peers r"
  proof (rule fold_inv [where P = "\<lambda>s. router_inv E s \<and> r_peers s = r_peers r"])
    fix x s assume x: "x \<in> set (r_blooms r)" and s: "router_inv E s \<and> r_peers s = r_peers r"
    obtain pk pbi where xp: "x = (pk, pbi)" by (cases x)
    have "pk \<in> m_dom (r_blooms r)"
      using x by (auto simp: xp dest: weak_map_of_SomeI)
    then have "pk \<in> m_dom (r_peers s)"
      using s router_invD(4) [OF assms] by simp
    then show "router_inv E (?f x s) \<and> r_peers (?f x s) = r_peers r"
      using fixOnTree_entry_inv [of E s pk "self_key E" selfInfo pbi] s by (simp add: xp)
  qed (simp add: assms)
  then show ?thesis by (simp add: fixOnTree_def s)
qed

lemma getBloomFor_ok:
  assumes "router_inv E r" "k \<in> m_dom (r_peers r)"
  shows "\<exists>b isNew r'. getBloomFor E k keep r = Inr (b, isNew, r') \<and> router_inv E r'
    \<and> r_peers r' = r_peers r"
proof (rule router_inv_bloomE [OF assms])
  fix pbi assume "m_get (r_blooms r) k = Some pbi"
  then show ?thesis
    using router_inv_set_bloom [OF assms] assms(1) by (auto simp: getBloomFor_def Let_def)
qed

lemma sendAllBlooms_entry_ok:
  assumes "router_inv E r" "k \<in> m_dom (r_peers r)"
  shows "\<exists>r'. sendAllBlooms_entry E k r = Inr r' \<and> router_inv E r' \<and> r_peers r' = r_peers r"
proof -
  obtain pbi0 where p0: "m_get (r_blooms r) k = Some pbi0"
    by (rule router_inv_bloomE [OF assms])
  show ?thesis
  proof (cases "bi_onTree pbi0")
    case False
    then show ?thesis using p0 assms by (simp add: sendAllBlooms_entry_def)
  next
    case True
    obtain b isNew r1 where g: "getBloomFor E k (\<not> bi_zDirty pbi0) r = Inr (b, isNew, r1)"
      "router_inv E r1" "r_peers r1 = r_peers r"
      using getBloomFor_ok [OF assms] by blast
    have k: "k \<in> m_dom (r_peers r1)" using assms g by simp
    obtain pbi where p1: "m_get (r_blooms r1) k = Some pbi"
      by (rule router_inv_bloomE [OF g(2) k])
    have has: "m_has (r_peers r1) k" using k by auto
    show ?thesis
      using True p0 g p1 has router_inv_set_bloom [OF g(2) k] router_inv_set_bloom [of E "emit os r1" k for os] k
      by (simp add: sendAllBlooms_entry_def Let_def send_to_all_def)
  qed
qed

lemma sendAllBlooms_ok:
  assumes "router_inv E r"
  shows "\<exists>r'. sendAllBlooms E r = Inr r' \<and> router_inv E r' \<and> r_peers r' = r_peers r"
  unfolding sendAllBlooms_def
proof (rule range_loop_inv [where P = "\<lambda>s. router_inv E s \<and> r_peers s = r_peers r"])
  fix k s assume "k \<in> set (m_keys (r_blooms r))" "router_inv E s \<and> r_peers s = r_peers r"
  then show "\<exists>s'. sendAllBlooms_entry E k s = Inr s' \<and> router_inv E s' \<and> r_peers s' = r_peers r"
    using router_invD(4) [OF assms] sendAllBlooms_entry_ok [of E s k] by simp
qed (simp add: assms)

lemma blooms_doMaintenance_ok:
  assumes "router_inv E r"
  shows "\<exists>r'. blooms_doMaintenance E r = Inr r' \<and> router_inv E r'"
proof -
  obtain r1 where "fixOnTree E r = Inr r1" "router_inv E r1"
    using fixOnTree_ok [OF assms] by blast
  with sendAllBlooms_ok [of E r1] show ?thesis by (auto simp: blooms_doMaintenance_def)
qed

lemma handleBloom_inv: "router_inv E r \<Longrightarrow> router_inv E (handleBloom p b r)"
  using router_invD(4) [of E r]
  by (auto simp: handleBloom_def split: option.split
      intro!: router_inv_set_bloom)

lemma best_prio_nonempty: "ps \<noteq> [] \<Longrightarrow> \<exists>q. best_prio None ps = Some q"
  by (cases ps) (use best_prio_spec in fastforce)+

lemma sendMulticast_ok:
  assumes "router_inv E r"
  shows "\<exists>r'. sendMulticast E packet fromKey toKey r = Inr r' \<and> router_inv E r' \<and> r_peers r' = r_peers r"
  unfolding sendMulticast_def
proof (rule range_loop_inv [where P = "\<lambda>s. router_inv E s \<and> r_peers s = r_peers r"])
  fix x s assume x: "x \<in> set (r_blooms r)" and s: "router_inv E s \<and> r_peers s = r_peers r"
  obtain k pbi where xp: "x = (k, pbi)" by (cases x)
  have "k \<in> m_dom (r_peers s)"
    using x s router_invD(4) [OF assms] by (auto simp: xp dest: weak_map_of_SomeI)
  then obtain ps where ps: "m_get (r_peers s) k = Some ps" by auto
  then have "ps \<noteq> []"
    using s router_invD(1) by (fastforce simp: peers_inv_def)
  then show "\<exists>s'. multicast_entry E packet fromKey toKey x s = Inr s' \<and> router_inv E s' \<and> r_peers s' = r_peers r"
    using s ps best_prio_nonempty [of ps] by (auto simp: multicast_entry_def xp m_get0_def)
qed (simp add: assms)

subsection \<open>Updates\<close>

lemma m_dom_map_values [simp]: "m_dom (map (\<lambda>(k, v). (k, f k v)) m) = m_dom m"
  by (force simp: dom_map_of_conv_image_fst simp del: m_keys_dom)

lemma m_get_map_values: "m_get (map (\<lambda>(k, v). (k, f k v)) m) k = map_option (f k) (m_get m k)"
  by (induction m) auto

lemma m_keys_map_values: "map fst (map (\<lambda>(k, v). (k, f k v)) m) = map fst m"
  by (induction m) auto

lemma sent_inv_forget:
  "sent_inv sent infos \<Longrightarrow> m_dom infos - {key} \<subseteq> m_dom infos' \<Longrightarrow>
     sent_inv (map (\<lambda>(pk, s). (pk, set_del key s)) sent) infos'"
  unfolding sent_inv_def m_keys_map_values m_get_map_values by auto blast

lemma announce_check_signed:
  "routerAnnounce_check ed ann =
     Inr (\<not> (ann_port ann = 0 \<and> ann_key ann \<noteq> ann_parent ann) \<and> announce_signed ed ann)"
  by (simp add: routerAnnounce_check_def announce_signed_def routerSigRes_bytesForSig_eq Let_def)

lemma getAnnounce_info_of [simp]: "getAnnounce (info_of_announce ann) (ann_key ann) = ann"
  by (simp add: getAnnounce_def info_of_announce_def)

lemma infos_signed_set:
  "infos_signed ed infos \<Longrightarrow> announce_signed ed ann \<Longrightarrow>
     infos_signed ed (m_set infos (ann_key ann) (info_of_announce ann))"
  by (auto simp: infos_signed_def)

lemma infos_signed_del: "infos_signed ed infos \<Longrightarrow> infos_signed ed (m_del infos k)"
  by (simp add: infos_signed_def)

lemma router_update_inv:
  assumes "router_inv E r" "announce_signed (env_ed E) ann"
  shows "router_inv E (snd (router_update E ann r))"
    and "r_peers (snd (router_update E ann r)) = r_peers r"
    and "ann_key ann \<in> m_dom (r_infos (snd (router_update E ann r)))"
proof -
  let ?r' = "snd (router_update E ann r)"
  show "r_peers ?r' = r_peers r"
    by (simp add: router_update_def Let_def resetCache_def forget_sent_def)
  show "ann_key ann \<in> m_dom (r_infos ?r')"
    by (auto simp: router_update_def Let_def split: option.splits)
  show "router_inv E ?r'"
    using assms sent_inv_forget [of "r_sent r" "r_infos r" "ann_key ann"
        "m_set (r_infos r) (ann_key ann) (info_of_announce ann)"]
      infos_signed_set [of "env_ed E" "r_infos r" ann]
    by (auto simp: router_update_def Let_def router_inv_def resetCache_def forget_sent_def)
qed

lemma info_timer_fired_inv:
  assumes "router_inv E r"
  shows "router_inv E (info_timer_fired E key timer r)"
  using assms sent_inv_forget [of "r_sent r" "r_infos r" key "m_del (r_infos r) key"]
    infos_signed_del [of "env_ed E" "r_infos r" key]
  by (auto simp: info_timer_fired_def Let_def router_inv_def resetCache_def forget_sent_def)

lemma newReq_fields [simp]:
  "router_inv E (snd (newReq E' r)) \<longleftrightarrow> router_inv E r"
  "r_peers (snd (newReq E' r)) = r_peers r" "r_infos (snd (newReq E' r)) = r_infos r"
  "r_requests (snd (newReq E' r)) = r_requests r" "r_blooms (snd (newReq E' r)) = r_blooms r"
  "r_responded (snd (newReq E' r)) = r_responded r"
  by (auto simp: newReq_def router_inv_def case_prod_beta Let_def)

lemma router_inv_requests:
  "router_inv E r \<Longrightarrow> m_dom reqs \<subseteq> m_dom (r_peers r) \<Longrightarrow>
     router_inv E (r\<lparr> r_requests := reqs, r_responded := rd \<rparr>)"
  "router_inv E r \<Longrightarrow> m_dom reqs \<subseteq> m_dom (r_peers r) \<Longrightarrow>
     router_inv E (r\<lparr> r_requests := reqs \<rparr>)"
  by (simp_all add: router_inv_def)

lemma sendReqs_entry_inv:
  assumes "router_inv E r" "pk \<in> m_dom (r_peers r)"
  shows "router_inv E (sendReqs_entry E' (pk, ps) r) \<and> r_peers (sendReqs_entry E' (pk, ps) r) = r_peers r"
  using assms router_invD(12) [OF assms(1)] router_inv_requests(1) [of E "snd (newReq E' r)"]
  by (simp add: sendReqs_entry_def Let_def case_prod_beta)

lemma penalizeMissedResponses_ok:
  assumes "lags_ok (fst s)" "penalties_ok (snd s)"
  shows "lags_ok (fst (penalizeMissedResponses now prs reqs rd s))
    \<and> penalties_ok (snd (penalizeMissedResponses now prs reqs rd s))"
proof -
  let ?P = "\<lambda>s. lags_ok (fst s) \<and> penalties_ok (snd s)"
  have one: "?P (missed_response now rd p s)" if "?P s" for p s
    using that missed_response_ok [of "fst s" "snd s"] by simp
  have many: "?P (fold (missed_response now rd) ps s)" if "?P s" for ps s
    by (rule fold_inv [where P = ?P]) (use one that in auto)
  have "?P (penalizeMissedResponses now prs reqs rd s)"
    unfolding penalizeMissedResponses_def
  proof (rule fold_inv [where P = ?P])
    fix x s assume "?P s"
    then show "?P ((case x of (pk, ps) \<Rightarrow> if m_has reqs pk then fold (missed_response now rd) ps else id) s)"
      by (cases x) (simp add: many)
  qed (simp add: assms)
  then show ?thesis .
qed

lemma sendReqs_inv:
  assumes "router_inv E r"
  shows "router_inv E (sendReqs E' now r)"
proof -
  obtain lgs pens where l: "penalizeMissedResponses now (r_peers r) (r_requests r) (r_responded r)
      (r_lags r, r_penalties r) = (lgs, pens)" by fastforce
  have ok: "lags_ok lgs" "penalties_ok pens"
    using penalizeMissedResponses_ok [of "(r_lags r, r_penalties r)"] router_invD(10,11) [OF assms] l
    by (metis fst_conv snd_conv)+
  let ?r1 = "clearReqs (r\<lparr> r_lags := lgs, r_penalties := pens \<rparr>)"
  have r1: "router_inv E ?r1"
    using assms ok by (simp add: clearReqs_def router_inv_def responses_signed_def)
  have "router_inv E (fold (sendReqs_entry E') (r_peers ?r1) ?r1)
    \<and> r_peers (fold (sendReqs_entry E') (r_peers ?r1) ?r1) = r_peers ?r1"
  proof (rule fold_inv [where P = "\<lambda>s. router_inv E s \<and> r_peers s = r_peers ?r1"])
    fix x s assume x: "x \<in> set (r_peers ?r1)" and s: "router_inv E s \<and> r_peers s = r_peers ?r1"
    obtain pk ps where xp: "x = (pk, ps)" by (cases x)
    have "pk \<in> m_dom (r_peers s)"
      using x s by (auto simp: xp dest: weak_map_of_SomeI)
    then show "router_inv E (sendReqs_entry E' x s) \<and> r_peers (sendReqs_entry E' x s) = r_peers ?r1"
      using sendReqs_entry_inv [of E s pk E' ps] s by (simp add: xp)
  qed (simp add: r1)
  then show ?thesis by (simp add: sendReqs_def l Let_def)
qed

lemma sigRes_check_signed:
  "routerSigRes_check ed res node parent =
     Inr (publicKey_verify ed parent (sigRes_message res node parent) (res_psig res))"
  by (simp add: routerSigRes_check_def routerSigRes_bytesForSig_eq)

lemma handleResponse_inv:
  assumes "router_inv E r" "p_key p \<in> m_dom (r_peers r)"
    "routerSigRes_check (env_ed E) res (self_key E) (p_key p) = Inr True"
  shows "router_inv E (handleResponse p res rtt r)"
proof -
  have "lags_ok (m_set (r_lags r) p (update_lag (m_get0 0 (r_lags r) p) rtt))"
    using router_invD(11) [OF assms(1)] i64_range by (auto simp: update_lag_def intro!: lags_ok_set)
  moreover have "responses_signed (env_ed E) (self_key E) (m_set (r_responses r) (p_key p) res)"
    using router_invD(16) [OF assms(1)] assms(3) by (simp add: responses_signed_def sigRes_check_signed)
  ultimately show ?thesis
    using assms(1,2) by (simp add: handleResponse_def Let_def router_inv_def)
qed

subsection \<open>Peers\<close>

lemma peers_inv_nonempty: "peers_inv prs \<Longrightarrow> m_get prs k = Some ps \<Longrightarrow> ps \<noteq> []"
  by (simp add: peers_inv_def)

lemma addPeer_resend:
  assumes "router_inv E r" "p_key p \<in> m_dom (r_peers r)"
  shows "\<exists>os. addPeer_register p r = Inr (emit os r)"
proof -
  let ?send = "\<lambda>k r'. case m_get (r_infos r') k of None \<Rightarrow> Inl Panic
    | Some info \<Rightarrow> Inr (emit [SendAnnounce p (getAnnounce info k)] r')"
  obtain s where s: "m_get (r_sent r) (p_key p) = Some s"
    using assms(2) router_invD(5) [OF assms(1)] by blast
  have known: "set s \<subseteq> m_dom (r_infos r)"
    using router_invD(6) [OF assms(1)] s by (auto simp: sent_inv_def)
  have "\<exists>os. range_loop ?send ks (emit os0 r) = Inr (emit os r)"
    if "set ks \<subseteq> m_dom (r_infos r)" for ks os0
    using that
  proof (induction ks arbitrary: os0)
    case (Cons k ks)
    then obtain info where "m_get (r_infos r) k = Some info" by auto
    moreover have "emit [x] (emit os0 r) = emit (os0 @ [x]) r" for x
      by (simp add: emit_def)
    ultimately show ?case using Cons by simp
  qed auto
  from this [OF known, of "[]"] show ?thesis
    using assms(2) by (auto simp: addPeer_register_def s m_get0_def emit_def)
qed

lemma lags_ok_unknown: "lags_ok lgs \<Longrightarrow> lags_ok (m_set lgs p routerUnknownLatency)"
  by (intro lags_ok_set) (auto simp: routerUnknownLatency_def)

lemma addPeer_link_known:
  assumes "router_inv E r" "p_key p \<in> m_dom (r_peers r)"
  shows "router_inv E (addPeer_link p r)"
proof -
  obtain ps where ps: "m_get (r_peers r) (p_key p) = Some ps" using assms(2) by auto
  have "set_add p ps \<noteq> []" by (auto simp: set_add_def)
  then have "peers_inv (m_set (r_peers r) (p_key p) (set_add p ps))"
    using router_invD(1) [OF assms(1)] ps by (auto simp: peers_inv_def)
  with assms ps show ?thesis
    by (auto simp: addPeer_link_def router_inv_def m_get0_def lags_ok_unknown)
qed

lemma addPeer_link_new:
  assumes "router_inv E r" "\<not> m_has (r_peers r) (p_key p)" "addPeer_register p r = Inr r1"
  shows "router_inv E (addPeer_link p r1)"
proof -
  have "peers_inv (m_set (m_set (r_peers r) (p_key p) []) (p_key p) [p])"
    using router_invD(1) [OF assms(1)] by (auto simp: peers_inv_def)
  moreover have "sent_inv (m_set (r_sent r) (p_key p) []) (r_infos r)"
    using router_invD(6) [OF assms(1)] by (auto simp: sent_inv_def)
  moreover have "addPeer_link p r1 = (addInfo (p_key p) r)\<lparr>
      r_peers := m_set (m_set (r_peers r) (p_key p) []) (p_key p) [p],
      r_sent := m_set (r_sent r) (p_key p) [],
      r_ports := m_set (r_ports r) (p_port p) (p_key p),
      r_lags := m_set (r_lags r) p routerUnknownLatency \<rparr>"
    using assms(2,3)
    by (auto simp: addPeer_register_def addPeer_link_def addInfo_def m_get0_def set_add_def)
  ultimately show ?thesis
    using router_invD [OF assms(1)]
    by (simp add: addInfo_def router_inv_def lags_ok_unknown) blast
qed

lemma addPeer_request_ok:
  assumes "router_inv E r" "p_key p \<in> m_dom (r_peers r)"
  shows "\<exists>r'. addPeer_request E p r = Inr r' \<and> router_inv E r' \<and> r_peers r' = r_peers r"
proof -
  let ?r1 = "if m_has (r_requests r) (p_key p) then r
     else (let (req, r0) = newReq E r in r0\<lparr> r_requests := m_set (r_requests r0) (p_key p) req \<rparr>)"
  let ?r2 = "?r1\<lparr> r_responded := set_del p (r_responded ?r1) \<rparr>"
  have "router_inv E ?r1" "r_peers ?r1 = r_peers r"
    using assms router_invD(12) [OF assms(1)] router_inv_requests(2) [of E "snd (newReq E r)"]
    by (auto simp: case_prod_beta Let_def)
  then have r2: "router_inv E (emit os ?r2)" "r_peers (emit os ?r2) = r_peers r" for os
    by (simp_all add: router_inv_def)
  with assms(2) have "p_key p \<in> m_dom (r_peers (emit os ?r2))" for os by simp
  from sendBloom_ok [OF r2(1) this] r2 show ?thesis
    unfolding addPeer_request_def Let_def by fastforce
qed

lemma addPeer_ok:
  assumes "router_inv E r"
  shows "\<exists>r'. addPeer E p r = Inr r' \<and> router_inv E r' \<and> p \<in> set (peers_of r' (p_key p))"
proof -
  obtain r1 where r1: "addPeer_register p r = Inr r1" "router_inv E (addPeer_link p r1)"
  proof (cases "m_has (r_peers r) (p_key p)")
    case True
    then have "p_key p \<in> m_dom (r_peers r)" by auto
    then show ?thesis
      using addPeer_resend [OF assms] addPeer_link_known [of E "emit os r" p for os] assms that
      by fastforce
  next
    case False
    then show ?thesis
      using addPeer_link_new [OF assms False] that by (auto simp: addPeer_register_def)
  qed
  have p: "p_key p \<in> m_dom (r_peers (addPeer_link p r1))"
    "p \<in> set (peers_of (addPeer_link p r1) (p_key p))"
    by (auto simp: addPeer_link_def m_get0_def)
  from addPeer_request_ok [OF r1(2) p(1)] r1(1) p(2) show ?thesis
    by (auto simp: addPeer_def)
qed

lemma range_loop_sendBloom:
  assumes "router_inv E r" "\<forall>q \<in> set ps. p_key q \<in> m_dom (r_peers r)"
  shows "\<exists>r'. range_loop sendBloom ps r = Inr r' \<and> router_inv E r'"
proof -
  have "\<exists>r'. range_loop sendBloom ps r = Inr r' \<and> (router_inv E r' \<and> r_peers r' = r_peers r)"
  proof (rule range_loop_inv)
    fix q s assume "q \<in> set ps" "router_inv E s \<and> r_peers s = r_peers r"
    with assms(2) sendBloom_ok [of E s q]
    show "\<exists>s'. sendBloom q s = Inr s' \<and> router_inv E s' \<and> r_peers s' = r_peers r" by fastforce
  qed (simp add: assms)
  then show ?thesis by blast
qed

text \<open>The state \<open>removePeer\<close> leaves before it looks at the links that remain.\<close>

definition dropped_peer :: "int \<Rightarrow> peer \<Rightarrow> peer list \<Rightarrow> router \<Rightarrow> router" where
  "dropped_peer now p ps r =
     r\<lparr> r_peers := (if m_has (r_peers r) (p_key p) then m_set (r_peers r) (p_key p) ps else r_peers r),
        r_penalties := recordDisconnect now (r_lags r) (r_penalties r) p,
        r_lags := m_del (r_lags r) p, r_responded := set_del p (r_responded r) \<rparr>"

lemma dropped_peer_costs:
  assumes "router_inv E r"
  shows "penalties_ok (recordDisconnect now (r_lags r) (r_penalties r) p)"
    and "lags_ok (m_del (r_lags r) p)"
  using router_invD(10,11) [OF assms] penalties_ok_recordDisconnect
  by (simp_all add: lags_ok_def)

lemma removePeer_last:
  assumes "router_inv E r" "set_del p (peers_of r (p_key p)) = []"
  shows "\<exists>r'. removePeer now p r = Inr r' \<and> router_inv E r'"
proof -
  let ?k = "p_key p"
  define prs where "prs = m_del (if m_has (r_peers r) ?k then m_set (r_peers r) ?k [] else r_peers r) ?k"
  have dom: "m_dom prs = m_dom (r_peers r) - {?k}"
    by (auto simp: prs_def)
  have "peers_inv prs"
    using router_invD(1) [OF assms(1)] by (simp add: peers_inv_def prs_def)
  moreover have "sent_inv (m_del (r_sent r) ?k) (r_infos r)"
    using router_invD(6) [OF assms(1)] by (simp add: sent_inv_def)
  moreover have "cache_ok (r_infos r) (m_del (r_cache r) ?k)"
    using router_invD(9) [OF assms(1)] by (simp add: cache_ok_def)
  moreover have "responses_signed (env_ed E) (self_key E) (m_del (r_responses r) ?k)"
    using router_invD(16) [OF assms(1)] by (simp add: responses_signed_def)
  moreover have "removePeer now p r = Inr (removeInfo ?k ((dropped_peer now p [] r)\<lparr>
      r_peers := prs, r_sent := m_del (r_sent r) ?k, r_ports := m_del (r_ports r) (p_port p),
      r_requests := m_del (r_requests r) ?k, r_responses := m_del (r_responses r) ?k,
      r_resSeqs := m_del (r_resSeqs r) ?k, r_ancs := m_del (r_ancs r) ?k,
      r_cache := m_del (r_cache r) ?k \<rparr>))"
    using assms(2) by (simp add: removePeer_def Let_def dropped_peer_def prs_def)
  ultimately show ?thesis
    using router_invD [OF assms(1)] dropped_peer_costs [OF assms(1)] dom
    by (simp add: router_inv_def removeInfo_def dropped_peer_def Diff_mono)
qed

lemma removePeer_ok:
  assumes "router_inv E r"
  shows "\<exists>r'. removePeer now p r = Inr r' \<and> router_inv E r'"
proof (cases "set_del p (peers_of r (p_key p)) = []")
  case True
  then show ?thesis by (rule removePeer_last [OF assms])
next
  case False
  let ?k = "p_key p" and ?ps = "set_del p (peers_of r (p_key p))"
  obtain ps where ps: "m_get (r_peers r) ?k = Some ps"
    using False by (cases "m_get (r_peers r) ?k") (auto simp: m_get0_def set_del_def)
  have "peers_inv (m_set (r_peers r) ?k ?ps)"
    using router_invD(1) [OF assms] False ps by (auto simp: peers_inv_def m_get0_def)
  then have r3: "router_inv E (dropped_peer now p ?ps r)"
    using router_invD [OF assms] dropped_peer_costs [OF assms] ps
    by (simp add: router_inv_def dropped_peer_def domI insert_absorb)
  have "\<forall>q \<in> set ?ps. p_key q \<in> m_dom (r_peers (dropped_peer now p ?ps r))"
    using router_invD(1) [OF assms] ps by (auto simp: peers_inv_def m_get0_def dropped_peer_def)
  from range_loop_sendBloom [OF r3 this] False ps show ?thesis
    by (simp add: removePeer_def Let_def dropped_peer_def)
qed

subsection \<open>Parent selection\<close>

text \<open>
  The node can sign for itself. This holds for every node that \<open>core.init\<close> sets up, when ed25519
  verifies what it signs.
\<close>

definition env_ok :: "env \<Rightarrow> bool" where
  "env_ok E \<longleftrightarrow> (\<forall>msg. publicKey_verify (env_ed E) (self_key E) msg
     (privateKey_sign (env_ed E) (crypto_privateKey (env_crypto E)) msg))"

lemma env_ok_core: "ed_correct ed \<Longrightarrow> length secret = 64 \<Longrightarrow> env_ok (core_env ed hs secret opts)"
  by (simp add: env_ok_def core_env_def publicKey_verify_sign)

lemma updateAncestries_inv: "router_inv E r \<Longrightarrow> router_inv E (updateAncestries r)"
  unfolding updateAncestries_def
  by (rule fold_inv [where P = "router_inv E"]) (auto simp: Let_def router_inv_def)

lemma resetCache_inv: "router_inv E r \<Longrightarrow> router_inv E (resetCache r)"
  by (simp add: resetCache_def router_inv_def)

lemma min_cost_ok: "penalties_ok (snd acc) \<Longrightarrow> penalties_ok (snd (min_cost now lgs dist ps acc))"
proof (induction now lgs dist ps acc rule: min_cost.induct)
  case (2 now lgs dist p ps cost pens)
  then show ?case
    using penalties_ok_getCost [of pens now lgs p] by (simp add: Let_def case_prod_beta)
qed simp

lemma fix_current_ok: "penalties_ok (r_penalties r) \<Longrightarrow> penalties_ok (fix_penalties (fix_current E now r))"
  by (simp add: fix_current_def Let_def case_prod_beta min_cost_ok)

lemma fix_candidate_ok:
  "penalties_ok (fix_penalties f) \<Longrightarrow> penalties_ok (fix_penalties (fix_candidate E now r pk f))"
  by (simp add: fix_candidate_def Let_def case_prod_beta min_cost_ok)

lemma fix_best_ok: "router_inv E r \<Longrightarrow> penalties_ok (fix_penalties (fix_best E now r))"
  unfolding fix_best_def
  by (rule fold_inv [where P = "\<lambda>f. penalties_ok (fix_penalties f)"])
    (simp_all add: fix_candidate_ok fix_current_ok router_invD(10))

lemma router_inv_flags [simp]:
  "router_inv E (r\<lparr> r_refresh := a \<rparr>) \<longleftrightarrow> router_inv E r"
  "router_inv E (r\<lparr> r_doRoot1 := a \<rparr>) \<longleftrightarrow> router_inv E r"
  "router_inv E (r\<lparr> r_doRoot2 := a \<rparr>) \<longleftrightarrow> router_inv E r"
  "router_inv E (r\<lparr> r_mainTimer := t \<rparr>) \<longleftrightarrow> router_inv E r"
  by (simp_all add: router_inv_def)

lemma fix_clear_inv: "router_inv E r \<Longrightarrow> router_inv E (fix_clear E' now r)"
  by (simp add: fix_clear_def sendReqs_inv)

lemma becomeRoot_update:
  assumes "env_ok E"
  shows "\<exists>ann. becomeRoot E r = Inr (router_update E ann (snd (newReq E r)))
    \<and> ann_key ann = self_key E \<and> ann_parent ann = self_key E
    \<and> routerAnnounce_check (env_ed E) ann = Inr True
    \<and> ann_seq ann = info_seq (info_of r (self_key E)) + 1"
proof -
  let ?req = "fst (newReq E r)"
  let ?res = "\<lparr> res_req = ?req, res_port = 0, res_psig = 0 \<rparr>"
  let ?psig = "privateKey_sign (env_ed E) (crypto_privateKey (env_crypto E))
      (sigRes_message ?res (self_key E) (self_key E))"
  let ?ann = "\<lparr> ann_key = self_key E, ann_parent = self_key E, ann_res = ?res\<lparr> res_psig := ?psig \<rparr>,
      ann_sig = ?psig \<rparr>"
  have msg: "sigRes_message (?res\<lparr> res_psig := s \<rparr>) k p = sigRes_message ?res k p" for s k p
    by (simp add: sigRes_message_def)
  have chk: "routerAnnounce_check (env_ed E) ?ann = Inr True"
    using assms msg [of ?psig] by (simp add: routerAnnounce_check_def routerSigRes_bytesForSig_eq env_ok_def)
  have "becomeRoot E r = Inr (router_update E ?ann (snd (newReq E r)))"
    using chk by (simp add: becomeRoot_def Let_def case_prod_beta routerSigRes_bytesForSig_eq)
  moreover have "req_seq ?req = info_seq (info_of r (self_key E)) + 1"
    by (simp add: newReq_def Let_def case_prod_beta)
  ultimately show ?thesis using chk by (intro exI [of _ ?ann]) simp
qed

lemma word_less_Suc: "(w :: u64) \<noteq> NOT 0 \<Longrightarrow> w < w + 1"
proof -
  assume w: "w \<noteq> NOT 0"
  have sum: "unat (w + 1) = (unat w + 1) mod 2 ^ 64"
    by (simp add: unat_word_ariths)
  have "unat w + 1 \<noteq> 2 ^ 64"
  proof
    assume "unat w + 1 = 2 ^ 64"
    with sum have "w + 1 = 0" by (simp add: word_unat_eq_iff)
    with w show False by (simp add: eq_neg_iff_add_eq_0)
  qed
  then have "unat w + 1 < 2 ^ 64"
    using unat64_less [of w] by linarith
  with sum show ?thesis
    by (simp add: word_less_nat_alt)
qed

lemma router_update_newer:
  "info_seq (info_of r (ann_key ann)) < ann_seq ann \<Longrightarrow> fst (router_update E ann r)"
  by (auto simp: router_update_def Let_def update_wins_def m_get0_def split: option.splits)

text \<open>Unless its own sequence number is at its maximum, a node can always become a root.\<close>

lemma becomeRoot_ok:
  assumes "env_ok E" "router_inv E r" "info_seq (info_of r (self_key E)) \<noteq> NOT 0"
  shows "\<exists>r'. becomeRoot E r = Inr (True, r') \<and> router_inv E r' \<and> r_peers r' = r_peers r"
proof -
  obtain ann where a: "becomeRoot E r = Inr (router_update E ann (snd (newReq E r)))"
    "ann_key ann = self_key E" "ann_seq ann = info_seq (info_of r (self_key E)) + 1"
    "announce_signed (env_ed E) ann"
    using becomeRoot_update [OF assms(1)] by (auto simp: announce_check_signed)
  have "fst (router_update E ann (snd (newReq E r)))"
    using a word_less_Suc [OF assms(3)] by (intro router_update_newer) simp
  with a router_update_inv [of E "snd (newReq E r)" ann] assms(2) show ?thesis
    by (cases "router_update E ann (snd (newReq E r))") simp
qed

lemma useResponse_update:
  "\<exists>ann. useResponse E pk res r = Inr (router_update E ann r) \<and> ann_key ann = self_key E
     \<and> ann_parent ann = pk \<and> ann_res ann = res
     \<and> ann_sig ann = privateKey_sign (env_ed E) (crypto_privateKey (env_crypto E))
         (sigRes_message res (self_key E) pk)"
  by (intro exI [of _ "\<lparr> ann_key = self_key E, ann_parent = pk, ann_res = res,
        ann_sig = privateKey_sign (env_ed E) (crypto_privateKey (env_crypto E))
          (sigRes_message res (self_key E) pk) \<rparr>"])
    (simp add: useResponse_def Let_def routerSigRes_bytesForSig_eq getAnnounce_def)

lemma useResponse_ok:
  assumes "env_ok E" "router_inv E r" "m_get (r_responses r) pk = Some res"
  shows "\<exists>used r'. useResponse E pk res r = Inr (used, r') \<and> router_inv E r'"
proof -
  obtain ann where a: "useResponse E pk res r = Inr (router_update E ann r)"
    "ann_key ann = self_key E" "ann_parent ann = pk" "ann_res ann = res"
    "ann_sig ann = privateKey_sign (env_ed E) (crypto_privateKey (env_crypto E))
         (sigRes_message res (self_key E) pk)"
    using useResponse_update by blast
  have "announce_signed (env_ed E) ann"
    using a assms(1,3) router_invD(16) [OF assms(2)]
    by (simp add: announce_signed_def env_ok_def responses_signed_def)
  then show ?thesis
    using a(1) router_update_inv(1) [OF assms(2)] by (metis prod.collapse)
qed

lemma fix_self_root_ok:
  assumes "env_ok E" "router_inv E r" "info_seq (info_of r (self_key E)) \<noteq> NOT 0"
  shows "\<exists>r'. fix_self_root E now r = Inr r' \<and> router_inv E r'"
  using becomeRoot_ok [OF assms] fix_clear_inv [of E _ E now] assms(2)
  by (auto simp: fix_self_root_def)

lemma router_fix_ok:
  assumes "env_ok E" "router_inv E r" "info_seq (info_of r (self_key E)) \<noteq> NOT 0"
  shows "\<exists>r'. router_fix E now r = Inr r' \<and> router_inv E r'"
proof -
  let ?r1 = "r\<lparr> r_penalties := fix_penalties (fix_best E now r) \<rparr>"
  have r1: "router_inv E ?r1"
    by (rule router_inv_cost) (use assms(2) fix_best_ok in auto)
  have self: "\<exists>r'. fix_self_root E now ?r1 = Inr r' \<and> router_inv E r'"
    by (rule fix_self_root_ok [OF assms(1) r1]) (use assms(3) in simp)
  have upd: "\<exists>r'. and_then (useResponse E pk res ?r1) (\<lambda>(used, r2).
      if used then Inr (fix_clear E now r2) else fix_self_root E now ?r1) = Inr r' \<and> router_inv E r'"
    if "m_get (r_responses r) pk = Some res" for pk res
    using useResponse_ok [OF assms(1) r1, of pk res] that self fix_clear_inv [of E _ E now] by auto
  show ?thesis
    using self upd r1 by (simp add: router_fix_def Let_def split: option.split)
qed

subsection \<open>Announcements\<close>

lemma ancestry_dom: "set (getAncestry infos key) \<subseteq> m_dom infos"
  using getAncestry_known [of infos key] by simp

lemma collect_unsent_inv:
  "set (fst s) \<union> set (snd s) \<union> set ks \<subseteq> A \<Longrightarrow>
     set (fst (collect_unsent ks s)) \<union> set (snd (collect_unsent ks s)) \<subseteq> A"
  unfolding collect_unsent_def by (rule fold_inv) (auto simp: case_prod_beta)

lemma prepare_announces_ok:
  "set ks \<subseteq> m_dom infos \<Longrightarrow>
     prepare_announces infos ks = Inr (map (\<lambda>k. getAnnounce (m_get0 zero_info infos k) k) ks)"
  by (induction ks) (auto simp: m_get0_def)

lemma sendAnnounces_entry_ok:
  assumes "router_inv E r" "set selfAnc \<subseteq> m_dom (r_infos r)" "set sent \<subseteq> m_dom (r_infos r)"
    "peerKey \<in> m_dom (r_peers r)"
  shows "\<exists>r'. sendAnnounces_entry selfAnc (peerKey, sent) r = Inr r' \<and> router_inv E r'
    \<and> r_infos r' = r_infos r \<and> r_peers r' = r_peers r"
proof -
  let ?c = "collect_unsent (getAncestry (r_infos r) peerKey) (collect_unsent selfAnc ([], sent))"
  have "set (fst ?c) \<union> set (snd ?c) \<subseteq> m_dom (r_infos r)"
    using ancestry_dom assms(2,3) by (intro collect_unsent_inv Un_least) simp_all
  then have sub: "set (fst ?c) \<subseteq> m_dom (r_infos r)" "set (snd ?c) \<subseteq> m_dom (r_infos r)"
    by simp_all
  have "sent_inv (m_set (r_sent r) peerKey (snd ?c)) (r_infos r)"
    using router_invD(6) [OF assms(1)] sub(2) by (auto simp: sent_inv_def)
  then have "router_inv E (r\<lparr> r_sent := m_set (r_sent r) peerKey (snd ?c) \<rparr>)"
    using router_invD [OF assms(1)] assms(4) by (simp add: router_inv_def insert_absorb)
  then show ?thesis
    using prepare_announces_ok [OF sub(1)]
    by (simp add: sendAnnounces_entry_def Let_def case_prod_beta)
qed

lemma sendAnnounces_ok:
  assumes "router_inv E r"
  shows "\<exists>r'. sendAnnounces E r = Inr r' \<and> router_inv E r'"
proof -
  have "\<exists>r'. sendAnnounces E r = Inr r' \<and> router_inv E r' \<and> r_infos r' = r_infos r \<and> r_peers r' = r_peers r"
    unfolding sendAnnounces_def
  proof (rule range_loop_inv [where P = "\<lambda>s. router_inv E s \<and> r_infos s = r_infos r \<and> r_peers s = r_peers r"])
    fix x s assume x: "x \<in> set (r_sent r)" and s: "router_inv E s \<and> r_infos s = r_infos r \<and> r_peers s = r_peers r"
    obtain pk snt where xp: "x = (pk, snt)" by (cases x)
    have get: "m_get (r_sent r) pk = Some snt"
      using x router_invD(6) [OF assms] by (simp add: xp sent_inv_def)
    then have "set snt \<subseteq> m_dom (r_infos s)" "pk \<in> m_dom (r_peers s)"
      using router_invD(5,6) [OF assms] s by (auto simp: sent_inv_def)
    with s ancestry_dom [of "r_infos r" "self_key E"]
      sendAnnounces_entry_ok [of E s "getAncestry (r_infos r) (self_key E)" snt pk]
    show "\<exists>s'. sendAnnounces_entry (getAncestry (r_infos r) (self_key E)) x s = Inr s'
        \<and> router_inv E s' \<and> r_infos s' = r_infos r \<and> r_peers s' = r_peers r"
      by (simp add: xp)
  qed (simp add: assms)
  then show ?thesis by blast
qed

lemma mark_sent_ok:
  assumes "router_inv E r" "pk \<in> m_dom (r_peers r)" "k \<in> m_dom (r_infos r)"
  shows "\<exists>r'. mark_sent pk k r = Inr r' \<and> router_inv E r'"
proof -
  obtain s where s: "m_get (r_sent r) pk = Some s"
    using router_invD(5) [OF assms(1)] assms(2) by blast
  have "sent_inv (m_set (r_sent r) pk (set_add k s)) (r_infos r)"
    using router_invD(6) [OF assms(1)] s assms(3) by (auto simp: sent_inv_def)
  then show ?thesis
    using router_invD [OF assms(1)] assms(2) s
    by (simp add: mark_sent_def router_inv_def insert_absorb)
qed

lemma handleAnnounce_ok:
  assumes "router_inv E r" "p_key p \<in> m_dom (r_peers r)"
    "routerAnnounce_check (env_ed E) ann = Inr True"
  shows "\<exists>r'. handleAnnounce E p ann r = Inr r' \<and> router_inv E r'"
proof -
  obtain acc r1 where u: "router_update E ann r = (acc, r1)" by fastforce
  have r1: "router_inv E r1" "p_key p \<in> m_dom (r_peers r1)" "ann_key ann \<in> m_dom (r_infos r1)"
    using router_update_inv [OF assms(1), of ann] assms(2,3) u by (simp_all add: announce_check_signed)
  from mark_sent_ok [OF r1] mark_sent_ok [of E "r1\<lparr> r_refresh := True \<rparr>" "p_key p" "ann_key ann"] r1
  show ?thesis by (auto simp: handleAnnounce_def u Let_def)
qed

lemma handleRequest_ok:
  "\<exists>res. handleRequest E p req r = Inr (emit [SendSigRes p res] r) \<and> res_req res = req
     \<and> res_port res = p_port p
     \<and> (env_ok E \<longrightarrow> routerSigRes_check (env_ed E) res (p_key p) (self_key E) = Inr True)"
proof -
  let ?res = "\<lparr> res_req = req, res_port = p_port p, res_psig = 0 \<rparr>"
  let ?sig = "privateKey_sign (env_ed E) (crypto_privateKey (env_crypto E))
      (sigRes_message ?res (p_key p) (self_key E))"
  have "sigRes_message (?res\<lparr> res_psig := ?sig \<rparr>) (p_key p) (self_key E) = sigRes_message ?res (p_key p) (self_key E)"
    by (simp add: sigRes_message_def)
  then show ?thesis
    by (intro exI [of _ "?res\<lparr> res_psig := ?sig \<rparr>"])
      (simp add: handleRequest_def routerSigRes_bytesForSig_eq routerSigRes_check_def env_ok_def)
qed

subsection \<open>Next hop\<close>

text \<open>The distance of a known node from a path, as \<open>_getDist\<close> computes it without its cache.\<close>

definition node_dist :: "router_infos \<Rightarrow> peerPort list \<Rightarrow> publicKey \<Rightarrow> u64" where
  "node_dist infos path key = path_dist path (snd (getRootAndPath infos key))"

lemma getDist_node_dist:
  assumes "cache_ok infos cache"
  obtains cache' where "getDist infos cache path key = (node_dist infos path key, cache')"
    "cache_ok infos cache'"
  using getDist_ok [OF assms, of path key] by (metis node_dist_def prod.collapse)

text \<open>The links whose far end is closer to the path than \<open>bd\<close>.\<close>

definition closer_links ::
  "router_infos \<Rightarrow> peerPort list \<Rightarrow> u64 \<Rightarrow> (publicKey, peer list) gomap \<Rightarrow> peer list" where
  "closer_links infos path bd prs =
     concat (map snd (filter (\<lambda>(k, ps). node_dist infos path k < bd) prs))"

lemma lookup_candidates_spec:
  assumes "cache_ok infos cache"
  obtains cache' where
    "lookup_candidates infos path bd prs cache = (closer_links infos path bd prs, cache')"
    "cache_ok infos cache'"
proof -
  have "\<exists>c'. fold (\<lambda>(k, ps) (cands, c). let (dist, c') = getDist infos c path k
      in (if dist < bd then cands @ ps else cands, c')) prs (cs, cache)
    = (cs @ closer_links infos path bd prs, c')
    \<and> cache_ok infos c'" for cs
    using assms
  proof (induction prs arbitrary: cs cache)
    case (Cons x prs)
    obtain k ps where x: "x = (k, ps)" by (cases x)
    obtain c where c: "getDist infos cache path k = (node_dist infos path k, c)" "cache_ok infos c"
      using getDist_node_dist [OF Cons.prems] by blast
    from Cons.IH [OF c(2), of "if node_dist infos path k < bd then cs @ ps else cs"] c(1)
    show ?case by (auto simp: x closer_links_def)
  qed (simp add: closer_links_def)
  from this [of "[]"] that show thesis by (auto simp: lookup_candidates_def)
qed

definition best_ok :: "router_infos \<Rightarrow> peerPort list \<Rightarrow> peer set \<Rightarrow> (peer \<times> u64 \<times> u64) option \<Rightarrow> bool" where
  "best_ok infos path ps best \<longleftrightarrow>
     (case best of None \<Rightarrow> True
      | Some (q, c, d) \<Rightarrow> q \<in> ps \<and> d = node_dist infos path (p_key q))"

lemma lookup_select_spec:
  assumes "cache_ok infos cache" "penalties_ok pens" "best_ok infos path A best" "set ps \<subseteq> A"
  obtains best' cache' pens' where
    "lookup_select now infos lgs path ps best cache pens = (best', cache', pens')"
    "cache_ok infos cache'" "penalties_ok pens'" "best_ok infos path A best'"
    "best' = None \<longleftrightarrow> best = None \<and> ps = []"
  using assms
proof (induction ps arbitrary: best cache pens thesis)
  case Nil
  then show ?case by (simp add: best_ok_def)
next
  case (Cons p ps)
  obtain c where c: "getDist infos cache path (p_key p) = (node_dist infos path (p_key p), c)" "cache_ok infos c"
    using getDist_node_dist [OF Cons.prems(2)] by blast
  let ?cost = "getCost now lgs pens p"
  let ?best = "case best of None \<Rightarrow> Some (p, fst ?cost, node_dist infos path (p_key p))
            | Some (q, bCost, bDist) \<Rightarrow>
                if lookup_accept p (fst ?cost) (node_dist infos path (p_key p)) q bCost bDist
                then Some (p, fst ?cost, node_dist infos path (p_key p)) else best"
  have best: "best_ok infos path A ?best"
    using Cons.prems(4,5) by (auto simp: best_ok_def split: option.splits)
  have some: "?best \<noteq> None" by (auto split: option.splits)
  have "lookup_select now infos lgs path (p # ps) best cache pens
      = lookup_select now infos lgs path ps ?best c (snd ?cost)"
    by (simp add: c Let_def case_prod_beta split: option.split)
  with Cons.IH [OF _ c(2) penalties_ok_getCost [OF Cons.prems(3)] best] Cons.prems(1,5) some
  show ?case by auto
qed

lemma lookup_reject:
  assumes "cache_ok (r_infos r) (r_cache r)" "\<not> node_dist (r_infos r) path (self_key E) < watermark"
  obtains cache' where "lookup E now path watermark r = (None, watermark, r\<lparr> r_cache := cache' \<rparr>)"
    "cache_ok (r_infos r) cache'"
proof -
  obtain c where "getDist (r_infos r) (r_cache r) path (self_key E)
      = (node_dist (r_infos r) path (self_key E), c)" "cache_ok (r_infos r) c"
    using getDist_node_dist [OF assms(1)] by blast
  with assms(2) that [of c] show thesis by (simp add: lookup_def)
qed

lemma lookup_pass:
  fixes r path E
  defines "d \<equiv> node_dist (r_infos r) path (self_key E)"
  defines "links \<equiv> closer_links (r_infos r) path d (r_peers r)"
  assumes "cache_ok (r_infos r) (r_cache r)" "penalties_ok (r_penalties r)" "d < watermark"
  obtains best cache' pens' where
    "lookup E now path watermark r = (map_option fst best, d, r\<lparr> r_cache := cache', r_penalties := pens' \<rparr>)"
    "cache_ok (r_infos r) cache'" "penalties_ok pens'" "best_ok (r_infos r) path (set links) best"
    "best = None \<longleftrightarrow> links = []"
proof -
  obtain c0 where c0: "getDist (r_infos r) (r_cache r) path (self_key E) = (d, c0)" "cache_ok (r_infos r) c0"
    using getDist_node_dist [OF assms(3)] d_def by blast
  obtain c1 where c1: "lookup_candidates (r_infos r) path d (r_peers r) c0 = (links, c1)" "cache_ok (r_infos r) c1"
    using lookup_candidates_spec [OF c0(2)] links_def by blast
  have none: "best_ok (r_infos r) path (set links) None" by (simp add: best_ok_def)
  obtain best c2 pens where sel:
    "lookup_select now (r_infos r) (r_lags r) path links None c1 (r_penalties r) = (best, c2, pens)"
    "cache_ok (r_infos r) c2" "penalties_ok pens" "best_ok (r_infos r) path (set links) best"
    "best = None \<longleftrightarrow> links = []"
    by (rule lookup_select_spec [OF c1(2) assms(4) none order_refl]) auto
  have "lookup E now path watermark r = (map_option fst best, d, r\<lparr> r_cache := c2, r_penalties := pens \<rparr>)"
    using assms(5) c0 c1 sel(1) by (simp add: lookup_def)
  from that [OF this sel(2-5)] show thesis .
qed

lemma closer_links_iff:
  assumes "peers_inv prs"
  shows "p \<in> set (closer_links infos path bd prs) \<longleftrightarrow>
    p \<in> set (m_get0 [] prs (p_key p)) \<and> node_dist infos path (p_key p) < bd"
proof -
  have "p \<in> set (closer_links infos path bd prs) \<longleftrightarrow>
      (\<exists>k ps. m_get prs k = Some ps \<and> node_dist infos path k < bd \<and> p \<in> set ps)"
    using assms by (force simp: closer_links_def peers_inv_def)
  also have "\<dots> \<longleftrightarrow> p \<in> set (m_get0 [] prs (p_key p)) \<and> node_dist infos path (p_key p) < bd"
    using assms by (auto simp: peers_inv_def m_get0_def split: option.splits)
  finally show ?thesis .
qed

lemma lookup_inv:
  assumes "router_inv E r" "lookup E now path watermark r = (mp, watermark', r')"
  shows "router_inv E r' \<and> r_peers r' = r_peers r \<and> r_infos r' = r_infos r
    \<and> r_pathfinder r' = r_pathfinder r \<and> r_blooms r' = r_blooms r"
proof (cases "node_dist (r_infos r) path (self_key E) < watermark")
  case True
  from router_invD(9,10) [OF assms(1)] True show ?thesis
    by (rule lookup_pass [where now = now])
      (use router_invD [OF assms(1)] assms(2) in \<open>auto simp: router_inv_def\<close>)
next
  case False
  from router_invD(9) [OF assms(1)] False show ?thesis
    by (rule lookup_reject [where now = now])
      (use router_invD [OF assms(1)] assms(2) in \<open>auto simp: router_inv_def\<close>)
qed

subsection \<open>Maintenance\<close>

lemma updateAncestries_infos [simp]: "r_infos (updateAncestries r) = r_infos r"
  unfolding updateAncestries_def
  by (rule fold_inv [where P = "\<lambda>s. r_infos s = r_infos r"]) (auto simp: Let_def)

lemma doMaintenance_ok:
  assumes "env_ok E" "router_inv E r" "info_seq (info_of r (self_key E)) \<noteq> NOT 0"
  shows "\<exists>r'. doMaintenance E now r = Inr r' \<and> router_inv E r'"
proof (cases "r_mainTimer r")
  case None
  then show ?thesis by (simp add: doMaintenance_def assms(2))
next
  case (Some timer)
  let ?r1 = "updateAncestries (resetCache (r\<lparr> r_doRoot2 := r_doRoot2 r \<or> r_doRoot1 r \<rparr>))"
  have r1: "router_inv E ?r1"
    by (intro updateAncestries_inv resetCache_inv) (simp add: assms(2))
  have "info_seq (info_of ?r1 (self_key E)) \<noteq> NOT 0"
    using assms(3) by (simp add: resetCache_def)
  then obtain r2 where r2: "router_fix E now ?r1 = Inr r2" "router_inv E r2"
    using router_fix_ok [OF assms(1) r1] by blast
  obtain r3 where r3: "sendAnnounces E r2 = Inr r3" "router_inv E r3"
    using sendAnnounces_ok [OF r2(2)] by blast
  obtain r4 where "blooms_doMaintenance E r3 = Inr r4" "router_inv E r4"
    using blooms_doMaintenance_ok [OF r3(2)] by blast
  with Some r2 r3 show ?thesis by (simp add: doMaintenance_def Let_def)
qed

lemma router_shutdown_inv: "router_inv E r \<Longrightarrow> router_inv E (router_shutdown r)"
  by (auto simp: router_shutdown_def split: option.split)

text \<open>The maintenance that \<open>init\<close> leaves in the inbox makes the node a root.\<close>

lemma becomeRoot_first:
  assumes "env_ok E" "r_infos r = []" "r_peers r = []" "r_blooms r = []" "r_sent r = []"
    "r_timers r = []" "r_penalties r = []" "r_lags r = []" "r_requests r = []" "r_responses r = []"
    "pf_inv (r_pathfinder r)"
  shows "\<exists>r'. becomeRoot E r = Inr (True, r') \<and> router_inv E r'"
proof -
  obtain ann where a: "becomeRoot E r = Inr (router_update E ann (snd (newReq E r)))"
    "ann_key ann = self_key E" "announce_signed (env_ed E) ann"
    using becomeRoot_update [OF assms(1)] by (auto simp: announce_check_signed)
  have "router_update E ann (snd (newReq E r)) = (True, snd (router_update E ann (snd (newReq E r))))"
    by (simp add: router_update_def Let_def assms)
  moreover have "router_inv E (snd (router_update E ann (snd (newReq E r))))"
    using a(2,3) infos_signed_set [of "env_ed E" "[]" ann] assms
    by (simp add: router_update_def Let_def router_inv_def resetCache_def forget_sent_def newReq_def
        case_prod_beta peers_inv_def sent_inv_def penalties_ok_def lags_ok_def responses_signed_def
        infos_signed_def)
  ultimately show ?thesis using a(1) by metis
qed

lemma router_init_fields:
  "r_infos (router_init E en) = []" "r_peers (router_init E en) = []"
  "r_blooms (router_init E en) = []" "r_sent (router_init E en) = []"
  "r_timers (router_init E en) = []" "r_penalties (router_init E en) = []"
  "r_lags (router_init E en) = []" "r_requests (router_init E en) = []"
  "r_responses (router_init E en) = []" "pf_inv (r_pathfinder (router_init E en))"
  "r_doRoot2 (router_init E en)" "r_mainTimer (router_init E en) = Some 0"
  "(router_init E en)\<lparr> r_penalties := [] \<rparr> = router_init E en"
  "(router_init E en)\<lparr> r_doRoot2 := True \<rparr> = router_init E en"
  "resetCache (router_init E en) = router_init E en"
  by (simp_all add: router_init_def pf_inv_def resetCache_def)

lemma first_fix_ok:
  assumes "env_ok E"
  shows "\<exists>r'. router_fix E now (router_init E entropy) = Inr r' \<and> router_inv E r'"
proof -
  note init = router_init_fields [where E = E and en = entropy]
  have "fix_penalties (fix_best E now (router_init E entropy)) = []"
    by (simp add: fix_best_def fix_current_def Let_def init)
  then have "router_fix E now (router_init E entropy) = fix_self_root E now (router_init E entropy)"
    by (simp add: router_fix_def Let_def init)
  moreover obtain r3 where "becomeRoot E (router_init E entropy) = Inr (True, r3)" "router_inv E r3"
    using becomeRoot_first [OF assms init(1-10)] by blast
  ultimately show ?thesis
    by (simp add: fix_self_root_def init fix_clear_inv)
qed

lemma first_maintenance_ok:
  assumes "env_ok E"
  shows "\<exists>r'. doMaintenance E now (router_init E entropy) = Inr r' \<and> router_inv E r'"
proof -
  note init = router_init_fields [where E = E and en = entropy]
  have upd: "updateAncestries (router_init E entropy) = router_init E entropy"
    by (simp add: updateAncestries_def init)
  obtain r2 where r2: "router_fix E now (router_init E entropy) = Inr r2" "router_inv E r2"
    using first_fix_ok [OF assms] by blast
  obtain r3 where r3: "sendAnnounces E r2 = Inr r3" "router_inv E r3"
    using sendAnnounces_ok [OF r2(2)] by blast
  obtain r4 where "blooms_doMaintenance E r3 = Inr r4" "router_inv E r4"
    using blooms_doMaintenance_ok [OF r3(2)] by blast
  with r2 r3 show ?thesis by (simp add: doMaintenance_def Let_def init upd)
qed

subsection \<open>Sample nodes\<close>

text \<open>A tree of three nodes in a row, seen by the first two of them.\<close>

definition chain_info :: "publicKey \<Rightarrow> peerPort \<Rightarrow> routerInfo" where
  "chain_info parent port = \<lparr> info_parent = parent,
     info_res = \<lparr> res_req = \<lparr> req_seq = 1, req_nonce = 0 \<rparr>, res_port = port, res_psig = 0 \<rparr>, info_sig = 0 \<rparr>"

definition chain_infos :: router_infos where
  "chain_infos = [(1, chain_info 1 0), (2, chain_info 1 5), (3, chain_info 2 6)]"

definition chain_env :: "publicKey \<Rightarrow> env" where
  "chain_env self = \<lparr> env_ed = \<lparr> ed_sign = (\<lambda>_ _. []), ed_verify = (\<lambda>_ _ _. True), ed_public = (\<lambda>_. []) \<rparr>,
     env_hashes = (\<lambda>_. (0, 0, 0, 0)), env_config = configDefaults,
     env_crypto = \<lparr> crypto_privateKey = 0, crypto_publicKey = self \<rparr> \<rparr>"

definition chain_peer :: "publicKey \<Rightarrow> peer" where
  "chain_peer key = \<lparr> p_id = 0, p_key = key, p_protocol = ''TCP'', p_port = 1, p_prio = 0, p_order = 0 \<rparr>"

definition chain_node :: "publicKey \<Rightarrow> publicKey \<Rightarrow> router" where
  "chain_node self nxt = (router_init (chain_env self) [])\<lparr>
     r_infos := chain_infos, r_timers := [(1, 1), (2, 2), (3, 3)], r_peers := [(nxt, [chain_peer nxt])],
     r_sent := [(nxt, [])],
     r_blooms := [(nxt, \<lparr> bi_send = 0, bi_recv = 0, bi_seq = 0, bi_onTree = True, bi_zDirty = False \<rparr>)] \<rparr>"

lemma chain_node_inv: "self \<in> {1, 2, 3} \<Longrightarrow> router_inv (chain_env self) (chain_node self nxt)"
  by (auto simp: router_inv_def chain_node_def router_init_def chain_env_def chain_infos_def
      peers_inv_def sent_inv_def infos_signed_def responses_signed_def announce_signed_def
      publicKey_verify_def penalties_ok_def lags_ok_def pf_inv_def chain_peer_def Let_def)

subsection \<open>What parent selection picks\<close>

text \<open>A response the loop of \<open>_fix\<close> considers: the peer is known and its ancestry avoids us.\<close>

definition eligible :: "env \<Rightarrow> router \<Rightarrow> publicKey \<Rightarrow> bool" where
  "eligible E r pk \<longleftrightarrow> m_has (r_infos r) pk \<and> self_key E \<notin> set (getAncestry (r_infos r) pk)"

definition root_of :: "router \<Rightarrow> publicKey \<Rightarrow> publicKey" where
  "root_of r pk = fst (getRootAndDists (r_infos r) pk)"

lemma dists_has: "m_has (snd (getRootAndDists infos pk)) k \<longleftrightarrow> k \<in> set (getAncestry infos pk)"
  unfolding getRootAndDists_ancestry
  by (cases "getAncestry infos pk") (auto simp: m_has_dist_table simp del: dom_eq_empty_conv)

lemma fix_candidate_root:
  "bestRoot (fix_candidate E now r pk f) =
     (if eligible E r pk then min (bestRoot f) (root_of r pk) else bestRoot f)"
  using dists_has [of "r_infos r" pk "self_key E"]
  by (auto simp: fix_candidate_def eligible_def root_of_def Let_def case_prod_beta
      publicKey_less_iff min_def)

lemma fix_candidate_parent:
  "bestParent (fix_candidate E now r pk f) = bestParent f \<and> bestRoot (fix_candidate E now r pk f) = bestRoot f \<or>
   bestParent (fix_candidate E now r pk f) = pk \<and> eligible E r pk \<and>
     bestRoot (fix_candidate E now r pk f) = root_of r pk"
  using dists_has [of "r_infos r" pk "self_key E"]
  by (auto simp: fix_candidate_def eligible_def root_of_def Let_def case_prod_beta)

lemma fix_current_choice:
  "bestParent (fix_current E now r) = self_key E \<and> bestRoot (fix_current E now r) = self_key E \<or>
   bestParent (fix_current E now r) = info_parent (info_of r (self_key E)) \<and>
     m_has (r_peers r) (info_parent (info_of r (self_key E))) \<and>
     bestRoot (fix_current E now r) = root_of r (self_key E) \<and> root_of r (self_key E) < self_key E"
  by (auto simp: fix_current_def Let_def case_prod_beta root_of_def publicKey_less_iff)

lemma fix_current_root: "bestRoot (fix_current E now r) =
    Min ({self_key E} \<union> (if m_has (r_peers r) (info_parent (info_of r (self_key E))) then {root_of r (self_key E)} else {}))"
  by (auto simp: fix_current_def Let_def case_prod_beta root_of_def publicKey_less_iff min_def not_less)

lemma fold_min_Min: "finite A \<Longrightarrow> A \<noteq> {} \<Longrightarrow> fold min xs (Min A) = Min (A \<union> set xs)"
  for A :: "'a :: linorder set"
  using Min.set_eq_fold [of "Min A" xs] by (cases "xs = []") (simp_all add: Min_Un)

text \<open>
  C33. Parent selection: the root that \<open>_fix\<close> settles on is the least of our own key, the root that our own info
  leads to, when the link to the current parent is up, and the roots behind all peers that answered and are
  not below us; and the parent it picks is ourselves as root, the current parent, whose link is up and which
  leads to a root below our key, or such a peer leading to that root: a peer that is chosen for its answer does not have
  us among its ancestors.
\<close>

theorem fix_picks_lowest_root:
  "bestRoot (fix_best E now r) =
     Min ({self_key E}
       \<union> (if m_has (r_peers r) (info_parent (info_of r (self_key E))) then {root_of r (self_key E)} else {})
       \<union> root_of r ` {pk \<in> set (m_keys (r_responses r)). eligible E r pk})
   \<and> (let p = bestParent (fix_best E now r); root = bestRoot (fix_best E now r) in
      p = self_key E \<and> root = self_key E
      \<or> p = info_parent (info_of r (self_key E)) \<and> m_has (r_peers r) p \<and> root = root_of r (self_key E)
          \<and> root < self_key E
      \<or> p \<in> set (m_keys (r_responses r)) \<and> eligible E r p \<and> root = root_of r p)"
proof -
  have root: "bestRoot (fold (fix_candidate E now r) ks f)
      = fold min (map (root_of r) (filter (eligible E r) ks)) (bestRoot f)" for ks f
    by (induction ks arbitrary: f) (simp_all add: fix_candidate_root min.commute)
  let ?ok = "\<lambda>f :: fix_state. bestParent f = self_key E \<and> bestRoot f = self_key E
      \<or> bestParent f = info_parent (info_of r (self_key E)) \<and> m_has (r_peers r) (bestParent f)
          \<and> bestRoot f = root_of r (self_key E) \<and> bestRoot f < self_key E
      \<or> bestParent f \<in> set (m_keys (r_responses r)) \<and> eligible E r (bestParent f)
          \<and> bestRoot f = root_of r (bestParent f)"
  have "?ok (fix_best E now r)"
    unfolding fix_best_def
  proof (rule fold_inv)
    fix pk and f :: fix_state
    assume "pk \<in> set (m_keys (r_responses r))" "?ok f"
    then show "?ok (fix_candidate E now r pk f)"
      using fix_candidate_parent [of E now r pk f] by metis
  qed (use fix_current_choice [of E now r] in metis)
  moreover have "bestRoot (fix_best E now r) = Min ({self_key E}
       \<union> (if m_has (r_peers r) (info_parent (info_of r (self_key E))) then {root_of r (self_key E)} else {})
       \<union> set (map (root_of r) (filter (eligible E r) (m_keys (r_responses r)))))"
    unfolding fix_best_def root fix_current_root by (rule fold_min_Min) simp_all
  ultimately show ?thesis unfolding Let_def set_map set_filter by (intro conjI)
qed

text \<open>
  A response with port zero poisons our own announcement: it passes the signature check that
  \<open>_handleSigRes\<close> makes, so \<open>_useResponse\<close> may adopt the sender as parent, but the announcement that
  results fails \<open>routerAnnounce.check\<close>, for which every honest peer closes the connection.
\<close>

theorem zero_port_response_poisons:
  assumes "routerSigRes_check (env_ed E) res (self_key E) peerKey = Inr True" "res_port res = 0"
    and "peerKey \<noteq> self_key E" "useResponse E peerKey res r = Inr (True, r')"
  shows "\<exists>info. m_get (r_infos r') (self_key E) = Some info \<and> info_parent info = peerKey
    \<and> routerAnnounce_check (env_ed E) (getAnnounce info (self_key E)) = Inr False"
proof -
  obtain ann where a: "useResponse E peerKey res r = Inr (router_update E ann r)"
    "ann_key ann = self_key E" "ann_parent ann = peerKey" "ann_res ann = res"
    using useResponse_update by blast
  then have "router_update E ann r = (True, r')" using assms(4) by simp
  then have "m_get (r_infos r') (self_key E) = Some (info_of_announce ann)"
    using a(2) by (auto simp: router_update_def Let_def split: if_splits)
  moreover have "getAnnounce (info_of_announce ann) (self_key E) = ann"
    using getAnnounce_info_of [of ann] a(2) by simp
  ultimately show ?thesis
    using a assms(2,3) by (auto simp: announce_check_signed info_of_announce_def)
qed

definition zero_port_response :: routerSigRes where
  "zero_port_response = \<lparr> res_req = \<lparr> req_seq = 2, req_nonce = 0 \<rparr>, res_port = 0, res_psig = 0 \<rparr>"

theorem zero_port_response_poisons_witness:
  "\<exists>r' info. useResponse (chain_env 1) 2 zero_port_response (chain_node 1 2) = Inr (True, r')
     \<and> m_get (r_infos r') 1 = Some info
     \<and> routerAnnounce_check (env_ed (chain_env 1)) (getAnnounce info 1) = Inr False"
proof -
  have "\<exists>r'. useResponse (chain_env 1) 2 zero_port_response (chain_node 1 2) = Inr (True, r')"
    by (auto simp: useResponse_def routerSigRes_bytesForSig_eq getAnnounce_def router_update_def
        update_wins_def zero_port_response_def chain_node_def chain_infos_def chain_info_def chain_env_def Let_def)
  then obtain r' where r': "useResponse (chain_env 1) 2 zero_port_response (chain_node 1 2) = Inr (True, r')" ..
  have "routerSigRes_check (env_ed (chain_env 1)) zero_port_response (self_key (chain_env 1)) 2 = Inr True"
    by (simp add: sigRes_check_signed publicKey_verify_def chain_env_def)
  from zero_port_response_poisons [OF this _ _ r'] r' show ?thesis
    by (auto simp: zero_port_response_def chain_env_def)
qed

end
