(* ===== verification/Pathfinder.thy ===== *)
theory Pathfinder
  imports RouterInv
begin

text \<open>
  The pathfinder, \<^verbatim>\<open>ironwood/network/pathfinder.go\<close> lines 9 to 289, with the two traffic
  entry points of \<^verbatim>\<open>router.go\<close> (\<open>sendTraffic\<close>, \<open>handleTraffic\<close>): path lookups are multicast
  along the tree, the owner of the key answers with a signed notify, and traffic waits in a rumor
  or is sent along the known path.

  The methods call each other in a circle: \<open>_handleTraffic\<close>, \<open>_rumorSendLookup\<close>, \<open>_sendLookup\<close>,
  \<open>_handleLookup\<close>, \<open>_handleNotify\<close> and, deferred, \<open>_handleTraffic\<close> again. The definitions take
  that deferred call as an argument, and \<open>pf_handleTraffic\<close> ties the knot with fuel: running out is
  \<open>Inl Diverge\<close>. Fuel two is enough for every call, because a deferred packet is always addressed
  to the path that was just stored.
\<close>

subsection \<open>Operations\<close>

abbreviation paths :: "router \<Rightarrow> (publicKey, pathInfo) gomap" where
  "paths r \<equiv> pf_paths (r_pathfinder r)"

abbreviation rumors :: "router \<Rightarrow> (publicKey, pathRumor) gomap" where
  "rumors r \<equiv> pf_rumors (r_pathfinder r)"

definition set_path :: "publicKey \<Rightarrow> pathInfo \<Rightarrow> router \<Rightarrow> router" where
  "set_path key info r = r\<lparr> r_pathfinder := (r_pathfinder r)\<lparr> pf_paths := m_set (paths r) key info \<rparr> \<rparr>"

definition set_rumor :: "publicKey \<Rightarrow> pathRumor \<Rightarrow> router \<Rightarrow> router" where
  "set_rumor key rumor r = r\<lparr> r_pathfinder := (r_pathfinder r)\<lparr> pf_rumors := m_set (rumors r) key rumor \<rparr> \<rparr>"

definition start_timer :: "int \<Rightarrow> router \<Rightarrow> nat \<times> router" where
  "start_timer delay r = (r_fresh r, (emit [TimerStart (r_fresh r) delay] r)\<lparr> r_fresh := r_fresh r + 1 \<rparr>)"

type_synonym deferred_call = "traffic \<Rightarrow> router \<Rightarrow> router result"

text \<open>
  The tail of \<open>_handleNotify\<close>, once a notify is accepted for the entry \<open>info\<close>: store the path,
  run the callback, and then the deferred call for the packet that was waiting.
\<close>

definition accept_notify :: "deferred_call \<Rightarrow> pathNotify \<Rightarrow> pathInfo \<Rightarrow> router \<Rightarrow> router result" where
  "accept_notify deferred notify info r =
     (let info' = info\<lparr> pi_path := nfo_path (notify_info notify), pi_seq := nfo_seq (notify_info notify),
                        pi_broken := False, pi_traffic := None \<rparr>;
          r1 = emit [PathNotifyCallback (notify_source notify)] (set_path (notify_source notify) info' r)
      in case pi_traffic info of None \<Rightarrow> Inr r1 | Some tr \<Rightarrow> deferred tr r1)"

definition pf_handleNotify :: "deferred_call \<Rightarrow> env \<Rightarrow> int \<Rightarrow> pathNotify \<Rightarrow> router \<Rightarrow> router result" where
  "pf_handleNotify deferred E now notify r =
     (case lookup E now (notify_path notify) (notify_watermark notify) r of
        (Some p, wm, r1) \<Rightarrow> Inr (emit [SendQueued p (PathNotify (notify\<lparr> notify_watermark := wm \<rparr>))] r1)
      | (None, wm, r1) \<Rightarrow>
          if notify_dest notify \<noteq> self_key E then Inr r1
          else case m_get (paths r1) (notify_source notify) of
              Some info \<Rightarrow>
                if nfo_seq (notify_info notify) \<le> pi_seq info then Inr r1
                else if pathNotifyInfo_equal ((notify_info notify)\<lparr> nfo_path := pi_path info \<rparr>) (notify_info notify)
                then Inr r1
                else if \<not> pathNotify_check (env_ed E) notify then Inr r1
                else accept_notify deferred notify info
                       (emit [TimerReset (pi_timer info) (pathTimeout (env_config E))] r1)
            | None \<Rightarrow>
                (let xform = xKey E (notify_source notify) in
                 case m_get (rumors r1) xform of
                   None \<Rightarrow> Inr r1
                 | Some rumor \<Rightarrow>
                     if \<not> pathNotify_check (env_ed E) notify then Inr r1
                     else
                       (let (timer, r2) = start_timer (pathTimeout (env_config E)) r1;
                            info = \<lparr> pi_path = [], pi_seq = 0, pi_reqTime = now, pi_timer = timer,
                                     pi_traffic = None, pi_broken = False \<rparr>;
                            wanted = (case rumor_traffic rumor of
                                None \<Rightarrow> False | Some tr \<Rightarrow> tr_dest tr = notify_source notify)
                        in if wanted
                           then accept_notify deferred notify (info\<lparr> pi_traffic := rumor_traffic rumor \<rparr>)
                                  (set_rumor xform (rumor\<lparr> rumor_traffic := None \<rparr>) r2)
                           else accept_notify deferred notify info r2)))"

text \<open>The notify that answers a lookup for our own key, and the signed info it remembers.\<close>

definition answer_notify :: "env \<Rightarrow> int \<Rightarrow> pathLookup \<Rightarrow> router \<Rightarrow> pathNotify \<times> router" where
  "answer_notify E now lk r =
     (let info = \<lparr> nfo_seq = word_of_int (now div 1000000000),
                   nfo_path = snd (getRootAndPath (r_infos r) (self_key E)), nfo_sig = 0 \<rparr>;
          notify = \<lparr> notify_path = lookup_from lk, notify_watermark = NOT 0,
                     notify_source = self_key E, notify_dest = lookup_source lk,
                     notify_info = info \<rparr>
      in if \<not> pathNotifyInfo_equal (pf_info (r_pathfinder r)) info then
           (let signed = pathNotifyInfo_sign (env_ed E) info (crypto_privateKey (env_crypto E))
            in (notify\<lparr> notify_info := signed \<rparr>,
                r\<lparr> r_pathfinder := (r_pathfinder r)\<lparr> pf_info := signed \<rparr> \<rparr>))
         else (notify\<lparr> notify_info := pf_info (r_pathfinder r) \<rparr>, r))"

definition pf_handleLookup :: "deferred_call \<Rightarrow> env \<Rightarrow> int \<Rightarrow> publicKey \<Rightarrow> pathLookup \<Rightarrow> router \<Rightarrow> router result" where
  "pf_handleLookup deferred E now fromKey lk r =
     and_then (sendMulticast E (PathLookup lk) fromKey (lookup_dest lk) r) (\<lambda>r1.
       if xKey E (lookup_dest lk) = xKey E (self_key E) then
         (let (notify, r2) = answer_notify E now lk r1 in pf_handleNotify deferred E now notify r2)
       else Inr r1)"

definition pf_sendLookup :: "deferred_call \<Rightarrow> env \<Rightarrow> int \<Rightarrow> publicKey \<Rightarrow> router \<Rightarrow> router result" where
  "pf_sendLookup deferred E now dest r =
     (if (case m_get (paths r) dest of
            None \<Rightarrow> False
          | Some info \<Rightarrow> time_sub now (pi_reqTime info) < pathThrottle (env_config E))
      then Inr r
      else pf_handleLookup deferred E now (self_key E)
             \<lparr> lookup_source = self_key E, lookup_dest = dest,
               lookup_from = snd (getRootAndPath (r_infos r) (self_key E)) \<rparr> r)"

definition pf_rumorSendLookup :: "deferred_call \<Rightarrow> env \<Rightarrow> int \<Rightarrow> publicKey \<Rightarrow> router \<Rightarrow> router result" where
  "pf_rumorSendLookup deferred E now dest r =
     (let xform = xKey E dest in
      case m_get (rumors r) xform of
        Some rumor \<Rightarrow>
          if time_sub now (rumor_sendTime rumor) < pathThrottle (env_config E) then Inr r
          else pf_sendLookup deferred E now dest
                 (set_rumor xform (rumor\<lparr> rumor_sendTime := now \<rparr>)
                   (emit [TimerReset (rumor_timer rumor) (pathTimeout (env_config E))] r))
      | None \<Rightarrow>
          (let (timer, r1) = start_timer (pathTimeout (env_config E)) r
           in pf_sendLookup deferred E now dest
                (set_rumor xform \<lparr> rumor_traffic = None, rumor_sendTime = now, rumor_timer = timer \<rparr> r1)))"

definition pf_handleTraffic_with :: "deferred_call \<Rightarrow> env \<Rightarrow> int \<Rightarrow> traffic \<Rightarrow> router \<Rightarrow> router result" where
  "pf_handleTraffic_with deferred E now tr r =
     (case m_get (paths r) (tr_dest tr) of
        Some info \<Rightarrow>
          (let tr' = tr\<lparr> tr_path := pi_path info,
                         tr_from := snd (getRootAndPath (r_infos r) (self_key E)) \<rparr>
           in Inr (emit [SelfTraffic tr'] (set_path (tr_dest tr) (info\<lparr> pi_traffic := Some tr' \<rparr>) r)))
      | None \<Rightarrow>
          and_then (pf_rumorSendLookup deferred E now (tr_dest tr) r) (\<lambda>r1.
            case m_get (rumors r1) (xKey E (tr_dest tr)) of
              None \<Rightarrow> Inl Panic
            | Some rumor \<Rightarrow> Inr (set_rumor (xKey E (tr_dest tr)) (rumor\<lparr> rumor_traffic := Some tr \<rparr>) r1)))"

fun pf_handleTraffic :: "nat \<Rightarrow> env \<Rightarrow> int \<Rightarrow> traffic \<Rightarrow> router \<Rightarrow> router result" where
  "pf_handleTraffic 0 E now tr r = Inl Diverge"
| "pf_handleTraffic (Suc fuel) E now tr r = pf_handleTraffic_with (pf_handleTraffic fuel E now) E now tr r"

text \<open>The entry points the actor's inbox runs.\<close>

definition handleNotify :: "env \<Rightarrow> int \<Rightarrow> pathNotify \<Rightarrow> router \<Rightarrow> router result" where
  "handleNotify E now = pf_handleNotify (pf_handleTraffic 2 E now) E now"

definition handleLookup :: "env \<Rightarrow> int \<Rightarrow> peer \<Rightarrow> pathLookup \<Rightarrow> router \<Rightarrow> router result" where
  "handleLookup E now p lk r =
     (if \<not> isOnTree r (p_key p) then Inr r
      else pf_handleLookup (pf_handleTraffic 2 E now) E now (p_key p) lk r)"

definition sendLookup :: "env \<Rightarrow> int \<Rightarrow> publicKey \<Rightarrow> router \<Rightarrow> router result" where
  "sendLookup E now = pf_sendLookup (pf_handleTraffic 2 E now) E now"

definition rumorSendLookup :: "env \<Rightarrow> int \<Rightarrow> publicKey \<Rightarrow> router \<Rightarrow> router result" where
  "rumorSendLookup E now = pf_rumorSendLookup (pf_handleTraffic 2 E now) E now"

definition sendTraffic :: "env \<Rightarrow> int \<Rightarrow> traffic \<Rightarrow> router \<Rightarrow> router result" where
  "sendTraffic E now = pf_handleTraffic 2 E now"

definition handleBroken :: "env \<Rightarrow> int \<Rightarrow> pathBroken \<Rightarrow> router \<Rightarrow> router result" where
  "handleBroken E now broken r =
     (case lookup E now (broken_path broken) (broken_watermark broken) r of
        (Some p, wm, r1) \<Rightarrow> Inr (emit [SendQueued p (PathBroken (broken\<lparr> broken_watermark := wm \<rparr>))] r1)
      | (None, wm, r1) \<Rightarrow>
          if broken_source broken \<noteq> self_key E then Inr r1
          else case m_get (paths r1) (broken_dest broken) of
              None \<Rightarrow> Inr r1
            | Some info \<Rightarrow>
                sendLookup E now (broken_dest broken)
                  (set_path (broken_dest broken) (info\<lparr> pi_broken := True \<rparr>) r1))"

definition doBroken :: "env \<Rightarrow> int \<Rightarrow> traffic \<Rightarrow> router \<Rightarrow> router result" where
  "doBroken E now tr =
     handleBroken E now \<lparr> broken_path = tr_from tr, broken_watermark = NOT 0,
                          broken_source = tr_source tr, broken_dest = tr_dest tr \<rparr>"

definition resetTimeout :: "env \<Rightarrow> publicKey \<Rightarrow> router \<Rightarrow> router" where
  "resetTimeout E key r =
     (case m_get (paths r) key of
        None \<Rightarrow> r
      | Some info \<Rightarrow>
          if pi_broken info then r
          else emit [TimerReset (pi_timer info) (pathTimeout (env_config E))] r)"

definition handleTraffic :: "env \<Rightarrow> int \<Rightarrow> traffic \<Rightarrow> router \<Rightarrow> router result" where
  "handleTraffic E now tr r =
     (case lookup E now (tr_path tr) (tr_watermark tr) r of
        (Some p, wm, r1) \<Rightarrow> Inr (emit [SendQueued p (Traffic (tr\<lparr> tr_watermark := wm \<rparr>))] r1)
      | (None, wm, r1) \<Rightarrow>
          (let tr' = tr\<lparr> tr_watermark := wm \<rparr> in
           if tr_dest tr' = self_key E
           then Inr (emit [Deliver tr'] (resetTimeout E (tr_source tr') r1))
           else doBroken E now tr' r1))"

text \<open>The closures of the timers of a path and of a rumor.\<close>

definition path_timer_fired :: "publicKey \<Rightarrow> nat \<Rightarrow> router \<Rightarrow> router" where
  "path_timer_fired key timer r =
     (case m_get (paths r) key of
        None \<Rightarrow> r
      | Some info \<Rightarrow>
          if pi_timer info = timer
          then (emit [TimerStop timer] r)\<lparr> r_pathfinder := (r_pathfinder r)\<lparr> pf_paths := m_del (paths r) key \<rparr> \<rparr>
          else r)"

definition rumor_timer_fired :: "publicKey \<Rightarrow> nat \<Rightarrow> router \<Rightarrow> router" where
  "rumor_timer_fired xform timer r =
     (case m_get (rumors r) xform of
        None \<Rightarrow> r
      | Some rumor \<Rightarrow>
          if rumor_timer rumor = timer
          then (emit [TimerStop timer] r)\<lparr> r_pathfinder := (r_pathfinder r)\<lparr> pf_rumors := m_del (rumors r) xform \<rparr> \<rparr>
          else r)"

subsection \<open>Preservation of the invariant\<close>

text \<open>
  \<open>pf_ok E r x\<close>: the call returned, kept the invariant and dropped no rumor. \<open>deferred_ok\<close> is
  what the circle of methods needs of the deferred call.
\<close>

definition pf_ok :: "env \<Rightarrow> router \<Rightarrow> router result \<Rightarrow> bool" where
  "pf_ok E r x \<longleftrightarrow> (\<exists>r'. x = Inr r' \<and> router_inv E r' \<and> m_dom (rumors r) \<subseteq> m_dom (rumors r'))"

definition deferred_ok :: "env \<Rightarrow> deferred_call \<Rightarrow> bool" where
  "deferred_ok E d \<longleftrightarrow>
     (\<forall>tr r. router_inv E r \<longrightarrow> tr_dest tr \<in> m_dom (paths r) \<longrightarrow> pf_ok E r (d tr r))"

lemma pf_ok_Inr [simp]: "pf_ok E r (Inr r') \<longleftrightarrow> router_inv E r' \<and> m_dom (rumors r) \<subseteq> m_dom (rumors r')"
  by (simp add: pf_ok_def)

lemma pf_ok_weaken: "pf_ok E r' x \<Longrightarrow> m_dom (rumors r) \<subseteq> m_dom (rumors r') \<Longrightarrow> pf_ok E r x"
  by (auto simp: pf_ok_def)

lemma router_inv_pathfinder:
  "router_inv E r \<Longrightarrow> pf_inv pf \<Longrightarrow> router_inv E (r\<lparr> r_pathfinder := pf \<rparr>)"
  by (simp add: router_inv_def)

lemma router_inv_set_path:
  "router_inv E r \<Longrightarrow> (\<And>tr. pi_traffic info = Some tr \<Longrightarrow> tr_dest tr = key) \<Longrightarrow>
     router_inv E (set_path key info r)"
  unfolding set_path_def
  by (rule router_inv_pathfinder) (auto simp: pf_inv_def dest: router_invD(14))

lemma router_inv_set_rumor: "router_inv E r \<Longrightarrow> router_inv E (set_rumor key rumor r)"
  unfolding set_rumor_def
  by (rule router_inv_pathfinder) (auto simp: pf_inv_def dest: router_invD(14))

lemma router_inv_start_timer: "router_inv E r \<Longrightarrow> router_inv E (snd (start_timer d r))"
  by (simp add: start_timer_def router_inv_def)

lemma rumors_fields [simp]:
  "rumors (set_path key info r) = rumors r" "paths (set_path key info r) = m_set (paths r) key info"
  "rumors (set_rumor key rumor r) = m_set (rumors r) key rumor" "paths (set_rumor key rumor r) = paths r"
  "r_pathfinder (snd (start_timer d r)) = r_pathfinder r"
  by (simp_all add: set_path_def set_rumor_def start_timer_def)

lemma router_inv_traffic:
  "router_inv E r \<Longrightarrow> m_get (paths r) k = Some info \<Longrightarrow> pi_traffic info = Some tr \<Longrightarrow> tr_dest tr = k"
  by (auto simp: pf_inv_def dest: router_invD(14))

lemma deferred_ok_handleTraffic: "deferred_ok E (pf_handleTraffic (Suc fuel) E now)"
  by (auto simp: deferred_ok_def pf_handleTraffic_with_def Let_def intro!: router_inv_set_path)

lemma accept_notify_ok:
  assumes "deferred_ok E d" "router_inv E r"
    "\<And>tr. pi_traffic info = Some tr \<Longrightarrow> tr_dest tr = notify_source notify"
  shows "pf_ok E r (accept_notify d notify info r)"
proof -
  let ?info = "info\<lparr> pi_path := nfo_path (notify_info notify), pi_seq := nfo_seq (notify_info notify),
      pi_broken := False, pi_traffic := None \<rparr>"
  let ?r1 = "emit [PathNotifyCallback (notify_source notify)] (set_path (notify_source notify) ?info r)"
  have r1: "router_inv E ?r1"
    unfolding router_inv_emit by (rule router_inv_set_path) (simp_all add: assms(2))
  show ?thesis
  proof (cases "pi_traffic info")
    case None
    then show ?thesis using r1 by (simp add: accept_notify_def Let_def)
  next
    case (Some tr)
    then have "tr_dest tr \<in> m_dom (paths ?r1)" using assms(3) by simp
    then have "pf_ok E ?r1 (d tr ?r1)" using assms(1) r1 by (simp add: deferred_ok_def)
    then show ?thesis using Some by (auto simp: accept_notify_def Let_def elim: pf_ok_weaken)
  qed
qed

lemma pf_handleNotify_ok:
  assumes "deferred_ok E d" "router_inv E r"
  shows "pf_ok E r (pf_handleNotify d E now notify r)"
proof -
  obtain mp wm r1 where l: "lookup E now (notify_path notify) (notify_watermark notify) r = (mp, wm, r1)"
    by (metis prod_cases3)
  note r1 = lookup_inv [OF assms(2) l]
  let ?c = "env_config E"
  let ?known = "\<lambda>info. pf_ok E r (accept_notify d notify info (emit [TimerReset (pi_timer info) (pathTimeout ?c)] r1))"
  have known: "?known info" if "m_get (paths r1) (notify_source notify) = Some info" for info
    by (rule pf_ok_weaken [OF accept_notify_ok [OF assms(1)]])
      (use r1 that router_inv_traffic in auto)
  let ?new = "\<lparr> pi_path = [], pi_seq = 0, pi_reqTime = now, pi_timer = fst (start_timer (pathTimeout ?c) r1),
      pi_traffic = None, pi_broken = False \<rparr>"
  let ?r2 = "snd (start_timer (pathTimeout ?c) r1)"
  have fresh: "pf_ok E r (accept_notify d notify ?new ?r2)"
    by (rule pf_ok_weaken [OF accept_notify_ok [OF assms(1)]])
      (use r1 router_inv_start_timer in auto)
  have waiting: "pf_ok E r (accept_notify d notify (?new\<lparr> pi_traffic := Some tr \<rparr>)
      (set_rumor x rumor ?r2))" if "tr_dest tr = notify_source notify" for tr x rumor
    by (rule pf_ok_weaken [OF accept_notify_ok [OF assms(1)]])
      (use r1 that router_inv_start_timer router_inv_set_rumor in auto)
  show ?thesis
    using r1 known fresh waiting
    by (auto simp: pf_handleNotify_def l Let_def case_prod_beta split: option.split)
qed

lemma answer_notify_ok:
  "router_inv E r \<Longrightarrow> router_inv E (snd (answer_notify E now lk r)) \<and> rumors (snd (answer_notify E now lk r)) = rumors r"
  by (auto simp: answer_notify_def Let_def pf_inv_def intro!: router_inv_pathfinder dest: router_invD(14))

lemma sendMulticast_pathfinder:
  assumes "sendMulticast E packet fromKey toKey r = Inr r'"
  shows "r_pathfinder r' = r_pathfinder r"
proof -
  have "r_pathfinder s' = r_pathfinder s"
    if "range_loop (multicast_entry E packet fromKey toKey) xs s = Inr s'" for xs s s'
    using that
    by (induction xs arbitrary: s)
      (force simp: and_then_eq_Inr multicast_entry_def split: if_splits option.splits)+
  with assms show ?thesis by (simp add: sendMulticast_def)
qed

lemma pf_handleLookup_ok:
  assumes "deferred_ok E d" "router_inv E r"
  shows "pf_ok E r (pf_handleLookup d E now fromKey lk r)"
proof -
  obtain r1 where r1: "sendMulticast E (PathLookup lk) fromKey (lookup_dest lk) r = Inr r1" "router_inv E r1"
    using sendMulticast_ok [OF assms(2)] by blast
  have pf: "r_pathfinder r1 = r_pathfinder r" using sendMulticast_pathfinder [OF r1(1)] .
  let ?a = "answer_notify E now lk r1"
  have "pf_ok E (snd ?a) (pf_handleNotify d E now (fst ?a) (snd ?a))"
    by (rule pf_handleNotify_ok [OF assms(1)]) (simp add: answer_notify_ok [OF r1(2)])
  then have "pf_ok E r (pf_handleNotify d E now (fst ?a) (snd ?a))"
    by (rule pf_ok_weaken) (simp add: answer_notify_ok [OF r1(2)] pf)
  with r1 pf show ?thesis by (simp add: pf_handleLookup_def Let_def case_prod_beta)
qed

lemma pf_sendLookup_ok:
  assumes "deferred_ok E d" "router_inv E r"
  shows "pf_ok E r (pf_sendLookup d E now dest r)"
  using assms by (simp add: pf_sendLookup_def pf_handleLookup_ok split: option.split)

lemma pf_rumorSendLookup_ok:
  assumes "deferred_ok E d" "router_inv E r"
  shows "\<exists>r'. pf_rumorSendLookup d E now dest r = Inr r' \<and> router_inv E r'
    \<and> insert (xKey E dest) (m_dom (rumors r)) \<subseteq> m_dom (rumors r')"
proof -
  have send: "\<exists>r'. pf_sendLookup d E now dest (set_rumor (xKey E dest) rumor s) = Inr r' \<and> router_inv E r'
      \<and> insert (xKey E dest) (m_dom (rumors r)) \<subseteq> m_dom (rumors r')"
    if "router_inv E s" "rumors s = rumors r" for rumor s
    using pf_sendLookup_ok [OF assms(1), where r = "set_rumor (xKey E dest) rumor s" and now = now and dest = dest]
      router_inv_set_rumor [OF that(1)] that(2) by (simp add: pf_ok_def)
  let ?t = "snd (start_timer (pathTimeout (env_config E)) r)"
  have inv: "router_inv E (emit os r)" "router_inv E ?t" "rumors (emit os r) = rumors r" "rumors ?t = rumors r" for os
    using assms(2) router_inv_start_timer by auto
  show ?thesis
    using assms(2) send [OF inv(1) inv(3)] send [OF inv(2) inv(4)]
    by (simp add: pf_rumorSendLookup_def Let_def case_prod_beta domI split: option.split)
qed

lemma pf_handleTraffic_with_ok:
  assumes "deferred_ok E d" "router_inv E r"
  shows "pf_ok E r (pf_handleTraffic_with d E now tr r)"
proof (cases "m_get (paths r) (tr_dest tr)")
  case None
  obtain r' where r': "pf_rumorSendLookup d E now (tr_dest tr) r = Inr r'" "router_inv E r'"
    "insert (xKey E (tr_dest tr)) (m_dom (rumors r)) \<subseteq> m_dom (rumors r')"
    using pf_rumorSendLookup_ok [OF assms] by blast
  then obtain rumor where "m_get (rumors r') (xKey E (tr_dest tr)) = Some rumor" by blast
  with None r' show ?thesis
    by (auto simp: pf_handleTraffic_with_def intro: router_inv_set_rumor)
next
  case (Some info)
  then show ?thesis
    using assms(2) by (auto simp: pf_handleTraffic_with_def Let_def intro!: router_inv_set_path)
qed

text \<open>Fuel two is enough, and more does not change the result.\<close>

lemma pf_handleTraffic_ok:
  assumes "router_inv E r"
  shows "pf_ok E r (pf_handleTraffic (Suc (Suc fuel)) E now tr r)"
  using pf_handleTraffic_with_ok [OF deferred_ok_handleTraffic assms] by simp

lemma deferred_two: "deferred_ok E (pf_handleTraffic 2 E now)"
  using deferred_ok_handleTraffic [of E 1 now] by (simp add: numeral_2_eq_2)

lemma handleNotify_ok: "router_inv E r \<Longrightarrow> pf_ok E r (handleNotify E now notify r)"
  by (simp add: handleNotify_def pf_handleNotify_ok deferred_two)

lemma handleLookup_ok: "router_inv E r \<Longrightarrow> pf_ok E r (handleLookup E now p lk r)"
  by (simp add: handleLookup_def pf_handleLookup_ok deferred_two)

lemma sendLookup_ok: "router_inv E r \<Longrightarrow> pf_ok E r (sendLookup E now dest r)"
  by (simp add: sendLookup_def pf_sendLookup_ok deferred_two)

lemma rumorSendLookup_ok: "router_inv E r \<Longrightarrow> pf_ok E r (rumorSendLookup E now dest r)"
  using pf_rumorSendLookup_ok [OF deferred_two] by (fastforce simp: rumorSendLookup_def pf_ok_def)

lemma sendTraffic_ok: "router_inv E r \<Longrightarrow> pf_ok E r (sendTraffic E now tr r)"
  using pf_handleTraffic_ok [of E r 0] by (simp add: sendTraffic_def numeral_2_eq_2)

lemma handleBroken_ok:
  assumes "router_inv E r"
  shows "pf_ok E r (handleBroken E now broken r)"
proof -
  obtain mp wm r1 where l: "lookup E now (broken_path broken) (broken_watermark broken) r = (mp, wm, r1)"
    by (metis prod_cases3)
  note r1 = lookup_inv [OF assms l]
  have "pf_ok E r (sendLookup E now (broken_dest broken)
      (set_path (broken_dest broken) (info\<lparr> pi_broken := True \<rparr>) r1))"
    if "m_get (paths r1) (broken_dest broken) = Some info" for info
    by (rule pf_ok_weaken [OF sendLookup_ok [OF router_inv_set_path]])
      (use r1 that router_inv_traffic in auto)
  with r1 show ?thesis
    by (auto simp: handleBroken_def l split: option.split)
qed

lemma resetTimeout_inv: "router_inv E r \<Longrightarrow> router_inv E (resetTimeout E key r)"
  "r_pathfinder (resetTimeout E key r) = r_pathfinder r"
  by (auto simp: resetTimeout_def split: option.split)

lemma handleTraffic_ok:
  assumes "router_inv E r"
  shows "pf_ok E r (handleTraffic E now tr r)"
proof -
  obtain mp wm r1 where l: "lookup E now (tr_path tr) (tr_watermark tr) r = (mp, wm, r1)"
    by (metis prod_cases3)
  note r1 = lookup_inv [OF assms l]
  have "pf_ok E r (doBroken E now tr' r1)" for tr'
    unfolding doBroken_def by (rule pf_ok_weaken [OF handleBroken_ok]) (use r1 in auto)
  with r1 show ?thesis
    by (auto simp: handleTraffic_def l Let_def resetTimeout_inv split: option.split)
qed

lemma path_timer_fired_inv: "router_inv E r \<Longrightarrow> router_inv E (path_timer_fired key timer r)"
  using router_invD(14) [of E r]
  by (auto simp: path_timer_fired_def pf_inv_def split: option.split intro!: router_inv_pathfinder)

lemma rumor_timer_fired_inv: "router_inv E r \<Longrightarrow> router_inv E (rumor_timer_fired key timer r)"
  using router_invD(14) [of E r]
  by (auto simp: rumor_timer_fired_def pf_inv_def split: option.split intro!: router_inv_pathfinder)

subsection \<open>What the path table accepts\<close>

lemma lookup_pathfinder [simp]: "r_pathfinder (snd (snd (lookup E now path wm r))) = r_pathfinder r"
  by (simp add: lookup_def Let_def case_prod_beta)

text \<open>The part of a path entry that routes packets.\<close>

definition path_view :: "router \<Rightarrow> publicKey \<Rightarrow> (peerPort list \<times> u64) option" where
  "path_view r key = map_option (\<lambda>info. (pi_path info, pi_seq info)) (m_get (paths r) key)"

lemma path_view_fields [simp]:
  "path_view (emit os r) = path_view r" "path_view (set_rumor x rumor r) = path_view r"
  "path_view (snd (start_timer d r)) = path_view r"
  "path_view (set_path k info r) key = (if key = k then Some (pi_path info, pi_seq info) else path_view r key)"
  by (auto simp: path_view_def fun_eq_iff)

lemma path_view_known:
  assumes "tr_dest tr \<in> m_dom (paths r)"
  shows "\<exists>r'. pf_handleTraffic (Suc fuel) E now tr r = Inr r' \<and> path_view r' = path_view r"
proof -
  obtain info where "m_get (paths r) (tr_dest tr) = Some info" using assms by auto
  then show ?thesis
    by (auto simp: pf_handleTraffic_with_def Let_def fun_eq_iff path_view_def)
qed

lemma accept_notify_view:
  assumes "accept_notify (pf_handleTraffic (Suc fuel) E now) notify info r = Inr r'"
    "\<And>tr. pi_traffic info = Some tr \<Longrightarrow> tr_dest tr = notify_source notify"
  shows "path_view r' key = (if key = notify_source notify
    then Some (nfo_path (notify_info notify), nfo_seq (notify_info notify)) else path_view r key)"
proof (cases "pi_traffic info")
  case None
  then show ?thesis using assms(1) by (auto simp: accept_notify_def Let_def)
next
  case (Some tr)
  let ?info = "info\<lparr> pi_path := nfo_path (notify_info notify), pi_seq := nfo_seq (notify_info notify),
      pi_broken := False, pi_traffic := None \<rparr>"
  let ?r1 = "emit [PathNotifyCallback (notify_source notify)] (set_path (notify_source notify) ?info r)"
  have "tr_dest tr \<in> m_dom (paths ?r1)" using Some assms(2) by simp
  from path_view_known [OF this] obtain r2 where
    "pf_handleTraffic (Suc fuel) E now tr ?r1 = Inr r2" "path_view r2 = path_view ?r1" by blast
  then show ?thesis
    using Some assms(1) by (simp add: accept_notify_def Let_def)
qed

text \<open>When a notify changes the path of a key, all the checks of \<open>_handleNotify\<close> have passed.\<close>

definition notify_accepted :: "env \<Rightarrow> pathNotify \<Rightarrow> router \<Rightarrow> bool" where
  "notify_accepted E notify r \<longleftrightarrow>
     notify_dest notify = self_key E \<and> pathNotify_check (env_ed E) notify \<and>
     (case m_get (paths r) (notify_source notify) of
        Some info \<Rightarrow> pi_seq info < nfo_seq (notify_info notify) \<and> pi_path info \<noteq> nfo_path (notify_info notify)
      | None \<Rightarrow> m_has (rumors r) (xKey E (notify_source notify)))"

lemma pf_handleNotify_view:
  assumes "router_inv E r" "pf_handleNotify (pf_handleTraffic (Suc fuel) E now) E now notify r = Inr r'"
  shows "path_view r' key = path_view r key
    \<or> notify_accepted E notify r \<and> key = notify_source notify
      \<and> path_view r' key = Some (nfo_path (notify_info notify), nfo_seq (notify_info notify))"
proof -
  let ?d = "pf_handleTraffic (Suc fuel) E now"
  obtain mp wm r1 where l: "lookup E now (notify_path notify) (notify_watermark notify) r = (mp, wm, r1)"
    by (metis prod_cases3)
  have r1: "router_inv E r1" "r_pathfinder r1 = r_pathfinder r"
    using lookup_inv [OF assms(1) l] by auto
  have view: "path_view r1 = path_view r" by (simp add: path_view_def r1 fun_eq_iff)
  have acc: "path_view r' key = (if key = notify_source notify
      then Some (nfo_path (notify_info notify), nfo_seq (notify_info notify)) else path_view r key)"
    if "accept_notify ?d notify info s = Inr r'" "path_view s = path_view r"
      "\<And>tr. pi_traffic info = Some tr \<Longrightarrow> tr_dest tr = notify_source notify" for info s
    using accept_notify_view [OF that(1,3), of key] that(2) by simp
  show ?thesis
  proof (cases "m_get (paths r) (notify_source notify)")
    case (Some info)
    then show ?thesis
      using assms(2) l r1 view acc [of info] router_inv_traffic [OF assms(1) Some]
      by (auto simp: pf_handleNotify_def notify_accepted_def pathNotifyInfo_equal_iff not_le
          split: option.splits if_splits)
  next
    case None
    let ?new = "\<lparr> pi_path = [], pi_seq = 0, pi_reqTime = now,
      pi_timer = fst (start_timer (pathTimeout (env_config E)) r1), pi_traffic = None, pi_broken = False \<rparr>"
    let ?r2 = "snd (start_timer (pathTimeout (env_config E)) r1)"
    note a1 = acc [of ?new ?r2, simplified view path_view_fields]
    have a2: "path_view r' key = (if key = notify_source notify
        then Some (nfo_path (notify_info notify), nfo_seq (notify_info notify)) else path_view r key)"
      if "accept_notify ?d notify (?new\<lparr> pi_traffic := Some tr \<rparr>) (set_rumor x rumor ?r2) = Inr r'"
        "tr_dest tr = notify_source notify" for tr x rumor
      by (rule acc [OF that(1)]) (simp_all add: view that(2))
    show ?thesis
      using assms(2) l r1 view None a1
      by (auto simp: pf_handleNotify_def notify_accepted_def Let_def case_prod_beta
          split: option.splits if_splits dest!: a2 [simplified])
  qed
qed

text \<open>
  C32. Authenticity of paths: a notify changes the path that traffic to a key takes only if it is
  addressed to us, signed by that key, and either newer than the entry and different from it, or an
  answer to a lookup of ours; then the entry holds exactly the signed path and sequence number.
\<close>

theorem notify_changes_authentic:
  assumes "router_inv E r" "handleNotify E now notify r = Inr r'" "path_view r' key \<noteq> path_view r key"
  shows "key = notify_source notify \<and> notify_accepted E notify r
    \<and> path_view r' key = Some (nfo_path (notify_info notify), nfo_seq (notify_info notify))"
  using pf_handleNotify_view [OF assms(1), of 1 now notify r' key] assms(2,3)
  by (auto simp: handleNotify_def numeral_2_eq_2)

text \<open>A node of the sample tree that has asked for the third node and hears from it.\<close>

definition asking_node :: router where
  "asking_node = (chain_node 1 2)\<lparr> r_pathfinder := (r_pathfinder (chain_node 1 2))\<lparr>
     pf_rumors := [(3, \<lparr> rumor_traffic = None, rumor_sendTime = 0, rumor_timer = 9 \<rparr>)] \<rparr> \<rparr>"

definition chain_notify :: pathNotify where
  "chain_notify = \<lparr> notify_path = [], notify_watermark = NOT 0, notify_source = 3, notify_dest = 1,
     notify_info = \<lparr> nfo_seq = 7, nfo_path = [5, 6], nfo_sig = 0 \<rparr> \<rparr>"

lemma asking_node_inv: "router_inv (chain_env 1) asking_node"
  unfolding asking_node_def
  by (rule router_inv_pathfinder, rule chain_node_inv)
    (simp_all add: chain_node_def router_init_def pf_inv_def)

lemma asking_node_accepts:
  "map_sum id (\<lambda>r. (path_view r 3, pi_broken (the (m_get (paths r) 3)))) (handleNotify (chain_env 1) 0 chain_notify asking_node)
     = Inr (Some ([5, 6], 7), False)"
  by code_simp

theorem notify_changes_authentic_witness:
  "\<exists>r'. handleNotify (chain_env 1) 0 chain_notify asking_node = Inr r' \<and> path_view r' 3 = Some ([5, 6], 7)
     \<and> notify_accepted (chain_env 1) chain_notify asking_node"
proof -
  obtain r' where r': "handleNotify (chain_env 1) 0 chain_notify asking_node = Inr r'"
    "path_view r' 3 = Some ([5, 6], 7)"
    using asking_node_accepts by (auto simp: map_sum_def split: sum.splits)
  have "path_view asking_node 3 = None"
    by (simp add: path_view_def asking_node_def chain_node_def router_init_def)
  then show ?thesis
    using notify_changes_authentic [OF asking_node_inv r'(1), of 3] r' by simp
qed

text \<open>
  A repeated path does not mend an entry: when a notify carries the path that is already
  stored, even with a newer sequence number, the path table stays as it is; so an entry marked
  broken stays broken, although its comment says that a new notify clears the mark.
\<close>

theorem same_path_notify_ignored:
  assumes "m_get (paths r) (notify_source notify) = Some info"
    and "nfo_path (notify_info notify) = pi_path info" "handleNotify E now notify r = Inr r'"
  shows "paths r' = paths r"
proof -
  obtain mp wm r1 where l: "lookup E now (notify_path notify) (notify_watermark notify) r = (mp, wm, r1)"
    by (metis prod_cases3)
  have "r_pathfinder r1 = r_pathfinder r"
    using lookup_pathfinder [of E now "notify_path notify" "notify_watermark notify" r] by (simp add: l)
  with assms l show ?thesis
    by (auto simp: handleNotify_def pf_handleNotify_def pathNotifyInfo_equal_iff split: option.splits if_splits)
qed

definition broken_node :: router where
  "broken_node = (chain_node 1 2)\<lparr> r_pathfinder := (r_pathfinder (chain_node 1 2))\<lparr>
     pf_paths := [(3, \<lparr> pi_path = [5, 6], pi_seq = 1, pi_reqTime = 0, pi_timer = 9, pi_traffic = None,
       pi_broken = True \<rparr>)] \<rparr> \<rparr>"

lemma broken_node_inv: "router_inv (chain_env 1) broken_node"
  unfolding broken_node_def
  by (rule router_inv_pathfinder, rule chain_node_inv)
    (simp_all add: chain_node_def router_init_def pf_inv_def)

theorem same_path_notify_ignored_witness:
  "\<exists>r' info. handleNotify (chain_env 1) 0 chain_notify broken_node = Inr r'
     \<and> m_get (paths r') 3 = Some info \<and> pi_broken info \<and> pi_seq info = 1"
proof -
  obtain r' where r': "handleNotify (chain_env 1) 0 chain_notify broken_node = Inr r'"
    using handleNotify_ok [OF broken_node_inv] unfolding pf_ok_def by blast
  have "m_get (paths broken_node) (notify_source chain_notify)
      = Some \<lparr> pi_path = [5, 6], pi_seq = 1, pi_reqTime = 0, pi_timer = 9, pi_traffic = None, pi_broken = True \<rparr>"
    by (simp add: broken_node_def chain_notify_def)
  from same_path_notify_ignored [OF this _ r'] r' show ?thesis
    by (simp add: chain_notify_def broken_node_def)
qed

text \<open>
  Lookups for a known path are not throttled: \<open>_sendLookup\<close> compares with the time the entry was
  created and never records that it sent a request, so once the entry is older than the
  throttle interval every call floods a lookup again, at the same instant if need be.
\<close>

theorem known_path_lookups_unthrottled:
  assumes "m_get (paths r) dest = Some info" "pathThrottle (env_config E) \<le> time_sub now (pi_reqTime info)"
    and "xKey E dest \<noteq> xKey E (self_key E)" "sendLookup E now dest r = Inr r'"
  shows "sendLookup E now dest r' = sendMulticast E (PathLookup
      \<lparr> lookup_source = self_key E, lookup_dest = dest,
        lookup_from = snd (getRootAndPath (r_infos r') (self_key E)) \<rparr>) (self_key E) dest r'"
proof -
  have "sendMulticast E (PathLookup \<lparr> lookup_source = self_key E, lookup_dest = dest,
        lookup_from = snd (getRootAndPath (r_infos r) (self_key E)) \<rparr>) (self_key E) dest r = Inr r'"
    using assms by (auto simp: sendLookup_def pf_sendLookup_def pf_handleLookup_def and_then_eq_Inr)
  then have "paths r' = paths r" by (simp add: sendMulticast_pathfinder)
  with assms(1-3) show ?thesis
    by (simp add: sendLookup_def pf_sendLookup_def pf_handleLookup_def)
      (simp add: and_then_def split: sum.split)
qed

lemma xKey_default: "bloomTransform (env_config E) = (\<lambda>key. key) \<Longrightarrow> xKey E key = key"
  by (simp add: xKey_def publicKeySize_def be_word_key_bytes)

theorem known_path_lookups_unthrottled_witness:
  "\<exists>r'. sendLookup (chain_env 1) 2000000000 3 broken_node = Inr r'
     \<and> sendLookup (chain_env 1) 2000000000 3 r' = sendMulticast (chain_env 1) (PathLookup
      \<lparr> lookup_source = 1, lookup_dest = 3,
        lookup_from = snd (getRootAndPath (r_infos r') 1) \<rparr>) 1 3 r'"
proof -
  obtain r' where r': "sendLookup (chain_env 1) 2000000000 3 broken_node = Inr r'"
    using sendLookup_ok [OF broken_node_inv] unfolding pf_ok_def by blast
  have "xKey (chain_env 1) 3 \<noteq> xKey (chain_env 1) (self_key (chain_env 1))"
    by (simp add: xKey_default chain_env_def configDefaults_def)
  then show ?thesis
    using known_path_lookups_unthrottled [of broken_node 3 "\<lparr> pi_path = [5, 6], pi_seq = 1, pi_reqTime = 0,
        pi_timer = 9, pi_traffic = None, pi_broken = True \<rparr>" "chain_env 1" 2000000000 r'] r'
    by (auto simp: broken_node_def chain_env_def configDefaults_def time_sub_def)
qed

end
