(* ===== verification/RouterSystem.thy ===== *)
theory RouterSystem
  imports Pathfinder
begin

text \<open>
  The router actor as a state machine: the messages of its inbox, what each runs, and the states
  it can reach from \<open>init\<close>. The theory proves what the actor as a whole guarantees: it never
  panics, stored infos are signed, announcements converge whatever their order, and forwarding
  is loop free.
\<close>

subsection \<open>The inbox\<close>

datatype router_event =
    AddPeer peer
  | RemovePeer peer
  | GotSigReq peer routerSigReq
  | GotSigRes peer routerSigRes int
  | GotAnnounce peer routerAnnounce
  | GotBloom peer bloom
  | GotLookup peer pathLookup
  | GotNotify peer pathNotify
  | GotBroken peer pathBroken
  | GotTraffic traffic
  | WriteTraffic traffic
  | WriteLookup publicKey
  | Maintenance
  | InfoTimer publicKey nat
  | PathTimer publicKey nat
  | RumorTimer publicKey nat
  | Shutdown

fun router_handle :: "env \<Rightarrow> int \<Rightarrow> router_event \<Rightarrow> router \<Rightarrow> router result" where
  "router_handle E now (AddPeer p) r = addPeer E p r"
| "router_handle E now (RemovePeer p) r = removePeer now p r"
| "router_handle E now (GotSigReq p req) r = handleRequest E p req r"
| "router_handle E now (GotSigRes p res rtt) r = Inr (handleResponse p res rtt r)"
| "router_handle E now (GotAnnounce p ann) r = handleAnnounce E p ann r"
| "router_handle E now (GotBloom p b) r = Inr (handleBloom p b r)"
| "router_handle E now (GotLookup p lk) r = handleLookup E now p lk r"
| "router_handle E now (GotNotify p notify) r = handleNotify E now notify r"
| "router_handle E now (GotBroken p broken) r = handleBroken E now broken r"
| "router_handle E now (GotTraffic tr) r = handleTraffic E now tr r"
| "router_handle E now (WriteTraffic tr) r = sendTraffic E now tr r"
| "router_handle E now (WriteLookup key) r = rumorSendLookup E now key r"
| "router_handle E now Maintenance r = doMaintenance E now r"
| "router_handle E now (InfoTimer key timer) r = Inr (info_timer_fired E key timer r)"
| "router_handle E now (PathTimer key timer) r = Inr (path_timer_fired key timer r)"
| "router_handle E now (RumorTimer key timer) r = Inr (rumor_timer_fired key timer r)"
| "router_handle E now Shutdown r = Inr (router_shutdown r)"

text \<open>
  What the senders guarantee. A peer's actor adds itself to the router before it reads and removes
  itself after its last packet, and checks the signatures of responses and announcements before it
  passes them on. Our own sequence number grows by one per refresh, so it does not reach its maximum.
\<close>

fun event_ok :: "env \<Rightarrow> router \<Rightarrow> router_event \<Rightarrow> bool" where
  "event_ok E r (GotSigRes p res rtt) \<longleftrightarrow> m_has (r_peers r) (p_key p)
     \<and> routerSigRes_check (env_ed E) res (self_key E) (p_key p) = Inr True"
| "event_ok E r (GotAnnounce p ann) \<longleftrightarrow> m_has (r_peers r) (p_key p)
     \<and> routerAnnounce_check (env_ed E) ann = Inr True"
| "event_ok E r Maintenance \<longleftrightarrow> info_seq (info_of r (self_key E)) \<noteq> NOT 0"
| "event_ok E r _ \<longleftrightarrow> True"

inductive router_step :: "env \<Rightarrow> router \<Rightarrow> router \<Rightarrow> bool" for E where
  "event_ok E r ev \<Longrightarrow> router_handle E now ev r = Inr r' \<Longrightarrow> router_step E r r'"

inductive_cases router_stepE: "router_step E r r'"

text \<open>The actor takes the maintenance message of \<open>init\<close> first.\<close>

definition router_start :: "env \<Rightarrow> router \<Rightarrow> bool" where
  "router_start E r \<longleftrightarrow> (\<exists>now entropy. doMaintenance E now (router_init E entropy) = Inr r)"

definition router_reachable :: "env \<Rightarrow> router \<Rightarrow> bool" where
  "router_reachable E r \<longleftrightarrow> (\<exists>r0. router_start E r0 \<and> (router_step E)\<^sup>*\<^sup>* r0 r)"

subsection \<open>The invariant holds in every reachable state\<close>

lemma pf_ok_inv: "pf_ok E r x \<Longrightarrow> \<exists>r'. x = Inr r' \<and> router_inv E r'"
  by (auto simp: pf_ok_def)

lemmas pathfinder_ok = pf_ok_inv [OF handleLookup_ok] pf_ok_inv [OF handleNotify_ok]
  pf_ok_inv [OF handleBroken_ok] pf_ok_inv [OF handleTraffic_ok] pf_ok_inv [OF sendTraffic_ok]
  pf_ok_inv [OF rumorSendLookup_ok]

lemma router_handle_ok:
  assumes "env_ok E" "router_inv E r" "event_ok E r ev"
  shows "\<exists>r'. router_handle E now ev r = Inr r' \<and> router_inv E r'"
proof (cases ev)
  case (GotSigReq p req)
  then show ?thesis using handleRequest_ok [of E p req r] assms(2) by auto
next
  case (GotSigRes p res rtt)
  then show ?thesis using assms handleResponse_inv [of E r p res rtt] by auto
next
  case (GotAnnounce p ann)
  then show ?thesis using assms handleAnnounce_ok [of E r p ann] by auto
next
  case Maintenance
  then show ?thesis using assms doMaintenance_ok by simp
next
  case (AddPeer p)
  then show ?thesis using addPeer_ok [OF assms(2), of p] by auto
qed (use assms(2) removePeer_ok pathfinder_ok handleBloom_inv info_timer_fired_inv
      path_timer_fired_inv rumor_timer_fired_inv router_shutdown_inv in simp_all)

lemma router_start_inv: "env_ok E \<Longrightarrow> router_start E r \<Longrightarrow> router_inv E r"
  unfolding router_start_def by (metis first_maintenance_ok sum.inject(2))

lemma router_step_inv: "env_ok E \<Longrightarrow> router_inv E r \<Longrightarrow> router_step E r r' \<Longrightarrow> router_inv E r'"
  by (elim router_stepE) (metis router_handle_ok sum.inject(2))

text \<open>
  The environment is fixed for the life of a node; the states carry it, so that the actor's laws
  apply to all nodes at once.
\<close>

interpretation router_actor: actor_invariant
  "\<lambda>(E, r). env_ok E \<and> router_start E r"
  "\<lambda>(E, r) (E', r'). E' = E \<and> router_step E r r'"
  "\<lambda>(E, r). env_ok E \<and> router_inv E r"
  by unfold_locales (auto intro: router_start_inv router_step_inv)

lemma router_steps_pair:
  "(router_step E)\<^sup>*\<^sup>* r r' \<Longrightarrow> (\<lambda>(E, r) (E', r'). E' = E \<and> router_step E r r')\<^sup>*\<^sup>* (E, r) (E, r')"
  by (induction rule: rtranclp_induct) (auto intro: rtranclp.rtrancl_into_rtrancl)

lemma router_reachable_inv: "env_ok E \<Longrightarrow> router_reachable E r \<Longrightarrow> router_inv E r"
  unfolding router_reachable_def
  using router_actor.reachable_inv [OF _ router_steps_pair] by fastforce

subsection \<open>Sample nodes for the witnesses\<close>

definition sample_env :: "nat \<Rightarrow> env" where
  "sample_env n = core_env sample_ed (\<lambda>_. (1, 2, 3, 4)) (replicate 63 0 @ [of_nat n]) []"

definition sample_peer :: peer where
  "sample_peer = \<lparr> p_id = 0, p_key = 7, p_protocol = ''TCP'', p_port = 1, p_prio = 0, p_order = 0 \<rparr>"

lemma sample_env_ok: "env_ok (sample_env n)"
  unfolding sample_env_def by (rule env_ok_core) (simp_all add: ed_correct_sample)

lemma sample_reachable: "\<exists>r. router_reachable (sample_env n) r"
proof -
  obtain r where "doMaintenance (sample_env n) 0 (router_init (sample_env n) []) = Inr r"
    using first_maintenance_ok [OF sample_env_ok] by blast
  then show ?thesis
    unfolding router_reachable_def router_start_def by blast
qed

subsection \<open>Safety of the actor\<close>

text \<open>
  C1. No panic: in every state the router actor of a node can reach, from \<open>core.init\<close> through any
  sequence of messages, every message its senders may send runs to completion; none of the
  \<open>panic("this should never happen")\<close> calls and no write to a nil map is reached, and the circle of
  pathfinder calls ends.
\<close>

theorem router_never_panics:
  assumes "ed_correct ed" "length secret = 64" "E = core_env ed hs secret opts"
    and "router_reachable E r" "event_ok E r ev"
  shows "\<exists>r'. router_handle E now ev r = Inr r'"
proof -
  have "env_ok E" using assms(1-3) env_ok_core by simp
  with assms(4,5) show ?thesis
    using router_handle_ok router_reachable_inv by blast
qed

theorem router_never_panics_witness:
  "\<exists>r r'. router_reachable (sample_env 1) r \<and> router_handle (sample_env 1) 0 (AddPeer sample_peer) r = Inr r'"
proof -
  obtain r where r: "router_reachable (sample_env 1) r" using sample_reachable by blast
  with router_never_panics [OF ed_correct_sample _ sample_env_def r, of "AddPeer sample_peer" 0]
  show ?thesis by auto
qed

text \<open>
  C5. Authenticity of the tree: every info a reachable router stores about a node is signed, over one
  message that names node, parent, sequence number, nonce and port, by the node itself and by
  the parent it claims. No remote peer can place a node in our tree without both keys.
\<close>

theorem router_infos_authentic:
  assumes "env_ok E" "router_reachable E r" "m_get (r_infos r) key = Some info"
  shows "publicKey_verify (env_ed E) key (sigRes_message (info_res info) key (info_parent info)) (info_sig info)
    \<and> publicKey_verify (env_ed E) (info_parent info)
        (sigRes_message (info_res info) key (info_parent info)) (res_psig (info_res info))"
  using router_invD(15) [OF router_reachable_inv [OF assms(1,2)]] assms(3)
  by (auto simp: infos_signed_def announce_signed_def getAnnounce_def Let_def)

theorem router_infos_authentic_witness:
  "\<exists>r info. router_reachable (sample_env 1) r \<and> m_get (r_infos r) (self_key (sample_env 1)) = Some info
     \<and> publicKey_verify sample_ed (info_parent info)
        (sigRes_message (info_res info) (self_key (sample_env 1)) (info_parent info)) (res_psig (info_res info))"
proof -
  obtain r where r: "router_reachable (sample_env 1) r" using sample_reachable by blast
  obtain info where i: "m_get (r_infos r) (self_key (sample_env 1)) = Some info"
    using router_invD(7) [OF router_reachable_inv [OF sample_env_ok r]] by auto
  have "env_ed (sample_env 1) = sample_ed" by (simp add: sample_env_def core_env_def)
  with router_infos_authentic [OF sample_env_ok r i] r i show ?thesis by auto
qed

subsection \<open>Forwarding\<close>

text \<open>
  A packet crosses a list of nodes: at each hop the node's own \<open>_lookup\<close>, on whatever it knows at
  that time, picks a peer, and the packet leaves with the watermark that lookup wrote.
\<close>

inductive forwarded :: "(env \<times> int \<times> router) list \<Rightarrow> peerPort list \<Rightarrow> u64 \<Rightarrow> u64 \<Rightarrow> bool" where
  "forwarded [] path wm wm"
| "lookup E now path wm r = (Some p, wm1, r') \<Longrightarrow> forwarded hops path wm1 wm2 \<Longrightarrow>
     forwarded ((E, now, r) # hops) path wm wm2"

inductive_cases forwarded_ConsE: "forwarded (h # hops) path wm wm'"

fun hop_dist :: "peerPort list \<Rightarrow> env \<times> int \<times> router \<Rightarrow> u64" where
  "hop_dist path (E, now, r) = node_dist (r_infos r) path (self_key E)"

lemma lookup_watermark:
  assumes "router_inv E r" "lookup E now path wm r = (Some p, wm', r')"
  shows "wm' = node_dist (r_infos r) path (self_key E)" "wm' < wm"
    "node_dist (r_infos r) path (p_key p) < wm'" "p \<in> set (peers_of r (p_key p))"
proof -
  let ?d = "node_dist (r_infos r) path (self_key E)"
  note cp = router_invD(9,10) [OF assms(1)]
  have lt: "?d < wm"
    using lookup_reject [OF cp(1), of path E wm now thesis for thesis] assms(2) by force
  from cp lt obtain best c pens where
    "lookup E now path wm r = (map_option fst best, ?d, r\<lparr> r_cache := c, r_penalties := pens \<rparr>)"
    "best_ok (r_infos r) path (set (closer_links (r_infos r) path ?d (r_peers r))) best"
    by (rule lookup_pass)
  then have d: "wm' = ?d" and "p \<in> set (closer_links (r_infos r) path ?d (r_peers r))"
    using assms(2) by (cases best; auto simp: best_ok_def)+
  then have "p \<in> set (peers_of r (p_key p)) \<and> node_dist (r_infos r) path (p_key p) < ?d"
    using closer_links_iff [OF router_invD(1) [OF assms(1)]] by simp
  with d lt show "wm' = ?d" "wm' < wm" "node_dist (r_infos r) path (p_key p) < wm'"
    "p \<in> set (peers_of r (p_key p))" by simp_all
qed

lemma forwarded_decreasing:
  assumes "forwarded hops path wm wm'" "\<forall>(E, now, r) \<in> set hops. router_inv E r"
  shows "sorted_wrt (>) (wm # map (hop_dist path) hops) \<and> wm' = last (wm # map (hop_dist path) hops)"
  using assms
proof (induction rule: forwarded.induct)
  case (2 E now path wm r p wm1 r' hops wm2)
  then have "wm1 = hop_dist path (E, now, r)" "wm1 < wm"
    using lookup_watermark [of E r now path wm p wm1 r'] by auto
  with 2 show ?case by force
qed simp

lemma sorted_wrt_greater_length: "sorted_wrt (>) (x # xs) \<Longrightarrow> length xs \<le> unat (x :: u64)"
proof (induction xs arbitrary: x)
  case (Cons y xs)
  then have "length xs \<le> unat y" "unat y < unat x"
    by (auto simp: word_less_nat_alt)
  then show ?case by simp
qed simp

text \<open>
  C3. Loop freedom: along any chain of forwarding nodes, whatever each of them knows of the tree and
  whenever it looked, the tree distances of the nodes to the packet's path strictly decrease. So no
  two hops happen at the same distance, a packet is forwarded at most \<open>d + 1\<close> times where \<open>d\<close> is
  the distance of the node that first forwards it, and the watermark it carries is the
  distance of the last node.
\<close>

theorem forwarding_loop_free:
  assumes "forwarded (first # hops) path wm wm'"
    and "\<forall>(E, now, r) \<in> set (first # hops). router_inv E r"
  shows "sorted_wrt (>) (map (hop_dist path) (first # hops))
    \<and> length (first # hops) \<le> unat (hop_dist path first) + 1
    \<and> hop_dist path first < wm \<and> wm' = hop_dist path (last (first # hops))"
proof -
  have dec: "sorted_wrt (>) (wm # map (hop_dist path) (first # hops))"
    "wm' = last (wm # map (hop_dist path) (first # hops))"
    using forwarded_decreasing [OF assms] by auto
  then have "sorted_wrt (>) (hop_dist path first # map (hop_dist path) hops)" by simp
  then have "length hops \<le> unat (hop_dist path first)"
    using sorted_wrt_greater_length by fastforce
  with dec show ?thesis by (simp add: last_map)
qed

lemma chain_lookups:
  "fst (lookup (chain_env 1) 0 [5, 6] (NOT 0) (chain_node 1 2)) = Some (chain_peer 2)"
  "fst (snd (lookup (chain_env 1) 0 [5, 6] (NOT 0) (chain_node 1 2))) = 2"
  "fst (lookup (chain_env 2) 0 [5, 6] 2 (chain_node 2 3)) = Some (chain_peer 3)"
  "fst (snd (lookup (chain_env 2) 0 [5, 6] 2 (chain_node 2 3))) = 1"
  by code_simp+

lemma chain_forwarded:
  "forwarded [(chain_env 1, 0, chain_node 1 2), (chain_env 2, 0, chain_node 2 3)] [5, 6] (NOT 0) 1"
  using chain_lookups by (metis forwarded.intros prod.collapse)

theorem forwarding_loop_free_witness:
  "forwarded [(chain_env 1, 0, chain_node 1 2), (chain_env 2, 0, chain_node 2 3)] [5, 6] (NOT 0) 1
   \<and> sorted_wrt (>) (map (hop_dist [5, 6]) [(chain_env 1, 0, chain_node 1 2), (chain_env 2, 0, chain_node 2 3)])"
  using forwarding_loop_free [OF chain_forwarded] chain_forwarded
    chain_node_inv [of 1 2] chain_node_inv [of 2 3] by auto

text \<open>
  C24. Next hops: in a state that satisfies the invariant, \<open>_lookup\<close> returns a peer exactly when the
  packet may still move (our own distance is below its watermark) and some connected peer is
  strictly closer to the path than we are; the peer it returns is a connected link of that
  kind, and the packet leaves with our own distance as its watermark.
\<close>

theorem lookup_next_hop:
  assumes "router_inv E r" "lookup E now path wm r = (mp, wm', r')"
  shows "(mp \<noteq> None \<longleftrightarrow> node_dist (r_infos r) path (self_key E) < wm \<and>
            (\<exists>p. p \<in> set (peers_of r (p_key p)) \<and>
               node_dist (r_infos r) path (p_key p) < node_dist (r_infos r) path (self_key E)))
    \<and> (\<forall>p. mp = Some p \<longrightarrow> p \<in> set (peers_of r (p_key p)) \<and> node_dist (r_infos r) path (p_key p) < wm')
    \<and> wm' = min wm (node_dist (r_infos r) path (self_key E))"
proof -
  let ?d = "node_dist (r_infos r) path (self_key E)"
  note cp = router_invD(9,10) [OF assms(1)]
  note links = closer_links_iff [OF router_invD(1) [OF assms(1)]]
  show ?thesis
  proof (cases "?d < wm")
    case True
    with cp obtain best c pens where b:
      "lookup E now path wm r = (map_option fst best, ?d, r\<lparr> r_cache := c, r_penalties := pens \<rparr>)"
      "best_ok (r_infos r) path (set (closer_links (r_infos r) path ?d (r_peers r))) best"
      "best = None \<longleftrightarrow> closer_links (r_infos r) path ?d (r_peers r) = []"
      by (rule lookup_pass)
    then have mp: "mp = map_option fst best" "wm' = ?d" using assms(2) by auto
    have "p \<in> set (peers_of r (p_key p)) \<and> node_dist (r_infos r) path (p_key p) < ?d" if "mp = Some p" for p
      using that mp b(2) links by (auto simp: best_ok_def)
    moreover have "mp \<noteq> None \<longleftrightarrow> (\<exists>p. p \<in> set (closer_links (r_infos r) path ?d (r_peers r)))"
      using mp b(3) by (auto simp: neq_Nil_conv)
    ultimately show ?thesis using True mp links by auto
  next
    case False
    with cp(1) obtain c where "lookup E now path wm r = (None, wm, r\<lparr> r_cache := c \<rparr>)"
      by (rule lookup_reject)
    then show ?thesis using False assms(2) by auto
  qed
qed

theorem lookup_next_hop_witness:
  "fst (lookup (chain_env 1) 0 [5, 6] (NOT 0) (chain_node 1 2)) = Some (chain_peer 2)
   \<and> node_dist chain_infos [5, 6] 2 < 2"
proof -
  let ?l = "lookup (chain_env 1) 0 [5, 6] (NOT 0) (chain_node 1 2)"
  have "router_inv (chain_env 1) (chain_node 1 2)" by (rule chain_node_inv) simp
  moreover have "?l = (fst ?l, fst (snd ?l), snd (snd ?l))" by simp
  ultimately have "\<forall>p. fst ?l = Some p \<longrightarrow>
      node_dist (r_infos (chain_node 1 2)) [5, 6] (p_key p) < fst (snd ?l)"
    using lookup_next_hop [of "chain_env 1" "chain_node 1 2" 0 "[5, 6]" "NOT 0" "fst ?l" "fst (snd ?l)" "snd (snd ?l)"]
    by blast
  then show ?thesis
    using chain_lookups by (simp add: chain_node_def chain_peer_def)
qed

subsection \<open>Convergence of announcements\<close>

text \<open>The rank that the update rule compares: higher sequence number, then lower parent, then lower nonce.\<close>

type_synonym rank = "u64 \<times> publicKey \<times> u64"

fun beats :: "rank \<Rightarrow> rank \<Rightarrow> bool" where
  "beats (s, p, n) (s', p', n') \<longleftrightarrow> s' < s \<or> s = s' \<and> (p < p' \<or> p = p' \<and> n < n')"

definition info_rank :: "routerInfo \<Rightarrow> rank" where
  "info_rank info = (info_seq info, info_parent info, info_nonce info)"

lemma beats_total: "a = b \<or> beats a b \<or> beats b a"
  by (cases a; cases b) auto

lemma beats_trans: "beats a b \<Longrightarrow> beats b c \<Longrightarrow> beats a c"
  by (cases a; cases b; cases c) auto

lemma beats_irrefl: "\<not> beats a a"
  by (cases a) auto

lemma beats_asym: "beats a b \<Longrightarrow> \<not> beats b a"
  using beats_irrefl beats_trans by blast

lemma update_wins_beats:
  "update_wins info ann \<longleftrightarrow> beats (info_rank (info_of_announce ann)) (info_rank info)"
  by (auto simp: update_wins_def info_rank_def info_of_announce_def publicKey_less_iff)

declare beats.simps [simp del]

definition update_all :: "env \<Rightarrow> routerAnnounce list \<Rightarrow> router \<Rightarrow> router" where
  "update_all E anns r = fold (\<lambda>ann r. snd (router_update E ann r)) anns r"

lemma router_update_infos:
  "r_infos (snd (router_update E ann r)) =
     (if (case m_get (r_infos r) (ann_key ann) of None \<Rightarrow> True
          | Some info \<Rightarrow> beats (info_rank (info_of_announce ann)) (info_rank info))
      then m_set (r_infos r) (ann_key ann) (info_of_announce ann) else r_infos r)"
  by (simp add: router_update_def update_wins_beats Let_def resetCache_def forget_sent_def split: option.split)

text \<open>What a router can know about \<open>key\<close> after the announcements.\<close>

definition known_infos :: "publicKey \<Rightarrow> routerAnnounce list \<Rightarrow> router \<Rightarrow> routerInfo set" where
  "known_infos key anns r =
     {info. m_get (r_infos r) key = Some info} \<union> info_of_announce ` {ann \<in> set anns. ann_key ann = key}"

lemma known_infos_step:
  "known_infos key anns (snd (router_update E ann r)) \<subseteq> known_infos key (ann # anns) r"
  by (auto simp: known_infos_def router_update_infos split: if_splits)

lemma not_beats_trans: "\<not> beats a b \<Longrightarrow> \<not> beats b c \<Longrightarrow> \<not> beats a c"
  using beats_total beats_trans by metis

lemma known_infos_kept:
  assumes "info' \<in> known_infos key (ann # anns) r"
  shows "\<exists>info \<in> known_infos key anns (snd (router_update E ann r)). \<not> beats (info_rank info') (info_rank info)"
proof -
  let ?r1 = "snd (router_update E ann r)"
  consider (later) "info' \<in> info_of_announce ` {ann \<in> set anns. ann_key ann = key}"
    | (now) "ann_key ann = key" "info' = info_of_announce ann \<or> m_get (r_infos r) key = Some info'"
    | (other) "ann_key ann \<noteq> key" "m_get (r_infos r) key = Some info'"
    using assms by (auto simp: known_infos_def)
  then show ?thesis
  proof cases
    case later
    then have "info' \<in> known_infos key anns ?r1" by (simp add: known_infos_def)
    then show ?thesis using beats_irrefl by blast
  next
    case now
    have "\<exists>info. m_get (r_infos ?r1) key = Some info \<and> \<not> beats (info_rank info') (info_rank info)"
      using now
      by (cases "m_get (r_infos r) key") (auto simp: router_update_infos beats_irrefl dest: beats_asym)
    then show ?thesis by (auto simp: known_infos_def)
  next
    case other
    then have "info' \<in> known_infos key anns ?r1" by (simp add: known_infos_def router_update_infos)
    then show ?thesis using beats_irrefl by blast
  qed
qed

lemma update_all_best:
  "case m_get (r_infos (update_all E anns r)) key of
     None \<Rightarrow> known_infos key anns r = {}
   | Some info \<Rightarrow> info \<in> known_infos key anns r \<and>
       (\<forall>info' \<in> known_infos key anns r. \<not> beats (info_rank info') (info_rank info))"
proof (induction anns arbitrary: r)
  case Nil
  then show ?case
    by (auto simp: update_all_def known_infos_def beats_irrefl split: option.split)
next
  case (Cons ann anns)
  let ?r1 = "snd (router_update E ann r)"
  note IH = Cons.IH [of ?r1]
  have fold: "update_all E (ann # anns) r = update_all E anns ?r1"
    by (simp add: update_all_def)
  show ?case
  proof (cases "m_get (r_infos (update_all E anns ?r1)) key")
    case None
    then have "known_infos key anns ?r1 = {}" using IH by simp
    then have "known_infos key (ann # anns) r = {}"
      using known_infos_kept [of _ key ann anns r E] by blast
    then show ?thesis using None by (simp add: fold)
  next
    case (Some info)
    then have "info \<in> known_infos key (ann # anns) r"
      using IH known_infos_step [of key anns E ann r] by auto
    moreover have "\<not> beats (info_rank info') (info_rank info)"
      if known: "info' \<in> known_infos key (ann # anns) r" for info'
    proof -
      obtain j where j: "j \<in> known_infos key anns ?r1" "\<not> beats (info_rank info') (info_rank j)"
        using known_infos_kept [OF known, of E] by blast
      then have "\<not> beats (info_rank j) (info_rank info)" using IH Some by simp
      with j(2) show ?thesis by (rule not_beats_trans)
    qed
    ultimately show ?thesis using Some by (simp add: fold)
  qed
qed

text \<open>
  C23. Convergence: routers that hold the same info about a key and receive the same announcements, in any order
  and any number of times, end with infos about it that agree in sequence number, parent and nonce, and
  the sequence number is the highest announced; if no two different announcements for the key agree in these three
  fields, the infos are the same in all fields. So peers do not keep re-sending announcements to each other for ever.
\<close>

theorem announcements_converge:
  assumes "set anns = set anns'" "m_get (r_infos r) key = m_get (r_infos r') key"
  shows "map_option (\<lambda>i. (info_seq i, info_parent i, info_nonce i)) (m_get (r_infos (update_all E anns r)) key)
      = map_option (\<lambda>i. (info_seq i, info_parent i, info_nonce i)) (m_get (r_infos (update_all E' anns' r')) key)
    \<and> (\<forall>ann \<in> set anns. ann_key ann = key \<longrightarrow>
        (\<exists>info. m_get (r_infos (update_all E anns r)) key = Some info \<and> ann_seq ann \<le> info_seq info))
    \<and> (inj_on info_rank (known_infos key anns r) \<longrightarrow>
        m_get (r_infos (update_all E anns r)) key = m_get (r_infos (update_all E' anns' r')) key)"
proof -
  have same: "known_infos key anns' r' = known_infos key anns r"
    using assms(1,2) by (simp add: known_infos_def)
  note best = update_all_best [where E = E and anns = anns and r = r and key = key]
    update_all_best [where E = E' and anns = anns' and r = r' and key = key, unfolded same]
  show ?thesis
  proof (cases "m_get (r_infos (update_all E anns r)) key")
    case None
    then have none: "known_infos key anns r = {}" "m_get (r_infos (update_all E' anns' r')) key = None" using best by (auto split: option.splits)
    then have "ann_key ann \<noteq> key" if "ann \<in> set anns" for ann using that by (auto simp: known_infos_def)
    then show ?thesis using None none by auto
  next
    case (Some info)
    with best obtain info' where i': "m_get (r_infos (update_all E' anns' r')) key = Some info'"
      by (auto split: option.splits)
    have eq: "info \<in> known_infos key anns r" "info' \<in> known_infos key anns r" "info_rank info = info_rank info'"
      using best Some i' beats_total [of "info_rank info" "info_rank info'"] by auto
    have "ann_seq ann \<le> info_seq info" if "ann \<in> set anns" "ann_key ann = key" for ann
    proof -
      have "info_of_announce ann \<in> known_infos key anns r" using that by (auto simp: known_infos_def)
      then have "\<not> beats (info_rank (info_of_announce ann)) (info_rank info)" using best(1) Some by auto
      then show ?thesis by (auto simp: info_rank_def info_of_announce_def not_less beats.simps)
    qed
    moreover have "info_seq info = info_seq info'" "info_parent info = info_parent info'" "info_nonce info = info_nonce info'"
      using eq(3) by (auto simp: info_rank_def)
    ultimately show ?thesis using eq Some i' by (auto dest: inj_onD)
  qed
qed

definition sample_announce :: "u64 \<Rightarrow> publicKey \<Rightarrow> routerAnnounce" where
  "sample_announce sq parent = \<lparr> ann_key = 9, ann_parent = parent,
     ann_res = \<lparr> res_req = \<lparr> req_seq = sq, req_nonce = 0 \<rparr>, res_port = 1, res_psig = 0 \<rparr>, ann_sig = 0 \<rparr>"

theorem announcements_converge_witness:
  "m_get (r_infos (update_all (chain_env 1) [sample_announce 1 2, sample_announce 2 3] (chain_node 1 2))) 9
   = m_get (r_infos (update_all (chain_env 3) [sample_announce 2 3, sample_announce 1 2, sample_announce 2 3]
       (chain_node 3 2))) 9"
proof -
  let ?anns = "[sample_announce 1 2, sample_announce 2 3]" and ?anns' = "[sample_announce 2 3, sample_announce 1 2, sample_announce 2 3]"
  have "set ?anns = set ?anns'" "m_get (r_infos (chain_node 1 2)) 9 = m_get (r_infos (chain_node 3 2)) 9"
    by (auto simp: chain_node_def chain_infos_def)
  moreover have "inj_on info_rank (known_infos 9 ?anns (chain_node 1 2))"
    by (auto simp: chain_node_def chain_infos_def known_infos_def sample_announce_def inj_on_def info_rank_def info_of_announce_def)
  ultimately show ?thesis using announcements_converge by blast
qed

end
