(* ===== verification/GoHeap.thy ===== *)
theory GoHeap
  imports Prelude "HOL-Library.Multiset"
begin

text \<open>
  Go's \<open>container/heap\<close> on a slice: \<open>up\<close>, \<open>down\<close>, \<open>Fix\<close> and \<open>Remove\<close>, with the index
  arithmetic of the library. The elements are compared by \<open>lessf\<close>, whose value \<open>None\<close> stands for a
  comparison that panics (an index out of range in the client's \<open>Less\<close>). The results: on elements that
  can be compared the operations do not panic, permute the slice, and restore the heap order
  after one element changed or left.
\<close>

type_synonym 'a heap_less = "'a \<Rightarrow> 'a \<Rightarrow> bool option"

definition swap :: "'a list \<Rightarrow> nat \<Rightarrow> nat \<Rightarrow> 'a list" where
  "swap h i j = h[i := h ! j, j := h ! i]"

function heap_up :: "'a heap_less \<Rightarrow> 'a list \<Rightarrow> nat \<Rightarrow> 'a list option" where
  "heap_up lessf h j =
     (let i = (j - 1) div 2 in
      if i = j then Some h
      else case lessf (h ! j) (h ! i) of
          None \<Rightarrow> None
        | Some lt \<Rightarrow> if \<not> lt then Some h else heap_up lessf (swap h i j) i)"
  by pat_completeness auto
termination
  by (relation "measure (\<lambda>(_, _, j). j)") auto

text \<open>\<open>down(h, i, n)\<close> returns the slice and the final index; the caller compares it with \<open>i0\<close>.\<close>

function heap_down :: "'a heap_less \<Rightarrow> 'a list \<Rightarrow> nat \<Rightarrow> nat \<Rightarrow> ('a list \<times> nat) option" where
  "heap_down lessf h i n =
     (let j1 = 2 * i + 1 in
      if n \<le> j1 then Some (h, i)
      else case (if j1 + 1 < n then lessf (h ! (j1 + 1)) (h ! j1) else Some False) of
          None \<Rightarrow> None
        | Some right \<Rightarrow>
            (let j = (if right then j1 + 1 else j1) in
             case lessf (h ! j) (h ! i) of
               None \<Rightarrow> None
             | Some lt \<Rightarrow> if \<not> lt then Some (h, i) else heap_down lessf (swap h i j) j n))"
  by pat_completeness auto
termination
  by (relation "measure (\<lambda>(_, _, i, n). n - i)") (auto split: if_splits)

declare heap_up.simps [simp del] heap_down.simps [simp del]

definition heap_sift :: "'a heap_less \<Rightarrow> 'a list \<Rightarrow> nat \<Rightarrow> nat \<Rightarrow> 'a list option" where
  "heap_sift lessf h i n =
     (case heap_down lessf h i n of
        None \<Rightarrow> None
      | Some (h', i') \<Rightarrow> if i < i' then Some h' else heap_up lessf h' i)"

definition heap_Fix :: "'a heap_less \<Rightarrow> 'a list \<Rightarrow> nat \<Rightarrow> 'a list option" where
  "heap_Fix lessf h i = heap_sift lessf h i (length h)"

text \<open>\<open>Remove\<close> up to its final \<open>Pop\<close>, which the client defines on the last element.\<close>

definition heap_Remove :: "'a heap_less \<Rightarrow> 'a list \<Rightarrow> nat \<Rightarrow> 'a list option" where
  "heap_Remove lessf h i =
     (let n = length h - 1 in
      if n \<noteq> i then heap_sift lessf (swap h i n) i n else Some h)"

subsection \<open>Comparison by a key\<close>

definition less_by :: "('a \<Rightarrow> int option) \<Rightarrow> 'a heap_less" where
  "less_by key a b = (case (key a, key b) of (Some x, Some y) \<Rightarrow> Some (x < y) | _ \<Rightarrow> None)"

abbreviation keyed :: "('a \<Rightarrow> int option) \<Rightarrow> 'a list \<Rightarrow> nat \<Rightarrow> bool" where
  "keyed key h n \<equiv> \<forall>k < n. key (h ! k) \<noteq> None"

definition kv :: "('a \<Rightarrow> int option) \<Rightarrow> 'a list \<Rightarrow> nat \<Rightarrow> int" where
  "kv key h k = the (key (h ! k))"

lemma less_by_keyed: "keyed key h n \<Longrightarrow> i < n \<Longrightarrow> j < n \<Longrightarrow> less_by key (h ! i) (h ! j) = Some (kv key h i < kv key h j)"
  by (auto simp: less_by_def kv_def split: option.split)

abbreviation parent_ix :: "nat \<Rightarrow> nat" where "parent_ix k \<equiv> (k - 1) div 2"

text \<open>The heap order of the first \<open>n\<close> elements, with the edges in \<open>ex\<close> exempt.\<close>

definition heap_except :: "(nat \<Rightarrow> bool) \<Rightarrow> ('a \<Rightarrow> int option) \<Rightarrow> 'a list \<Rightarrow> nat \<Rightarrow> bool" where
  "heap_except ex key h n \<longleftrightarrow> (\<forall>k. 0 < k \<longrightarrow> k < n \<longrightarrow> \<not> ex k \<longrightarrow> kv key h (parent_ix k) \<le> kv key h k)"

abbreviation is_heap :: "('a \<Rightarrow> int option) \<Rightarrow> 'a list \<Rightarrow> nat \<Rightarrow> bool" where
  "is_heap \<equiv> heap_except (\<lambda>_. False)"

lemma heap_exceptD:
  "heap_except ex key h n \<Longrightarrow> 0 < k \<Longrightarrow> k < n \<Longrightarrow> \<not> ex k \<Longrightarrow> kv key h (parent_ix k) \<le> kv key h k"
  by (simp add: heap_except_def)

text \<open>The children of \<open>i\<close> are not below the parent of \<open>i\<close>.\<close>

definition grand_ok :: "('a \<Rightarrow> int option) \<Rightarrow> 'a list \<Rightarrow> nat \<Rightarrow> nat \<Rightarrow> bool" where
  "grand_ok key h i n \<longleftrightarrow> (0 < i \<longrightarrow> (\<forall>c. 0 < c \<longrightarrow> c < n \<longrightarrow> parent_ix c = i \<longrightarrow> kv key h (parent_ix i) \<le> kv key h c))"

lemma nth_swap: "i < length h \<Longrightarrow> j < length h \<Longrightarrow>
    swap h i j ! k = (if k = j then h ! i else if k = i then h ! j else h ! k)"
  by (simp add: swap_def nth_list_update)

lemma kv_swap: "i < length h \<Longrightarrow> j < length h \<Longrightarrow>
    kv key (swap h i j) k = (if k = j then kv key h i else if k = i then kv key h j else kv key h k)"
  by (simp add: kv_def nth_swap)

lemma mset_swap [simp]: "i < length h \<Longrightarrow> j < length h \<Longrightarrow> mset (swap h i j) = mset h"
  unfolding swap_def by (rule Multiset.mset_swap)

lemma length_swap [simp]: "length (swap h i j) = length h"
  by (simp add: swap_def)

lemma keyed_swap: "keyed key h n \<Longrightarrow> n \<le> length h \<Longrightarrow> i < n \<Longrightarrow> j < n \<Longrightarrow> keyed key (swap h i j) n"
  by (simp add: nth_swap)

subsection \<open>Sifting up\<close>

lemma up_swap_except:
  assumes "n \<le> length h" "j < n" "0 < j" "heap_except (\<lambda>k. k = j) key h n" "grand_ok key h j n"
    "kv key h j < kv key h (parent_ix j)"
  shows "heap_except (\<lambda>k. k = parent_ix j) key (swap h (parent_ix j) j) n"
  unfolding heap_except_def
proof (intro allI impI)
  let ?i = "parent_ix j"
  fix k assume k: "0 < k" "k < n" "k \<noteq> ?i"
  have ij: "?i < j" using assms(3) by simp
  have len: "?i < length h" "j < length h" using ij assms(1,2) by auto
  consider "k = j" | "k \<noteq> j" "parent_ix k = j" | "k \<noteq> j" "parent_ix k = ?i" | "k \<noteq> j" "parent_ix k \<noteq> j" "parent_ix k \<noteq> ?i"
    by blast
  then show "kv key (swap h ?i j) (parent_ix k) \<le> kv key (swap h ?i j) k"
  proof cases
    case 2
    then show ?thesis using k ij assms(3,5) len by (auto simp: kv_swap grand_ok_def)
  next
    case 3
    then have "kv key h ?i \<le> kv key h k" using k heap_exceptD [OF assms(4), of k] by simp
    then show ?thesis using 3 k ij assms(6) len by (simp add: kv_swap)
  next
    case 4
    then show ?thesis using k assms(4) len by (auto simp: kv_swap heap_except_def)
  qed (use ij assms(6) len in \<open>simp add: kv_swap\<close>)
qed

lemma up_swap_grand:
  assumes "n \<le> length h" "j < n" "0 < j" "heap_except (\<lambda>k. k = j) key h n"
  shows "grand_ok key (swap h (parent_ix j) j) (parent_ix j) n"
  unfolding grand_ok_def
proof (intro impI allI)
  let ?i = "parent_ix j"
  fix c assume c: "0 < ?i" "0 < c" "c < n" "parent_ix c = ?i"
  have ij: "?i < j" using assms(3) by simp
  have len: "?i < length h" "j < length h" using ij assms(1,2) by auto
  have p: "kv key h (parent_ix ?i) \<le> kv key h ?i"
    using c(1) ij assms(2,4) by (auto simp: heap_except_def)
  have "kv key h ?i \<le> kv key h c" if "c \<noteq> j"
    using that c heap_exceptD [OF assms(4), of c] by simp
  moreover have "parent_ix ?i < ?i" using c(1) by auto
  ultimately show "kv key (swap h ?i j) (parent_ix ?i) \<le> kv key (swap h ?i j) c"
    using p c ij len by (auto simp: kv_swap)
qed

lemma heap_up_spec:
  assumes "keyed key h n" "n \<le> length h" "j < n"
    "heap_except (\<lambda>k. k = j) key h n" "grand_ok key h j n"
  shows "\<exists>h'. heap_up (less_by key) h j = Some h' \<and> is_heap key h' n \<and> mset h' = mset h
    \<and> (\<forall>k. n \<le> k \<longrightarrow> h' ! k = h ! k)"
  using assms
proof (induction j arbitrary: h rule: less_induct)
  case (less j)
  let ?i = "parent_ix j"
  show ?case
  proof (cases "0 < j \<and> kv key h j < kv key h ?i")
    case False
    have "is_heap key h n"
      unfolding heap_except_def
    proof (intro allI impI)
      fix k assume "0 < k" "k < n"
      with False heap_exceptD [OF less.prems(4), of k] show "kv key h (parent_ix k) \<le> kv key h k"
        by (cases "k = j") auto
    qed
    moreover have "?i < n" using less.prems(3) by linarith
    then have "heap_up (less_by key) h j = Some h"
      using False less_by_keyed [OF less.prems(1) less.prems(3), of ?i]
      by (subst heap_up.simps) (cases "j = 0"; simp add: Let_def)
    ultimately show ?thesis by blast
  next
    case True
    have i: "?i < j" "?i < n" using True less.prems(3) by auto
    have len: "?i < length h" "j < length h" using i less.prems(2,3) by auto
    obtain h' where h': "heap_up (less_by key) (swap h ?i j) ?i = Some h'" "is_heap key h' n"
      "mset h' = mset (swap h ?i j)" "\<forall>k. n \<le> k \<longrightarrow> h' ! k = swap h ?i j ! k"
      using less.IH [OF i(1) keyed_swap [OF less.prems(1,2) i(2) less.prems(3)] _ i(2)]
        up_swap_except [OF less.prems(2,3) _ less.prems(4,5)] up_swap_grand [OF less.prems(2,3) _ less.prems(4)]
        True less.prems(2) by auto
    have "heap_up (less_by key) h j = Some h'"
      using True less_by_keyed [OF less.prems(1,3) i(2)] h'(1) i by (subst heap_up.simps) simp
    moreover have "swap h ?i j ! k = h ! k" if "n \<le> k" for k
      using that len i less.prems(3) by (simp add: nth_swap)
    ultimately show ?thesis using h' len by auto
  qed
qed

subsection \<open>Sifting down\<close>

text \<open>The smaller child of \<open>i\<close>, as \<open>down\<close> picks it.\<close>

definition min_child :: "('a \<Rightarrow> int option) \<Rightarrow> 'a list \<Rightarrow> nat \<Rightarrow> nat \<Rightarrow> nat" where
  "min_child key h i n =
     (if 2 * i + 2 < n \<and> kv key h (2 * i + 2) < kv key h (2 * i + 1) then 2 * i + 2 else 2 * i + 1)"

lemma min_child_range:
  assumes "2 * i + 1 < n"
  shows "min_child key h i n < n" "i < min_child key h i n" "parent_ix (min_child key h i n) = i"
  using assms by (auto simp: min_child_def)

lemma min_child_le:
  assumes "0 < c" "c < n" "parent_ix c = i"
  shows "kv key h (min_child key h i n) \<le> kv key h c"
proof -
  have "c = 2 * i + 1 \<or> c = 2 * i + 2" using assms(1,3) by linarith
  then show ?thesis using assms(2) by (auto simp: min_child_def)
qed

lemma heap_down_unfold:
  assumes "keyed key h n" "2 * i + 1 < n"
  shows "heap_down (less_by key) h i n =
    (if kv key h (min_child key h i n) < kv key h i
     then heap_down (less_by key) (swap h i (min_child key h i n)) (min_child key h i n) n
     else Some (h, i))"
proof -
  let ?right = "2 * i + 2 < n \<and> kv key h (2 * i + 2) < kv key h (2 * i + 1)"
  have r: "(if 2 * i + 1 + 1 < n then less_by key (h ! (2 * i + 1 + 1)) (h ! (2 * i + 1)) else Some False) = Some ?right"
    using less_by_keyed [OF assms(1), of "2 * i + 2" "2 * i + 1"] assms(2) by (auto simp: numeral_2_eq_2)
  have c: "min_child key h i n = (if ?right then 2 * i + 1 + 1 else 2 * i + 1)"
    by (simp add: min_child_def)
  have "less_by key (h ! min_child key h i n) (h ! i) = Some (kv key h (min_child key h i n) < kv key h i)"
    using less_by_keyed [OF assms(1) min_child_range(1) [OF assms(2)], of i] assms(2) by simp
  then show ?thesis
    using assms(2) by (subst heap_down.simps) (simp only: Let_def r option.case c [symmetric], simp)
qed

text \<open>After the first swap everything but the edges below the new position is in order.\<close>

lemma down_swap_except:
  assumes "n \<le> length h" "2 * i + 1 < n" "heap_except (\<lambda>k. parent_ix k = i \<or> k = i) key h n" "grand_ok key h i n"
    "kv key h (min_child key h i n) < kv key h i"
  defines "j \<equiv> min_child key h i n"
  shows "heap_except (\<lambda>k. parent_ix k = j) key (swap h i j) n"
  unfolding heap_except_def
proof (intro allI impI)
  fix k assume k: "0 < k" "k < n" "parent_ix k \<noteq> j"
  have j: "j < n" "i < j" "parent_ix j = i" using min_child_range [OF assms(2)] by (simp_all add: j_def)
  have len: "i < length h" "j < length h" using j assms(1) by auto
  have child: "kv key h j \<le> kv key h c" if "0 < c" "c < n" "parent_ix c = i" for c
    using min_child_le [OF that] by (simp add: j_def)
  consider "k = i" | "k = j" | "k \<noteq> i" "k \<noteq> j" "parent_ix k = i" | "k \<noteq> i" "k \<noteq> j" "parent_ix k \<noteq> i" by blast
  then show "kv key (swap h i j) (parent_ix k) \<le> kv key (swap h i j) k"
  proof cases
    case 1
    then have "kv key h (parent_ix i) \<le> kv key h j"
      using assms(4) k j by (auto simp: grand_ok_def)
    moreover have "parent_ix i \<noteq> i" using 1 k(1) by auto
    ultimately show ?thesis using 1 k j len by (simp add: kv_swap)
  next
    case 2
    then show ?thesis using j assms(5) len by (simp add: kv_swap j_def)
  next
    case 3
    then show ?thesis using child [of k] k j len by (simp add: kv_swap)
  next
    case 4
    then show ?thesis using heap_exceptD [OF assms(3), of k] k len by (simp add: kv_swap)
  qed
qed

lemma down_swap_grand:
  assumes "n \<le> length h" "2 * i + 1 < n" "heap_except (\<lambda>k. parent_ix k = i \<or> k = i) key h n"
  defines "j \<equiv> min_child key h i n"
  shows "grand_ok key (swap h i j) j n"
  unfolding grand_ok_def
proof (intro impI allI)
  fix c assume c: "0 < c" "c < n" "parent_ix c = j"
  have j: "j < n" "i < j" "parent_ix j = i" using min_child_range [OF assms(2)] by (simp_all add: j_def)
  have len: "i < length h" "j < length h" using j assms(1) by auto
  have "c \<noteq> i" "c \<noteq> j" "parent_ix c \<noteq> i" using c j by auto
  then show "kv key (swap h i j) (parent_ix j) \<le> kv key (swap h i j) c"
    using heap_exceptD [OF assms(3), of c] c j len by (simp add: kv_swap)
qed

lemma heap_down_spec:
  assumes "keyed key h n" "n \<le> length h" "i < n"
    "heap_except (\<lambda>k. parent_ix k = i) key h n" "grand_ok key h i n"
  shows "\<exists>h' i'. heap_down (less_by key) h i n = Some (h', i') \<and> i \<le> i' \<and> is_heap key h' n \<and> mset h' = mset h
    \<and> (\<forall>k. n \<le> k \<longrightarrow> h' ! k = h ! k)"
  using assms
proof (induction "n - i" arbitrary: h i rule: less_induct)
  case less
  let ?j = "min_child key h i n"
  show ?case
  proof (cases "2 * i + 1 < n \<and> kv key h ?j < kv key h i")
    case False
    have "is_heap key h n"
      unfolding heap_except_def
    proof (intro allI impI)
      fix k assume k: "0 < k" "k < n"
      show "kv key h (parent_ix k) \<le> kv key h k"
      proof (cases "parent_ix k = i")
        case True
        then have "2 * i + 1 < n" using k by linarith
        with False True min_child_le [OF k True, of key h] show ?thesis by simp
      qed (use heap_exceptD [OF less.prems(4) k] in simp)
    qed
    moreover have "heap_down (less_by key) h i n = Some (h, i)"
      using False heap_down_unfold [OF less.prems(1), of i] by (cases "2 * i + 1 < n") (auto simp: heap_down.simps Let_def)
    ultimately show ?thesis by blast
  next
    case True
    then have n: "2 * i + 1 < n" by blast
    note j = min_child_range [OF n, of key h]
    have exc: "heap_except (\<lambda>k. parent_ix k = i \<or> k = i) key h n"
      using less.prems(4) by (simp add: heap_except_def)
    have len: "i < length h" "?j < length h" using j True less.prems(2) by auto
    have "keyed key (swap h i ?j) n" using less.prems(1-3) j True by (intro keyed_swap) auto
    then obtain h' i' where "heap_down (less_by key) (swap h i ?j) ?j n = Some (h', i')" "?j \<le> i'" "is_heap key h' n"
      "mset h' = mset (swap h i ?j)" "\<forall>k. n \<le> k \<longrightarrow> h' ! k = swap h i ?j ! k"
      using less.hyps [OF _ _ _ j(1), of "swap h i ?j"] j True less.prems(2,3)
        down_swap_except [OF less.prems(2) n exc less.prems(5)] down_swap_grand [OF less.prems(2) n exc]
      by (auto simp: diff_less_mono2)
    moreover have "swap h i ?j ! k = h ! k" if "n \<le> k" for k
      using that len j True less.prems(3) by (simp add: nth_swap)
    ultimately show ?thesis
      using True heap_down_unfold [OF less.prems(1) n] len j(2) by (intro exI [of _ h'] exI [of _ i']) auto
  qed
qed

subsection \<open>Fix and Remove\<close>

text \<open>What \<open>Fix\<close> and \<open>Remove\<close> find: a heap in which the element at \<open>i\<close> was replaced.\<close>

definition heap_hole :: "('a \<Rightarrow> int option) \<Rightarrow> 'a list \<Rightarrow> nat \<Rightarrow> nat \<Rightarrow> bool" where
  "heap_hole key h i n \<longleftrightarrow> heap_except (\<lambda>k. parent_ix k = i \<or> k = i) key h n \<and> grand_ok key h i n"

lemma heap_hole_update:
  assumes "is_heap key h n" "n \<le> length h" "i < n"
  shows "heap_hole key (h[i := x]) i n"
  unfolding heap_hole_def
proof
  have kv: "kv key (h[i := x]) k = kv key h k" if "k \<noteq> i" for k
    using that by (simp add: kv_def)
  show "heap_except (\<lambda>k. parent_ix k = i \<or> k = i) key (h[i := x]) n"
    using assms(1) by (simp add: heap_except_def kv)
  show "grand_ok key (h[i := x]) i n"
    unfolding grand_ok_def
  proof (intro impI allI)
    fix c assume c: "0 < i" "0 < c" "c < n" "parent_ix c = i"
    have "parent_ix i \<noteq> i" "c \<noteq> i" using c by auto
    then show "kv key (h[i := x]) (parent_ix i) \<le> kv key (h[i := x]) c"
      using heap_exceptD [OF assms(1), of c] heap_exceptD [OF assms(1), of i] c assms(3) by (simp add: kv)
  qed
qed

definition sifted :: "('a \<Rightarrow> int option) \<Rightarrow> 'a list \<Rightarrow> nat \<Rightarrow> 'a list \<Rightarrow> bool" where
  "sifted key h n h' \<longleftrightarrow> is_heap key h' n \<and> mset h' = mset h \<and> (\<forall>k. n \<le> k \<longrightarrow> h' ! k = h ! k)"

lemma heap_sift_spec:
  assumes "keyed key h n" "n \<le> length h" "i < n" "heap_hole key h i n"
  shows "\<exists>h'. heap_sift (less_by key) h i n = Some h' \<and> sifted key h n h'"
proof (cases "2 * i + 1 < n \<and> kv key h (min_child key h i n) < kv key h i")
  case True
  then have n: "2 * i + 1 < n" by blast
  let ?j = "min_child key h i n"
  note j = min_child_range [OF n, of key h]
  have hole: "heap_except (\<lambda>k. parent_ix k = i \<or> k = i) key h n" "grand_ok key h i n"
    using assms(4) by (simp_all add: heap_hole_def)
  have len: "i < length h" "?j < length h" using j(1) assms(2,3) by auto
  have "keyed key (swap h i ?j) n" using assms(1-3) j(1) by (intro keyed_swap) auto
  then obtain h' i' where h': "heap_down (less_by key) (swap h i ?j) ?j n = Some (h', i')" "?j \<le> i'"
      "is_heap key h' n" "mset h' = mset (swap h i ?j)" "\<forall>k. n \<le> k \<longrightarrow> h' ! k = swap h i ?j ! k"
    using heap_down_spec [OF _ _ j(1), of key "swap h i ?j"] assms(2) True
      down_swap_except [OF assms(2) n hole] down_swap_grand [OF assms(2) n hole(1)] by auto
  have "swap h i ?j ! k = h ! k" if "n \<le> k" for k
    using that len j(1) assms(3) by (simp add: nth_swap)
  with h' True j(2) len heap_down_unfold [OF assms(1) n] show ?thesis
    by (auto simp: heap_sift_def sifted_def)
next
  case False
  have "heap_except (\<lambda>k. k = i) key h n"
    unfolding heap_except_def
  proof (intro allI impI)
    fix k assume k: "0 < k" "k < n" "k \<noteq> i"
    show "kv key h (parent_ix k) \<le> kv key h k"
    proof (cases "parent_ix k = i")
      case True
      then have "2 * i + 1 < n" using k by linarith
      with False True min_child_le [OF k(1,2) True, of key h] show ?thesis by simp
    qed (use assms(4) k in \<open>simp add: heap_hole_def heap_except_def\<close>)
  qed
  moreover have "heap_down (less_by key) h i n = Some (h, i)"
    using False heap_down_unfold [OF assms(1), of i] by (cases "2 * i + 1 < n") (auto simp: heap_down.simps Let_def)
  ultimately show ?thesis
    using heap_up_spec [OF assms(1-3)] assms(4) by (simp add: heap_sift_def sifted_def heap_hole_def)
qed

lemma keyed_update: "keyed key h n \<Longrightarrow> key x \<noteq> None \<Longrightarrow> keyed key (h[i := x]) n"
  by (metis nth_list_update_eq nth_list_update_neq list_update_beyond not_less)

text \<open>\<open>Fix\<close> after the element at \<open>i\<close> was replaced.\<close>

lemma heap_Fix_spec:
  assumes "keyed key h (length h)" "is_heap key h (length h)" "i < length h" "key x \<noteq> None"
  shows "\<exists>h'. heap_Fix (less_by key) (h[i := x]) i = Some h' \<and> is_heap key h' (length h')
    \<and> mset h' = add_mset x (mset h - {#h ! i#})"
proof -
  obtain h' where "heap_Fix (less_by key) (h[i := x]) i = Some h'" "sifted key (h[i := x]) (length h) h'"
    using heap_sift_spec [OF keyed_update [OF assms(1,4), of i] _ assms(3) heap_hole_update [OF assms(2) _ assms(3)]]
    by (auto simp: heap_Fix_def)
  moreover from this have "length h' = length h" using mset_eq_length [of h' "h[i := x]"] by (simp add: sifted_def)
  ultimately show ?thesis
    using assms(3) by (simp add: sifted_def mset_update)
qed

lemma is_heap_mono: "is_heap key h n \<Longrightarrow> m \<le> n \<Longrightarrow> is_heap key h m"
  by (simp add: heap_except_def)

text \<open>
  \<open>Remove\<close> after the element at \<open>i\<close> was replaced by one that is on its way out and that need not be
  comparable: it ends up last, and what is before it is a heap of the others.
\<close>

lemma heap_Remove_spec:
  assumes "keyed key h (length h)" "is_heap key h (length h)" "i < length h"
  shows "\<exists>h'. heap_Remove (less_by key) (h[i := x]) i = Some (h' @ [x]) \<and> is_heap key h' (length h')
    \<and> mset h' = mset h - {#h ! i#}"
proof -
  define n where "n = length h - 1"
  have len: "length h = Suc n" using assms(3) by (simp add: n_def)
  have res: ?thesis if g: "heap_Remove (less_by key) (h[i := x]) i = Some g" "is_heap key g n"
      "mset g = mset (h[i := x])" "g ! n = x" for g
  proof -
    have lg: "length g = Suc n" using mset_eq_length [OF g(3)] len by simp
    then have split: "g = take n g @ [x]" using g(4) take_Suc_conv_app_nth [of n g] by simp
    have "is_heap key (take n g) n" using g(2) by (simp add: heap_except_def kv_def less_imp_diff_less)
    moreover have "add_mset x (mset (take n g)) = add_mset x (mset h - {#h ! i#})"
      using g(3) assms(3) arg_cong [OF split, of mset] by (simp add: mset_update)
    ultimately show ?thesis using g(1) split lg by (intro exI [of _ "take n g"]) simp
  qed
  show ?thesis
  proof (cases "i = n")
    case True
    have "is_heap key (h[i := x]) n"
      using is_heap_mono [OF assms(2), of n] len True by (auto simp: heap_except_def kv_def)
    with True len show ?thesis by (intro res [of "h[i := x]"]) (simp_all add: heap_Remove_def)
  next
    case False
    then have i: "i < n" using assms(3) len by simp
    define y where "y = h ! n"
    have sw: "swap (h[i := x]) i n = (h[i := y])[n := x]"
      using i len by (simp add: swap_def y_def)
    have "key y \<noteq> None" using assms(1) len by (simp add: y_def)
    then have "keyed key (h[i := y]) (length h)" by (rule keyed_update [OF assms(1)])
    then have k: "keyed key ((h[i := y])[n := x]) n" using len by (simp add: nth_list_update)
    have "heap_hole key (h[i := y]) i n"
      using heap_hole_update [OF is_heap_mono [OF assms(2)], of n i y] len i by simp
    then have hole: "heap_hole key ((h[i := y])[n := x]) i n"
      using i by (auto simp: heap_hole_def heap_except_def grand_ok_def kv_def)
    obtain g where "heap_sift (less_by key) ((h[i := y])[n := x]) i n = Some g" "sifted key ((h[i := y])[n := x]) n g"
      using heap_sift_spec [OF k _ i hole] len by auto
    then show ?thesis
      using False len i sw mset_swap [of i "h[i := x]" n]
      by (intro res [of g]) (simp_all add: heap_Remove_def sifted_def Let_def)
  qed
qed

text \<open>Appending an element that is not below its parent_ix keeps the heap.\<close>

lemma heap_append:
  assumes "is_heap key h (length h)" "key x = Some v" "\<And>k. k < length h \<Longrightarrow> kv key h k \<le> v"
  shows "is_heap key (h @ [x]) (length (h @ [x]))"
  unfolding heap_except_def
proof (intro allI impI)
  fix k assume k: "0 < k" "k < length (h @ [x])"
  then have p: "parent_ix k < length h" by (simp; linarith)
  show "kv key (h @ [x]) (parent_ix k) \<le> kv key (h @ [x]) k"
  proof (cases "k < length h")
    case True
    then show ?thesis using heap_exceptD [OF assms(1) k(1)] p by (simp add: kv_def nth_append)
  next
    case False
    then have "k = length h" using k by simp
    then show ?thesis using assms(2) assms(3) [OF p] p by (simp add: kv_def nth_append)
  qed
qed

text \<open>The first element of a heap is a least one.\<close>

lemma heap_min: "is_heap key h n \<Longrightarrow> k < n \<Longrightarrow> kv key h 0 \<le> kv key h k"
proof (induction k rule: less_induct)
  case (less k)
  show ?case
  proof (cases "k = 0")
    case False
    then have "parent_ix k < k" by linarith
    with less.IH [OF this less.prems(1)] heap_exceptD [OF less.prems(1), of k] less.prems(2) False
    show ?thesis by simp
  qed simp
qed

text \<open>Replacing an element by one with the same key changes nothing for the heap.\<close>

lemma heap_same_key:
  assumes "is_heap key h (length h)" "key x = key (h ! i)"
  shows "is_heap key (h[i := x]) (length (h[i := x]))"
proof -
  have "kv key (h[i := x]) k = kv key h k" if "k < length h" for k
    using that assms(2) by (cases "k = i") (simp_all add: kv_def)
  then show ?thesis using assms(1) by (simp add: heap_except_def less_imp_diff_less div_le_dividend le_less_trans)
qed

end
