(* ===== verification/PacketQueue.thy ===== *)
theory PacketQueue
  imports RouterState GoHeap
begin

text \<open>
  \<^verbatim>\<open>ironwood/network/packetqueue.go\<close>: the queue a peer and the packet conn keep, one FIFO per
  source inside one heap of sources per destination inside one heap of destinations, with
  the \<open>pqPacket\<close> methods of the four packet types (\<^verbatim>\<open>pathfinder.go\<close>, \<^verbatim>\<open>traffic.go\<close>).
  \<^item> The sizes are \<open>uint64\<close> counters; an index out of range is \<open>Panic\<close>; \<open>Less\<close> compares the times of
    the first packets, so it panics where there is no first packet.
  \<^item> The contract is over the streams of the queue, \<open>stream q dest source\<close>: \<open>push\<close> appends
    to one stream, \<open>pop\<close> takes the oldest packet of all streams, \<open>drop\<close> takes the first packet of the
    largest source of the largest destination. The invariant \<open>queue_ok\<close> is kept and nothing panics.
\<close>

subsection \<open>Packets\<close>

fun wireType :: "pqPacket \<Rightarrow> wirePacketType" where
  "wireType (PathLookup l) = wireProtoPathLookup"
| "wireType (PathNotify n) = wireProtoPathNotify"
| "wireType (PathBroken b) = wireProtoPathBroken"
| "wireType (Traffic tr) = wireTraffic"

fun sourceKey :: "pqPacket \<Rightarrow> publicKey" where
  "sourceKey (PathLookup l) = lookup_source l"
| "sourceKey (PathNotify n) = notify_source n"
| "sourceKey (PathBroken b) = broken_source b"
| "sourceKey (Traffic tr) = tr_source tr"

fun destKey :: "pqPacket \<Rightarrow> publicKey" where
  "destKey (PathLookup l) = lookup_dest l"
| "destKey (PathNotify n) = notify_dest n"
| "destKey (PathBroken b) = broken_dest b"
| "destKey (Traffic tr) = tr_dest tr"

fun packet_size :: "pqPacket \<Rightarrow> nat result" where
  "packet_size (PathLookup l) = pathLookup_size l"
| "packet_size (PathNotify n) = pathNotify_size n"
| "packet_size (PathBroken b) = pathBroken_size b"
| "packet_size (Traffic tr) = traffic_size tr"

fun packet_encode :: "bytes \<Rightarrow> pqPacket \<Rightarrow> bytes result" where
  "packet_encode out (PathLookup l) = pathLookup_encode out l"
| "packet_encode out (PathNotify n) = pathNotify_encode out n"
| "packet_encode out (PathBroken b) = pathBroken_encode out b"
| "packet_encode out (Traffic tr) = traffic_encode out tr"

subsection \<open>State\<close>

record pqPacketInfo =
  pq_packet :: pqPacket
  pq_size :: u64
  pq_time :: int

record pqSource =
  src_key :: publicKey
  src_infos :: "pqPacketInfo list"
  src_size :: u64

record pqDest =
  dst_key :: publicKey
  dst_sources :: "pqSource list"
  dst_size :: u64

record packetQueue =
  q_dests :: "pqDest list"
  q_size :: u64

definition empty_queue :: packetQueue where
  "empty_queue = \<lparr> q_dests = [], q_size = 0 \<rparr>"

text \<open>\<open>xs[i]\<close>.\<close>

definition index :: "'a list \<Rightarrow> nat \<Rightarrow> 'a result" where
  "index xs i = (if i < length xs then Inr (xs ! i) else Inl Panic)"

lemma index_ok [simp]: "i < length xs \<Longrightarrow> index xs i = Inr (xs ! i)"
  by (simp add: index_def)

subsection \<open>The heap interface\<close>

text \<open>The time \<open>Less\<close> reads of a source and of a destination.\<close>

definition source_time :: "pqSource \<Rightarrow> int option" where
  "source_time s = (case src_infos s of [] \<Rightarrow> None | i # _ \<Rightarrow> Some (pq_time i))"

definition dest_time :: "pqDest \<Rightarrow> int option" where
  "dest_time d = (case dst_sources d of [] \<Rightarrow> None | s # _ \<Rightarrow> source_time s)"

definition dest_Pop :: "pqDest \<Rightarrow> pqDest result" where
  "dest_Pop d = (if dst_sources d = [] then Inl Panic
     else Inr (d\<lparr> dst_sources := butlast (dst_sources d),
                  dst_size := dst_size d - src_size (last (dst_sources d)) \<rparr>))"

definition queue_Pop :: "packetQueue \<Rightarrow> packetQueue result" where
  "queue_Pop q = (if q_dests q = [] then Inl Panic
     else Inr (q\<lparr> q_dests := butlast (q_dests q), q_size := q_size q - dst_size (last (q_dests q)) \<rparr>))"

definition dest_Push :: "pqSource \<Rightarrow> pqDest \<Rightarrow> pqDest" where
  "dest_Push s d = d\<lparr> dst_sources := dst_sources d @ [s], dst_size := dst_size d + src_size s \<rparr>"

definition queue_Push :: "pqDest \<Rightarrow> packetQueue \<Rightarrow> packetQueue" where
  "queue_Push d q = q\<lparr> q_dests := q_dests q @ [d], q_size := q_size q + dst_size d \<rparr>"

text \<open>\<open>heap.Fix\<close> and \<open>heap.Remove\<close> on a destination and on the queue.\<close>

definition dest_Fix :: "pqDest \<Rightarrow> nat \<Rightarrow> pqDest result" where
  "dest_Fix d i = (case heap_Fix (less_by source_time) (dst_sources d) i of
     None \<Rightarrow> Inl Panic | Some ss \<Rightarrow> Inr (d\<lparr> dst_sources := ss \<rparr>))"

definition dest_Remove :: "pqDest \<Rightarrow> nat \<Rightarrow> pqDest result" where
  "dest_Remove d i = (case heap_Remove (less_by source_time) (dst_sources d) i of
     None \<Rightarrow> Inl Panic | Some ss \<Rightarrow> dest_Pop (d\<lparr> dst_sources := ss \<rparr>))"

definition queue_Fix :: "packetQueue \<Rightarrow> nat \<Rightarrow> packetQueue result" where
  "queue_Fix q i = (case heap_Fix (less_by dest_time) (q_dests q) i of
     None \<Rightarrow> Inl Panic | Some ds \<Rightarrow> Inr (q\<lparr> q_dests := ds \<rparr>))"

definition queue_Remove :: "packetQueue \<Rightarrow> nat \<Rightarrow> packetQueue result" where
  "queue_Remove q i = (case heap_Remove (less_by dest_time) (q_dests q) i of
     None \<Rightarrow> Inl Panic | Some ds \<Rightarrow> queue_Pop (q\<lparr> q_dests := ds \<rparr>))"

subsection \<open>drop, push, pop, peek\<close>

text \<open>The index the loops of \<open>drop\<close> end with: the first of the largest size.\<close>

definition largest :: "('a \<Rightarrow> u64) \<Rightarrow> 'a list \<Rightarrow> nat" where
  "largest sz xs = fold (\<lambda>idx best. if sz (xs ! best) < sz (xs ! idx) then idx else best) [0..<length xs] 0"

definition queue_drop :: "packetQueue \<Rightarrow> (packetQueue \<times> bool) result" where
  "queue_drop q =
     (if q_size q = 0 then Inr (q, False)
      else
        (let dIdx = largest dst_size (q_dests q) in
         and_then (index (q_dests q) dIdx) (\<lambda>dest0.
         let sIdx = largest src_size (dst_sources dest0) in
         and_then (index (dst_sources dest0) sIdx) (\<lambda>source0.
         and_then (index (src_infos source0) 0) (\<lambda>info.
         let source1 = source0\<lparr> src_size := src_size source0 - pq_size info \<rparr>;
             source = (if 0 < length (src_infos source1) then source1\<lparr> src_infos := drop 1 (src_infos source1) \<rparr>
                       else source1);
             dest1 = dest0\<lparr> dst_sources := (dst_sources dest0)[sIdx := source] \<rparr>
         in
         and_then (if 0 < src_size source then dest_Fix dest1 sIdx else dest_Remove dest1 sIdx) (\<lambda>dest2.
         let dest = dest2\<lparr> dst_size := dst_size dest2 - pq_size info \<rparr>;
             q1 = q\<lparr> q_dests := (q_dests q)[dIdx := dest] \<rparr>
         in
         and_then (if 0 < dst_size dest then queue_Fix q1 dIdx else queue_Remove q1 dIdx) (\<lambda>q2.
           Inr (q2\<lparr> q_size := q_size q2 - pq_size info \<rparr>, True))))))))"

text \<open>The first index whose element satisfies \<open>P\<close>, or none: the search loops of \<open>push\<close>.\<close>

fun find_index :: "('a \<Rightarrow> bool) \<Rightarrow> 'a list \<Rightarrow> nat option" where
  "find_index P [] = None"
| "find_index P (x # xs) = (if P x then Some 0 else map_option Suc (find_index P xs))"

definition queue_push :: "int \<Rightarrow> packetQueue \<Rightarrow> pqPacket \<Rightarrow> packetQueue result" where
  "queue_push now q packet =
     (let sKey = sourceKey packet; dKey = destKey packet in
      and_then (packet_size packet) (\<lambda>size.
      let info = \<lparr> pq_packet = packet, pq_size = of_nat size, pq_time = now \<rparr>;
          dIdx = find_index (\<lambda>d. dst_key d = dKey) (q_dests q);
          dest0 = (case dIdx of None \<Rightarrow> \<lparr> dst_key = dKey, dst_sources = [], dst_size = 0 \<rparr>
                   | Some i \<Rightarrow> q_dests q ! i);
          sIdx = find_index (\<lambda>s. src_key s = sKey) (dst_sources dest0);
          source0 = (case sIdx of None \<Rightarrow> \<lparr> src_key = sKey, src_infos = [], src_size = 0 \<rparr>
                     | Some i \<Rightarrow> dst_sources dest0 ! i);
          source = source0\<lparr> src_infos := src_infos source0 @ [info], src_size := src_size source0 + pq_size info \<rparr>;
          sources = (case sIdx of None \<Rightarrow> dst_sources dest0 @ [source]
                     | Some i \<Rightarrow> (dst_sources dest0)[i := source]);
          dest = dest0\<lparr> dst_sources := sources, dst_size := dst_size dest0 + pq_size info \<rparr>;
          dests = (case dIdx of None \<Rightarrow> q_dests q @ [dest] | Some i \<Rightarrow> (q_dests q)[i := dest])
      in Inr (q\<lparr> q_dests := dests, q_size := q_size q + pq_size info \<rparr>)))"

definition queue_pop :: "packetQueue \<Rightarrow> (packetQueue \<times> pqPacketInfo option) result" where
  "queue_pop q =
     (if 0 < q_size q then
        and_then (index (q_dests q) 0) (\<lambda>dest0.
        and_then (index (dst_sources dest0) 0) (\<lambda>source0.
        and_then (index (src_infos source0) 0) (\<lambda>info.
        let source1 = source0\<lparr> src_size := src_size source0 - pq_size info \<rparr>;
            dest1 = dest0\<lparr> dst_size := dst_size dest0 - pq_size info \<rparr>;
            q1 = q\<lparr> q_size := q_size q - pq_size info \<rparr>
        in
        and_then
          (if 1 < length (src_infos source1)
           then dest_Fix (dest1\<lparr> dst_sources :=
               (dst_sources dest1)[0 := source1\<lparr> src_infos := drop 1 (src_infos source1) \<rparr>] \<rparr>) 0
           else dest_Remove (dest1\<lparr> dst_sources := (dst_sources dest1)[0 := source1] \<rparr>) 0) (\<lambda>dest.
        and_then
          (if 0 < length (dst_sources dest) then queue_Fix (q1\<lparr> q_dests := (q_dests q1)[0 := dest] \<rparr>) 0
           else queue_Remove (q1\<lparr> q_dests := (q_dests q1)[0 := dest] \<rparr>) 0) (\<lambda>q2.
          Inr (q2, Some info))))))
      else Inr (q, None))"

definition queue_peek :: "packetQueue \<Rightarrow> pqPacketInfo option result" where
  "queue_peek q =
     (if 0 < length (q_dests q) then
        and_then (index (q_dests q) 0) (\<lambda>d.
        and_then (index (dst_sources d) 0) (\<lambda>s.
        and_then (index (src_infos s) 0) (\<lambda>i. Inr (Some i))))
      else Inr None)"

text \<open>
  How \<open>peer._push\<close> and \<open>PacketConn.handleTraffic\<close> enqueue: if the oldest packet has waited for
  more than 25 ms, one packet is dropped first.
\<close>

definition enqueue :: "int \<Rightarrow> packetQueue \<Rightarrow> pqPacket \<Rightarrow> packetQueue result" where
  "enqueue now q packet =
     and_then (queue_peek q) (\<lambda>head.
     and_then (case head of
         None \<Rightarrow> Inr q
       | Some info \<Rightarrow> if 25000000 < time_sub now (pq_time info) then and_then (queue_drop q) (\<lambda>(q', _). Inr q') else Inr q)
       (\<lambda>q'. queue_push now q' packet))"

end
