(* ===== verification/Framing.thy ===== *)
theory Framing
  imports RouterSystem PacketQueue
begin

text \<open>
  The wire side of \<^verbatim>\<open>ironwood/network/peers.go\<close>: how \<open>peerWriter.sendPacket\<close> frames a message,
  and how \<open>peer.handler\<close> reads frames and \<open>peer._handlePacket\<close> turns one into a message to the
  router. \<open>binary.ReadUvarint\<close> and \<open>io.ReadFull\<close> read from a finite stream of bytes, after which the
  connection reports its end.
\<close>

subsection \<open>Sending\<close>

text \<open>What \<open>sendPacket\<close> is called with, and the methods it calls on it.\<close>

datatype outgoing =
    OutSigReq routerSigReq | OutSigRes routerSigRes | OutAnnounce routerAnnounce | OutBloom bloom
  | OutPacket pqPacket

fun out_type :: "outgoing \<Rightarrow> wirePacketType" where
  "out_type (OutSigReq r) = wireProtoSigReq"
| "out_type (OutSigRes r) = wireProtoSigRes"
| "out_type (OutAnnounce a) = wireProtoAnnounce"
| "out_type (OutBloom b) = wireProtoBloomFilter"
| "out_type (OutPacket p) = wireType p"

fun out_size :: "outgoing \<Rightarrow> nat result" where
  "out_size (OutSigReq r) = routerSigReq_size r"
| "out_size (OutSigRes r) = routerSigRes_size r"
| "out_size (OutAnnounce a) = routerAnnounce_size a"
| "out_size (OutBloom b) = bloom_size b"
| "out_size (OutPacket p) = packet_size p"

fun out_encode :: "bytes \<Rightarrow> outgoing \<Rightarrow> bytes result" where
  "out_encode out (OutSigReq r) = routerSigReq_encode out r"
| "out_encode out (OutSigRes r) = routerSigRes_encode out r"
| "out_encode out (OutAnnounce a) = routerAnnounce_encode out a"
| "out_encode out (OutBloom b) = bloom_encode out b"
| "out_encode out (OutPacket p) = packet_encode out p"

text \<open>
  The bytes \<open>sendPacket\<close> hands to \<open>_write\<close>, or \<open>None\<close> when the message is larger than a peer
  accepts. An error of \<open>wireEncode\<close> is raised as a panic.
\<close>

definition sendPacket_bytes :: "config \<Rightarrow> outgoing \<Rightarrow> bytes option result" where
  "sendPacket_bytes cfg data =
     and_then (out_size data) (\<lambda>n.
     let bufSize = (of_nat (n + 1) :: u64) in
     if peerMaxMessageSize cfg < bufSize then Inr None
     else (case wireEncode (appendUvarint [] bufSize) (out_type data) (\<lambda>out. out_encode out data) of
         Inl _ \<Rightarrow> Inl Panic
       | Inr bs \<Rightarrow> Inr (Some bs)))"

subsection \<open>Receiving\<close>

datatype conn_error = EOF | UnexpectedEOF | VarintOverflow | Fault fault

fun readUvarint_loop :: "bytes \<Rightarrow> nat \<Rightarrow> u64 \<Rightarrow> nat \<Rightarrow> conn_error + u64 \<times> bytes" where
  "readUvarint_loop bs i x s =
     (if MaxVarintLen64 \<le> i then Inl VarintOverflow
      else case bs of
        [] \<Rightarrow> Inl (if 0 < i then UnexpectedEOF else EOF)
      | b # rest \<Rightarrow>
          if b < 0x80 then
            (if i = MaxVarintLen64 - 1 \<and> 1 < b then Inl VarintOverflow
             else Inr (x OR push_bit s (ucast b), rest))
          else readUvarint_loop rest (i + 1) (x OR push_bit s (ucast (b AND 0x7f))) (s + 7))"

definition readUvarint :: "bytes \<Rightarrow> conn_error + u64 \<times> bytes" where
  "readUvarint bs = readUvarint_loop bs 0 0 0"

text \<open>One round of the loop of \<open>handler\<close> up to the call of \<open>_handlePacket\<close>.\<close>

definition readFrame :: "config \<Rightarrow> bytes \<Rightarrow> conn_error + bytes \<times> bytes" where
  "readFrame cfg stream =
     (case readUvarint stream of
        Inl e \<Rightarrow> Inl e
      | Inr (usize, rest) \<Rightarrow>
          if peerMaxMessageSize cfg < usize then Inl (Fault (Error ErrOversizedMessage))
          else if 2 ^ 63 \<le> unat usize then Inl (Fault Panic)
          else if length rest < unat usize then Inl (if rest = [] then EOF else UnexpectedEOF)
          else Inr (take (unat usize) rest, drop (unat usize) rest))"

definition wire_types :: "wirePacketType list" where
  "wire_types = [wireDummy, wireKeepAlive, wireProtoSigReq, wireProtoSigRes, wireProtoAnnounce,
     wireProtoBloomFilter, wireProtoPathLookup, wireProtoPathNotify, wireProtoPathBroken, wireTraffic]"

text \<open>
  \<open>_handlePacket\<close>, with the handlers it calls: the message to the router, if any. The reading of a
  signature response measures the time since the last signature request was sent.
\<close>

fun handle_type :: "env \<Rightarrow> peer \<Rightarrow> int \<Rightarrow> int \<Rightarrow> wirePacketType \<Rightarrow> bytes \<Rightarrow> router_event option result" where
  "handle_type E p srst now wireDummy bs = Inr None"
| "handle_type E p srst now wireKeepAlive bs = Inr None"
| "handle_type E p srst now wireProtoSigReq bs =
     and_then (routerSigReq_decode bs) (\<lambda>req. Inr (Some (GotSigReq p req)))"
| "handle_type E p srst now wireProtoSigRes bs =
     and_then (routerSigRes_decode bs) (\<lambda>res.
     and_then (routerSigRes_check (env_ed E) res (self_key E) (p_key p)) (\<lambda>good.
       if \<not> good then Inl (Error ErrBadMessage) else Inr (Some (GotSigRes p res (time_sub now srst)))))"
| "handle_type E p srst now wireProtoAnnounce bs =
     and_then (routerAnnounce_decode bs) (\<lambda>ann.
     and_then (routerAnnounce_check (env_ed E) ann) (\<lambda>good.
       if \<not> good then Inl (Error ErrBadMessage) else Inr (Some (GotAnnounce p ann))))"
| "handle_type E p srst now wireProtoBloomFilter bs =
     and_then (bloom_decode bs) (\<lambda>b. Inr (Some (GotBloom p b)))"
| "handle_type E p srst now wireProtoPathLookup bs =
     and_then (pathLookup_decode bs) (\<lambda>l. Inr (Some (GotLookup p l)))"
| "handle_type E p srst now wireProtoPathNotify bs =
     and_then (pathNotify_decode bs) (\<lambda>n. Inr (Some (GotNotify p n)))"
| "handle_type E p srst now wireProtoPathBroken bs =
     and_then (pathBroken_decode bs) (\<lambda>b. Inr (Some (GotBroken p b)))"
| "handle_type E p srst now wireTraffic bs =
     and_then (traffic_decode bs) (\<lambda>tr. Inr (Some (GotTraffic tr)))"

definition handlePacket_event :: "env \<Rightarrow> peer \<Rightarrow> int \<Rightarrow> int \<Rightarrow> bytes \<Rightarrow> router_event option result" where
  "handlePacket_event E p srst now packet =
     (case packet of
        [] \<Rightarrow> Inl (Error ErrEmptyMessage)
      | b # bs \<Rightarrow>
          (case find (\<lambda>t. wire_code t = b) wire_types of
             None \<Rightarrow> Inl (Error ErrUnrecognizedMessage)
           | Some t \<Rightarrow> handle_type E p srst now t bs))"

text \<open>
  The loop of \<open>handler\<close> over the bytes of a connection: the messages to the router, and the error
  it returns with. \<open>clock k\<close> is the time at which the \<open>k\<close>-th packet is handled, \<open>srst k\<close> what the field
  \<open>srst\<close> holds then.
\<close>

declare readUvarint_loop.simps [simp del]

lemma readUvarint_loop_shorter:
  "readUvarint_loop bs i x s = Inr (u, rest) \<Longrightarrow> length rest < length bs"
proof (induction bs i x s rule: readUvarint_loop.induct)
  case (1 bs i x s)
  then show ?case
    by (auto simp: readUvarint_loop.simps [of bs] split: if_splits list.splits)
qed

lemma readFrame_shorter: "readFrame cfg stream = Inr (bs, rest) \<Longrightarrow> length rest < length stream"
  by (auto simp: readFrame_def readUvarint_def split: sum.splits if_splits dest!: readUvarint_loop_shorter)

function handler_loop :: "env \<Rightarrow> peer \<Rightarrow> (nat \<Rightarrow> int) \<Rightarrow> (nat \<Rightarrow> int) \<Rightarrow> nat \<Rightarrow> bytes \<Rightarrow> router_event list \<times> conn_error" where
  "handler_loop E p srst clock k stream =
     (case readFrame (env_config E) stream of
        Inl e \<Rightarrow> ([], e)
      | Inr (bs, rest) \<Rightarrow>
          (case handlePacket_event E p (srst k) (clock k) bs of
             Inl f \<Rightarrow> ([], Fault f)
           | Inr ev \<Rightarrow>
               (let (evs, e) = handler_loop E p srst clock (Suc k) rest in
                ((case ev of None \<Rightarrow> evs | Some x \<Rightarrow> x # evs), e))))"
  by pat_completeness auto
termination
  by (relation "measure (\<lambda>(_, _, _, _, _, stream). length stream)") (auto dest: readFrame_shorter)

declare handler_loop.simps [simp del]

subsection \<open>Frames\<close>

fun packet_payload :: "pqPacket \<Rightarrow> bytes" where
  "packet_payload (PathLookup l) = lookup_bytes l"
| "packet_payload (PathNotify n) = notify_bytes n"
| "packet_payload (PathBroken b) = broken_bytes b"
| "packet_payload (Traffic tr) = traffic_bytes tr"

fun out_payload :: "outgoing \<Rightarrow> bytes" where
  "out_payload (OutSigReq r) = sigReq_bytes r"
| "out_payload (OutSigRes r) = sigRes_bytes r"
| "out_payload (OutAnnounce a) = announce_bytes a"
| "out_payload (OutBloom b) = bloom_bytes b"
| "out_payload (OutPacket p) = packet_payload p"

lemma packet_codec_eq:
  "packet_size p = Inr (length (packet_payload p))" "packet_encode out p = Inr (out @ packet_payload p)"
  by (cases p; simp add: wire_simps)+

lemma out_codec_eq:
  "out_size d = Inr (length (out_payload d))" "out_encode out d = Inr (out @ out_payload d)"
  by (cases d; simp add: wire_simps packet_codec_eq bloom_size_eq bloom_encode_eq)+

definition fits :: "config \<Rightarrow> outgoing \<Rightarrow> bool" where
  "fits cfg d \<longleftrightarrow> length (out_payload d) + 1 \<le> unat (peerMaxMessageSize cfg)"

definition frame :: "outgoing \<Rightarrow> bytes" where
  "frame d = uvarint_bytes (of_nat (length (out_payload d) + 1)) @ wire_code (out_type d) # out_payload d"

lemma sendPacket_bytes_fits:
  assumes "fits cfg d"
  shows "sendPacket_bytes cfg d = Inr (Some (frame d))"
proof -
  have "unat (of_nat (length (out_payload d) + 1) :: u64) = length (out_payload d) + 1"
    using assms order.strict_trans1 [OF _ unat64_less [of "peerMaxMessageSize cfg"]] by (intro unat64_of_nat) (simp only: fits_def)
  then have "\<not> peerMaxMessageSize cfg < (of_nat (length (out_payload d) + 1) :: u64)"
    using assms by (simp only: word_less_nat_alt fits_def)
  then show ?thesis
    by (simp add: sendPacket_bytes_def out_codec_eq wireEncode_def frame_def Let_def
        uvarint_bytes_def del: of_nat_add of_nat_Suc)
qed

lemma sendPacket_bytes_cases: "sendPacket_bytes cfg d = Inr None \<or> sendPacket_bytes cfg d = Inr (Some (frame d))"
  by (simp add: sendPacket_bytes_def out_codec_eq wireEncode_def frame_def Let_def uvarint_bytes_def del: of_nat_add of_nat_Suc)

lemma sendPacket_bytes_large:
  assumes "\<not> fits cfg d" "length (out_payload d) + 1 < 2 ^ 64"
  shows "sendPacket_bytes cfg d = Inr None"
proof -
  have "peerMaxMessageSize cfg < (of_nat (length (out_payload d) + 1) :: u64)"
    using assms unat64_of_nat [OF assms(2)] by (simp only: word_less_nat_alt fits_def)
  then show ?thesis by (simp add: sendPacket_bytes_def out_codec_eq Let_def)
qed

lemma nat_succ_minus [simp]: "nat (1 + int i) - i = Suc 0"
  by simp

lemma readUvarint_loop_uvarint:
  "uvarint_loop bs i x s = (v, l) \<Longrightarrow> 0 < l \<Longrightarrow> i \<le> MaxVarintLen64 \<Longrightarrow>
   readUvarint_loop bs i x s = Inr (v, drop (nat l - i) bs)"
proof (induction bs i x s rule: uvarint_loop.induct)
  case (2 b bs i x s)
  show ?case
  proof (cases "i = MaxVarintLen64 \<or> b < 0x80")
    case False
    then have u: "uvarint_loop bs (i + 1) (x OR push_bit s (ucast (b AND 0x7f))) (s + 7) = (v, l)"
      using 2 by simp
    have "int (i + 1) < l" using uvarint_loop_len [OF u] 2(3) by simp
    then have "nat l - i = Suc (nat l - (i + 1))" by linarith
    then have d: "drop (nat l - i) (b # bs) = drop (nat l - (i + 1)) bs" by simp
    show ?thesis using False 2 u d by (simp add: readUvarint_loop.simps)
  qed (use 2 in \<open>auto simp: readUvarint_loop.simps MaxVarintLen64_def split: if_splits\<close>)
qed simp

lemma readUvarint_bytes: "readUvarint (uvarint_bytes u @ rest) = Inr (u, rest)"
  using readUvarint_loop_uvarint [of "uvarint_bytes u @ rest" 0 0 0 u "int (length (uvarint_bytes u))"]
    uvarint_uvarint_bytes [of u rest] by (simp add: readUvarint_def uvarint_def)

text \<open>A configuration whose limit an \<open>int\<close> can hold, as every real one.\<close>

abbreviation limit_ok :: "config \<Rightarrow> bool" where
  "limit_ok cfg \<equiv> unat (peerMaxMessageSize cfg) < 2 ^ 63"

lemma readFrame_frame:
  assumes "fits cfg d" "limit_ok cfg"
  shows "readFrame cfg (frame d @ rest) = Inr (wire_code (out_type d) # out_payload d, rest)"
proof -
  define n where "n = length (out_payload d) + 1"
  have n: "n \<le> unat (peerMaxMessageSize cfg)" using assms(1) by (simp add: fits_def n_def)
  then have u: "unat (of_nat n :: u64) = n" using assms(2) by (intro unat64_of_nat) simp
  then have "\<not> peerMaxMessageSize cfg < (of_nat n :: u64)" using n by (simp add: word_less_nat_alt)
  moreover have "frame d = uvarint_bytes (of_nat n) @ wire_code (out_type d) # out_payload d"
    by (simp only: frame_def n_def)
  ultimately show ?thesis
    using n assms(2) u by (simp add: readFrame_def readUvarint_bytes, simp add: n_def)
qed

subsection \<open>Decoders fail only with their error\<close>

definition only_errors :: "'a result \<Rightarrow> bool" where
  "only_errors r \<longleftrightarrow> (\<forall>f. r = Inl f \<longrightarrow> (\<exists>e. f = Error e))"

named_theorems no_panic \<open>calls that may fail but do not panic\<close>

lemma only_errors_rules [no_panic]:
  "only_errors (Inr x)" "only_errors (Inl (Error e))" "only_errors (ok_or e o')"
  by (cases o'; simp add: only_errors_def ok_or_def)+

lemma only_errors_and_then [no_panic]:
  "only_errors r \<Longrightarrow> (\<And>x. only_errors (f x)) \<Longrightarrow> only_errors (and_then r f)"
  by (cases r) (auto simp: only_errors_def)

lemma only_errors_if [no_panic]: "only_errors a \<Longrightarrow> only_errors b \<Longrightarrow> only_errors (if c then a else b)"
  by simp

lemma only_errors_pair [no_panic]: "(\<And>x y. only_errors (f x y)) \<Longrightarrow> only_errors (case z of (x, y) \<Rightarrow> f x y)"
  by (cases z) simp

lemma decode_no_panic [no_panic]:
  "only_errors (routerSigReq_decode bs)" "only_errors (routerSigRes_decode bs)"
  "only_errors (routerAnnounce_decode bs)" "only_errors (bloom_decode bs)"
  "only_errors (pathLookup_decode bs)" "only_errors (pathNotify_decode bs)"
  "only_errors (pathBroken_decode bs)" "only_errors (traffic_decode bs)"
  unfolding routerSigReq_decode_def routerSigRes_decode_def routerAnnounce_decode_def bloom_decode_def
    pathLookup_decode_def pathNotify_decode_def pathBroken_decode_def traffic_decode_def
    routerSigReq_chop_def routerSigRes_chop_def pathNotifyInfo_decode_def
  by (intro no_panic)+

lemma check_no_panic [no_panic]:
  "only_errors (routerSigRes_check ed res node parent)" "only_errors (routerAnnounce_check ed ann)"
  by (simp_all add: routerSigRes_check_def routerAnnounce_check_def wire_simps no_panic)

lemma handlePacket_no_panic: "only_errors (handlePacket_event E p srst now packet)"
proof -
  have "only_errors (handle_type E p srst now t bs)" for t bs
    by (cases t) (auto intro!: no_panic)
  then show ?thesis
    by (auto simp: handlePacket_event_def no_panic split: list.split option.split)
qed

subsection \<open>From one node to the next\<close>

text \<open>
  A message whose paths have no zero port inside, as its type is meant; and a message whose signatures the
  receiver, with the keys of \<open>E\<close> and the peer \<open>p\<close>, accepts.
\<close>

fun out_wf :: "outgoing \<Rightarrow> bool" where
  "out_wf (OutPacket (PathLookup l)) \<longleftrightarrow> lookup_wf l"
| "out_wf (OutPacket (PathNotify n)) \<longleftrightarrow> notify_wf n"
| "out_wf (OutPacket (PathBroken b)) \<longleftrightarrow> broken_wf b"
| "out_wf (OutPacket (Traffic tr)) \<longleftrightarrow> traffic_wf tr"
| "out_wf d \<longleftrightarrow> True"

fun signed :: "env \<Rightarrow> peer \<Rightarrow> outgoing \<Rightarrow> bool" where
  "signed E p (OutSigRes r) \<longleftrightarrow> routerSigRes_check (env_ed E) r (self_key E) (p_key p) = Inr True"
| "signed E p (OutAnnounce a) \<longleftrightarrow> routerAnnounce_check (env_ed E) a = Inr True"
| "signed E p d \<longleftrightarrow> True"

fun event_of :: "peer \<Rightarrow> int \<Rightarrow> outgoing \<Rightarrow> router_event" where
  "event_of p rtt (OutSigReq r) = GotSigReq p r"
| "event_of p rtt (OutSigRes r) = GotSigRes p r rtt"
| "event_of p rtt (OutAnnounce a) = GotAnnounce p a"
| "event_of p rtt (OutBloom b) = GotBloom p b"
| "event_of p rtt (OutPacket (PathLookup l)) = GotLookup p l"
| "event_of p rtt (OutPacket (PathNotify n)) = GotNotify p n"
| "event_of p rtt (OutPacket (PathBroken b)) = GotBroken p b"
| "event_of p rtt (OutPacket (Traffic tr)) = GotTraffic tr"

lemma find_wire_code: "find (\<lambda>t'. wire_code t' = wire_code t) wire_types = Some t"
  by (cases t) (simp_all add: wire_types_def)

lemma handlePacket_type: "handlePacket_event E p srst now (wire_code t # bs) = handle_type E p srst now t bs"
  by (simp add: handlePacket_event_def find_wire_code)

lemma check_total: "\<exists>b. routerSigRes_check ed r node parent = Inr b" "\<exists>b. routerAnnounce_check ed a = Inr b"
  by (simp_all only: routerSigRes_check_def routerAnnounce_check_def wire_simps and_then_simps split: if_split) auto

lemma handlePacket_payload:
  assumes "out_wf d"
  shows "handlePacket_event E p srst now (wire_code (out_type d) # out_payload d)
     = (if signed E p d then Inr (Some (event_of p (time_sub now srst) d)) else Inl (Error ErrBadMessage))"
proof (cases d)
  case (OutSigRes r)
  then show ?thesis using check_total(1) [of "env_ed E" r "self_key E" "p_key p"]
    by (auto simp: handlePacket_type sigRes.decode_payload simp del: wire_code.simps)
next
  case (OutAnnounce a)
  then show ?thesis using check_total(2) [of "env_ed E" a]
    by (auto simp: handlePacket_type announce.decode_payload simp del: wire_code.simps)
next
  case (OutPacket q)
  then show ?thesis using assms
    by (cases q) (simp_all add: handlePacket_type pathLookup.decode_payload pathNotify.decode_payload
      pathBroken.decode_payload traffic_codec.decode_payload del: wire_code.simps)
qed (simp_all add: handlePacket_type sigReq.decode_payload bloom_codec.decode_payload del: wire_code.simps)

lemma handler_loop_frames:
  assumes "limit_ok (env_config E)" "\<forall>d \<in> set ds. fits (env_config E) d \<and> out_wf d"
  shows "handler_loop E p srst clock k (concat (map frame ds))
    = (map (\<lambda>(d, i). event_of p (time_sub (clock i) (srst i)) d) (zip (takeWhile (signed E p) ds) [k..<k + length ds]),
       if \<forall>d \<in> set ds. signed E p d then EOF else Fault (Error ErrBadMessage))"
  using assms(2)
proof (induction ds arbitrary: k)
  case Nil
  then show ?case
    by (subst handler_loop.simps)
      (simp add: readFrame_def readUvarint_def readUvarint_loop.simps MaxVarintLen64_def)
next
  case (Cons d ds)
  then have d: "fits (env_config E) d" "out_wf d" by simp_all
  have up: "[k..<Suc (k + length ds)] = k # [Suc k..<Suc (k + length ds)]"
    by (rule upt_conv_Cons) simp
  show ?case
    using Cons.IH [of "Suc k"] Cons.prems
    by (subst handler_loop.simps)
      (simp add: readFrame_frame [OF d(1) assms(1)] handlePacket_payload [OF d(2)] up del: upt_Suc)
qed

lemma handled_event_ok:
  assumes "handlePacket_event E p srst now packet = Inr (Some ev)" "m_has (r_peers r) (p_key p)"
  shows "event_ok E r ev"
proof -
  obtain t bs where "handle_type E p srst now t bs = Inr (Some ev)"
    using assms(1) by (auto simp: handlePacket_event_def split: list.splits option.splits)
  then show ?thesis
    using assms(2) by (cases t) (auto simp: and_then_eq_Inr split: if_splits)
qed

subsection \<open>Properties\<close>

text \<open>
  C27. What one peer writes the next one handles: for any sequence of messages that are within the size limit and
  have no zero port inside a path, the frames \<open>sendPacket\<close> produces, one after the other on the connection, make the
  reading loop of the peer send exactly these messages, in this order and each once, to its router, up to the
  first response or announcement that the receiver rejects: there, and only there, the loop ends with
  \<open>ErrBadMessage\<close>; otherwise it ends with the end of the connection.
\<close>

theorem framing_roundtrip:
  assumes "limit_ok (env_config E)" "\<forall>d \<in> set ds. fits (env_config E) d \<and> out_wf d"
  shows "\<exists>frames. map (sendPacket_bytes (env_config E)) ds = map (\<lambda>bs. Inr (Some bs)) frames
    \<and> handler_loop E p srst clock 0 (concat frames)
      = (map (\<lambda>(d, i). event_of p (time_sub (clock i) (srst i)) d) (zip (takeWhile (signed E p) ds) [0..<length ds]),
         if \<forall>d \<in> set ds. signed E p d then EOF else Fault (Error ErrBadMessage))"
  using assms handler_loop_frames [OF assms, of p srst clock 0]
  by (intro exI [of _ "map frame ds"]) (simp add: sendPacket_bytes_fits)

text \<open>A response signed by the peer, and an announcement with port 0, which is rejected.\<close>

definition sample_response :: routerSigRes where
  "sample_response = (let res = \<lparr> res_req = zero_req, res_port = 5, res_psig = 0 \<rparr>
     in res\<lparr> res_psig := be_word (copy_array 64 (key_bytes 7 @ rev (sigRes_message res (self_key (sample_env 1)) 7))) \<rparr>)"

definition sample_announcement :: routerAnnounce where
  "sample_announcement = \<lparr> ann_key = 3, ann_parent = 4, ann_res = \<lparr> res_req = zero_req, res_port = 0, res_psig = 0 \<rparr>, ann_sig = 0 \<rparr>"

definition sample_out :: "outgoing list" where
  "sample_out = [OutSigReq \<lparr> req_seq = 1, req_nonce = 2 \<rparr>, OutSigRes sample_response, OutBloom newBloom, OutAnnounce sample_announcement,
     OutSigReq zero_req]"

lemma sample_signed: "signed (sample_env 1) sample_peer (OutSigRes sample_response)" "\<not> signed E p (OutAnnounce sample_announcement)"
proof -
  let ?m = "\<lambda>res. sigRes_message res (self_key (sample_env 1)) 7"
  have "?m sample_response = ?m \<lparr> res_req = zero_req, res_port = 5, res_psig = 0 \<rparr>" by (simp add: sample_response_def sigRes_message_def)
  moreover have "env_ed (sample_env 1) = sample_ed" by (simp add: sample_env_def core_env_def)
  ultimately show "signed (sample_env 1) sample_peer (OutSigRes sample_response)"
    by (simp add: routerSigRes_check_def wire_simps publicKey_verify_def sample_ed_def sample_peer_def)
      (simp add: sample_response_def sig_bytes_be_word)
  show "\<not> signed E p (OutAnnounce sample_announcement)" by (simp add: routerAnnounce_check_def sample_announcement_def)
qed

lemma sample_max: "peerMaxMessageSize (env_config (sample_env n)) = 1048576"
  by (simp add: sample_env_def core_env_def configDefaults_def)

lemma sample_fits: "fits (env_config (sample_env n)) (OutSigReq r)" "fits (env_config (sample_env n)) (OutBloom b)"
  "fits (env_config (sample_env n)) (OutSigRes res)" "fits (env_config (sample_env n)) (OutAnnounce a)"
proof -
  have bloom: "length (bloom_bytes b) \<le> 1056"
    using bloom_size_eq [of b] length_filter_le [of mixed "bloom_words b"] by (simp add: bloom_size_def)
  have u: "length (uvarint_bytes x) \<le> 10" for x using length_uvarint_bytes_max [of x] by (simp add: MaxVarintLen64_def)
  have req: "length (sigReq_bytes r) \<le> 20" for r using add_mono [OF u [of "req_seq r"] u [of "req_nonce r"]] by (simp add: sigReq_bytes_def)
  have res: "length (sigRes_bytes res) \<le> 94" for res using add_mono [OF req [of "res_req res"] u [of "res_port res"]] by (simp add: sigRes_bytes_def)
  show "fits (env_config (sample_env n)) (OutSigReq r)" "fits (env_config (sample_env n)) (OutBloom b)"
    "fits (env_config (sample_env n)) (OutSigRes res)" "fits (env_config (sample_env n)) (OutAnnounce a)"
    using bloom req [of r] res [of res] res [of "ann_res a"] by (simp_all add: fits_def sample_max announce_bytes_def)
qed

theorem framing_roundtrip_witness:
  "limit_ok (env_config (sample_env 1)) \<and> (\<exists>frames. handler_loop (sample_env 1) sample_peer (\<lambda>_. 0) (\<lambda>_. 7) 0 (concat frames)
     = ([GotSigReq sample_peer \<lparr> req_seq = 1, req_nonce = 2 \<rparr>, GotSigRes sample_peer sample_response (time_sub 7 0), GotBloom sample_peer newBloom],
        Fault (Error ErrBadMessage)))"
proof -
  have "\<forall>d \<in> set sample_out. fits (env_config (sample_env 1)) d \<and> out_wf d"
    by (simp add: sample_out_def sample_fits)
  moreover have "takeWhile (signed (sample_env 1) sample_peer) sample_out = take 3 sample_out"
    "\<not> (\<forall>d \<in> set sample_out. signed (sample_env 1) sample_peer d)"
    using sample_signed by (simp_all add: sample_out_def del: signed.simps(1,2))
  moreover have "limit_ok (env_config (sample_env 1))" by (simp add: sample_max)
  ultimately obtain frames where "handler_loop (sample_env 1) sample_peer (\<lambda>_. 0) (\<lambda>_. 7) 0 (concat frames)
      = (map (\<lambda>(d, i). event_of sample_peer (time_sub 7 0) d) (zip (take 3 sample_out) [0..<length sample_out]), Fault (Error ErrBadMessage))"
    using framing_roundtrip [of "sample_env 1" sample_out sample_peer "\<lambda>_. 0" "\<lambda>_. 7"] by (simp only:) (auto simp: sample_max)
  then show ?thesis using sample_max by (intro conjI exI [of _ frames]) (simp_all add: sample_out_def upt_rec)
qed

text \<open>
  C10. No packet from the network can crash a node: whatever bytes a connected peer sends, \<open>_handlePacket\<close>
  returns, with an error at worst, and in every reachable state of the router the message
  it produced satisfies what the router relies on and is handled without a panic.
\<close>

theorem any_packet_is_handled:
  assumes "env_ok E" "router_reachable E r" "m_has (r_peers r) (p_key p)"
  shows "\<exists>res. handlePacket_event E p srst now packet = res
    \<and> (case res of
         Inl f \<Rightarrow> \<exists>e. f = Error e
       | Inr None \<Rightarrow> True
       | Inr (Some ev) \<Rightarrow> \<exists>r'. router_handle E later ev r = Inr r' \<and> router_reachable E r')"
proof (cases "handlePacket_event E p srst now packet")
  case (Inl f)
  then show ?thesis using handlePacket_no_panic [of E p srst now packet] by (simp add: only_errors_def)
next
  case (Inr ev)
  show ?thesis
  proof (cases ev)
    case (Some x)
    have ok: "event_ok E r x" using handled_event_ok [of E p srst now packet x r] Inr Some assms(3) by simp
    then obtain r' where r': "router_handle E later x r = Inr r'"
      using router_handle_ok [OF assms(1) router_reachable_inv [OF assms(1,2)]] by blast
    have "router_reachable E r'"
      using assms(2) router_step.intros [OF ok r'] by (auto simp: router_reachable_def intro: rtranclp.rtrancl_into_rtrancl)
    with Inr Some r' show ?thesis by simp
  qed (use Inr in simp)
qed

lemma sample_connected: "\<exists>r. router_reachable (sample_env 1) r \<and> m_has (r_peers r) (p_key sample_peer)"
proof -
  obtain r where r: "router_reachable (sample_env 1) r" using sample_reachable by blast
  then obtain r' where r': "addPeer (sample_env 1) sample_peer r = Inr r'" "sample_peer \<in> set (peers_of r' (p_key sample_peer))"
    using addPeer_ok router_reachable_inv [OF sample_env_ok] by blast
  have "router_step (sample_env 1) r r'"
    using r'(1) by (intro router_step.intros [of _ _ "AddPeer sample_peer" 0]) simp_all
  then have "router_reachable (sample_env 1) r'"
    using r by (auto simp: router_reachable_def intro: rtranclp.rtrancl_into_rtrancl)
  moreover have "m_has (r_peers r') (p_key sample_peer)"
    using r'(2) by (cases "m_get (r_peers r') (p_key sample_peer)") (simp_all add: m_get0_def)
  ultimately show ?thesis by blast
qed

theorem any_packet_is_handled_witness:
  "\<exists>r res. router_reachable (sample_env 1) r \<and> m_has (r_peers r) (p_key sample_peer)
    \<and> handlePacket_event (sample_env 1) sample_peer 0 5 [9, 1, 2] = res
    \<and> (case res of
         Inl f \<Rightarrow> \<exists>e. f = Error e
       | Inr None \<Rightarrow> True
       | Inr (Some ev) \<Rightarrow> \<exists>r'. router_handle (sample_env 1) 6 ev r = Inr r' \<and> router_reachable (sample_env 1) r')"
proof -
  obtain r where r: "router_reachable (sample_env 1) r" "m_has (r_peers r) (p_key sample_peer)"
    using sample_connected by blast
  show ?thesis using any_packet_is_handled [OF sample_env_ok r, of 0 5 "[9, 1, 2]" 6] r by blast
qed

end
