(* ===== verification/PacketQueueSpec.thy ===== *)
theory PacketQueueSpec
  imports PacketQueue
begin

text \<open>
  The contract of the packet queue: its invariant, its streams, and what \<open>push\<close>, \<open>pop\<close>, \<open>drop\<close>
  and \<open>peek\<close> do to them.
\<close>

subsection \<open>Keyed lists up to order\<close>

definition view :: "('a \<Rightarrow> 'k) \<Rightarrow> ('a \<Rightarrow> 'v) \<Rightarrow> 'a list \<Rightarrow> 'k \<Rightarrow> 'v option" where
  "view k v xs = map_of (map (\<lambda>x. (k x, v x)) xs)"

lemma fst_view: "map fst (map (\<lambda>x. (k x, v x)) xs) = map k xs"
  by simp

lemma view_perm:
  assumes "mset xs = mset ys" "distinct (map k xs)"
  shows "view k v xs = view k v ys"
proof -
  have "distinct (map k ys)"
    using assms by (metis mset_eq_imp_distinct_iff mset_map)
  then show ?thesis
    unfolding view_def using assms mset_eq_setD [OF assms(1)]
    by (subst map_of_inject_set) (simp_all only: fst_view, simp)
qed

lemma view_None: "view k v xs a = None \<longleftrightarrow> a \<notin> k ` set xs"
  by (simp add: view_def map_of_eq_None_iff image_image)

lemma view_nth: "distinct (map k xs) \<Longrightarrow> i < length xs \<Longrightarrow> view k v xs (k (xs ! i)) = Some (v (xs ! i))"
  unfolding view_def by (rule map_of_is_SomeI) (auto simp: comp_def)

lemma view_SomeD: "view k v xs a = Some b \<Longrightarrow> \<exists>i < length xs. k (xs ! i) = a \<and> v (xs ! i) = b"
  unfolding view_def by (drule map_of_SomeD) (auto simp: in_set_conv_nth)

lemma view_Cons: "view k v (x # xs) = (view k v xs)(k x \<mapsto> v x)"
  by (simp add: view_def)

lemma view_append1: "k x \<notin> k ` set xs \<Longrightarrow> view k v (xs @ [x]) = (view k v xs)(k x \<mapsto> v x)"
  by (induction xs) (auto simp: view_def fun_upd_twist)

lemma view_update:
  "distinct (map k xs) \<Longrightarrow> i < length xs \<Longrightarrow> k x = k (xs ! i) \<Longrightarrow> view k v (xs[i := x]) = (view k v xs)(k x \<mapsto> v x)"
proof (induction xs arbitrary: i)
  case (Cons y ys)
  show ?case
  proof (cases i)
    case (Suc j)
    then have "ys ! j \<in> set ys" using Cons.prems(2) by simp
    with Suc have "k x \<noteq> k y" using Cons.prems(1,3) by (metis distinct.simps(2) image_eqI list.set_map list.simps(9) nth_Cons_Suc)
    with Suc Cons show ?thesis by (auto simp: view_Cons fun_eq_iff)
  qed (use Cons.prems in \<open>auto simp: view_Cons fun_eq_iff\<close>)
qed simp

lemma mset_minus_nth: "i < length xs \<Longrightarrow> mset xs - {#xs ! i#} = mset (take i xs @ drop (Suc i) xs)"
  by (subst id_take_nth_drop [of i xs]) simp_all

lemma view_remove:
  assumes "distinct (map k xs)" "i < length xs" "mset ys = mset xs - {#xs ! i#}"
  shows "view k v ys = (view k v xs)(k (xs ! i) := None)"
proof -
  let ?rest = "take i xs @ drop (Suc i) xs"
  have p: "mset xs = mset (xs ! i # ?rest)" using mset_minus_nth [OF assms(2)] assms(2)
    by (metis add_mset_remove_trivial_If insert_DiffM mset.simps(2) nth_mem set_mset_mset)
  have d: "distinct (map k (xs ! i # ?rest))"
    using assms(1) p by (metis mset_eq_imp_distinct_iff mset_map)
  have "view k v xs = (view k v ?rest)(k (xs ! i) \<mapsto> v (xs ! i))"
    using view_perm [OF p assms(1), of v] by (simp only: view_Cons)
  moreover have "view k v ?rest (k (xs ! i)) = None" using d by (simp add: view_None image_Un)
  moreover have "view k v ys = view k v ?rest"
    using assms(3) mset_minus_nth [OF assms(2)] d by (intro view_perm [symmetric]) simp_all
  ultimately show ?thesis by (simp add: fun_upd_idem)
qed

definition total_size :: "('a \<Rightarrow> u64) \<Rightarrow> 'a list \<Rightarrow> nat" where
  "total_size f xs = sum_list (map (\<lambda>x. unat (f x)) xs)"

lemma total_simps [simp]: "total_size f [] = 0" "total_size f (x # xs) = unat (f x) + total_size f xs"
  "total_size f (xs @ ys) = total_size f xs + total_size f ys"
  by (simp_all add: total_size_def)

lemma total_mset: "total_size f xs = sum_mset (image_mset (\<lambda>x. unat (f x)) (mset xs))"
  by (simp add: total_size_def flip: sum_mset_sum_list)

lemma total_update: "i < length xs \<Longrightarrow> total_size f (xs[i := x]) + unat (f (xs ! i)) = total_size f xs + unat (f x)"
  by (subst (3) id_take_nth_drop [of i xs], simp, subst upd_conv_take_nth_drop) simp_all

lemma total_member: "x \<in> set xs \<Longrightarrow> unat (f x) \<le> total_size f xs"
  by (induction xs) auto

lemma total_remove: "i < length xs \<Longrightarrow> mset ys = mset xs - {#xs ! i#} \<Longrightarrow> total_size f ys + unat (f (xs ! i)) = total_size f xs"
  by (subst (2) id_take_nth_drop [of i xs], simp) (simp add: mset_minus_nth total_mset)

lemma mset_replace: "i < length xs \<Longrightarrow> add_mset x (mset xs - {#xs ! i#}) = mset (xs[i := x])"
  by (simp add: mset_update)

lemma distinct_key_update:
  "distinct (map k xs) \<Longrightarrow> i < length xs \<Longrightarrow> k x = k (xs ! i) \<Longrightarrow> distinct (map k (xs[i := x]))"
  by (simp add: map_update) (metis list_update_id length_map nth_map)

lemma distinct_key_perm: "mset ys = mset xs \<Longrightarrow> distinct (map k xs) \<Longrightarrow> distinct (map k ys)"
  by (metis mset_eq_imp_distinct_iff mset_map)

lemma distinct_key_remove:
  assumes "distinct (map k xs)" "i < length xs" "mset ys = mset xs - {#xs ! i#}"
  shows "distinct (map k ys)"
proof (rule distinct_key_perm [of _ "take i xs @ drop (Suc i) xs"])
  show "distinct (map k (take i xs @ drop (Suc i) xs))"
    using assms(1) by (subst (asm) id_take_nth_drop [OF assms(2)]) auto
qed (use assms mset_minus_nth in metis)

lemma find_index_Some: "find_index P xs = Some i \<Longrightarrow> i < length xs \<and> P (xs ! i)"
  by (induction xs arbitrary: i) (auto split: if_splits)

lemma find_index_None: "find_index P xs = None \<longleftrightarrow> (\<forall>x \<in> set xs. \<not> P x)"
  by (induction xs) auto

lemma largest_spec:
  assumes "xs \<noteq> []"
  shows "largest sz xs < length xs \<and> (\<forall>x \<in> set xs. sz x \<le> sz (xs ! largest sz xs))"
proof -
  let ?f = "\<lambda>idx best. if sz (xs ! best) < sz (xs ! idx) then idx else best"
  have "fold ?f [0..<n] 0 < length xs \<and> (\<forall>k < n. sz (xs ! k) \<le> sz (xs ! fold ?f [0..<n] 0))"
    if "n \<le> length xs" for n
    using that
  proof (induction n)
    case (Suc n)
    then show ?case by (auto simp: less_Suc_eq not_less intro: order.trans dest: order.strict_implies_order)
  qed (use assms in simp)
  from this [of "length xs"] show ?thesis
    unfolding largest_def by (auto simp: in_set_conv_nth)
qed

subsection \<open>The invariant\<close>

definition source_ok :: "publicKey \<Rightarrow> pqSource \<Rightarrow> bool" where
  "source_ok dk s \<longleftrightarrow> src_infos s \<noteq> [] \<and> sorted (map pq_time (src_infos s))
     \<and> (\<forall>i \<in> set (src_infos s). 0 < pq_size i \<and> sourceKey (pq_packet i) = src_key s \<and> destKey (pq_packet i) = dk)
     \<and> total_size pq_size (src_infos s) = unat (src_size s)"

definition dest_wf :: "pqDest \<Rightarrow> bool" where
  "dest_wf d \<longleftrightarrow> (\<forall>s \<in> set (dst_sources d). source_ok (dst_key d) s) \<and> distinct (map src_key (dst_sources d))
     \<and> is_heap source_time (dst_sources d) (length (dst_sources d))
     \<and> total_size src_size (dst_sources d) = unat (dst_size d)"

definition dest_ok :: "pqDest \<Rightarrow> bool" where
  "dest_ok d \<longleftrightarrow> dst_sources d \<noteq> [] \<and> dest_wf d"

definition queue_ok :: "packetQueue \<Rightarrow> bool" where
  "queue_ok q \<longleftrightarrow> (\<forall>d \<in> set (q_dests q). dest_ok d) \<and> distinct (map dst_key (q_dests q))
     \<and> is_heap dest_time (q_dests q) (length (q_dests q)) \<and> total_size dst_size (q_dests q) = unat (q_size q)"

definition dest_view :: "pqDest \<Rightarrow> publicKey \<Rightarrow> pqPacketInfo list option" where
  "dest_view d = view src_key src_infos (dst_sources d)"

text \<open>The packets from \<open>source\<close> to \<open>dest\<close>, in the order of their arrival.\<close>

definition stream :: "packetQueue \<Rightarrow> publicKey \<Rightarrow> publicKey \<Rightarrow> pqPacketInfo list" where
  "stream q dest source =
     (case view dst_key dest_view (q_dests q) dest of
        None \<Rightarrow> []
      | Some v \<Rightarrow> (case v source of None \<Rightarrow> [] | Some infos \<Rightarrow> infos))"

lemma source_time_ok: "source_ok dk s \<Longrightarrow> source_time s = Some (pq_time (hd (src_infos s)))"
  by (cases "src_infos s") (simp_all add: source_ok_def source_time_def)

lemma keyed_sources: "dest_wf d \<Longrightarrow> keyed source_time (dst_sources d) (length (dst_sources d))"
  using source_time_ok by (fastforce simp: dest_wf_def)

lemma dest_time_ok:
  assumes "dest_ok d"
  shows "dest_time d = source_time (dst_sources d ! 0)" "dest_time d \<noteq> None"
proof -
  show "dest_time d = source_time (dst_sources d ! 0)"
    using assms by (cases "dst_sources d") (simp_all add: dest_ok_def dest_time_def)
  then show "dest_time d \<noteq> None"
    using assms keyed_sources by (simp add: dest_ok_def)
qed

lemma keyed_dests: "queue_ok q \<Longrightarrow> keyed dest_time (q_dests q) (length (q_dests q))"
  using dest_time_ok(2) by (auto simp: queue_ok_def)

lemma unat_minus: "(b :: u64) \<le> a \<Longrightarrow> unat (a - b) = unat a - unat b"
  by (rule unat_sub)

lemma total_pos: "x \<in> set xs \<Longrightarrow> 0 < f x \<Longrightarrow> 0 < total_size f xs"
  using total_member [of x xs f] by (metis gr_zeroI le_zero_eq unsigned_eq_0_iff word_gt_0)

lemma source_size_pos: "source_ok dk s \<Longrightarrow> 0 < src_size s"
  using total_pos [of "hd (src_infos s)" "src_infos s" pq_size]
  by (auto simp: source_ok_def word_gt_0)

lemma dest_size_pos: "dest_ok d \<Longrightarrow> 0 < dst_size d"
  using total_pos [of "dst_sources d ! 0" "dst_sources d" src_size] source_size_pos [of "dst_key d" "dst_sources d ! 0"]
  by (auto simp: dest_ok_def dest_wf_def word_gt_0)

lemma queue_size_pos: "queue_ok q \<Longrightarrow> 0 < q_size q \<longleftrightarrow> q_dests q \<noteq> []"
  using total_pos [of "q_dests q ! 0" "q_dests q" dst_size] dest_size_pos [of "q_dests q ! 0"]
  by (cases "q_dests q") (auto simp: queue_ok_def word_gt_0 unsigned_eq_0_iff)

lemma empty_queue_ok: "queue_ok empty_queue"
  by (simp add: queue_ok_def empty_queue_def heap_except_def)

lemma stream_empty: "stream empty_queue = (\<lambda>_ _. [])"
  by (simp add: stream_def empty_queue_def view_def fun_eq_iff)

subsection \<open>Taking the first packet of a source\<close>

lemma dest_Fix_eq:
  assumes "dest_wf d" "j < length (dst_sources d)" "source_time x \<noteq> None" "dst_sources d1 = (dst_sources d)[j := x]"
  shows "\<exists>ss. dest_Fix d1 j = Inr (d1\<lparr> dst_sources := ss \<rparr>) \<and> is_heap source_time ss (length ss)
    \<and> mset ss = mset ((dst_sources d)[j := x])"
  using heap_Fix_spec [OF keyed_sources [OF assms(1)] _ assms(2,3)] assms(1,2,4)
  by (auto simp: dest_Fix_def dest_wf_def mset_replace)

lemma dest_Remove_eq:
  assumes "dest_wf d" "j < length (dst_sources d)" "dst_sources d1 = (dst_sources d)[j := x]"
  shows "\<exists>ss. dest_Remove d1 j = Inr (d1\<lparr> dst_sources := ss, dst_size := dst_size d1 - src_size x \<rparr>)
    \<and> is_heap source_time ss (length ss) \<and> mset ss = mset (dst_sources d) - {#dst_sources d ! j#}"
  using heap_Remove_spec [OF keyed_sources [OF assms(1)] _ assms(2), of x] assms(1,3)
  by (auto simp: dest_Remove_def dest_Pop_def dest_wf_def)

lemma queue_Fix_eq:
  assumes "queue_ok q" "k < length (q_dests q)" "dest_time x \<noteq> None" "q_dests q1 = (q_dests q)[k := x]"
  shows "\<exists>ds. queue_Fix q1 k = Inr (q1\<lparr> q_dests := ds \<rparr>) \<and> is_heap dest_time ds (length ds)
    \<and> mset ds = mset ((q_dests q)[k := x])"
  using heap_Fix_spec [OF keyed_dests [OF assms(1)] _ assms(2,3)] assms(1,2,4)
  by (auto simp: queue_Fix_def queue_ok_def mset_replace)

lemma queue_Remove_eq:
  assumes "queue_ok q" "k < length (q_dests q)" "q_dests q1 = (q_dests q)[k := x]"
  shows "\<exists>ds. queue_Remove q1 k = Inr (q1\<lparr> q_dests := ds, q_size := q_size q1 - dst_size x \<rparr>)
    \<and> is_heap dest_time ds (length ds) \<and> mset ds = mset (q_dests q) - {#q_dests q ! k#}"
  using heap_Remove_spec [OF keyed_dests [OF assms(1)] _ assms(2), of x] assms(1,3)
  by (auto simp: queue_Remove_def queue_Pop_def queue_ok_def)

text \<open>The destination after the first packet of its source \<open>j\<close> left.\<close>

definition dest_took :: "pqDest \<Rightarrow> nat \<Rightarrow> pqDest \<Rightarrow> bool" where
  "dest_took d j d' \<longleftrightarrow>
     (let s = dst_sources d ! j; rest = tl (src_infos s) in
      dest_wf d' \<and> dst_key d' = dst_key d \<and> dst_size d' = dst_size d - pq_size (hd (src_infos s))
      \<and> dest_view d' = (dest_view d)(src_key s := (if rest = [] then None else Some rest)))"

lemma source_tl_ok:
  assumes "source_ok dk s" "tl (src_infos s) \<noteq> []"
  shows "source_ok dk (s\<lparr> src_infos := tl (src_infos s), src_size := src_size s - pq_size (hd (src_infos s)) \<rparr>)"
proof -
  obtain i infos where s: "src_infos s = i # infos" using assms(1) by (cases "src_infos s") (auto simp: source_ok_def)
  have "unat (pq_size i) \<le> unat (src_size s)" using assms(1) s by (simp add: source_ok_def)
  then have "unat (src_size s - pq_size i) = unat (src_size s) - unat (pq_size i)"
    by (intro unat_minus) (simp add: word_le_nat_alt)
  then show ?thesis using assms s by (auto simp: source_ok_def)
qed

lemma hd_size_le:
  assumes d: "dest_wf d" "j < length (dst_sources d)"
  defines "s \<equiv> dst_sources d ! j"
  shows "pq_size (hd (src_infos s)) \<le> src_size s" "pq_size (hd (src_infos s)) \<le> dst_size d"
proof -
  have s: "source_ok (dst_key d) s" using d by (simp add: dest_wf_def s_def)
  then have "unat (pq_size (hd (src_infos s))) \<le> unat (src_size s)"
    using total_member [of "hd (src_infos s)" "src_infos s" pq_size] by (auto simp: source_ok_def)
  then show le: "pq_size (hd (src_infos s)) \<le> src_size s" by (simp add: word_le_nat_alt)
  have "unat (src_size s) \<le> unat (dst_size d)"
    using total_member [of s "dst_sources d" src_size] d by (simp add: dest_wf_def s_def)
  with le show "pq_size (hd (src_infos s)) \<le> dst_size d" by (simp add: word_le_nat_alt)
qed

lemma dest_took_fix:
  assumes d: "dest_wf d" "j < length (dst_sources d)" and rest: "tl (src_infos (dst_sources d ! j)) \<noteq> []"
    and x: "x = (dst_sources d ! j)\<lparr> src_infos := tl (src_infos (dst_sources d ! j)),
        src_size := src_size (dst_sources d ! j) - pq_size (hd (src_infos (dst_sources d ! j))) \<rparr>"
    and ss: "is_heap source_time ss (length ss)" "mset ss = mset ((dst_sources d)[j := x])"
  shows "dest_took d j (d\<lparr> dst_sources := ss, dst_size := dst_size d - pq_size (hd (src_infos (dst_sources d ! j))) \<rparr>)"
proof -
  let ?s = "dst_sources d ! j" and ?i = "hd (src_infos (dst_sources d ! j))"
  have ok: "source_ok (dst_key d) x" using d rest x source_tl_ok by (simp add: dest_wf_def)
  have key: "src_key x = src_key ?s" by (simp add: x)
  have sub: "set ss \<subseteq> insert x (set (dst_sources d))"
    using mset_eq_setD [OF ss(2)] set_update_subset_insert by fastforce
  have dist: "distinct (map src_key ((dst_sources d)[j := x]))"
    using d key by (intro distinct_key_update) (simp_all add: dest_wf_def)
  have "unat (src_size x) = unat (src_size ?s) - unat (pq_size ?i)"
    using hd_size_le [OF d] by (simp add: x unat_minus)
  moreover have "unat (pq_size ?i) \<le> unat (src_size ?s)" "unat (pq_size ?i) \<le> unat (dst_size d)"
    using hd_size_le [OF d] by (auto simp: word_le_nat_alt)
  moreover have "total_size src_size ss = total_size src_size ((dst_sources d)[j := x])"
    using ss(2) by (simp add: total_mset)
  ultimately have "total_size src_size ss = unat (dst_size d - pq_size ?i)"
    using total_update [OF d(2), of src_size x] d(1) unat_minus [OF hd_size_le(2) [OF d]] by (simp add: dest_wf_def)
  moreover have "view src_key src_infos ss = (view src_key src_infos (dst_sources d))(src_key ?s \<mapsto> tl (src_infos ?s))"
    using view_perm [OF ss(2) distinct_key_perm [OF ss(2) dist], of src_infos] view_update [OF _ d(2) key, of src_infos] d(1)
    by (simp add: dest_wf_def x)
  ultimately show ?thesis
    using d(1) ok sub ss(1) distinct_key_perm [OF ss(2) dist] rest
    by (auto simp: dest_took_def dest_wf_def dest_view_def)
qed

lemma dest_took_remove:
  assumes d: "dest_wf d" "j < length (dst_sources d)" and rest: "tl (src_infos (dst_sources d ! j)) = []"
    and ss: "is_heap source_time ss (length ss)" "mset ss = mset (dst_sources d) - {#dst_sources d ! j#}"
  shows "dest_took d j (d\<lparr> dst_sources := ss, dst_size := dst_size d - pq_size (hd (src_infos (dst_sources d ! j))) \<rparr>)"
proof -
  let ?s = "dst_sources d ! j" and ?i = "hd (src_infos (dst_sources d ! j))"
  have "source_ok (dst_key d) ?s" using d by (simp add: dest_wf_def)
  then have "src_infos ?s = [?i]" "unat (src_size ?s) = unat (pq_size ?i)"
    using rest by (cases "src_infos ?s"; auto simp: source_ok_def)+
  then have "total_size src_size ss = unat (dst_size d - pq_size ?i)"
    using total_remove [OF d(2) ss(2), of src_size] d(1) unat_minus [OF hd_size_le(2) [OF d]] by (simp add: dest_wf_def)
  moreover have "set ss \<subseteq> set (dst_sources d)"
    using ss(2) by (metis mset_subset_eqD diff_subset_eq_self set_mset_mset subsetI)
  moreover have "distinct (map src_key (dst_sources d))" using d(1) by (simp add: dest_wf_def)
  ultimately show ?thesis
    using d ss distinct_key_remove [OF _ d(2) ss(2)] view_remove [OF _ d(2) ss(2)] rest
    by (auto simp: dest_took_def dest_wf_def dest_view_def)
qed

text \<open>The queue after the first packet of the source \<open>j\<close> of its destination \<open>k\<close> left.\<close>

definition queue_took :: "packetQueue \<Rightarrow> nat \<Rightarrow> nat \<Rightarrow> packetQueue \<Rightarrow> bool" where
  "queue_took q k j q' \<longleftrightarrow>
     (let d = q_dests q ! k; s = dst_sources d ! j in
      queue_ok q' \<and> q_size q' = q_size q - pq_size (hd (src_infos s))
      \<and> (\<forall>dk sk. stream q' dk sk = (if dk = dst_key d \<and> sk = src_key s then tl (src_infos s) else stream q dk sk)))"

lemma stream_nth:
  assumes "queue_ok q" "k < length (q_dests q)"
  shows "stream q (dst_key (q_dests q ! k)) sk = (case dest_view (q_dests q ! k) sk of None \<Rightarrow> [] | Some infos \<Rightarrow> infos)"
  using view_nth [OF _ assms(2), of dst_key dest_view] assms(1) by (simp add: stream_def queue_ok_def)

lemma dest_size_le: "queue_ok q \<Longrightarrow> k < length (q_dests q) \<Longrightarrow> dst_size (q_dests q ! k) \<le> q_size q"
  using total_member [of "q_dests q ! k" "q_dests q" dst_size] by (simp add: queue_ok_def word_le_nat_alt)

lemma queue_took_fix:
  assumes q: "queue_ok q" "k < length (q_dests q)" and j: "j < length (dst_sources (q_dests q ! k))"
    and d': "dest_took (q_dests q ! k) j d'" "dst_sources d' \<noteq> []"
    and ds: "is_heap dest_time ds (length ds)" "mset ds = mset ((q_dests q)[k := d'])"
  shows "queue_took q k j (q\<lparr> q_dests := ds, q_size := q_size q - pq_size (hd (src_infos (dst_sources (q_dests q ! k) ! j))) \<rparr>)"
proof -
  let ?d = "q_dests q ! k"
  let ?s = "dst_sources ?d ! j"
  let ?n = "pq_size (hd (src_infos ?s))"
  have d: "dest_wf ?d" using q by (simp add: queue_ok_def dest_ok_def)
  have key: "dst_key d' = dst_key ?d" and size: "dst_size d' = dst_size ?d - ?n"
    and vd: "dest_view d' = (dest_view ?d)(src_key ?s := (if tl (src_infos ?s) = [] then None else Some (tl (src_infos ?s))))"
    using d'(1) by (simp_all add: dest_took_def Let_def)
  have sub: "set ds \<subseteq> insert d' (set (q_dests q))"
    using mset_eq_setD [OF ds(2)] set_update_subset_insert by fastforce
  have ok: "dest_ok d'" using d' by (simp add: dest_ok_def dest_took_def Let_def)
  have dist: "distinct (map dst_key ((q_dests q)[k := d']))"
    using q key by (intro distinct_key_update) (simp_all add: queue_ok_def)
  have le: "?n \<le> dst_size ?d" "?n \<le> q_size q"
    using hd_size_le(2) [OF d j] dest_size_le [OF q] by auto
  have "total_size dst_size ds = total_size dst_size ((q_dests q)[k := d'])"
    using ds(2) by (simp add: total_mset)
  then have "total_size dst_size ds = unat (q_size q - ?n)"
    using total_update [OF q(2), of dst_size d'] q(1) le size
    by (simp add: queue_ok_def unat_minus word_le_nat_alt)
  moreover have "view dst_key dest_view ds = (view dst_key dest_view (q_dests q))(dst_key ?d \<mapsto> dest_view d')"
    using view_perm [OF ds(2) distinct_key_perm [OF ds(2) dist], of dest_view] view_update [OF _ q(2) key, of dest_view] q(1)
    by (simp add: queue_ok_def key)
  ultimately show ?thesis
    using q ok sub ds(1) distinct_key_perm [OF ds(2) dist] stream_nth [OF q]
    by (auto simp: queue_took_def queue_ok_def Let_def stream_def vd)
qed

lemma queue_took_remove:
  assumes q: "queue_ok q" "k < length (q_dests q)" and j: "j < length (dst_sources (q_dests q ! k))"
    and d': "dest_took (q_dests q ! k) j d'" "dst_sources d' = []"
    and ds: "is_heap dest_time ds (length ds)" "mset ds = mset (q_dests q) - {#q_dests q ! k#}"
  shows "queue_took q k j (q\<lparr> q_dests := ds, q_size := q_size q - pq_size (hd (src_infos (dst_sources (q_dests q ! k) ! j))) \<rparr>)"
proof -
  let ?d = "q_dests q ! k"
  let ?s = "dst_sources ?d ! j"
  let ?n = "pq_size (hd (src_infos ?s))"
  have d: "dest_wf ?d" using q by (simp add: queue_ok_def dest_ok_def)
  have d0: "dest_view d' = Map.empty" "dst_size d' = 0" "dst_size d' = dst_size ?d - ?n"
    using d' by (auto simp: dest_view_def view_def dest_took_def dest_wf_def unsigned_eq_0_iff Let_def)
  have opt: "(dest_view ?d)(src_key ?s := (if tl (src_infos ?s) = [] then None else Some (tl (src_infos ?s)))) = Map.empty"
    using d'(1) d0(1) by (simp add: dest_took_def Let_def)
  have tl: "tl (src_infos ?s) = []" using fun_cong [OF opt, of "src_key ?s"] by (simp split: if_splits)
  have other: "dest_view ?d sk = None" if "sk \<noteq> src_key ?s" for sk
    using fun_cong [OF opt, of sk] that by simp
  have n: "?n = dst_size ?d" using d0(2,3) by simp
  then have "total_size dst_size ds = unat (q_size q - ?n)"
    using total_remove [OF q(2) ds(2), of dst_size] q(1) unat_minus [OF dest_size_le [OF q]] by (simp add: queue_ok_def)
  moreover have "set ds \<subseteq> set (q_dests q)"
    using ds(2) by (metis mset_subset_eqD diff_subset_eq_self set_mset_mset subsetI)
  moreover have dist: "distinct (map dst_key (q_dests q))" using q(1) by (simp add: queue_ok_def)
  moreover have "view dst_key dest_view ds = (view dst_key dest_view (q_dests q))(dst_key ?d := None)"
    by (rule view_remove [OF dist q(2) ds(2)])
  ultimately show ?thesis
    using q ds(1) distinct_key_remove [OF dist q(2) ds(2)] stream_nth [OF q] tl other
    by (auto simp: queue_took_def queue_ok_def Let_def stream_def)
qed

subsection \<open>What the operations do\<close>

text \<open>Both \<open>pop\<close> and \<open>drop\<close> take the first packet of one source and repair the two heaps.\<close>

lemma dest_step_ok:
  assumes d: "dest_wf d" "j < length (dst_sources d)"
  defines "s \<equiv> dst_sources d ! j"
  defines "i \<equiv> hd (src_infos s)"
  defines "x \<equiv> s\<lparr> src_infos := tl (src_infos s), src_size := src_size s - pq_size i \<rparr>"
  shows "tl (src_infos s) \<noteq> [] \<Longrightarrow> dst_sources d1 = (dst_sources d)[j := x] \<Longrightarrow>
      \<exists>ss. dest_Fix d1 j = Inr (d1\<lparr> dst_sources := ss \<rparr>)
        \<and> dest_took d j (d\<lparr> dst_sources := ss, dst_size := dst_size d - pq_size i \<rparr>)"
    and "tl (src_infos s) = [] \<Longrightarrow> src_size y = src_size s - pq_size i \<Longrightarrow> dst_sources d1 = (dst_sources d)[j := y] \<Longrightarrow>
      \<exists>ss. dest_Remove d1 j = Inr (d1\<lparr> dst_sources := ss \<rparr>)
        \<and> dest_took d j (d\<lparr> dst_sources := ss, dst_size := dst_size d - pq_size i \<rparr>)"
proof -
  have s: "source_ok (dst_key d) s" using d by (simp add: dest_wf_def s_def)
  {
    assume rest: "tl (src_infos s) \<noteq> []" and d1: "dst_sources d1 = (dst_sources d)[j := x]"
    have "source_time x \<noteq> None" using source_tl_ok [OF s rest] by (simp add: x_def i_def source_time_ok)
    then obtain ss where "dest_Fix d1 j = Inr (d1\<lparr> dst_sources := ss \<rparr>)" "is_heap source_time ss (length ss)"
        "mset ss = mset ((dst_sources d)[j := x])"
      using dest_Fix_eq [OF d _ d1] by blast
    with dest_took_fix [OF d, of x ss] rest
    show "\<exists>ss. dest_Fix d1 j = Inr (d1\<lparr> dst_sources := ss \<rparr>)
        \<and> dest_took d j (d\<lparr> dst_sources := ss, dst_size := dst_size d - pq_size i \<rparr>)"
      by (auto simp: s_def i_def x_def)
  next
    assume rest: "tl (src_infos s) = []" and y: "src_size y = src_size s - pq_size i"
      and d1: "dst_sources d1 = (dst_sources d)[j := y]"
    have "src_infos s = [i]" using s rest by (cases "src_infos s") (auto simp: source_ok_def i_def)
    then have "src_size y = 0" using s y by (simp add: source_ok_def word_unat_eq_iff [of "src_size s" "pq_size i"])
    moreover obtain ss where "dest_Remove d1 j = Inr (d1\<lparr> dst_sources := ss, dst_size := dst_size d1 - src_size y \<rparr>)"
        "is_heap source_time ss (length ss)" "mset ss = mset (dst_sources d) - {#s#}"
      using dest_Remove_eq [OF d d1] by (auto simp: s_def)
    ultimately show "\<exists>ss. dest_Remove d1 j = Inr (d1\<lparr> dst_sources := ss \<rparr>)
        \<and> dest_took d j (d\<lparr> dst_sources := ss, dst_size := dst_size d - pq_size i \<rparr>)"
      using dest_took_remove [OF d, of ss] rest by (auto simp: s_def i_def)
  }
qed

lemma queue_step_ok:
  assumes q: "queue_ok q" "k < length (q_dests q)" and j: "j < length (dst_sources (q_dests q ! k))"
    and d': "dest_took (q_dests q ! k) j d'" and q1: "q_dests q1 = (q_dests q)[k := d']"
  defines "i \<equiv> hd (src_infos (dst_sources (q_dests q ! k) ! j))"
  shows "\<exists>ds. (if dst_sources d' \<noteq> [] then queue_Fix q1 k else queue_Remove q1 k) = Inr (q1\<lparr> q_dests := ds \<rparr>)
     \<and> queue_took q k j (q\<lparr> q_dests := ds, q_size := q_size q - pq_size i \<rparr>)"
proof (cases "dst_sources d' = []")
  case True
  then have "dst_size d' = 0" using d' by (simp add: dest_took_def dest_wf_def Let_def unsigned_eq_0_iff)
  then show ?thesis
    using True queue_Remove_eq [OF q q1] queue_took_remove [OF q j d' True] by (auto simp: i_def)
next
  case False
  then have "dest_time d' \<noteq> None" using d' dest_time_ok(2) [of d'] by (simp add: dest_ok_def dest_took_def Let_def)
  then show ?thesis
    using False queue_Fix_eq [OF q _ q1] queue_took_fix [OF q j d' False] by (auto simp: i_def)
qed

lemma pq_upd:
  "s\<lparr> src_size := a, src_infos := b \<rparr> = s\<lparr> src_infos := b, src_size := a \<rparr>"
  "d\<lparr> dst_size := a, dst_sources := c \<rparr> = d\<lparr> dst_sources := c, dst_size := a \<rparr>"
  "q\<lparr> q_size := a, q_dests := e \<rparr> = q\<lparr> q_dests := e, q_size := a \<rparr>"
  by simp_all

lemma single_size: "source_ok dk s \<Longrightarrow> 0 < src_size s - pq_size (hd (src_infos s)) \<longleftrightarrow> tl (src_infos s) \<noteq> []"
proof (cases "tl (src_infos s) = []")
  case True
  assume s: "source_ok dk s"
  then have "src_infos s = [hd (src_infos s)]" using True by (cases "src_infos s") (auto simp: source_ok_def)
  then have "unat (pq_size (hd (src_infos s))) = unat (src_size s)" using s by (metis add.right_neutral source_ok_def total_simps(1,2))
  then have "src_size s = pq_size (hd (src_infos s))" by (simp add: word_unat_eq_iff)
  then show ?thesis using True by simp
qed (use source_size_pos [OF source_tl_ok] in auto)

lemma took_size: "dest_took d j d' \<Longrightarrow> 0 < dst_size d' \<longleftrightarrow> dst_sources d' \<noteq> []"
  using dest_size_pos [of d'] by (cases "dst_sources d' = []") (auto simp: dest_took_def dest_ok_def dest_wf_def Let_def unsigned_eq_0_iff)

lemma nonempty_at:
  assumes "queue_ok q" "k < length (q_dests q)"
  shows "dest_wf (q_dests q ! k)" "dst_sources (q_dests q ! k) \<noteq> []"
    "j < length (dst_sources (q_dests q ! k)) \<Longrightarrow> source_ok (dst_key (q_dests q ! k)) (dst_sources (q_dests q ! k) ! j)"
  using assms by (auto simp: queue_ok_def dest_ok_def dest_wf_def)

lemma index_hd: "xs \<noteq> [] \<Longrightarrow> index xs 0 = Inr (hd xs)"
  by (simp add: hd_conv_nth)

lemma queue_pop_took:
  assumes q: "queue_ok q" "q_dests q \<noteq> []"
  shows "\<exists>q'. queue_pop q = Inr (q', Some (hd (src_infos (dst_sources (q_dests q ! 0) ! 0)))) \<and> queue_took q 0 0 q'"
proof -
  let ?d = "q_dests q ! 0"
  let ?s = "dst_sources ?d ! 0"
  let ?i = "hd (src_infos ?s)"
  have k: "0 < length (q_dests q)" using q(2) by simp
  note d = nonempty_at [OF q(1) k]
  have j: "0 < length (dst_sources ?d)" using d(2) by simp
  have ne: "src_infos ?s \<noteq> []" using d(3) [OF j] by (simp add: source_ok_def)
  let ?s1 = "?s\<lparr> src_size := src_size ?s - pq_size ?i \<rparr>"
  let ?d1 = "?d\<lparr> dst_size := dst_size ?d - pq_size ?i \<rparr>"
  obtain ss where ss: "(if 1 < length (src_infos ?s)
           then dest_Fix (?d1\<lparr> dst_sources := (dst_sources ?d)[0 := ?s1\<lparr> src_infos := drop 1 (src_infos ?s) \<rparr>] \<rparr>) 0
           else dest_Remove (?d1\<lparr> dst_sources := (dst_sources ?d)[0 := ?s1] \<rparr>) 0)
        = Inr (?d1\<lparr> dst_sources := ss \<rparr>)"
      "dest_took ?d 0 (?d1\<lparr> dst_sources := ss \<rparr>)"
  proof (cases "tl (src_infos ?s) = []")
    case True
    then have "\<not> 1 < length (src_infos ?s)" using ne by (cases "src_infos ?s") auto
    with that dest_step_ok(2) [OF d(1) j True, of ?s1 "?d1\<lparr> dst_sources := (dst_sources ?d)[0 := ?s1] \<rparr>"] show ?thesis
      by (auto simp: pq_upd)
  next
    case False
    then have "1 < length (src_infos ?s)" by (cases "src_infos ?s") auto
    with that dest_step_ok(1) [OF d(1) j False, of "?d1\<lparr> dst_sources :=
        (dst_sources ?d)[0 := ?s1\<lparr> src_infos := drop 1 (src_infos ?s) \<rparr>] \<rparr>"] show ?thesis
      by (auto simp: drop_Suc pq_upd)
  qed
  let ?q1 = "q\<lparr> q_size := q_size q - pq_size ?i, q_dests := (q_dests q)[0 := ?d1\<lparr> dst_sources := ss \<rparr>] \<rparr>"
  obtain ds where "(if ss \<noteq> [] then queue_Fix ?q1 0 else queue_Remove ?q1 0) = Inr (?q1\<lparr> q_dests := ds \<rparr>)"
      "queue_took q 0 0 (q\<lparr> q_dests := ds, q_size := q_size q - pq_size ?i \<rparr>)"
    using queue_step_ok [OF q(1) k j ss(2), of ?q1] by auto
  then show ?thesis
    using q ss(1) queue_size_pos [OF q(1)] k j ne
    by (intro exI [of _ "q\<lparr> q_dests := ds, q_size := q_size q - pq_size ?i \<rparr>"])
      (simp add: queue_pop_def index_hd Let_def pq_upd hd_conv_nth cong: if_cong)
qed

lemma queue_drop_took:
  assumes q: "queue_ok q" "q_dests q \<noteq> []"
  defines "k \<equiv> largest dst_size (q_dests q)"
  defines "j \<equiv> largest src_size (dst_sources (q_dests q ! k))"
  shows "\<exists>q'. queue_drop q = Inr (q', True) \<and> queue_took q k j q'"
proof -
  let ?d = "q_dests q ! k"
  let ?s = "dst_sources ?d ! j"
  let ?i = "hd (src_infos ?s)"
  have k: "k < length (q_dests q)" using largest_spec [OF q(2)] by (simp add: k_def)
  note d = nonempty_at [OF q(1) k]
  have j: "j < length (dst_sources ?d)" using largest_spec [OF d(2)] by (simp add: j_def)
  have ne: "src_infos ?s \<noteq> []" using d(3) [OF j] by (simp add: source_ok_def)
  let ?x = "?s\<lparr> src_size := src_size ?s - pq_size ?i, src_infos := drop 1 (src_infos ?s) \<rparr>"
  let ?d1 = "?d\<lparr> dst_sources := (dst_sources ?d)[j := ?x] \<rparr>"
  obtain ss where ss: "(if 0 < src_size ?x then dest_Fix ?d1 j else dest_Remove ?d1 j) = Inr (?d1\<lparr> dst_sources := ss \<rparr>)"
      "dest_took ?d j (?d\<lparr> dst_sources := ss, dst_size := dst_size ?d - pq_size ?i \<rparr>)"
  proof (cases "tl (src_infos ?s) = []")
    case True
    then show ?thesis
      using that single_size [OF d(3) [OF j]] dest_step_ok(2) [OF d(1) j True, of ?x ?d1] by (auto simp: pq_upd)
  next
    case False
    then show ?thesis
      using that single_size [OF d(3) [OF j]] dest_step_ok(1) [OF d(1) j False, of ?d1] by (auto simp: drop_Suc pq_upd)
  qed
  let ?d2 = "?d\<lparr> dst_sources := ss, dst_size := dst_size ?d - pq_size ?i \<rparr>"
  let ?q1 = "q\<lparr> q_dests := (q_dests q)[k := ?d2] \<rparr>"
  obtain ds where ds: "(if ss \<noteq> [] then queue_Fix ?q1 k else queue_Remove ?q1 k) = Inr (?q1\<lparr> q_dests := ds \<rparr>)"
      "queue_took q k j (q\<lparr> q_dests := ds, q_size := q_size q - pq_size ?i \<rparr>)"
    using queue_step_ok [OF q(1) k j ss(2), of ?q1] by auto
  have "0 < dst_size ?d2 \<longleftrightarrow> ss \<noteq> []" using took_size [OF ss(2)] by simp
  then show ?thesis
    using q ss(1) ds queue_size_pos [OF q(1)] k j ne
    by (intro exI [of _ "q\<lparr> q_dests := ds, q_size := q_size q - pq_size ?i \<rparr>"])
      (auto simp: queue_drop_def Let_def pq_upd word_gt_0 hd_conv_nth split: if_split_asm simp flip: k_def j_def)
qed

subsection \<open>Arrivals\<close>

text \<open>The clock has not gone back: no packet of the queue is younger than \<open>now\<close>.\<close>

definition not_after :: "int \<Rightarrow> packetQueue \<Rightarrow> bool" where
  "not_after now q \<longleftrightarrow> (\<forall>d \<in> set (q_dests q). \<forall>s \<in> set (dst_sources d). \<forall>i \<in> set (src_infos s). pq_time i \<le> now)"

definition new_info :: "int \<Rightarrow> pqPacket \<Rightarrow> nat \<Rightarrow> pqPacketInfo" where
  "new_info now packet n = \<lparr> pq_packet = packet, pq_size = of_nat n, pq_time = now \<rparr>"

text \<open>The two levels of \<open>push\<close>.\<close>

definition push_source :: "pqPacketInfo \<Rightarrow> publicKey \<Rightarrow> pqDest \<Rightarrow> pqDest" where
  "push_source i sk d =
     (let sIdx = find_index (\<lambda>s. src_key s = sk) (dst_sources d);
          s0 = (case sIdx of None \<Rightarrow> \<lparr> src_key = sk, src_infos = [], src_size = 0 \<rparr> | Some j \<Rightarrow> dst_sources d ! j);
          s = s0\<lparr> src_infos := src_infos s0 @ [i], src_size := src_size s0 + pq_size i \<rparr>
      in d\<lparr> dst_sources := (case sIdx of None \<Rightarrow> dst_sources d @ [s] | Some j \<Rightarrow> (dst_sources d)[j := s]),
            dst_size := dst_size d + pq_size i \<rparr>)"

definition push_dest :: "pqPacketInfo \<Rightarrow> publicKey \<Rightarrow> publicKey \<Rightarrow> packetQueue \<Rightarrow> packetQueue" where
  "push_dest i sk dk q =
     (let dIdx = find_index (\<lambda>d. dst_key d = dk) (q_dests q);
          d0 = (case dIdx of None \<Rightarrow> \<lparr> dst_key = dk, dst_sources = [], dst_size = 0 \<rparr> | Some k \<Rightarrow> q_dests q ! k);
          d = push_source i sk d0
      in q\<lparr> q_dests := (case dIdx of None \<Rightarrow> q_dests q @ [d] | Some k \<Rightarrow> (q_dests q)[k := d]),
            q_size := q_size q + pq_size i \<rparr>)"

lemma queue_push_levels:
  "packet_size packet = Inr n \<Longrightarrow>
   queue_push now q packet = Inr (push_dest (new_info now packet n) (sourceKey packet) (destKey packet) q)"
  unfolding queue_push_def push_dest_def push_source_def new_info_def Let_def by (simp only: and_then_simps)

lemma unat_plus: "unat a + unat (b :: u64) < 2 ^ 64 \<Longrightarrow> unat (a + b) = unat a + unat b"
  by (simp add: unat_word_ariths)

lemma source_append_ok:
  assumes "s = s0\<lparr> src_infos := src_infos s0 @ [i], src_size := src_size s0 + pq_size i \<rparr>"
    "source_ok dk s0 \<or> src_infos s0 = [] \<and> src_size s0 = 0"
    "0 < pq_size i" "sourceKey (pq_packet i) = src_key s0" "destKey (pq_packet i) = dk"
    "\<forall>i' \<in> set (src_infos s0). pq_time i' \<le> pq_time i" "unat (src_size s0) + unat (pq_size i) < 2 ^ 64"
  shows "source_ok dk s"
  using assms unat_plus [OF assms(7)] by (auto simp: source_ok_def sorted_append)

lemma source_time_append: "src_infos s0 \<noteq> [] \<Longrightarrow> source_time (s0\<lparr> src_infos := src_infos s0 @ is, src_size := n \<rparr>) = source_time s0"
  by (auto simp: source_time_def neq_Nil_conv)

lemma dest_time_nth: "dst_sources d \<noteq> [] \<Longrightarrow> dest_time d = source_time (dst_sources d ! 0)"
  by (cases "dst_sources d") (simp_all add: dest_time_def)

lemma source_kv_le:
  assumes "dest_wf d" "\<forall>s \<in> set (dst_sources d). \<forall>i \<in> set (src_infos s). pq_time i \<le> t" "k < length (dst_sources d)"
  shows "kv source_time (dst_sources d) k \<le> t"
proof -
  have "source_ok (dst_key d) (dst_sources d ! k)" using assms by (simp add: dest_wf_def)
  then show ?thesis
    using assms(2,3) by (simp add: kv_def source_time_ok) (metis hd_in_set nth_mem source_ok_def)
qed

text \<open>What \<open>push\<close> makes of a destination.\<close>

definition dest_pushed :: "pqPacketInfo \<Rightarrow> publicKey \<Rightarrow> pqDest \<Rightarrow> pqDest \<Rightarrow> bool" where
  "dest_pushed i sk d d' \<longleftrightarrow> dest_ok d' \<and> dst_key d' = dst_key d \<and> dst_size d' = dst_size d + pq_size i
     \<and> dest_view d' = (dest_view d)(sk \<mapsto> (case dest_view d sk of None \<Rightarrow> [] | Some infos \<Rightarrow> infos) @ [i])
     \<and> dest_time d' = (if dst_sources d = [] then Some (pq_time i) else dest_time d)"

lemma push_new_source:
  assumes d: "dest_wf d" and i: "0 < pq_size i" "sourceKey (pq_packet i) = sk" "destKey (pq_packet i) = dst_key d"
    "\<forall>s \<in> set (dst_sources d). \<forall>i' \<in> set (src_infos s). pq_time i' \<le> pq_time i"
    and fits: "unat (dst_size d) + unat (pq_size i) < 2 ^ 64" and new: "sk \<notin> src_key ` set (dst_sources d)"
    and s: "s = \<lparr> src_key = sk, src_infos = [i], src_size = pq_size i \<rparr>"
  shows "dest_pushed i sk d (d\<lparr> dst_sources := dst_sources d @ [s], dst_size := dst_size d + pq_size i \<rparr>)"
proof -
  let ?d = "d\<lparr> dst_sources := dst_sources d @ [s], dst_size := dst_size d + pq_size i \<rparr>"
  have t: "source_time s = Some (pq_time i)" by (simp add: s source_time_def)
  have "is_heap source_time (dst_sources d @ [s]) (length (dst_sources d @ [s]))"
    using d t source_kv_le [OF d i(4)] by (intro heap_append [of source_time _ s "pq_time i"]) (auto simp: dest_wf_def)
  moreover have "source_ok (dst_key d) s" using i by (simp add: s source_ok_def)
  moreover have "total_size src_size (dst_sources d @ [s]) = unat (dst_size d + pq_size i)"
    using d unat_plus [OF fits] by (simp add: dest_wf_def s)
  ultimately have "dest_ok ?d"
    using d new by (auto simp: dest_ok_def dest_wf_def s)
  moreover have "dest_view ?d = (dest_view d)(sk \<mapsto> [i])" "dest_view d sk = None"
    using view_append1 [of src_key s "dst_sources d" src_infos] new by (simp_all add: dest_view_def s view_None)
  moreover have "dest_time ?d = (if dst_sources d = [] then Some (pq_time i) else dest_time d)"
    using t by (simp add: dest_time_nth nth_append)
  ultimately show ?thesis by (simp add: dest_pushed_def)
qed

lemma push_old_source:
  assumes d: "dest_wf d" and i: "0 < pq_size i" "sourceKey (pq_packet i) = sk" "destKey (pq_packet i) = dst_key d"
    "\<forall>s \<in> set (dst_sources d). \<forall>i' \<in> set (src_infos s). pq_time i' \<le> pq_time i"
    and fits: "unat (dst_size d) + unat (pq_size i) < 2 ^ 64"
    and j: "j < length (dst_sources d)" "src_key (dst_sources d ! j) = sk"
    and s: "s = (dst_sources d ! j)\<lparr> src_infos := src_infos (dst_sources d ! j) @ [i],
      src_size := src_size (dst_sources d ! j) + pq_size i \<rparr>"
  shows "dest_pushed i sk d (d\<lparr> dst_sources := (dst_sources d)[j := s], dst_size := dst_size d + pq_size i \<rparr>)"
proof -
  let ?d = "d\<lparr> dst_sources := (dst_sources d)[j := s], dst_size := dst_size d + pq_size i \<rparr>" and ?s0 = "dst_sources d ! j"
  have s0: "source_ok (dst_key d) ?s0" using d j by (simp add: dest_wf_def)
  have le: "unat (src_size ?s0) \<le> unat (dst_size d)"
    using total_member [of ?s0 "dst_sources d" src_size] d j by (simp add: dest_wf_def)
  have ok: "source_ok (dst_key d) s"
    using s0 i j le fits by (intro source_append_ok [OF s]) auto
  have t: "source_time s = source_time ?s0"
    using s0 by (simp add: s source_time_append source_ok_def)
  have size: "unat (src_size s) = unat (src_size ?s0) + unat (pq_size i)"
    using le fits by (simp add: s unat_plus)
  have "total_size src_size ((dst_sources d)[j := s]) = unat (dst_size d + pq_size i)"
    using total_update [OF j(1), of src_size s] d unat_plus [OF fits] size by (simp add: dest_wf_def)
  moreover have "is_heap source_time ((dst_sources d)[j := s]) (length ((dst_sources d)[j := s]))"
    using d t by (intro heap_same_key) (simp_all add: dest_wf_def)
  moreover have dist: "distinct (map src_key (dst_sources d))" using d by (simp add: dest_wf_def)
  moreover have "distinct (map src_key ((dst_sources d)[j := s]))" by (rule distinct_key_update [OF dist j(1)]) (simp add: s)
  moreover have "set ((dst_sources d)[j := s]) \<subseteq> insert s (set (dst_sources d))" by (rule set_update_subset_insert)
  moreover have ne: "dst_sources d \<noteq> []" using j(1) by auto
  ultimately have "dest_ok ?d"
    using d ok by (auto simp: dest_ok_def dest_wf_def)
  moreover have "dest_view ?d = (dest_view d)(sk \<mapsto> src_infos ?s0 @ [i])" "dest_view d sk = Some (src_infos ?s0)"
    using view_update [OF dist j(1), of s src_infos] view_nth [OF dist j(1), of src_infos] j(2)
    by (simp_all add: dest_view_def s)
  moreover have "dest_time ?d = dest_time d"
    using t j(1) ne by (cases j) (simp_all add: dest_time_nth)
  moreover note ne
  ultimately show ?thesis by (simp add: dest_pushed_def)
qed

lemma push_source_ok:
  assumes d: "dest_wf d" and i: "0 < pq_size i" "sourceKey (pq_packet i) = sk" "destKey (pq_packet i) = dst_key d"
    "\<forall>s \<in> set (dst_sources d). \<forall>i' \<in> set (src_infos s). pq_time i' \<le> pq_time i"
    and fits: "unat (dst_size d) + unat (pq_size i) < 2 ^ 64"
  shows "dest_pushed i sk d (push_source i sk d)"
proof (cases "find_index (\<lambda>s. src_key s = sk) (dst_sources d)")
  case None
  then have "sk \<notin> src_key ` set (dst_sources d)" by (auto simp: find_index_None)
  from push_new_source [OF d i fits this refl] None show ?thesis by (simp add: push_source_def)
next
  case (Some j)
  from push_old_source [OF d i fits _ _ refl, of j] find_index_Some [OF Some] Some show ?thesis
    by (simp add: push_source_def Let_def)
qed

lemma not_after_nth: "not_after t q \<Longrightarrow> k < length (q_dests q) \<Longrightarrow>
    \<forall>s \<in> set (dst_sources (q_dests q ! k)). \<forall>i \<in> set (src_infos s). pq_time i \<le> t"
  unfolding not_after_def by (metis nth_mem)

lemma dest_kv_le:
  assumes "queue_ok q" "not_after t q" "k < length (q_dests q)"
  shows "kv dest_time (q_dests q) k \<le> t"
proof -
  have d: "dest_ok (q_dests q ! k)" "dest_wf (q_dests q ! k)" using assms by (auto simp: queue_ok_def dest_ok_def)
  then have "kv dest_time (q_dests q) k = kv source_time (dst_sources (q_dests q ! k)) 0"
    by (simp add: kv_def dest_time_ok)
  moreover have "0 < length (dst_sources (q_dests q ! k))" using d(1) by (simp add: dest_ok_def)
  ultimately show ?thesis
    using source_kv_le [OF d(2) not_after_nth [OF assms(2,3)]] by simp
qed

definition queue_pushed :: "pqPacketInfo \<Rightarrow> publicKey \<Rightarrow> publicKey \<Rightarrow> packetQueue \<Rightarrow> packetQueue \<Rightarrow> bool" where
  "queue_pushed i sk dk q q' \<longleftrightarrow> queue_ok q' \<and> q_size q' = q_size q + pq_size i
     \<and> (\<forall>d s. stream q' d s = (if d = dk \<and> s = sk then stream q d s @ [i] else stream q d s))"

lemma push_new_dest:
  assumes q: "queue_ok q" "not_after (pq_time i) q" and fits: "unat (q_size q) + unat (pq_size i) < 2 ^ 64"
    and new: "dk \<notin> dst_key ` set (q_dests q)"
    and d: "dest_pushed i sk \<lparr> dst_key = dk, dst_sources = [], dst_size = 0 \<rparr> d"
  shows "queue_pushed i sk dk q (q\<lparr> q_dests := q_dests q @ [d], q_size := q_size q + pq_size i \<rparr>)"
proof -
  have d': "dest_ok d" "dst_key d = dk" "dst_size d = pq_size i" "dest_view d = Map.empty(sk \<mapsto> [i])"
    "dest_time d = Some (pq_time i)"
    using d by (simp_all add: dest_pushed_def dest_view_def view_def)
  have "is_heap dest_time (q_dests q @ [d]) (length (q_dests q @ [d]))"
    using q d'(5) dest_kv_le [OF q] by (intro heap_append [of dest_time _ d "pq_time i"]) (auto simp: queue_ok_def)
  moreover have "total_size dst_size (q_dests q @ [d]) = unat (q_size q + pq_size i)"
    using q d'(3) unat_plus [OF fits] by (simp add: queue_ok_def)
  moreover have "view dst_key dest_view (q_dests q @ [d]) = (view dst_key dest_view (q_dests q))(dk \<mapsto> dest_view d)"
    using view_append1 [of dst_key d "q_dests q" dest_view] new d'(2) by simp
  moreover have "view dst_key dest_view (q_dests q) dk = None" using new by (simp add: view_None)
  ultimately show ?thesis
    using q(1) d' new by (auto simp: queue_pushed_def queue_ok_def stream_def)
qed

lemma push_old_dest:
  assumes q: "queue_ok q" and fits: "unat (q_size q) + unat (pq_size i) < 2 ^ 64"
    and k: "k < length (q_dests q)" "dst_key (q_dests q ! k) = dk" and d: "dest_pushed i sk (q_dests q ! k) d"
  shows "queue_pushed i sk dk q (q\<lparr> q_dests := (q_dests q)[k := d], q_size := q_size q + pq_size i \<rparr>)"
proof -
  let ?d = "q_dests q ! k"
  have d0: "dest_ok ?d" using q k by (simp add: queue_ok_def)
  have d': "dest_ok d" "dst_key d = dst_key ?d" "dst_size d = dst_size ?d + pq_size i" "dest_time d = dest_time ?d"
    and vd: "dest_view d = (dest_view ?d)(sk \<mapsto> (case dest_view ?d sk of None \<Rightarrow> [] | Some infos \<Rightarrow> infos) @ [i])"
    using d d0 by (simp_all add: dest_pushed_def dest_ok_def)
  have le: "unat (dst_size ?d) \<le> unat (q_size q)" using dest_size_le [OF q k(1)] by (simp add: word_le_nat_alt)
  have size: "unat (dst_size d) = unat (dst_size ?d) + unat (pq_size i)"
    using unat_plus [of "dst_size ?d" "pq_size i"] d'(3) le fits by simp
  have dist: "distinct (map dst_key (q_dests q))" using q by (simp add: queue_ok_def)
  have "is_heap dest_time ((q_dests q)[k := d]) (length ((q_dests q)[k := d]))"
    using q d'(4) by (intro heap_same_key) (simp_all add: queue_ok_def)
  moreover have "total_size dst_size ((q_dests q)[k := d]) = unat (q_size q + pq_size i)"
    using total_update [OF k(1), of dst_size d] q unat_plus [OF fits] size by (simp add: queue_ok_def)
  moreover have "distinct (map dst_key ((q_dests q)[k := d]))" by (rule distinct_key_update [OF dist k(1) d'(2)])
  moreover have "set ((q_dests q)[k := d]) \<subseteq> insert d (set (q_dests q))" by (rule set_update_subset_insert)
  moreover have "view dst_key dest_view ((q_dests q)[k := d]) = (view dst_key dest_view (q_dests q))(dk \<mapsto> dest_view d)"
    using view_update [OF dist k(1) d'(2)] d'(2) k(2) by simp
  moreover have "view dst_key dest_view (q_dests q) dk = Some (dest_view ?d)"
    using view_nth [OF dist k(1), of dest_view] k(2) by simp
  ultimately show ?thesis
    using q d'(1) vd by (auto simp: queue_pushed_def queue_ok_def stream_def)
qed

lemma push_dest_ok:
  assumes q: "queue_ok q" "not_after (pq_time i) q" and i: "0 < pq_size i"
    and fits: "unat (q_size q) + unat (pq_size i) < 2 ^ 64"
  defines "sk \<equiv> sourceKey (pq_packet i)" and "dk \<equiv> destKey (pq_packet i)"
  shows "queue_pushed i sk dk q (push_dest i sk dk q)"
proof (cases "find_index (\<lambda>d. dst_key d = dk) (q_dests q)")
  case None
  let ?d0 = "\<lparr> dst_key = dk, dst_sources = [], dst_size = 0 \<rparr>"
  have "dest_wf ?d0" by (simp add: dest_wf_def heap_except_def)
  then have "dest_pushed i sk ?d0 (push_source i sk ?d0)"
    using i by (intro push_source_ok) (simp_all add: sk_def dk_def)
  moreover have "dk \<notin> dst_key ` set (q_dests q)" using None by (auto simp: find_index_None)
  ultimately show ?thesis using push_new_dest [OF q fits] None by (simp add: push_dest_def)
next
  case (Some k)
  then have k: "k < length (q_dests q)" "dst_key (q_dests q ! k) = dk" using find_index_Some by fastforce+
  have "unat (dst_size (q_dests q ! k)) + unat (pq_size i) < 2 ^ 64"
    using dest_size_le [OF q(1) k(1)] fits by (simp add: word_le_nat_alt)
  then have "dest_pushed i sk (q_dests q ! k) (push_source i sk (q_dests q ! k))"
    using i k(2) nonempty_at(1) [OF q(1) k(1)] not_after_nth [OF q(2) k(1)]
    by (intro push_source_ok) (simp_all add: sk_def dk_def)
  then show ?thesis using push_old_dest [OF q(1) fits k] Some by (simp add: push_dest_def Let_def)
qed

subsection \<open>The contract\<close>

text \<open>One packet leaves the front of its stream; one packet joins the end of its stream.\<close>

type_synonym flows = "publicKey \<Rightarrow> publicKey \<Rightarrow> pqPacketInfo list"

definition flow_took :: "pqPacketInfo \<Rightarrow> flows \<Rightarrow> flows \<Rightarrow> bool" where
  "flow_took i f f' \<longleftrightarrow>
     (let d = destKey (pq_packet i); s = sourceKey (pq_packet i) in
      f d s = i # f' d s \<and> (\<forall>d' s'. (d', s') \<noteq> (d, s) \<longrightarrow> f' d' s' = f d' s'))"

definition flow_added :: "pqPacketInfo \<Rightarrow> flows \<Rightarrow> flows \<Rightarrow> bool" where
  "flow_added i f f' \<longleftrightarrow>
     (let d = destKey (pq_packet i); s = sourceKey (pq_packet i) in
      f' d s = f d s @ [i] \<and> (\<forall>d' s'. (d', s') \<noteq> (d, s) \<longrightarrow> f' d' s' = f d' s'))"

lemma packet_size_ok: "\<exists>n. packet_size packet = Inr n \<and> 0 < n"
  by (cases packet) (simp_all add: wire_simps lookup_bytes_def notify_bytes_def broken_bytes_def traffic_bytes_def
      flip: length_greater_0_conv)

lemma stream_at:
  assumes "queue_ok q" "k < length (q_dests q)" "j < length (dst_sources (q_dests q ! k))"
  shows "stream q (dst_key (q_dests q ! k)) (src_key (dst_sources (q_dests q ! k) ! j)) = src_infos (dst_sources (q_dests q ! k) ! j)"
  using stream_nth [OF assms(1,2)] view_nth [OF _ assms(3), of src_key src_infos] nonempty_at(1) [OF assms(1,2)]
  by (simp add: dest_view_def dest_wf_def)

lemma stream_member:
  assumes "queue_ok q" "i \<in> set (stream q d s)"
  obtains k j where "k < length (q_dests q)" "j < length (dst_sources (q_dests q ! k))"
    "dst_key (q_dests q ! k) = d" "src_key (dst_sources (q_dests q ! k) ! j) = s"
    "i \<in> set (src_infos (dst_sources (q_dests q ! k) ! j))"
proof -
  obtain v where v1: "view dst_key dest_view (q_dests q) d = Some v"
    using assms(2) by (cases "view dst_key dest_view (q_dests q) d") (simp_all add: stream_def)
  obtain infos where v2: "v s = Some infos"
    using assms(2) v1 by (cases "v s") (simp_all add: stream_def)
  have v: "view dst_key dest_view (q_dests q) d = Some v" "v s = Some infos" "i \<in> set infos"
    using assms(2) v1 v2 by (simp_all add: stream_def)
  obtain k where k: "k < length (q_dests q)" "dst_key (q_dests q ! k) = d" "dest_view (q_dests q ! k) = v"
    using view_SomeD [OF v(1)] by blast
  have "view src_key src_infos (dst_sources (q_dests q ! k)) s = Some infos" using k(3) v(2) by (simp add: dest_view_def)
  then obtain j where "j < length (dst_sources (q_dests q ! k))" "src_key (dst_sources (q_dests q ! k) ! j) = s"
      "src_infos (dst_sources (q_dests q ! k) ! j) = infos"
    using view_SomeD by fast
  with k v(3) that show ?thesis by blast
qed

lemma queue_took_flow:
  assumes q: "queue_ok q" "k < length (q_dests q)" "j < length (dst_sources (q_dests q ! k))" "queue_took q k j q'"
  shows "flow_took (hd (src_infos (dst_sources (q_dests q ! k) ! j))) (stream q) (stream q')"
proof -
  let ?d = "q_dests q ! k"
  let ?s = "dst_sources ?d ! j"
  have ok: "source_ok (dst_key ?d) ?s" by (rule nonempty_at(3) [OF q(1-3)])
  then have ne: "src_infos ?s \<noteq> []" by (simp add: source_ok_def)
  then have "sourceKey (pq_packet (hd (src_infos ?s))) = src_key ?s" "destKey (pq_packet (hd (src_infos ?s))) = dst_key ?d"
    using ok by (auto simp: source_ok_def)
  then show ?thesis
    using q(4) stream_at [OF q(1-3)] ne by (auto simp: flow_took_def queue_took_def Let_def)
qed

lemma head_oldest:
  assumes q: "queue_ok q" "q_dests q \<noteq> []" and i: "i \<in> set (stream q d s)"
  shows "pq_time (hd (src_infos (dst_sources (q_dests q ! 0) ! 0))) \<le> pq_time i"
proof -
  obtain k j where kj: "k < length (q_dests q)" "j < length (dst_sources (q_dests q ! k))"
      "i \<in> set (src_infos (dst_sources (q_dests q ! k) ! j))"
    using stream_member [OF q(1) i] by metis
  let ?h = "\<lambda>k j. pq_time (hd (src_infos (dst_sources (q_dests q ! k) ! j)))"
  have src: "kv source_time (dst_sources (q_dests q ! k)) j = ?h k j"
    if "k < length (q_dests q)" "j < length (dst_sources (q_dests q ! k))" for k j
    using source_time_ok [OF nonempty_at(3) [OF q(1) that]] by (simp add: kv_def)
  have dst: "kv dest_time (q_dests q) k = ?h k 0" if "k < length (q_dests q)" for k
  proof -
    have "dest_ok (q_dests q ! k)" using q(1) that by (simp add: queue_ok_def)
    then have "dest_time (q_dests q ! k) = source_time (dst_sources (q_dests q ! k) ! 0)" "0 < length (dst_sources (q_dests q ! k))"
      using dest_time_ok(1) by (auto simp: dest_ok_def)
    then show ?thesis using src [OF that] by (simp add: kv_def)
  qed
  have "?h 0 0 \<le> ?h k 0"
    using heap_min [of dest_time "q_dests q" "length (q_dests q)" k] q kj(1) dst [of 0] dst [of k] by (simp add: queue_ok_def)
  also have "\<dots> \<le> ?h k j"
    using heap_min [of source_time "dst_sources (q_dests q ! k)" "length (dst_sources (q_dests q ! k))" j] nonempty_at(1,2) [OF q(1) kj(1)] kj(2)
      src [OF kj(1), of 0] src [OF kj(1,2)] by (simp add: dest_wf_def)
  also have "\<dots> \<le> pq_time i"
    using nonempty_at(3) [OF q(1) kj(1,2)] kj(3)
    by (cases "src_infos (dst_sources (q_dests q ! k) ! j)") (auto simp: source_ok_def)
  finally show ?thesis .
qed

lemma stream_all_empty: "queue_ok q \<Longrightarrow> q_dests q = [] \<longleftrightarrow> (\<forall>d s. stream q d s = [])"
proof (cases "q_dests q = []")
  case False
  assume q: "queue_ok q"
  have k: "0 < length (q_dests q)" using False by simp
  have j: "0 < length (dst_sources (q_dests q ! 0))" using nonempty_at(2) [OF q k] by simp
  have "src_infos (dst_sources (q_dests q ! 0) ! 0) \<noteq> []"
    using nonempty_at(3) [OF q k j] by (simp add: source_ok_def)
  with stream_at [OF q k j] False show ?thesis by metis
qed (simp add: stream_def view_def)

text \<open>The bytes queued for a destination.\<close>

definition backlog :: "flows \<Rightarrow> publicKey \<Rightarrow> nat" where
  "backlog f d = (\<Sum>s | f d s \<noteq> []. total_size pq_size (f d s))"

lemma backlog_at:
  assumes q: "queue_ok q" "k < length (q_dests q)"
  shows "backlog (stream q) (dst_key (q_dests q ! k)) = unat (dst_size (q_dests q ! k))"
proof -
  let ?d = "q_dests q ! k"
  note d = nonempty_at [OF q]
  have inj: "inj_on src_key (set (dst_sources ?d))" and dist: "distinct (dst_sources ?d)"
    using d(1) by (auto simp: dest_wf_def distinct_map)
  have at: "stream q (dst_key ?d) (src_key s) = src_infos s \<and> source_ok (dst_key ?d) s" if "s \<in> set (dst_sources ?d)" for s
    using that stream_at [OF q] d(3) by (auto simp: in_set_conv_nth)
  have "{s. stream q (dst_key ?d) s \<noteq> []} = src_key ` set (dst_sources ?d)"
  proof
    show "{s. stream q (dst_key ?d) s \<noteq> []} \<subseteq> src_key ` set (dst_sources ?d)"
      using stream_nth [OF q] by (auto simp: dest_view_def view_None split: option.splits)
    show "src_key ` set (dst_sources ?d) \<subseteq> {s. stream q (dst_key ?d) s \<noteq> []}"
      using at by (auto simp: source_ok_def)
  qed
  then have "backlog (stream q) (dst_key ?d) = (\<Sum>s \<in> set (dst_sources ?d). total_size pq_size (stream q (dst_key ?d) (src_key s)))"
    using inj by (simp add: backlog_def sum.reindex)
  also have "\<dots> = (\<Sum>s \<in> set (dst_sources ?d). unat (src_size s))"
    using at by (intro sum.cong) (auto simp: source_ok_def)
  also have "\<dots> = total_size src_size (dst_sources ?d)"
    using dist by (simp add: total_size_def sum_list_distinct_conv_sum_set)
  finally show ?thesis using d(1) by (simp add: dest_wf_def)
qed

lemma backlog_other: "queue_ok q \<Longrightarrow> d \<notin> dst_key ` set (q_dests q) \<Longrightarrow> backlog (stream q) d = 0"
  by (simp add: backlog_def stream_def view_None [THEN iffD2])

lemma drop_picks_largest:
  assumes q: "queue_ok q" "q_dests q \<noteq> []"
  defines "k \<equiv> largest dst_size (q_dests q)"
  defines "j \<equiv> largest src_size (dst_sources (q_dests q ! k))"
  shows "backlog (stream q) d \<le> backlog (stream q) (dst_key (q_dests q ! k))"
    and "total_size pq_size (stream q (dst_key (q_dests q ! k)) s)
      \<le> total_size pq_size (stream q (dst_key (q_dests q ! k)) (src_key (dst_sources (q_dests q ! k) ! j)))"
proof -
  have k: "k < length (q_dests q)" "\<And>d. d \<in> set (q_dests q) \<Longrightarrow> dst_size d \<le> dst_size (q_dests q ! k)"
    using largest_spec [OF q(2), of dst_size] by (auto simp: k_def)
  let ?ss = "dst_sources (q_dests q ! k)"
  have j: "j < length ?ss" "\<And>s. s \<in> set ?ss \<Longrightarrow> src_size s \<le> src_size (?ss ! j)"
    using largest_spec [OF nonempty_at(2) [OF q(1) k(1)], of src_size] by (auto simp: j_def)
  show "backlog (stream q) d \<le> backlog (stream q) (dst_key (q_dests q ! k))"
  proof (cases "d \<in> dst_key ` set (q_dests q)")
    case True
    then obtain k' where "k' < length (q_dests q)" "d = dst_key (q_dests q ! k')" by (auto simp: in_set_conv_nth)
    then show ?thesis using backlog_at [OF q(1)] k by (simp add: word_le_nat_alt)
  qed (use backlog_other [OF q(1)] in simp)
  have size: "total_size pq_size (src_infos (?ss ! i)) = unat (src_size (?ss ! i))" if "i < length ?ss" for i
    using nonempty_at(3) [OF q(1) k(1) that] by (simp add: source_ok_def)
  have "total_size pq_size (stream q (dst_key (q_dests q ! k)) s) \<le> unat (src_size (?ss ! j))"
  proof (cases "view src_key src_infos ?ss s")
    case None
    then show ?thesis using stream_nth [OF q(1) k(1)] by (simp add: dest_view_def)
  next
    case (Some infos)
    then obtain i where i: "i < length ?ss" "src_infos (?ss ! i) = infos" using view_SomeD by fast
    then have "total_size pq_size infos = unat (src_size (?ss ! i))" using size [of i] by simp
    moreover have "src_size (?ss ! i) \<le> src_size (?ss ! j)" using j(2) i(1) by simp
    ultimately show ?thesis using Some stream_nth [OF q(1) k(1)] by (simp add: dest_view_def word_le_nat_alt)
  qed
  then show "total_size pq_size (stream q (dst_key (q_dests q ! k)) s)
      \<le> total_size pq_size (stream q (dst_key (q_dests q ! k)) (src_key (?ss ! j)))"
    using stream_at [OF q(1) k(1) j(1)] size [OF j(1)] by simp
qed

subsection \<open>Arrivals and the clock\<close>

lemma not_after_stream: "queue_ok q \<Longrightarrow> not_after t q \<longleftrightarrow> (\<forall>d s. \<forall>i \<in> set (stream q d s). pq_time i \<le> t)"
proof
  assume q: "queue_ok q" and "not_after t q"
  then show "\<forall>d s. \<forall>i \<in> set (stream q d s). pq_time i \<le> t"
    unfolding not_after_def by (meson nth_mem stream_member)
next
  assume q: "queue_ok q" and all: "\<forall>d s. \<forall>i \<in> set (stream q d s). pq_time i \<le> t"
  show "not_after t q"
    unfolding not_after_def using all stream_at [OF q] by (metis in_set_conv_nth)
qed

lemma queue_push_spec:
  assumes "queue_ok q" "not_after now q" "packet_size packet = Inr n" "unat (q_size q) + n < 2 ^ 64"
  shows "\<exists>q'. queue_push now q packet = Inr q' \<and> queue_ok q' \<and> unat (q_size q') = unat (q_size q) + n
    \<and> flow_added (new_info now packet n) (stream q) (stream q')"
proof -
  let ?i = "new_info now packet n"
  have n: "0 < n" using packet_size_ok [of packet] assms(3) by auto
  have sz: "unat (pq_size ?i) = n" using assms(4) by (simp add: new_info_def unat64_of_nat)
  then have "queue_pushed ?i (sourceKey packet) (destKey packet) q (push_dest ?i (sourceKey packet) (destKey packet) q)"
    using push_dest_ok [OF assms(1), of ?i] assms(2,4) n by (simp add: new_info_def word_less_nat_alt)
  then show ?thesis
    using queue_push_levels [OF assms(3)] sz assms(4) unat_plus [of "q_size q" "pq_size ?i"]
    by (auto simp: queue_pushed_def flow_added_def new_info_def Let_def)
qed

lemma took_not_after: "flow_took i f f' \<Longrightarrow> set (f' d s) \<subseteq> set (f d s)"
  by (auto simp: flow_took_def Let_def) (metis list.set_intros(2) prod.inject)

lemma took_fits:
  assumes "queue_took q k j q'" "queue_ok q" "k < length (q_dests q)" "j < length (dst_sources (q_dests q ! k))"
  shows "q_size q' < q_size q"
proof -
  let ?i = "hd (src_infos (dst_sources (q_dests q ! k) ! j))"
  have "pq_size ?i \<le> q_size q"
    using hd_size_le(2) [OF nonempty_at(1) [OF assms(2,3)] assms(4)] dest_size_le [OF assms(2,3)] by simp
  moreover have "0 < pq_size ?i"
    using nonempty_at(3) [OF assms(2-4)] by (simp add: source_ok_def)
  ultimately show ?thesis
    using assms(1) by (simp add: queue_took_def Let_def word_less_nat_alt word_le_nat_alt unat_minus)
qed

lemma queue_pop_spec:
  assumes "queue_ok q"
  shows "if \<forall>d s. stream q d s = [] then queue_pop q = Inr (q, None)
    else \<exists>q' i. queue_pop q = Inr (q', Some i) \<and> queue_ok q' \<and> q_size q' < q_size q \<and> flow_took i (stream q) (stream q')
      \<and> (\<forall>d s. \<forall>i' \<in> set (stream q d s). pq_time i \<le> pq_time i')"
proof (cases "q_dests q = []")
  case True
  then show ?thesis using assms stream_all_empty queue_size_pos by (auto simp: queue_pop_def)
next
  case False
  have at: "0 < length (q_dests q)" "0 < length (dst_sources (q_dests q ! 0))"
    using False nonempty_at(2) [OF assms, of 0] by auto
  obtain q' where q': "queue_pop q = Inr (q', Some (hd (src_infos (dst_sources (q_dests q ! 0) ! 0))))" "queue_took q 0 0 q'"
    using queue_pop_took [OF assms False] by blast
  have "queue_ok q'" using q'(2) by (simp add: queue_took_def Let_def)
  with q' queue_took_flow [OF assms at q'(2)] took_fits [OF q'(2) assms at] head_oldest [OF assms False]
    stream_all_empty [OF assms] False
  show ?thesis by auto
qed

lemma queue_drop_spec:
  assumes "queue_ok q"
  shows "if \<forall>d s. stream q d s = [] then queue_drop q = Inr (q, False)
    else \<exists>q' i. queue_drop q = Inr (q', True) \<and> queue_ok q' \<and> q_size q' < q_size q \<and> flow_took i (stream q) (stream q')
      \<and> (\<forall>d. backlog (stream q) d \<le> backlog (stream q) (destKey (pq_packet i)))
      \<and> (\<forall>s. total_size pq_size (stream q (destKey (pq_packet i)) s)
          \<le> total_size pq_size (stream q (destKey (pq_packet i)) (sourceKey (pq_packet i))))"
proof (cases "q_dests q = []")
  case True
  then show ?thesis using assms stream_all_empty queue_size_pos by (auto simp: queue_drop_def word_gt_0)
next
  case False
  define k where "k = largest dst_size (q_dests q)"
  define j where "j = largest src_size (dst_sources (q_dests q ! k))"
  have k: "k < length (q_dests q)" using largest_spec [OF False] by (simp add: k_def)
  have j: "j < length (dst_sources (q_dests q ! k))"
    using largest_spec [OF nonempty_at(2) [OF assms k]] by (simp add: j_def)
  let ?i = "hd (src_infos (dst_sources (q_dests q ! k) ! j))"
  have "?i \<in> set (src_infos (dst_sources (q_dests q ! k) ! j))"
    using nonempty_at(3) [OF assms k j] by (simp add: source_ok_def)
  then have keys: "destKey (pq_packet ?i) = dst_key (q_dests q ! k)" "sourceKey (pq_packet ?i) = src_key (dst_sources (q_dests q ! k) ! j)"
    using nonempty_at(3) [OF assms k j] by (simp_all add: source_ok_def)
  obtain q' where q': "queue_drop q = Inr (q', True)" "queue_took q k j q'"
    using queue_drop_took [OF assms False] by (auto simp: k_def j_def)
  have "queue_ok q'" using q'(2) by (simp add: queue_took_def Let_def)
  then have "queue_drop q = Inr (q', True) \<and> queue_ok q' \<and> q_size q' < q_size q \<and> flow_took ?i (stream q) (stream q')
      \<and> (\<forall>d. backlog (stream q) d \<le> backlog (stream q) (destKey (pq_packet ?i)))
      \<and> (\<forall>s. total_size pq_size (stream q (destKey (pq_packet ?i)) s)
          \<le> total_size pq_size (stream q (destKey (pq_packet ?i)) (sourceKey (pq_packet ?i))))"
    using q' queue_took_flow [OF assms k j q'(2)] took_fits [OF q'(2) assms k j]
      drop_picks_largest [OF assms False, folded k_def, folded j_def] by (simp add: keys)
  then show ?thesis using stream_all_empty [OF assms] False by metis
qed

lemma queue_peek_spec:
  assumes "queue_ok q"
  shows "if \<forall>d s. stream q d s = [] then queue_peek q = Inr None
    else \<exists>i. queue_peek q = Inr (Some i) \<and> i \<in> set (stream q (destKey (pq_packet i)) (sourceKey (pq_packet i)))
      \<and> (\<forall>d s. \<forall>i' \<in> set (stream q d s). pq_time i \<le> pq_time i')"
proof (cases "q_dests q = []")
  case True
  then show ?thesis using assms stream_all_empty by (auto simp: queue_peek_def)
next
  case False
  then have k: "0 < length (q_dests q)" by simp
  then have j: "0 < length (dst_sources (q_dests q ! 0))" using nonempty_at(2) [OF assms, of 0] by simp
  let ?s = "dst_sources (q_dests q ! 0) ! 0"
  have s: "source_ok (dst_key (q_dests q ! 0)) ?s" by (rule nonempty_at(3) [OF assms k j])
  then have ne: "src_infos ?s \<noteq> []" by (simp add: source_ok_def)
  then have "hd (src_infos ?s) \<in> set (src_infos ?s)" by simp
  with s stream_at [OF assms k j] head_oldest [OF assms False] stream_all_empty [OF assms] False k j ne
  show ?thesis by (auto simp: queue_peek_def index_hd source_ok_def hd_conv_nth)
qed

end
