(* ===== verification/PacketBuffer.thy ===== *)
theory PacketBuffer
  imports PacketQueueSpec
begin

text \<open>
  The interface the peers and the packet conn use of the packet queue, as the locale
  \<open>packet_buffer\<close>: per-stream FIFOs with a byte count. Inside it, what the enqueue policy
  (\<open>peek\<close>, maybe \<open>drop\<close>, \<open>push\<close>) guarantees; then the interpretation on
  \<^verbatim>\<open>packetqueue.go\<close>, and the queue as a refinement of FIFOs.
\<close>

definition all_before :: "flows \<Rightarrow> int \<Rightarrow> bool" where
  "all_before f now \<longleftrightarrow> (\<forall>d s. \<forall>i \<in> set (f d s). pq_time i \<le> now)"

definition oldest :: "flows \<Rightarrow> pqPacketInfo \<Rightarrow> bool" where
  "oldest f i \<longleftrightarrow> (\<forall>d s. \<forall>i' \<in> set (f d s). pq_time i \<le> pq_time i')"

definition heaviest :: "flows \<Rightarrow> pqPacketInfo \<Rightarrow> bool" where
  "heaviest f i \<longleftrightarrow> (\<forall>d. backlog f d \<le> backlog f (destKey (pq_packet i)))
     \<and> (\<forall>s. total_size pq_size (f (destKey (pq_packet i)) s)
         \<le> total_size pq_size (f (destKey (pq_packet i)) (sourceKey (pq_packet i))))"

lemma all_before_took: "flow_took i f f' \<Longrightarrow> all_before f now \<Longrightarrow> all_before f' now"
  unfolding all_before_def using took_not_after by blast

lemma all_before_added:
  "flow_added i f f' \<Longrightarrow> all_before f now \<Longrightarrow> pq_time i \<le> now \<Longrightarrow> all_before f' now"
  by (simp add: all_before_def flow_added_def Let_def) (metis Un_iff empty_iff empty_set set_ConsD set_append)

lemma all_before_mono: "all_before f now \<Longrightarrow> now \<le> later \<Longrightarrow> all_before f later"
  by (fastforce simp: all_before_def)

locale packet_buffer =
  fixes ok :: "'q \<Rightarrow> bool" and flows_of :: "'q \<Rightarrow> flows" and load :: "'q \<Rightarrow> nat"
    and push :: "int \<Rightarrow> 'q \<Rightarrow> pqPacket \<Rightarrow> 'q result"
    and pop :: "'q \<Rightarrow> ('q \<times> pqPacketInfo option) result"
    and drop_one :: "'q \<Rightarrow> ('q \<times> bool) result"
    and peek :: "'q \<Rightarrow> pqPacketInfo option result"
  assumes push_law: "ok q \<Longrightarrow> all_before (flows_of q) now \<Longrightarrow> packet_size p = Inr n \<Longrightarrow> load q + n < 2 ^ 64 \<Longrightarrow>
      \<exists>q'. push now q p = Inr q' \<and> ok q' \<and> load q' = load q + n
        \<and> flow_added (new_info now p n) (flows_of q) (flows_of q')"
    and pop_empty: "ok q \<Longrightarrow> \<forall>d s. flows_of q d s = [] \<Longrightarrow> pop q = Inr (q, None)"
    and pop_law: "ok q \<Longrightarrow> \<not> (\<forall>d s. flows_of q d s = []) \<Longrightarrow>
      \<exists>q' i. pop q = Inr (q', Some i) \<and> ok q' \<and> load q' < load q \<and> flow_took i (flows_of q) (flows_of q')
        \<and> oldest (flows_of q) i"
    and drop_empty: "ok q \<Longrightarrow> \<forall>d s. flows_of q d s = [] \<Longrightarrow> drop_one q = Inr (q, False)"
    and drop_law: "ok q \<Longrightarrow> \<not> (\<forall>d s. flows_of q d s = []) \<Longrightarrow>
      \<exists>q' i. drop_one q = Inr (q', True) \<and> ok q' \<and> load q' < load q \<and> flow_took i (flows_of q) (flows_of q')
        \<and> heaviest (flows_of q) i"
    and peek_empty: "ok q \<Longrightarrow> \<forall>d s. flows_of q d s = [] \<Longrightarrow> peek q = Inr None"
    and peek_law: "ok q \<Longrightarrow> \<not> (\<forall>d s. flows_of q d s = []) \<Longrightarrow>
      \<exists>i. peek q = Inr (Some i) \<and> oldest (flows_of q) i"
begin

text \<open>At most one packet, of the heaviest stream, makes room for the new one.\<close>

lemma enqueue_law:
  assumes "ok q" "all_before (flows_of q) now" "packet_size p = Inr n" "load q + n < 2 ^ 64"
  shows "\<exists>q' f.
    and_then (peek q) (\<lambda>head.
     and_then (case head of
         None \<Rightarrow> Inr q
       | Some info \<Rightarrow> if limit < time_sub now (pq_time info) then and_then (drop_one q) (\<lambda>(q', _). Inr q') else Inr q)
       (\<lambda>q'. push now q' p)) = Inr q'
    \<and> ok q' \<and> load q' \<le> load q + n \<and> all_before (flows_of q') now
    \<and> (f = flows_of q \<or> (\<exists>i. flow_took i (flows_of q) f \<and> heaviest (flows_of q) i))
    \<and> flow_added (new_info now p n) f (flows_of q')"
proof -
  obtain q1 f where q1: "and_then (peek q) (\<lambda>head. case head of
         None \<Rightarrow> Inr q
       | Some info \<Rightarrow> if limit < time_sub now (pq_time info) then and_then (drop_one q) (\<lambda>(q', _). Inr q') else Inr q) = Inr q1"
      "ok q1" "load q1 \<le> load q" "f = flows_of q1"
      "f = flows_of q \<or> (\<exists>i. flow_took i (flows_of q) f \<and> heaviest (flows_of q) i)"
  proof (cases "\<forall>d s. flows_of q d s = []")
    case True
    then show ?thesis using that [of q] peek_empty assms(1) by simp
  next
    case False
    obtain i where i: "peek q = Inr (Some i)" using peek_law [OF assms(1) False] by blast
    obtain q' i' where "drop_one q = Inr (q', True)" "ok q'" "load q' < load q" "flow_took i' (flows_of q) (flows_of q')"
        "heaviest (flows_of q) i'"
      using drop_law [OF assms(1) False] by blast
    with that [of q] that [of q'] i assms(1) show ?thesis by (cases "limit < time_sub now (pq_time i)") auto
  qed
  have before: "all_before (flows_of q1) now"
    using assms(2) q1(4,5) all_before_took by auto
  obtain q' where q': "push now q1 p = Inr q'" "ok q'" "load q' = load q1 + n"
      "flow_added (new_info now p n) (flows_of q1) (flows_of q')"
    using push_law [OF q1(2) before assms(3)] assms(4) q1(3) by auto
  have "all_before (flows_of q') now"
    by (rule all_before_added [OF q'(4) before]) (simp add: new_info_def)
  with q1 q' show ?thesis
    by (intro exI [of _ q'] exI [of _ f]) (auto simp: and_then_eq_Inr)
qed

end

interpretation pq: packet_buffer queue_ok stream "\<lambda>q. unat (q_size q)" queue_push queue_pop queue_drop queue_peek
proof (unfold_locales, goal_cases)
  case (1 q now p n)
  then show ?case using queue_push_spec [OF 1(1) _ 1(3,4)] not_after_stream [OF 1(1)] by (simp add: all_before_def)
next
  case (2 q)
  then show ?case using queue_pop_spec [OF 2(1)] by simp
next
  case (3 q)
  then show ?case using queue_pop_spec [OF 3(1)] by (simp only: 3(2) if_False oldest_def word_less_nat_alt)
next
  case (4 q)
  then show ?case using queue_drop_spec [OF 4(1)] by simp
next
  case (5 q)
  then show ?case using queue_drop_spec [OF 5(1)] by (simp only: 5(2) if_False heaviest_def word_less_nat_alt)
next
  case (6 q)
  then show ?case using queue_peek_spec [OF 6(1)] by simp
next
  case (7 q)
  have "\<exists>i. queue_peek q = Inr (Some i) \<and> oldest (stream q) i"
    using queue_peek_spec [OF 7(1)] by (simp only: 7(2) if_False oldest_def) blast
  then show ?case .
qed

lemma enqueue_ok:
  assumes "queue_ok q" "all_before (stream q) now" "packet_size p = Inr n" "unat (q_size q) + n < 2 ^ 64"
  shows "\<exists>q' f. enqueue now q p = Inr q' \<and> queue_ok q' \<and> unat (q_size q') \<le> unat (q_size q) + n
    \<and> all_before (stream q') now
    \<and> (f = stream q \<or> (\<exists>i. flow_took i (stream q) f \<and> heaviest (stream q) i))
    \<and> flow_added (new_info now p n) f (stream q')"
  unfolding enqueue_def by (rule pq.enqueue_law [OF assms])

subsection \<open>Runs of the queue\<close>

datatype queue_op = QPush int pqPacket | QPop | QDrop

text \<open>The queue after some operations, and the packets that \<open>pop\<close> returned.\<close>

fun queue_run :: "queue_op list \<Rightarrow> packetQueue \<Rightarrow> (packetQueue \<times> pqPacketInfo list) result" where
  "queue_run [] q = Inr (q, [])"
| "queue_run (QPush now p # ops) q = and_then (queue_push now q p) (queue_run ops)"
| "queue_run (QPop # ops) q =
     and_then (queue_pop q) (\<lambda>(q', got).
     and_then (queue_run ops q') (\<lambda>(q'', outs).
       Inr (q'', case got of None \<Rightarrow> outs | Some i \<Rightarrow> i # outs)))"
| "queue_run (QDrop # ops) q = and_then (queue_drop q) (\<lambda>(q', _). queue_run ops q')"

text \<open>The specification: a FIFO per destination and source.\<close>

inductive fifo_run :: "queue_op list \<Rightarrow> flows \<Rightarrow> pqPacketInfo list \<Rightarrow> flows \<Rightarrow> bool" where
  fifo_nil: "fifo_run [] f [] f"
| fifo_push: "packet_size p = Inr n \<Longrightarrow> flow_added (new_info now p n) f g \<Longrightarrow> fifo_run ops g outs h \<Longrightarrow>
    fifo_run (QPush now p # ops) f outs h"
| fifo_pop: "flow_took i f g \<Longrightarrow> oldest f i \<Longrightarrow> fifo_run ops g outs h \<Longrightarrow> fifo_run (QPop # ops) f (i # outs) h"
| fifo_drop: "flow_took i f g \<Longrightarrow> heaviest f i \<Longrightarrow> fifo_run ops g outs h \<Longrightarrow> fifo_run (QDrop # ops) f outs h"
| fifo_none: "\<forall>d s. f d s = [] \<Longrightarrow> op \<in> {QPop, QDrop} \<Longrightarrow> fifo_run ops f outs h \<Longrightarrow> fifo_run (op # ops) f outs h"

fun push_times :: "queue_op list \<Rightarrow> int list" where
  "push_times [] = []"
| "push_times (QPush now _ # ops) = now # push_times ops"
| "push_times (_ # ops) = push_times ops"

fun push_bytes :: "queue_op list \<Rightarrow> nat" where
  "push_bytes [] = 0"
| "push_bytes (QPush _ p # ops) = (case packet_size p of Inr n \<Rightarrow> n | Inl _ \<Rightarrow> 0) + push_bytes ops"
| "push_bytes (_ # ops) = push_bytes ops"

lemma queue_run_refines:
  assumes "queue_ok q" "sorted (push_times ops)" "\<forall>t \<in> set (push_times ops). all_before (stream q) t"
    "unat (q_size q) + push_bytes ops < 2 ^ 64"
  shows "\<exists>q' outs. queue_run ops q = Inr (q', outs) \<and> queue_ok q' \<and> fifo_run ops (stream q) outs (stream q')"
  using assms
proof (induction ops arbitrary: q)
  case Nil
  then show ?case by (auto intro: fifo_nil)
next
  case (Cons op ops)
  show ?case
  proof (cases op)
    case (QPush now p)
    obtain n where n: "packet_size p = Inr n" using packet_size_ok [of p] by blast
    obtain q1 where q1: "queue_push now q p = Inr q1" "queue_ok q1" "unat (q_size q1) = unat (q_size q) + n"
        "flow_added (new_info now p n) (stream q) (stream q1)"
      using pq.push_law [OF Cons.prems(1) _ n, of now] Cons.prems(3,4) QPush n by auto
    have "all_before (stream q1) t" if "t \<in> set (push_times ops)" for t
      using all_before_added [OF q1(4), of t] Cons.prems(2,3) QPush that by (auto simp: new_info_def)
    then show ?thesis
      using Cons.IH [OF q1(2)] Cons.prems(2,4) QPush q1 n by (fastforce intro: fifo_push)
  next
    case QPop
    show ?thesis
    proof (cases "\<forall>d s. stream q d s = []")
      case True
      then show ?thesis
        using Cons.IH [OF Cons.prems(1)] Cons.prems(2-4) QPop pq.pop_empty [OF Cons.prems(1) True] by (fastforce intro: fifo_none)
    next
      case False
      obtain q1 i where q1: "queue_pop q = Inr (q1, Some i)" "queue_ok q1" "unat (q_size q1) < unat (q_size q)"
          "flow_took i (stream q) (stream q1)" "oldest (stream q) i"
        using pq.pop_law [OF Cons.prems(1) False] by blast
      then show ?thesis
        using Cons.IH [OF q1(2)] Cons.prems(2-4) QPop all_before_took [OF q1(4)] by (fastforce intro: fifo_pop)
    qed
  next
    case QDrop
    show ?thesis
    proof (cases "\<forall>d s. stream q d s = []")
      case True
      then show ?thesis
        using Cons.IH [OF Cons.prems(1)] Cons.prems(2-4) QDrop pq.drop_empty [OF Cons.prems(1) True] by (fastforce intro: fifo_none)
    next
      case False
      obtain q1 i where q1: "queue_drop q = Inr (q1, True)" "queue_ok q1" "unat (q_size q1) < unat (q_size q)"
          "flow_took i (stream q) (stream q1)" "heaviest (stream q) i"
        using pq.drop_law [OF Cons.prems(1) False] by blast
      then show ?thesis
        using Cons.IH [OF q1(2)] Cons.prems(2-4) QDrop all_before_took [OF q1(4)] by (fastforce intro: fifo_drop)
    qed
  qed
qed

subsection \<open>Properties\<close>

text \<open>
  C4. The two-level heap of \<^verbatim>\<open>packetqueue.go\<close> refines one FIFO per pair of destination and source. Any
  sequence of \<open>push\<close>, \<open>pop\<close> and \<open>drop\<close> on an empty queue, with a clock that does not go back and less
  than \<open>2^64\<close> bytes pushed, runs without a panic; it appends each pushed packet to its FIFO, \<open>pop\<close> returns
  the front of a FIFO and none of the queued packets is older, and \<open>drop\<close> discards the front of the
  largest FIFO of the destination with the most bytes.
\<close>

theorem queue_refines_fifos:
  assumes "sorted (push_times ops)" "push_bytes ops < 2 ^ 64"
  shows "\<exists>q outs. queue_run ops empty_queue = Inr (q, outs) \<and> queue_ok q \<and> fifo_run ops (\<lambda>_ _. []) outs (stream q)"
proof -
  have "unat (q_size empty_queue) = 0" by (simp add: empty_queue_def)
  then show ?thesis
    using queue_run_refines [OF empty_queue_ok assms(1)] assms(2) by (simp add: stream_empty all_before_def)
qed

definition sample_packet :: "publicKey \<Rightarrow> publicKey \<Rightarrow> byte \<Rightarrow> pqPacket" where
  "sample_packet source dest b = Traffic \<lparr> tr_path = [], tr_from = [], tr_source = source, tr_dest = dest,
     tr_watermark = 0, tr_payload = [b] \<rparr>"

definition sample_ops :: "queue_op list" where
  "sample_ops = [QPush 5 (sample_packet 1 2 7), QPush 6 (sample_packet 3 2 8), QPush 6 (sample_packet 1 2 9), QPop, QDrop]"

lemma sample_packet_size: "packet_size (sample_packet s d b) = Inr 68"
  by (simp add: sample_packet_def traffic_size_def wireSizePath_def publicKeySize_def) code_simp

theorem queue_refines_fifos_witness:
  "sorted (push_times sample_ops) \<and> push_bytes sample_ops < 2 ^ 64
   \<and> (\<exists>q outs. queue_run sample_ops empty_queue = Inr (q, outs) \<and> queue_ok q
      \<and> fifo_run sample_ops (\<lambda>_ _. []) outs (stream q))"
proof -
  have h: "sorted (push_times sample_ops)" "push_bytes sample_ops < 2 ^ 64"
    by (simp_all add: sample_ops_def sample_packet_size)
  show ?thesis using h queue_refines_fifos [OF h] by blast
qed

text \<open>
  How \<open>peer._push\<close> and \<open>PacketConn.handleTraffic\<close> enqueue: on a queue that satisfies its invariant the
  packet always ends up last in its stream, at most one other packet is discarded for it, that one is the
  front of the heaviest stream of the heaviest destination, and no packet is discarded unless the
  oldest one has waited for more than 25 ms.
\<close>

theorem enqueue_drops_heaviest:
  assumes "queue_ok q" "all_before (stream q) now" "packet_size p = Inr n" "unat (q_size q) + n < 2 ^ 64"
  shows "\<exists>q' f. enqueue now q p = Inr q' \<and> queue_ok q' \<and> flow_added (new_info now p n) f (stream q')
    \<and> (f = stream q \<or> (\<exists>i. flow_took i (stream q) f \<and> heaviest (stream q) i))
    \<and> ((\<forall>d s. \<forall>i \<in> set (stream q d s). time_sub now (pq_time i) \<le> 25000000) \<longrightarrow> f = stream q)"
proof (cases "\<forall>d s. \<forall>i \<in> set (stream q d s). time_sub now (pq_time i) \<le> 25000000")
  case False
  then show ?thesis using enqueue_ok [OF assms] by blast
next
  case True
  have "enqueue now q p = queue_push now q p"
    using queue_peek_spec [OF assms(1)] True
    by (auto simp: enqueue_def not_less split: if_split_asm) (metis linorder_not_less)
  then show ?thesis using pq.push_law [OF assms] by auto
qed

theorem enqueue_drops_heaviest_witness:
  "queue_ok empty_queue \<and> (\<exists>q' f. enqueue 5 empty_queue (sample_packet 1 2 7) = Inr q' \<and> queue_ok q'
    \<and> flow_added (new_info 5 (sample_packet 1 2 7) 68) f (stream q')
    \<and> (f = stream empty_queue \<or> (\<exists>i. flow_took i (stream empty_queue) f \<and> heaviest (stream empty_queue) i))
    \<and> ((\<forall>d s. \<forall>i \<in> set (stream empty_queue d s). time_sub 5 (pq_time i) \<le> 25000000) \<longrightarrow> f = stream empty_queue))"
proof -
  note n = sample_packet_size [of 1 2 7]
  have "all_before (stream empty_queue) 5" by (simp add: stream_empty all_before_def)
  moreover have "unat (q_size empty_queue) + 68 < 2 ^ 64" by (simp add: empty_queue_def)
  ultimately show ?thesis using enqueue_drops_heaviest [OF empty_queue_ok _ n, of 5] empty_queue_ok by blast
qed

end
