(* ===== verification/Links.thy ===== *)
theory Links
  imports Framing PacketBuffer
begin

text \<open>
  A connected peer of \<^verbatim>\<open>ironwood/network/peers.go\<close>: three actors, the \<open>peer\<close> with its packet queue,
  its \<open>peerMonitor\<close> and its \<open>peerWriter\<close>, each with an inbox.
  \<^item> The record \<open>link\<close> holds the state of the three and their inboxes; a call of \<open>Act\<close> appends a
    message to the inbox of the actor, and one handler runs per message, in the order of the inbox.
    The steps of the three actors interleave in any order.
  \<^item> The connection accepts every byte written to it (\<open>l_conn\<close>); \<open>bufio.Writer\<close> is the library's,
    with its default buffer of 4096 bytes.
  \<^item> \<open>l_timer\<close> tells whether \<open>keepAliveTimer\<close> is set, \<open>l_armed\<close> whether it still runs.
\<close>

datatype writer_msg = WSend outgoing bool | WKeepAlive | WCheck u64 | WFlush
datatype peer_msg = PDirect outgoing bool | PSent | PPush pqPacket | PPop
datatype monitor_msg = MSent byte | MRecv byte | MKeepAlive | MClose

record link =
  l_peer :: peer
  l_queue :: packetQueue
  l_ready :: bool
  l_srst :: int
  l_srrt :: int
  l_timer :: bool
  l_armed :: bool
  l_deadlined :: bool
  l_readDeadline :: "int option"
  l_done :: bool
  l_wbuf :: bytes
  l_seq :: u64
  l_conn :: bytes
  l_pbox :: "peer_msg list"
  l_mbox :: "monitor_msg list"
  l_wbox :: "writer_msg list"
  l_events :: "router_event list"

abbreviation to_peer :: "peer_msg \<Rightarrow> link \<Rightarrow> link" where "to_peer m l \<equiv> l\<lparr> l_pbox := l_pbox l @ [m] \<rparr>"
abbreviation to_monitor :: "monitor_msg \<Rightarrow> link \<Rightarrow> link" where "to_monitor m l \<equiv> l\<lparr> l_mbox := l_mbox l @ [m] \<rparr>"
abbreviation to_writer :: "writer_msg \<Rightarrow> link \<Rightarrow> link" where "to_writer m l \<equiv> l\<lparr> l_wbox := l_wbox l @ [m] \<rparr>"

text \<open>The \<open>peer\<close> that \<open>addPeer\<close> allocates.\<close>

definition new_link :: "peer \<Rightarrow> link" where
  "new_link p = \<lparr> l_peer = p, l_queue = empty_queue, l_ready = False, l_srst = zero_time, l_srrt = zero_time,
     l_timer = False, l_armed = False, l_deadlined = False, l_readDeadline = None, l_done = False,
     l_wbuf = [], l_seq = 0, l_conn = [], l_pbox = [], l_mbox = [], l_wbox = [], l_events = [] \<rparr>"

subsection \<open>The monitor\<close>

definition monitor_keepAlive :: "link \<Rightarrow> link" where
  "monitor_keepAlive l = (if l_done l then l else to_writer WKeepAlive l)"

definition monitor_sent :: "env \<Rightarrow> int \<Rightarrow> byte \<Rightarrow> link \<Rightarrow> link" where
  "monitor_sent E now pType l =
     (let l1 = (if l_timer l then l\<lparr> l_timer := False, l_armed := False \<rparr> else l) in
      if l_deadlined l1 then l1
      else if pType = wire_code wireDummy then l1
      else if pType = wire_code wireKeepAlive then l1
      else l1\<lparr> l_readDeadline := Some (now + peerTimeout (env_config E)), l_deadlined := True \<rparr>)"

definition monitor_recv :: "byte \<Rightarrow> link \<Rightarrow> link" where
  "monitor_recv pType l =
     (let l1 = l\<lparr> l_readDeadline := None, l_deadlined := False \<rparr> in
      if l_timer l1 then l1
      else if pType = wire_code wireDummy then l1
      else if pType = wire_code wireKeepAlive then l1
      else if l_done l1 then l1
      else l1\<lparr> l_timer := True, l_armed := True \<rparr>)"

definition monitor_close :: "link \<Rightarrow> link" where
  "monitor_close l = (if l_timer l then l\<lparr> l_timer := False, l_armed := False \<rparr> else l)"

fun monitor_handle :: "env \<Rightarrow> int \<Rightarrow> monitor_msg \<Rightarrow> link \<Rightarrow> link" where
  "monitor_handle E now (MSent t) l = monitor_sent E now t l"
| "monitor_handle E now (MRecv t) l = monitor_recv t l"
| "monitor_handle E now MKeepAlive l = monitor_keepAlive l"
| "monitor_handle E now MClose l = monitor_close l"

subsection \<open>The writer\<close>

text \<open>\<open>bufio.Writer.Write\<close>: what stays in the buffer and what reaches the connection.\<close>

definition bufio_Write :: "bytes \<Rightarrow> bytes \<Rightarrow> bytes \<Rightarrow> bytes \<times> bytes" where
  "bufio_Write buf conn bs =
     (if length bs \<le> 4096 - length buf then (buf @ bs, conn)
      else if buf = [] then ([], conn @ bs)
      else
        (let k = 4096 - length buf; conn1 = conn @ buf @ take k bs; rest = drop k bs in
         if length rest \<le> 4096 then (rest, conn1) else ([], conn1 @ rest)))"

definition writer_write :: "bytes \<Rightarrow> byte \<Rightarrow> link \<Rightarrow> link" where
  "writer_write bs pType l =
     (let l1 = to_monitor (MSent pType) l;
          (buf, conn) = bufio_Write (l_wbuf l1) (l_conn l1) bs;
          seq = l_seq l1 + 1
      in to_writer (WCheck seq) (l1\<lparr> l_wbuf := buf, l_conn := conn, l_seq := seq \<rparr>))"

definition writer_sendPacket :: "env \<Rightarrow> outgoing \<Rightarrow> bool \<Rightarrow> link \<Rightarrow> link result" where
  "writer_sendPacket E data done l =
     and_then (sendPacket_bytes (env_config E) data) (\<lambda>framed.
       case framed of
         None \<Rightarrow> Inr l
       | Some bs \<Rightarrow>
           (let l1 = writer_write bs (wire_code (out_type data)) l
            in Inr (if done then to_peer PSent l1 else l1)))"

fun writer_handle :: "env \<Rightarrow> writer_msg \<Rightarrow> link \<Rightarrow> link result" where
  "writer_handle E (WSend data done) l = writer_sendPacket E data done l"
| "writer_handle E WKeepAlive l = Inr (writer_write [0x01, wire_code wireKeepAlive] (wire_code wireKeepAlive) l)"
| "writer_handle E (WCheck seq) l = Inr (if seq = l_seq l then to_peer PPop l else l)"
| "writer_handle E WFlush l = Inr (l\<lparr> l_conn := l_conn l @ l_wbuf l, l_wbuf := [] \<rparr>)"

subsection \<open>The peer\<close>

definition peer_push :: "int \<Rightarrow> pqPacket \<Rightarrow> link \<Rightarrow> link result" where
  "peer_push now packet l =
     (if l_ready l then Inr ((to_writer (WSend (OutPacket packet) False) l)\<lparr> l_ready := False \<rparr>)
      else and_then (enqueue now (l_queue l) packet) (\<lambda>q. Inr (l\<lparr> l_queue := q \<rparr>)))"

definition peer_pop :: "link \<Rightarrow> link result" where
  "peer_pop l =
     and_then (queue_pop (l_queue l)) (\<lambda>(q, got).
       Inr (case got of
           Some info \<Rightarrow> to_writer (WSend (OutPacket (pq_packet info)) False) (l\<lparr> l_queue := q \<rparr>)
         | None \<Rightarrow> to_writer WFlush (l\<lparr> l_queue := q, l_ready := True \<rparr>)))"

text \<open>\<open>PDirect\<close> is \<open>sendDirect\<close>; its callback, for a signature request, notes the time of sending.\<close>

fun peer_handle :: "int \<Rightarrow> peer_msg \<Rightarrow> link \<Rightarrow> link result" where
  "peer_handle now (PDirect data done) l = Inr (to_writer (WSend data done) l)"
| "peer_handle now PSent l = Inr (l\<lparr> l_srst := now \<rparr>)"
| "peer_handle now (PPush packet) l = peer_push now packet l"
| "peer_handle now PPop l = peer_pop l"

subsection \<open>The reader\<close>

text \<open>\<open>_handlePacket\<close>, run inside the peer actor by the goroutine of \<open>handler\<close>.\<close>

definition link_handlePacket :: "env \<Rightarrow> int \<Rightarrow> bytes \<Rightarrow> link \<Rightarrow> link \<times> fault option" where
  "link_handlePacket E now bs l =
     (let l1 = (case bs of [] \<Rightarrow> l | b # _ \<Rightarrow> to_monitor (MRecv b) l) in
      case handlePacket_event E (l_peer l) (l_srst l) now bs of
        Inl f \<Rightarrow> (l1, Some f)
      | Inr None \<Rightarrow> (l1, None)
      | Inr (Some ev) \<Rightarrow>
          (let l2 = (case ev of GotSigRes _ _ _ \<Rightarrow> l1\<lparr> l_srrt := now \<rparr> | _ \<Rightarrow> l1)
           in (l2\<lparr> l_events := l_events l2 @ [ev] \<rparr>, None)))"

text \<open>The beginning of \<open>handler\<close> and its deferred calls.\<close>

definition handler_open :: "link \<Rightarrow> link" where
  "handler_open l = l\<lparr> l_readDeadline := None, l_events := l_events l @ [AddPeer (l_peer l)] \<rparr>"

definition handler_close :: "link \<Rightarrow> link" where
  "handler_close l =
     (let l1 = to_monitor MClose (l\<lparr> l_done := True \<rparr>)
      in l1\<lparr> l_events := l_events l1 @ [RemovePeer (l_peer l1)] \<rparr>)"

subsection \<open>Steps\<close>

text \<open>The bytes of the packets that wait in the inbox of the peer.\<close>

fun push_size :: "peer_msg \<Rightarrow> nat" where
  "push_size (PPush packet) = length (packet_payload packet)"
| "push_size _ = 0"

definition link_bytes :: "link \<Rightarrow> nat" where
  "link_bytes l = unat (q_size (l_queue l)) + sum_list (map push_size (l_pbox l))"

text \<open>The actors take the messages of their inboxes. A state comes with the clock, which does not go back.\<close>

inductive internal :: "env \<Rightarrow> int \<times> link \<Rightarrow> int \<times> link \<Rightarrow> bool" for E where
  peer_step: "l_pbox l = m # ms \<Longrightarrow> t \<le> now \<Longrightarrow> peer_handle now m (l\<lparr> l_pbox := ms \<rparr>) = Inr l' \<Longrightarrow>
    internal E (t, l) (now, l')"
| monitor_step: "l_mbox l = m # ms \<Longrightarrow> t \<le> now \<Longrightarrow> internal E (t, l) (now, monitor_handle E now m (l\<lparr> l_mbox := ms \<rparr>))"
| writer_step: "l_wbox l = m # ms \<Longrightarrow> t \<le> now \<Longrightarrow> writer_handle E m (l\<lparr> l_wbox := ms \<rparr>) = Inr l' \<Longrightarrow>
    internal E (t, l) (now, l')"

inductive_cases internalE: "internal E (t, l) (now, l')"

text \<open>
  What others do to the peer: send to it, deliver a packet, run out a timer, end the connection. Any message
  may be sent; \<open>P\<close> tells which ones a run considers. The queue and the inbox never hold \<open>2^64\<close> bytes.
\<close>

inductive external :: "env \<Rightarrow> (outgoing \<Rightarrow> bool) \<Rightarrow> int \<times> link \<Rightarrow> int \<times> link \<Rightarrow> bool" for E P where
  ext_push: "P (OutPacket packet) \<Longrightarrow> link_bytes (to_peer (PPush packet) l) < 2 ^ 64 \<Longrightarrow> external E P (t, l) (t, to_peer (PPush packet) l)"
| ext_direct: "P data \<Longrightarrow> external E P (t, l) (t, to_peer (PDirect data done) l)"
| ext_packet: "t \<le> now \<Longrightarrow> link_handlePacket E now bs l = (l', f) \<Longrightarrow> external E P (t, l) (now, l')"
| ext_timer: "l_armed l \<Longrightarrow> external E P (t, l) (t, to_monitor MKeepAlive (l\<lparr> l_armed := False \<rparr>))"
| ext_open: "external E P (t, l) (t, handler_open l)"
| ext_close: "external E P (t, l) (t, handler_close l)"

inductive_cases externalE: "external E P (t, l) (now, l')"

subsection \<open>The invariant\<close>

text \<open>Some message on its way will make the writer ask for more traffic.\<close>

definition pending :: "link \<Rightarrow> bool" where
  "pending l \<longleftrightarrow> (\<exists>d b. WSend d b \<in> set (l_wbox l)) \<or> WKeepAlive \<in> set (l_wbox l) \<or> WCheck (l_seq l) \<in> set (l_wbox l)
     \<or> PPop \<in> set (l_pbox l) \<or> (\<exists>d b. PDirect d b \<in> set (l_pbox l))"

fun wfits :: "(outgoing \<Rightarrow> bool) \<Rightarrow> writer_msg \<Rightarrow> bool" where
  "wfits P (WSend d b) = P d"
| "wfits P _ = True"

fun pfits :: "(outgoing \<Rightarrow> bool) \<Rightarrow> peer_msg \<Rightarrow> bool" where
  "pfits P (PDirect d b) = P d"
| "pfits P (PPush packet) = P (OutPacket packet)"
| "pfits P _ = True"

definition flows_fit :: "(outgoing \<Rightarrow> bool) \<Rightarrow> flows \<Rightarrow> bool" where
  "flows_fit P f \<longleftrightarrow> (\<forall>d s. \<forall>i \<in> set (f d s). P (OutPacket (pq_packet i)))"

definition queue_fine :: "(outgoing \<Rightarrow> bool) \<Rightarrow> int \<Rightarrow> link \<Rightarrow> bool" where
  "queue_fine P t l \<longleftrightarrow> queue_ok (l_queue l) \<and> all_before (stream (l_queue l)) t \<and> flows_fit P (stream (l_queue l))
     \<and> (l_ready l \<longrightarrow> (\<forall>d s. stream (l_queue l) d s = [])) \<and> link_bytes l < 2 ^ 64
     \<and> list_all (wfits P) (l_wbox l) \<and> list_all (pfits P) (l_pbox l)"

definition not_stuck :: "link \<Rightarrow> bool" where
  "not_stuck l \<longleftrightarrow> (l_ready l \<or> pending l) \<and> (l_wbuf l \<noteq> [] \<longrightarrow> pending l \<or> WFlush \<in> set (l_wbox l))"

text \<open>All messages of the run are within the size limit.\<close>

definition all_fit :: "env \<Rightarrow> (outgoing \<Rightarrow> bool) \<Rightarrow> bool" where
  "all_fit E P \<longleftrightarrow> (\<forall>d. P d \<longrightarrow> fits (env_config E) d)"

definition link_ok :: "env \<Rightarrow> (outgoing \<Rightarrow> bool) \<Rightarrow> int \<times> link \<Rightarrow> bool" where
  "link_ok E P s \<longleftrightarrow> queue_fine P (fst s) (snd s) \<and> (all_fit E P \<longrightarrow> not_stuck (snd s))"

lemma added_members: "flow_added i f f' \<Longrightarrow> x \<in> set (f' d s) \<Longrightarrow> x = i \<or> x \<in> set (f d s)"
  by (cases "(d, s) = (destKey (pq_packet i), sourceKey (pq_packet i))") (auto simp: flow_added_def Let_def)

lemma took_member: "flow_took i f f' \<Longrightarrow> i \<in> set (f (destKey (pq_packet i)) (sourceKey (pq_packet i)))"
  by (simp add: flow_took_def Let_def)

lemma flows_fit_took: "flow_took i f f' \<Longrightarrow> flows_fit P f \<Longrightarrow> flows_fit P f' \<and> P (OutPacket (pq_packet i))"
  unfolding flows_fit_def using took_not_after took_member by blast

lemma flows_fit_added: "flow_added i f f' \<Longrightarrow> flows_fit P f \<Longrightarrow> P (OutPacket (pq_packet i)) \<Longrightarrow> flows_fit P f'"
  unfolding flows_fit_def using added_members by blast

text \<open>The fields that the three actors leave alone for each other.\<close>

lemma monitor_fields [simp]:
  "l_queue (monitor_handle E now m l) = l_queue l" "l_ready (monitor_handle E now m l) = l_ready l"
  "l_pbox (monitor_handle E now m l) = l_pbox l" "l_wbuf (monitor_handle E now m l) = l_wbuf l"
  "l_seq (monitor_handle E now m l) = l_seq l" "l_mbox (monitor_handle E now m l) = l_mbox l"
  "l_wbox (monitor_handle E now m l) = l_wbox l @ (if m = MKeepAlive \<and> \<not> l_done l then [WKeepAlive] else [])"
  by (cases m; simp add: monitor_sent_def monitor_recv_def monitor_keepAlive_def monitor_close_def Let_def)+

lemma write_fields [simp]:
  "l_queue (writer_write bs t l) = l_queue l" "l_ready (writer_write bs t l) = l_ready l"
  "l_pbox (writer_write bs t l) = l_pbox l" "l_seq (writer_write bs t l) = l_seq l + 1"
  "l_wbox (writer_write bs t l) = l_wbox l @ [WCheck (l_seq l + 1)]"
  "l_mbox (writer_write bs t l) = l_mbox l @ [MSent t]"
  by (simp_all add: writer_write_def Let_def split: prod.split)

lemma queue_fine_mono: "queue_fine P t l \<Longrightarrow> t \<le> now \<Longrightarrow> queue_fine P now l"
  by (auto simp: queue_fine_def intro: all_before_mono)

lemma monitor_ok:
  assumes "link_ok E P (t, l)" "l_mbox l = m # ms" "t \<le> now"
  shows "link_ok E P (now, monitor_handle E now m (l\<lparr> l_mbox := ms \<rparr>))"
  using assms queue_fine_mono [of P t l now]
  by (auto simp: link_ok_def queue_fine_def not_stuck_def pending_def link_bytes_def)

lemma writer_ok:
  assumes "link_ok E P (t, l)" "l_wbox l = m # ms" "t \<le> now"
  shows "\<exists>l'. writer_handle E m (l\<lparr> l_wbox := ms \<rparr>) = Inr l' \<and> link_ok E P (now, l')"
proof (cases m)
  case (WSend d cb)
  have P: "P d" using assms(1,2) WSend by (simp add: link_ok_def queue_fine_def)
  show ?thesis
  proof (cases "sendPacket_bytes (env_config E) d = Inr (Some (frame d))")
    case True
    then show ?thesis
      using assms queue_fine_mono [of P t l now] WSend
      by (auto simp: link_ok_def queue_fine_def not_stuck_def pending_def link_bytes_def writer_sendPacket_def Let_def)
  next
    case False
    then have "sendPacket_bytes (env_config E) d = Inr None" "\<not> all_fit E P"
      using sendPacket_bytes_cases [of "env_config E" d] sendPacket_bytes_fits P by (auto simp: all_fit_def)
    then show ?thesis
      using assms queue_fine_mono [of P t l now] WSend
      by (auto simp: link_ok_def queue_fine_def link_bytes_def writer_sendPacket_def)
  qed
qed (use assms queue_fine_mono [of P t l now] in
    \<open>auto simp: link_ok_def queue_fine_def not_stuck_def pending_def link_bytes_def\<close>)

lemma pop_ok:
  assumes ok: "link_ok E P (t, l)" and box: "l_pbox l = PPop # ms" and t: "t \<le> now"
  shows "\<exists>l'. peer_pop (l\<lparr> l_pbox := ms \<rparr>) = Inr l' \<and> link_ok E P (now, l')"
proof -
  have fine: "queue_fine P now l" and stuck: "all_fit E P \<longrightarrow> not_stuck l"
    using ok queue_fine_mono [OF _ t] by (simp_all add: link_ok_def)
  then have q: "queue_ok (l_queue l)" by (simp add: queue_fine_def)
  show ?thesis
  proof (cases "\<forall>d s. stream (l_queue l) d s = []")
    case True
    then show ?thesis
      using pq.pop_empty [OF q True] fine stuck box
      by (auto simp: peer_pop_def link_ok_def queue_fine_def not_stuck_def link_bytes_def)
  next
    case False
    obtain q' i where q': "queue_pop (l_queue l) = Inr (q', Some i)" "queue_ok q'" "unat (q_size q') < unat (q_size (l_queue l))"
        "flow_took i (stream (l_queue l)) (stream q')"
      using pq.pop_law [OF q False] by blast
    have "\<not> l_ready l" using fine False by (auto simp: queue_fine_def)
    then show ?thesis
      using q' fine stuck box flows_fit_took [OF q'(4), of P] all_before_took [OF q'(4), of now]
      by (auto simp: peer_pop_def link_ok_def queue_fine_def not_stuck_def pending_def link_bytes_def)
  qed
qed

lemma push_ok:
  assumes ok: "link_ok E P (t, l)" and box: "l_pbox l = PPush packet # ms" and t: "t \<le> now"
  shows "\<exists>l'. peer_push now packet (l\<lparr> l_pbox := ms \<rparr>) = Inr l' \<and> link_ok E P (now, l')
    \<and> (if l_ready l then l_queue l' = l_queue l
       else unat (q_size (l_queue l')) \<le> unat (q_size (l_queue l)) + length (packet_payload packet))"
proof -
  have fine: "queue_fine P now l" and stuck: "all_fit E P \<longrightarrow> not_stuck l"
    using ok queue_fine_mono [OF _ t] by (simp_all add: link_ok_def)
  have fit: "P (OutPacket packet)" using fine box by (simp add: queue_fine_def)
  show ?thesis
  proof (cases "l_ready l")
    case True
    with fine stuck box fit show ?thesis
      by (auto simp: peer_push_def link_ok_def queue_fine_def not_stuck_def pending_def link_bytes_def)
  next
    case False
    have q: "queue_ok (l_queue l)" "all_before (stream (l_queue l)) now" using fine by (simp_all add: queue_fine_def)
    have bytes: "unat (q_size (l_queue l)) + length (packet_payload packet) < 2 ^ 64"
      using fine box by (simp add: queue_fine_def link_bytes_def)
    obtain q' f where q': "enqueue now (l_queue l) packet = Inr q'" "queue_ok q'"
        "unat (q_size q') \<le> unat (q_size (l_queue l)) + length (packet_payload packet)" "all_before (stream q') now"
        "f = stream (l_queue l) \<or> (\<exists>i. flow_took i (stream (l_queue l)) f \<and> heaviest (stream (l_queue l)) i)"
        "flow_added (new_info now packet (length (packet_payload packet))) f (stream q')"
      using enqueue_ok [OF q packet_codec_eq(1) bytes] by blast
    have "flows_fit P f"
      using q'(5) fine flows_fit_took by (auto simp: queue_fine_def)
    then have "flows_fit P (stream q')"
      using flows_fit_added [OF q'(6)] fit by (simp add: new_info_def)
    then show ?thesis
      using q' fine stuck box False
      by (auto simp: peer_push_def link_ok_def queue_fine_def not_stuck_def pending_def link_bytes_def)
  qed
qed

lemma peer_ok:
  assumes "link_ok E P (t, l)" "l_pbox l = m # ms" "t \<le> now"
  shows "\<exists>l'. peer_handle now m (l\<lparr> l_pbox := ms \<rparr>) = Inr l' \<and> link_ok E P (now, l')"
proof (cases m)
  case (PPush packet)
  then show ?thesis using push_ok [OF assms(1) _ assms(3)] assms(2) by fastforce
next
  case PPop
  then show ?thesis using pop_ok [OF assms(1) _ assms(3)] assms(2) by auto
qed (use assms queue_fine_mono [of P t l now] in
    \<open>auto simp: link_ok_def queue_fine_def not_stuck_def pending_def link_bytes_def\<close>)

lemma internal_ok:
  assumes "link_ok E P s" "internal E s s'"
  shows "link_ok E P s'"
  using assms(2)
proof cases
  case (peer_step l m ms t now l')
  then show ?thesis using peer_ok [of E P t l m ms now] assms(1) by auto
next
  case (monitor_step l m ms t now)
  then show ?thesis using monitor_ok [of E P t l m ms now] assms(1) by auto
next
  case (writer_step l m ms t now l')
  then show ?thesis using writer_ok [of E P t l m ms now] assms(1) by auto
qed

lemma handlePacket_fields:
  assumes "link_handlePacket E now bs l = (l', f)"
  shows "l_queue l' = l_queue l" "l_ready l' = l_ready l" "l_pbox l' = l_pbox l" "l_wbox l' = l_wbox l"
    "l_wbuf l' = l_wbuf l" "l_seq l' = l_seq l" "l_conn l' = l_conn l"
  using assms by (auto simp: link_handlePacket_def Let_def split: list.splits sum.splits option.splits router_event.splits)

lemma external_ok:
  assumes "link_ok E P s" "external E P s s'"
  shows "link_ok E P s'"
  using assms(2)
proof cases
  case (ext_packet t now bs l l' f)
  then show ?thesis
    using assms(1) queue_fine_mono [of P t l now] handlePacket_fields [OF ext_packet(4)]
    by (auto simp: link_ok_def queue_fine_def not_stuck_def pending_def link_bytes_def)
qed (use assms(1) in \<open>auto simp: link_ok_def queue_fine_def not_stuck_def pending_def link_bytes_def
      handler_open_def handler_close_def Let_def\<close>)

subsection \<open>The actors come to rest\<close>

fun writer_work :: "writer_msg \<Rightarrow> nat" where
  "writer_work (WSend d b) = 6" | "writer_work WKeepAlive = 5" | "writer_work (WCheck n) = 3" | "writer_work WFlush = 1"

fun peer_work :: "peer_msg \<Rightarrow> nat" where
  "peer_work (PDirect d b) = 7" | "peer_work PSent = 1" | "peer_work (PPush packet) = 7 + 5 * length (packet_payload packet)"
| "peer_work PPop = 2"

fun monitor_work :: "monitor_msg \<Rightarrow> nat" where
  "monitor_work MKeepAlive = 6" | "monitor_work _ = 1"

definition work :: "link \<Rightarrow> nat" where
  "work l = 5 * unat (q_size (l_queue l)) + sum_list (map writer_work (l_wbox l))
     + sum_list (map peer_work (l_pbox l)) + sum_list (map monitor_work (l_mbox l))"

definition at_rest :: "link \<Rightarrow> bool" where
  "at_rest l \<longleftrightarrow> l_pbox l = [] \<and> l_mbox l = [] \<and> l_wbox l = []"

lemma pop_work:
  assumes ok: "link_ok E P (t, l)" and box: "l_pbox l = PPop # ms" and run: "peer_pop (l\<lparr> l_pbox := ms \<rparr>) = Inr l'"
  shows "work l' < work l"
proof -
  have q: "queue_ok (l_queue l)" using ok by (simp add: link_ok_def queue_fine_def)
  show ?thesis
  proof (cases "\<forall>d s. stream (l_queue l) d s = []")
    case True
    then show ?thesis using run pq.pop_empty [OF q True] box by (auto simp: peer_pop_def work_def)
  next
    case False
    obtain q' i where "queue_pop (l_queue l) = Inr (q', Some i)" "unat (q_size q') < unat (q_size (l_queue l))"
      using pq.pop_law [OF q False] by blast
    then show ?thesis using run box by (auto simp: peer_pop_def work_def)
  qed
qed

lemma push_work:
  assumes ok: "link_ok E P (t, l)" and box: "l_pbox l = PPush packet # ms" and t: "t \<le> now"
    and run: "peer_push now packet (l\<lparr> l_pbox := ms \<rparr>) = Inr l'"
  shows "work l' < work l"
proof (cases "l_ready l")
  case True
  then show ?thesis using run box by (auto simp: peer_push_def work_def)
next
  case False
  then have "unat (q_size (l_queue l')) \<le> unat (q_size (l_queue l)) + length (packet_payload packet)"
    using push_ok [OF ok box t] run by auto
  moreover have "l_wbox l' = l_wbox l" "l_mbox l' = l_mbox l" "l_pbox l' = ms"
    using run False by (auto simp: peer_push_def and_then_eq_Inr)
  ultimately show ?thesis using box by (simp add: work_def)
qed

lemma internal_work:
  assumes "link_ok E P s" "internal E s s'"
  shows "work (snd s') < work (snd s)"
  using assms(2)
proof cases
  case (peer_step l m ms t now l')
  show ?thesis
  proof (cases m)
    case (PPush packet)
    then show ?thesis using push_work [of E P t l packet ms now l'] peer_step assms(1) by simp
  next
    case PPop
    then show ?thesis using pop_work [of E P t l ms l'] peer_step assms(1) by simp
  qed (use peer_step in \<open>auto simp: work_def\<close>)
next
  case (monitor_step l m ms t now)
  then show ?thesis by (cases m) (auto simp: work_def simp del: monitor_handle.simps)
next
  case (writer_step l m ms t now l')
  show ?thesis
  proof (cases m)
    case (WSend d cb)
    then show ?thesis
      using writer_step sendPacket_bytes_cases [of "env_config E" d] by (auto simp: work_def writer_sendPacket_def Let_def)
  qed (use writer_step in \<open>auto simp: work_def split: if_splits\<close>)
qed

lemma internal_bounded:
  assumes "link_ok E P s" "(internal E ^^ n) s s'"
  shows "n + work (snd s') \<le> work (snd s) \<and> link_ok E P s'"
  using assms(2)
proof (induction n arbitrary: s')
  case (Suc n)
  then obtain s1 where "(internal E ^^ n) s s1" "internal E s1 s'" by auto
  with Suc.IH [of s1] internal_work [of E P s1 s'] internal_ok [of E P s1 s'] show ?case by auto
qed (use assms in auto)

lemma internal_progress:
  assumes "link_ok E P (t, l)" "\<not> at_rest l"
  shows "\<exists>s'. internal E (t, l) s'"
proof -
  consider m ms where "l_pbox l = m # ms" | m ms where "l_mbox l = m # ms" | m ms where "l_wbox l = m # ms"
    using assms(2) by (auto simp: at_rest_def neq_Nil_conv)
  then show ?thesis
  proof cases
    case 1
    then show ?thesis using peer_ok [OF assms(1) 1 order.refl] peer_step [OF 1 order.refl] by blast
  next
    case 2
    then show ?thesis using monitor_step [OF 2 order.refl] by blast
  next
    case 3
    then show ?thesis using writer_ok [OF assms(1) 3 order.refl] writer_step [OF 3 order.refl] by blast
  qed
qed

lemma rest_reached:
  assumes "link_ok E P s"
  shows "\<exists>s'. (internal E)\<^sup>*\<^sup>* s s' \<and> at_rest (snd s')"
  using assms
proof (induction "work (snd s)" arbitrary: s rule: less_induct)
  case less
  show ?case
  proof (cases "at_rest (snd s)")
    case False
    obtain t l where s: "s = (t, l)" by (cases s)
    with False obtain s' where s': "internal E s s'" using internal_progress less.prems by (metis snd_conv)
    then obtain s'' where "(internal E)\<^sup>*\<^sup>* s' s''" "at_rest (snd s'')"
      using less.hyps [OF internal_work [OF less.prems s'] internal_ok [OF less.prems s']] by blast
    with s' show ?thesis by (meson converse_rtranclp_into_rtranclp)
  qed blast
qed

lemma rest_no_step: "at_rest (snd s) \<Longrightarrow> \<not> internal E s s'"
  by (auto simp: at_rest_def elim!: internal.cases)

lemma rest_means_done:
  assumes "link_ok E P s" "all_fit E P" "at_rest (snd s)"
  shows "l_ready (snd s) \<and> l_wbuf (snd s) = [] \<and> (\<forall>d s'. stream (l_queue (snd s)) d s' = [])"
  using assms by (auto simp: link_ok_def not_stuck_def pending_def at_rest_def queue_fine_def)

subsection \<open>Runs\<close>

inductive link_step :: "env \<Rightarrow> (outgoing \<Rightarrow> bool) \<Rightarrow> int \<times> link \<Rightarrow> int \<times> link \<Rightarrow> bool" for E P where
  "internal E s s' \<Longrightarrow> link_step E P s s'"
| "external E P s s' \<Longrightarrow> link_step E P s s'"

text \<open>
  A link starts when \<open>router.addPeer\<close> has sent it a message: it always sends a signature request.
\<close>

definition link_start :: "(outgoing \<Rightarrow> bool) \<Rightarrow> int \<times> link \<Rightarrow> bool" where
  "link_start P s \<longleftrightarrow> (\<exists>p req. P (OutSigReq req) \<and> snd s = to_peer (PDirect (OutSigReq req) True) (new_link p))"

lemma link_start_ok: "link_start P s \<Longrightarrow> link_ok E P s"
proof -
  have "unat (q_size empty_queue) = 0" by (simp add: empty_queue_def)
  moreover assume "link_start P s"
  ultimately show ?thesis
    by (auto simp: link_start_def link_ok_def queue_fine_def not_stuck_def pending_def link_bytes_def new_link_def
        empty_queue_ok stream_empty all_before_def flows_fit_def)
qed

lemma link_step_ok: "link_ok E P s \<Longrightarrow> link_step E P s s' \<Longrightarrow> link_ok E P s'"
  by (auto elim!: link_step.cases intro: internal_ok external_ok)

interpretation link_actor: actor_invariant
  "\<lambda>((E, P), s). link_start P s" "\<lambda>((E, P), s) (EP, s'). EP = (E, P) \<and> link_step E P s s'" "\<lambda>((E, P), s). link_ok E P s"
  by unfold_locales (auto intro: link_start_ok link_step_ok)

lemma link_steps_pair:
  "(link_step E P)\<^sup>*\<^sup>* s s' \<Longrightarrow> (\<lambda>((E, P), s) (EP, s'). EP = (E, P) \<and> link_step E P s s')\<^sup>*\<^sup>* ((E, P), s) ((E, P), s')"
  by (induction rule: rtranclp_induct) (auto intro: rtranclp.rtrancl_into_rtrancl)

lemma link_reachable_ok: "link_start P s0 \<Longrightarrow> (link_step E P)\<^sup>*\<^sup>* s0 s \<Longrightarrow> link_ok E P s"
  using link_actor.reachable_inv [OF _ link_steps_pair, of E P s0 s] by simp

subsection \<open>What is on the wire\<close>

text \<open>A frame of a message, or the two bytes of a keepalive.\<close>

fun wire_frame :: "outgoing option \<Rightarrow> bytes" where
  "wire_frame None = [1, 1]"
| "wire_frame (Some d) = frame d"

definition framed :: "link \<Rightarrow> bool" where
  "framed l \<longleftrightarrow> (\<exists>ds. l_conn l @ l_wbuf l = concat (map wire_frame ds))"

lemma bufio_Write_bytes: "bufio_Write buf conn bs = (buf', conn') \<Longrightarrow> conn' @ buf' = conn @ buf @ bs"
  by (auto simp: bufio_Write_def Let_def split: if_splits)

lemma write_framed: "framed l \<Longrightarrow> bs = wire_frame d \<Longrightarrow> framed (writer_write bs t l)"
proof -
  assume "framed l" and bs: "bs = wire_frame d"
  then obtain ds where ds: "l_conn l @ l_wbuf l = concat (map wire_frame ds)" by (auto simp: framed_def)
  obtain buf conn where w: "bufio_Write (l_wbuf l) (l_conn l) bs = (buf, conn)" by fastforce
  have "conn @ buf = (l_conn l @ l_wbuf l) @ bs" using bufio_Write_bytes [OF w] by simp
  then have "conn @ buf = concat (map wire_frame (ds @ [d]))" by (simp only: ds bs) simp
  with w show ?thesis unfolding framed_def by (intro exI [of _ "ds @ [d]"]) (simp add: writer_write_def Let_def)
qed

lemma framed_cong: "l_conn l' = l_conn l \<Longrightarrow> l_wbuf l' = l_wbuf l \<Longrightarrow> framed l' = framed l"
  by (simp add: framed_def)

lemma peer_handle_conn: "peer_handle now m l = Inr l' \<Longrightarrow> l_conn l' = l_conn l \<and> l_wbuf l' = l_wbuf l"
proof (cases m)
  case (PPush packet)
  assume "peer_handle now m l = Inr l'"
  then show ?thesis
    using PPush by (cases "l_ready l") (auto simp: peer_push_def and_then_eq_Inr)
next
  case PPop
  assume "peer_handle now m l = Inr l'"
  then obtain q got where "queue_pop (l_queue l) = Inr (q, got)"
    "l' = (case got of Some info \<Rightarrow> to_writer (WSend (OutPacket (pq_packet info)) False) (l\<lparr> l_queue := q \<rparr>)
         | None \<Rightarrow> to_writer WFlush (l\<lparr> l_queue := q, l_ready := True \<rparr>))"
    using PPop by (auto simp: peer_pop_def and_then_eq_Inr)
  then show ?thesis by (cases got) simp_all
qed auto

lemma monitor_handle_conn [simp]:
  "l_conn (monitor_handle E now m l) = l_conn l"
  by (cases m) (simp_all add: monitor_sent_def monitor_recv_def monitor_keepAlive_def monitor_close_def Let_def)

lemma internal_framed:
  assumes "link_ok E P s" "framed (snd s)" "internal E s s'"
  shows "framed (snd s')"
  using assms(3)
proof cases
  case (peer_step l m ms t now l')
  then show ?thesis using assms(2) peer_handle_conn [OF peer_step(5)] framed_cong [of l' l] by simp
next
  case (monitor_step l m ms t now)
  then show ?thesis
    using assms(2) framed_cong [of "monitor_handle E now m (l\<lparr> l_mbox := ms \<rparr>)" l] by simp
next
  case (writer_step l m ms t now l')
  have l: "framed (l\<lparr> l_wbox := ms \<rparr>)" using assms(2) writer_step by (simp add: framed_def)
  show ?thesis
  proof (cases m)
    case (WSend d cb)
    let ?l1 = "writer_write (frame d) (wire_code (out_type d)) (l\<lparr> l_wbox := ms \<rparr>)"
    have "framed ?l1" by (rule write_framed [OF l, of _ "Some d"]) simp
    moreover have "l' = l\<lparr> l_wbox := ms \<rparr> \<or> l' = (if cb then to_peer PSent ?l1 else ?l1)"
      using writer_step(5) WSend sendPacket_bytes_cases [of "env_config E" d] by (auto simp: writer_sendPacket_def Let_def)
    ultimately have "framed l'" using l framed_cong [of l' ?l1] by auto
    then show ?thesis using writer_step(2) by simp
  next
    case WKeepAlive
    then show ?thesis using writer_step write_framed [OF l, of "[1, 1]" None 1] by simp
  next
    case (WCheck n)
    then show ?thesis using writer_step l by (auto simp: framed_def)
  next
    case WFlush
    then show ?thesis using writer_step l by (auto simp: framed_def)
  qed
qed

lemma external_framed:
  assumes "framed (snd s)" "external E P s s'"
  shows "framed (snd s')"
  using assms(2)
proof cases
  case (ext_packet t now bs l l' f)
  then show ?thesis using assms(1) handlePacket_fields [OF ext_packet(4)] framed_cong [of l' l] by simp
qed (use assms(1) in \<open>simp_all add: framed_def handler_open_def handler_close_def Let_def\<close>)

lemma link_reachable_framed:
  assumes "link_start P s0" "(link_step E P)\<^sup>*\<^sup>* s0 s"
  shows "framed (snd s)"
  using assms(2)
proof (induction rule: rtranclp_induct)
  case base
  have "l_conn (snd s0) @ l_wbuf (snd s0) = concat (map wire_frame [])"
    using assms(1) by (auto simp: link_start_def new_link_def)
  then show ?case unfolding framed_def by blast
next
  case (step s s')
  have ok: "link_ok E P s" by (rule link_reachable_ok [OF assms(1) step(1)])
  from step(2) show ?case
  proof cases
    case 1
    then show ?thesis by (rule internal_framed [OF ok step.IH])
  next
    case 2
    then show ?thesis by (rule external_framed [OF step.IH])
  qed
qed

lemma internal_steps_reachable: "(internal E)\<^sup>*\<^sup>* s s' \<Longrightarrow> (link_step E P)\<^sup>*\<^sup>* s s'"
  by (induction rule: rtranclp_induct) (auto intro: rtranclp.rtrancl_into_rtrancl link_step.intros)

subsection \<open>Properties\<close>


lemma sample_link_start: "link_start (fits (env_config (sample_env 1))) (0, to_peer (PDirect (OutSigReq zero_req) True) (new_link sample_peer))"
  unfolding link_start_def using sample_fits(1) [of 1 zero_req] by (intro exI [of _ sample_peer] exI [of _ zero_req]) simp


text \<open>
  C37. An oversized packet stalls the link: \<open>sendPacket\<close> returns without a write for a message above
  \<open>peerMaxMessageSize\<close>, so nothing asks the queue for the next packet. A resting, ready link that is given
  such a packet rests again with \<open>ready\<close> unset, and packets pushed later, of whatever size, stay in the
  queue while all actors rest.
\<close>

theorem oversized_packet_stalls:
  assumes "at_rest l" "l_ready l" "queue_ok (l_queue l)" "\<forall>d k. stream (l_queue l) d k = []"
    and "\<not> fits (env_config E) (OutPacket big)" "length (packet_payload big) + 1 < 2 ^ 64"
    and "unat (q_size (l_queue l)) + length (packet_payload packet) < 2 ^ 64"
  shows "\<exists>l1 l2. (internal E)\<^sup>*\<^sup>* (t, to_peer (PPush big) l) (t, l1) \<and> at_rest l1
    \<and> (internal E)\<^sup>*\<^sup>* (t, to_peer (PPush packet) l1) (t, l2) \<and> at_rest l2
    \<and> map pq_packet (stream (l_queue l2) (destKey packet) (sourceKey packet)) = [packet]
    \<and> l_conn l2 = l_conn l \<and> l_wbuf l2 = l_wbuf l"
proof -
  let ?l1 = "l\<lparr> l_ready := False \<rparr>"
  have a: "l_pbox l = []" "l_mbox l = []" "l_wbox l = []" using assms(1) by (simp_all add: at_rest_def)
  have "internal E (t, to_peer (PPush big) l) (t, to_writer (WSend (OutPacket big) False) ?l1)"
    using a assms(2) by (intro peer_step [of _ "PPush big" "[]"]) (simp_all add: peer_push_def)
  moreover have "sendPacket_bytes (env_config E) (OutPacket big) = Inr None"
    using assms(5,6) by (intro sendPacket_bytes_large) simp_all
  then have "internal E (t, to_writer (WSend (OutPacket big) False) ?l1) (t, ?l1)"
    using a by (intro writer_step [of _ "WSend (OutPacket big) False" "[]"]) (simp_all add: writer_sendPacket_def)
  ultimately have s1: "(internal E)\<^sup>*\<^sup>* (t, to_peer (PPush big) l) (t, ?l1)" by simp
  have "all_before (stream (l_queue l)) t" using assms(4) by (simp add: all_before_def)
  then obtain q' f where q': "enqueue t (l_queue l) packet = Inr q'"
      "f = stream (l_queue l) \<or> (\<exists>i. flow_took i (stream (l_queue l)) f)"
      "flow_added (new_info t packet (length (packet_payload packet))) f (stream q')"
    using enqueue_ok [OF assms(3) _ packet_codec_eq(1) assms(7)] by blast
  have "f = stream (l_queue l)" using q'(2) assms(4) by (auto simp: flow_took_def Let_def)
  then have st: "map pq_packet (stream q' (destKey packet) (sourceKey packet)) = [packet]"
    using q'(3) assms(4) by (simp add: flow_added_def new_info_def Let_def)
  have "internal E (t, to_peer (PPush packet) ?l1) (t, ?l1\<lparr> l_queue := q' \<rparr>)"
    using a q'(1) by (intro peer_step [of _ "PPush packet" "[]"]) (simp_all add: peer_push_def)
  with s1 a st show ?thesis
    by (intro exI [of _ ?l1] exI [of _ "?l1\<lparr> l_queue := q' \<rparr>"]) (auto simp: at_rest_def)
qed

text \<open>A node with a limit of 64 bytes, and a traffic packet of 68.\<close>

definition tight_env :: env where
  "tight_env = core_env sample_ed (\<lambda>_. (1, 2, 3, 4)) (replicate 64 0) [WithPeerMaxMessageSize 64]"

theorem oversized_packet_stalls_witness:
  "\<exists>l1 l2. (internal tight_env)\<^sup>*\<^sup>* (0, to_peer (PPush (sample_packet 1 2 7)) ((new_link sample_peer)\<lparr> l_ready := True \<rparr>)) (0, l1)
    \<and> at_rest l1 \<and> (internal tight_env)\<^sup>*\<^sup>* (0, to_peer (PPush (sample_packet 3 4 8)) l1) (0, l2) \<and> at_rest l2
    \<and> map pq_packet (stream (l_queue l2) 4 3) = [sample_packet 3 4 8] \<and> l_conn l2 = [] \<and> l_wbuf l2 = []"
proof -
  let ?l = "(new_link sample_peer)\<lparr> l_ready := True \<rparr>"
  have len: "length (packet_payload (sample_packet s d b)) = 68" for s d b
    using sample_packet_size [of s d b] packet_codec_eq(1) by simp
  have "peerMaxMessageSize (env_config tight_env) = 64" by (simp add: tight_env_def core_env_def)
  then have "\<not> fits (env_config tight_env) (OutPacket (sample_packet 1 2 7))" by (simp add: fits_def len)
  moreover have "at_rest ?l" "l_ready ?l" "queue_ok (l_queue ?l)" "\<forall>d k. stream (l_queue ?l) d k = []" "l_conn ?l = []" "l_wbuf ?l = []"
    "unat (q_size (l_queue ?l)) = 0"
    by (simp_all add: at_rest_def new_link_def empty_queue_ok stream_empty, simp add: empty_queue_def)
  moreover have "destKey (sample_packet 3 4 8) = 4" "sourceKey (sample_packet 3 4 8) = 3" by (simp_all add: sample_packet_def)
  ultimately show ?thesis
    using oversized_packet_stalls [of ?l tight_env "sample_packet 1 2 7" "sample_packet 3 4 8" 0] len by simp
qed

end
