(* ===== verification/Peers.thy ===== *)
theory Peers
  imports RouterState
begin

text \<open>
  The actor \<open>peers\<close> of \<^verbatim>\<open>ironwood/network/peers.go\<close>: the table of connections and the allocation of
  ports. A port numbers a neighbour, not a connection: connections to one key share it. The
  pointer of a new \<open>peer\<close> is the next number of \<open>ps_fresh\<close>.
\<close>

record peersState =
  ps_ports :: "peerPort list"
  ps_peers :: "(publicKey, peer list) gomap"
  ps_order :: u64
  ps_fresh :: nat

definition peers_init :: peersState where
  "peers_init = \<lparr> ps_ports = [], ps_peers = [], ps_order = 0, ps_fresh = 0 \<rparr>"

text \<open>The argument is the result of \<open>Protocol()\<close>, \<open>None\<close> for a connection without that method.\<close>

definition peerProtocolFromConn :: "string option \<Rightarrow> string" where
  "peerProtocolFromConn conn =
     (case conn of
        Some protocol \<Rightarrow> if protocol \<noteq> '''' then protocol else ''UNKNOWN''
      | None \<Rightarrow> ''UNKNOWN'')"

text \<open>The loop \<open>for idx := 1; ; idx++\<close>, from any index; \<open>None\<close> is the loop that finds no free port.\<close>

partial_function (option) alloc_port :: "peerPort list \<Rightarrow> nat \<Rightarrow> peerPort option" where
  [code]: "alloc_port ports idx =
     (if of_nat idx \<in> set ports then alloc_port ports (idx + 1) else Some (of_nat idx))"

definition peers_addPeer :: "bool \<Rightarrow> publicKey \<Rightarrow> string option \<Rightarrow> byte \<Rightarrow> peersState \<Rightarrow> (peer \<times> peersState) result" where
  "peers_addPeer closed key conn prio ps =
     (if closed then Inl (Error ErrClosed)
      else
        and_then
          (case m_get (ps_peers ps) key of
             Some (p # _) \<Rightarrow> Inr (p_port p, ps)
           | Some [] \<Rightarrow> Inr (0, ps)
           | None \<Rightarrow>
               (case alloc_port (ps_ports ps) 1 of
                  None \<Rightarrow> Inl Diverge
                | Some port \<Rightarrow> Inr (port, ps\<lparr> ps_ports := set_add port (ps_ports ps), ps_peers := m_set (ps_peers ps) key [] \<rparr>)))
          (\<lambda>(port, ps1).
           let p = \<lparr> p_id = ps_fresh ps1, p_key = key, p_protocol = peerProtocolFromConn conn, p_port = port,
                     p_prio = prio, p_order = ps_order ps1 \<rparr>
           in Inr (p, ps1\<lparr> ps_fresh := ps_fresh ps1 + 1, ps_order := ps_order ps1 + 1,
                           ps_peers := m_set (ps_peers ps1) key (set_add p (m_get0 [] (ps_peers ps1) key)) \<rparr>)))"

definition peers_removePeer :: "peer \<Rightarrow> peersState \<Rightarrow> types_error option \<times> peersState" where
  "peers_removePeer p ps =
     (let kps = m_get0 [] (ps_peers ps) (p_key p) in
      if p \<notin> set kps then (Some ErrPeerNotFound, ps)
      else
        (let kps' = set_del p kps in
         if kps' = [] then
           (None, ps\<lparr> ps_peers := m_del (ps_peers ps) (p_key p), ps_ports := set_del (p_port p) (ps_ports ps) \<rparr>)
         else (None, ps\<lparr> ps_peers := m_set (ps_peers ps) (p_key p) kps' \<rparr>)))"

subsection \<open>The search for a free port ends\<close>

lemma free_port_exists:
  assumes "length ports < 2 ^ 64 - 1"
  shows "\<exists>n. 1 \<le> n \<and> n \<le> length ports + 1 \<and> (of_nat n :: peerPort) \<notin> set ports"
proof (rule ccontr)
  let ?A = "{1..length ports + 1}"
  assume "\<nexists>n. 1 \<le> n \<and> n \<le> length ports + 1 \<and> (of_nat n :: peerPort) \<notin> set ports"
  then have sub: "(of_nat :: nat \<Rightarrow> peerPort) ` ?A \<subseteq> set ports" by auto
  have small: "n < 2 ^ 64" if "n \<in> ?A" for n using assms that by auto
  have "inj_on (of_nat :: nat \<Rightarrow> peerPort) ?A"
    by (rule inj_onI) (metis small unat64_of_nat)
  then have "card ?A = card ((of_nat :: nat \<Rightarrow> peerPort) ` ?A)" by (rule card_image [symmetric])
  also have "\<dots> \<le> card (set ports)" by (rule card_mono [OF _ sub]) simp
  also have "\<dots> \<le> length ports" by (rule card_length)
  finally show False by simp
qed

lemma alloc_port_least:
  assumes "(of_nat n :: peerPort) \<notin> set ports" "\<And>m. k \<le> m \<Longrightarrow> m < n \<Longrightarrow> (of_nat m :: peerPort) \<in> set ports" "k \<le> n"
  shows "alloc_port ports k = Some (of_nat n)"
  using assms
proof (induction "n - k" arbitrary: k)
  case 0
  then show ?case by (subst alloc_port.simps) simp
next
  case (Suc d)
  then have "(of_nat k :: peerPort) \<in> set ports" by (metis diff_is_0_eq le_eq_less_or_eq nat.distinct(1))
  with Suc show ?case by (subst alloc_port.simps) simp
qed

lemma alloc_port_ok:
  assumes "length ports < 2 ^ 64 - 1"
  shows "\<exists>n. alloc_port ports 1 = Some (of_nat n) \<and> 1 \<le> n \<and> n \<le> length ports + 1
    \<and> (of_nat n :: peerPort) \<notin> set ports \<and> (\<forall>m. 1 \<le> m \<longrightarrow> m < n \<longrightarrow> (of_nat m :: peerPort) \<in> set ports)"
proof -
  let ?P = "\<lambda>n. 1 \<le> n \<and> (of_nat n :: peerPort) \<notin> set ports"
  obtain k where k: "1 \<le> k" "k \<le> length ports + 1" "(of_nat k :: peerPort) \<notin> set ports"
    using free_port_exists [OF assms] by blast
  define n where "n = (LEAST n. ?P n)"
  have n: "?P n" "n \<le> k" using LeastI [of ?P k] Least_le [of ?P k] k by (simp_all add: n_def)
  have least: "(of_nat m :: peerPort) \<in> set ports" if "1 \<le> m" "m < n" for m
    using not_less_Least [of m ?P] that by (auto simp: n_def)
  show ?thesis
    using alloc_port_least [of n ports 1] n least k(2) by (intro exI [of _ n]) auto
qed

subsection \<open>The invariant\<close>

definition all_peers :: "peersState \<Rightarrow> peer set" where
  "all_peers ps = {p. \<exists>k kps. m_get (ps_peers ps) k = Some kps \<and> p \<in> set kps}"

text \<open>The lists of the table, one per key.\<close>

definition lists_ok :: "(publicKey, peer list) gomap \<Rightarrow> bool" where
  "lists_ok m \<longleftrightarrow> (\<forall>k kps. m_get m k = Some kps \<longrightarrow> kps \<noteq> [] \<and> distinct kps \<and> (\<forall>p \<in> set kps. p_key p = k))"

lemma lists_ok_set: "lists_ok m \<Longrightarrow> kps \<noteq> [] \<Longrightarrow> distinct kps \<Longrightarrow> \<forall>p \<in> set kps. p_key p = k \<Longrightarrow> lists_ok (m_set m k kps)"
  unfolding lists_ok_def m_get_set by (metis option.inject)

lemma lists_ok_del: "lists_ok m \<Longrightarrow> lists_ok (m_del m k)"
  unfolding lists_ok_def m_get_del by (metis option.discI)

lemma lists_okD: "lists_ok m \<Longrightarrow> m_get m k = Some kps \<Longrightarrow> kps \<noteq> [] \<and> distinct kps \<and> (\<forall>p \<in> set kps. p_key p = k)"
  by (simp add: lists_ok_def)

definition peers_ok :: "peersState \<Rightarrow> bool" where
  "peers_ok ps \<longleftrightarrow> m_ok (ps_peers ps) \<and> distinct (ps_ports ps) \<and> 0 \<notin> set (ps_ports ps)
     \<and> lists_ok (ps_peers ps)
     \<and> (\<forall>p \<in> all_peers ps. p_id p < ps_fresh ps) \<and> inj_on p_id (all_peers ps)
     \<and> p_port ` all_peers ps = set (ps_ports ps)
     \<and> (\<forall>p \<in> all_peers ps. \<forall>p' \<in> all_peers ps. p_port p = p_port p' \<longleftrightarrow> p_key p = p_key p')"

lemma peers_okD:
  assumes "peers_ok ps"
  shows "m_ok (ps_peers ps)" "distinct (ps_ports ps)" "0 \<notin> set (ps_ports ps)"
    "lists_ok (ps_peers ps)"
    "p \<in> all_peers ps \<Longrightarrow> p_id p < ps_fresh ps" "inj_on p_id (all_peers ps)"
    "p_port ` all_peers ps = set (ps_ports ps)"
    "p \<in> all_peers ps \<Longrightarrow> p' \<in> all_peers ps \<Longrightarrow> p_port p = p_port p' \<longleftrightarrow> p_key p = p_key p'"
  using assms by (simp_all add: peers_ok_def)

lemma m_set_twice: "m_set (m_set m k a) k b = m_set m k b"
  by (induction m) auto

lemma peers_init_ok: "peers_ok peers_init"
  by (simp add: peers_ok_def peers_init_def all_peers_def lists_ok_def)

lemma all_peers_key: "peers_ok ps \<Longrightarrow> p \<in> all_peers ps \<longleftrightarrow> p \<in> set (m_get0 [] (ps_peers ps) (p_key p))"
proof
  assume ok: "peers_ok ps" and "p \<in> all_peers ps"
  then obtain k kps where k: "m_get (ps_peers ps) k = Some kps" "p \<in> set kps" by (auto simp: all_peers_def)
  then have "p_key p = k" using lists_okD [OF peers_okD(4) [OF ok]] by blast
  with k show "p \<in> set (m_get0 [] (ps_peers ps) (p_key p))" by (simp add: m_get0_def)
next
  assume "p \<in> set (m_get0 [] (ps_peers ps) (p_key p))"
  then show "p \<in> all_peers ps"
    by (cases "m_get (ps_peers ps) (p_key p)") (auto simp: all_peers_def m_get0_def)
qed

lemma peer_keyD: "peers_ok ps \<Longrightarrow> m_get (ps_peers ps) k = Some kps \<Longrightarrow> p \<in> set kps \<Longrightarrow> p_key p = k"
  using lists_okD [OF peers_okD(4)] by blast

lemma all_peers_iff:
  assumes "peers_ok ps"
  shows "p \<in> all_peers ps \<longleftrightarrow> (\<exists>kps. m_get (ps_peers ps) (p_key p) = Some kps \<and> p \<in> set kps)"
  unfolding all_peers_def using peer_keyD [OF assms] by blast

lemma all_peers_m_set:
  assumes ok: "peers_ok ps" and ps': "ps_peers ps' = m_set (ps_peers ps) k kps" and keys: "\<forall>p \<in> set kps. p_key p = k"
  shows "all_peers ps' = {p \<in> all_peers ps. p_key p \<noteq> k} \<union> set kps"
proof (rule set_eqI)
  fix p
  have "p \<in> all_peers ps' \<longleftrightarrow> (\<exists>k' qs. k' \<noteq> k \<and> m_get (ps_peers ps) k' = Some qs \<and> p \<in> set qs) \<or> p \<in> set kps"
    unfolding all_peers_def ps' m_get_set by (auto split: if_splits)
  moreover have "(\<exists>k' qs. k' \<noteq> k \<and> m_get (ps_peers ps) k' = Some qs \<and> p \<in> set qs) \<longleftrightarrow> p \<in> all_peers ps \<and> p_key p \<noteq> k"
    unfolding all_peers_iff [OF ok] using peer_keyD [OF ok] by blast
  ultimately show "p \<in> all_peers ps' \<longleftrightarrow> p \<in> {p \<in> all_peers ps. p_key p \<noteq> k} \<union> set kps" by blast
qed

lemma all_peers_m_del:
  assumes ok: "peers_ok ps" and ps': "ps_peers ps' = m_del (ps_peers ps) k"
  shows "all_peers ps' = {p \<in> all_peers ps. p_key p \<noteq> k}"
proof (rule set_eqI)
  fix p
  have "p \<in> all_peers ps' \<longleftrightarrow> (\<exists>k' qs. k' \<noteq> k \<and> m_get (ps_peers ps) k' = Some qs \<and> p \<in> set qs)"
    unfolding all_peers_def ps' m_get_del by (auto split: if_splits)
  also have "\<dots> \<longleftrightarrow> p \<in> all_peers ps \<and> p_key p \<noteq> k"
    unfolding all_peers_iff [OF ok] using peer_keyD [OF ok] by blast
  finally show "p \<in> all_peers ps' \<longleftrightarrow> p \<in> {p \<in> all_peers ps. p_key p \<noteq> k}" by simp
qed

lemma same_port_insert:
  assumes "\<And>a b. a \<in> S \<Longrightarrow> b \<in> S \<Longrightarrow> f a = f b \<longleftrightarrow> g a = g b" "\<And>a. a \<in> S \<Longrightarrow> f a = f p \<longleftrightarrow> g a = g p"
  shows "\<forall>a \<in> insert p S. \<forall>b \<in> insert p S. f a = f b \<longleftrightarrow> g a = g b"
  using assms by (metis insert_iff)

lemma fresh_id_insert: "inj_on p_id S \<Longrightarrow> (\<And>q. q \<in> S \<Longrightarrow> p_id q < p_id p) \<Longrightarrow> inj_on p_id (insert p S)"
  by (simp add: inj_on_insert) (metis DiffD1 imageE less_irrefl)

text \<open>What a new connection may count on.\<close>

lemma addPeer_new_key:
  assumes ok: "peers_ok ps" and new: "m_get (ps_peers ps) key = None" and room: "length (ps_ports ps) < 2 ^ 64 - 1"
  shows "\<exists>p ps'. peers_addPeer False key conn prio ps = Inr (p, ps') \<and> peers_ok ps'
    \<and> all_peers ps' = insert p (all_peers ps) \<and> p \<notin> all_peers ps \<and> p_key p = key"
proof -
  obtain n where n: "alloc_port (ps_ports ps) 1 = Some (of_nat n)" "1 \<le> n" "n \<le> length (ps_ports ps) + 1"
      "(of_nat n :: peerPort) \<notin> set (ps_ports ps)"
    using alloc_port_ok [OF room] by blast
  have nz: "(of_nat n :: peerPort) \<noteq> 0" using n(2,3) room unat64_of_nat [of n] by auto
  define p where "p = \<lparr> p_id = ps_fresh ps, p_key = key, p_protocol = peerProtocolFromConn conn, p_port = of_nat n,
    p_prio = prio, p_order = ps_order ps \<rparr>"
  define ps' where "ps' = ps\<lparr> ps_ports := ps_ports ps @ [of_nat n], ps_peers := m_set (ps_peers ps) key [p],
    ps_fresh := ps_fresh ps + 1, ps_order := ps_order ps + 1 \<rparr>"
  have f: "ps_ports ps' = ps_ports ps @ [of_nat n]" "ps_peers ps' = m_set (ps_peers ps) key [p]" "ps_fresh ps' = Suc (ps_fresh ps)"
    by (simp_all add: ps'_def)
  have pf: "p_key p = key" "p_port p = of_nat n" "p_id p = ps_fresh ps" by (simp_all add: p_def)
  have run: "peers_addPeer False key conn prio ps = Inr (p, ps')"
    using n new by (simp add: peers_addPeer_def p_def ps'_def set_add_def m_get0_def m_set_twice Let_def)
  have keys: "p_key q \<noteq> key" if "q \<in> all_peers ps" for q
    using all_peers_key [OF ok, of q] that new by (auto simp: m_get0_def)
  have all: "all_peers ps' = insert p (all_peers ps)"
    using all_peers_m_set [OF ok f(2)] keys pf(1) by auto
  have fresh: "p \<notin> all_peers ps" using peers_okD(5) [OF ok, of p] pf(3) by auto
  have ports: "p_port q \<noteq> of_nat n" if "q \<in> all_peers ps" for q
    using imageI [OF that, of p_port] peers_okD(7) [OF ok] n(4) by auto
  have "p_port ` all_peers ps' = set (ps_ports ps')" using peers_okD(7) [OF ok] by (simp add: all f pf)
  moreover have "inj_on p_id (all_peers ps')"
    unfolding all using peers_okD(5,6) [OF ok] by (intro fresh_id_insert) (simp_all add: pf)
  moreover have "\<forall>a \<in> all_peers ps'. \<forall>b \<in> all_peers ps'. p_port a = p_port b \<longleftrightarrow> p_key a = p_key b"
    unfolding all using ports keys peers_okD(8) [OF ok] by (intro same_port_insert) (simp_all add: pf)
  moreover have "lists_ok (ps_peers ps')"
    unfolding f(2) using peers_okD(4) [OF ok] by (rule lists_ok_set) (simp_all add: pf)
  moreover have "\<forall>q \<in> all_peers ps'. p_id q < ps_fresh ps'"
    using peers_okD(5) [OF ok] by (simp add: all f pf less_SucI)
  ultimately have "peers_ok ps'"
    unfolding peers_ok_def using peers_okD(1-3) [OF ok] n(4) nz by (simp add: f)
  with run all fresh pf(1) show ?thesis by blast
qed

lemma addPeer_known_key:
  assumes ok: "peers_ok ps" and known: "m_get (ps_peers ps) key = Some kps"
  shows "\<exists>p ps'. peers_addPeer False key conn prio ps = Inr (p, ps') \<and> peers_ok ps'
    \<and> all_peers ps' = insert p (all_peers ps) \<and> p \<notin> all_peers ps \<and> p_key p = key"
proof -
  note kps = lists_okD [OF peers_okD(4) [OF ok] known]
  obtain p0 rest where kp: "kps = p0 # rest" using kps by (cases kps) auto
  have p0: "p0 \<in> all_peers ps" "p_key p0 = key" using known kp kps all_peers_key [OF ok, of p0] by (simp_all add: m_get0_def)
  define p where "p = \<lparr> p_id = ps_fresh ps, p_key = key, p_protocol = peerProtocolFromConn conn, p_port = p_port p0,
    p_prio = prio, p_order = ps_order ps \<rparr>"
  define ps' where "ps' = ps\<lparr> ps_peers := m_set (ps_peers ps) key (set_add p kps),
    ps_fresh := ps_fresh ps + 1, ps_order := ps_order ps + 1 \<rparr>"
  have f: "ps_ports ps' = ps_ports ps" "ps_peers ps' = m_set (ps_peers ps) key (set_add p kps)" "ps_fresh ps' = Suc (ps_fresh ps)"
    by (simp_all add: ps'_def)
  have pf: "p_key p = key" "p_port p = p_port p0" "p_id p = ps_fresh ps" by (simp_all add: p_def)
  have run: "peers_addPeer False key conn prio ps = Inr (p, ps')"
    using known kp by (simp add: peers_addPeer_def p_def ps'_def m_get0_def Let_def)
  have fresh: "p \<notin> all_peers ps" using peers_okD(5) [OF ok, of p] pf(3) by auto
  have same_key: "q \<in> set kps \<longleftrightarrow> q \<in> all_peers ps \<and> p_key q = key" for q
    using kps known all_peers_iff [OF ok, of q] by (metis option.inject)
  have all: "all_peers ps' = insert p (all_peers ps)"
    using all_peers_m_set [OF ok f(2)] kps same_key pf(1) by auto
  have same: "p_port q = p_port p0 \<longleftrightarrow> p_key q = key" if "q \<in> all_peers ps" for q
    using peers_okD(8) [OF ok that p0(1)] p0(2) by simp
  have "p_port ` all_peers ps' = set (ps_ports ps')"
    using imageI [OF p0(1), of p_port] peers_okD(7) [OF ok] by (simp add: all f pf insert_absorb)
  moreover have "inj_on p_id (all_peers ps')"
    unfolding all using peers_okD(5,6) [OF ok] by (intro fresh_id_insert) (simp_all add: pf)
  moreover have "\<forall>a \<in> all_peers ps'. \<forall>b \<in> all_peers ps'. p_port a = p_port b \<longleftrightarrow> p_key a = p_key b"
    unfolding all using same peers_okD(8) [OF ok] by (intro same_port_insert) (simp_all add: pf)
  moreover have "lists_ok (ps_peers ps')"
    unfolding f(2) using peers_okD(4) [OF ok] by (rule lists_ok_set) (use kps in \<open>simp_all add: pf set_add_def\<close>)
  moreover have "\<forall>q \<in> all_peers ps'. p_id q < ps_fresh ps'"
    using peers_okD(5) [OF ok] by (simp add: all f pf less_SucI)
  ultimately have "peers_ok ps'"
    unfolding peers_ok_def using peers_okD(1-3) [OF ok] by (simp add: f)
  with run all fresh pf(1) show ?thesis by blast
qed

lemma peers_addPeer_ok:
  assumes "peers_ok ps" "length (ps_ports ps) < 2 ^ 64 - 1"
  shows "\<exists>p ps'. peers_addPeer False key conn prio ps = Inr (p, ps') \<and> peers_ok ps'
    \<and> all_peers ps' = insert p (all_peers ps) \<and> p \<notin> all_peers ps \<and> p_key p = key"
  by (cases "m_get (ps_peers ps) key") (rule addPeer_new_key [OF assms(1) _ assms(2)], simp,
      rule addPeer_known_key [OF assms(1)])

lemma set_del_empty: "set_del p kps = [] \<longleftrightarrow> set kps - {p} = {}"
  by (metis set_empty set_set_del)

lemma all_peers_remove:
  assumes ok: "peers_ok ps" and p: "p \<in> all_peers ps"
  shows "all_peers (snd (peers_removePeer p ps)) = all_peers ps - {p}"
proof -
  obtain kps where kps: "m_get (ps_peers ps) (p_key p) = Some kps" "p \<in> set kps"
    using p unfolding all_peers_iff [OF ok] by blast
  have same: "q \<in> set kps \<longleftrightarrow> q \<in> all_peers ps \<and> p_key q = p_key p" for q
    using lists_okD [OF peers_okD(4) [OF ok] kps(1)] kps(1) all_peers_iff [OF ok, of q] by (metis option.inject)
  show ?thesis
  proof (cases "set_del p kps = []")
    case True
    then have "set kps = {p}" using kps(2) unfolding set_del_empty by (metis Diff_eq_empty_iff empty_iff subset_singletonD)
    then have rest: "{q \<in> all_peers ps. p_key q \<noteq> p_key p} = all_peers ps - {p}" using same by blast
    have del: "ps_peers (snd (peers_removePeer p ps)) = m_del (ps_peers ps) (p_key p)"
      using kps True by (simp add: peers_removePeer_def m_get0_def Let_def)
    show ?thesis by (rule trans [OF all_peers_m_del [OF ok del] rest])
  next
    case False
    have keys: "\<forall>q \<in> set (set_del p kps). p_key q = p_key p"
      unfolding set_set_del using same by blast
    have set: "ps_peers (snd (peers_removePeer p ps)) = m_set (ps_peers ps) (p_key p) (set_del p kps)"
      using kps False by (simp add: peers_removePeer_def m_get0_def Let_def)
    have rest: "{q \<in> all_peers ps. p_key q \<noteq> p_key p} \<union> set (set_del p kps) = all_peers ps - {p}"
      unfolding set_set_del using same by blast
    show ?thesis by (rule trans [OF all_peers_m_set [OF ok set keys] rest])
  qed
qed

lemma removePeer_ports:
  assumes "m_get (ps_peers ps) (p_key p) = Some kps" "p \<in> set kps"
  shows "ps_ports (snd (peers_removePeer p ps)) = (if set_del p kps = [] then set_del (p_port p) (ps_ports ps) else ps_ports ps)"
  using assms by (simp add: peers_removePeer_def m_get0_def Let_def)

lemma removePeer_table:
  assumes "m_get (ps_peers ps) (p_key p) = Some kps" "p \<in> set kps"
  shows "ps_peers (snd (peers_removePeer p ps)) =
    (if set_del p kps = [] then m_del (ps_peers ps) (p_key p) else m_set (ps_peers ps) (p_key p) (set_del p kps))"
  using assms by (simp add: peers_removePeer_def m_get0_def Let_def)

lemma image_minus_same: "p \<in> S \<Longrightarrow> q \<in> S - {p} \<Longrightarrow> f q = f p \<Longrightarrow> f ` (S - {p}) = f ` S"
  by (metis image_eqI image_insert insert_Diff insert_absorb)

lemma image_minus_only:
  assumes "p \<in> S" "\<And>q. q \<in> S - {p} \<Longrightarrow> f q \<noteq> f p"
  shows "f ` (S - {p}) = f ` S - {f p}"
proof -
  have "f p \<notin> f ` (S - {p})" using assms(2) by (metis imageE)
  moreover have "f ` S = insert (f p) (f ` (S - {p}))" using assms(1) by (metis image_insert insert_Diff)
  ultimately show ?thesis by (metis Diff_insert_absorb)
qed

lemma removePeer_ports_used:
  assumes ok: "peers_ok ps" and p: "p \<in> all_peers ps"
    and kps: "m_get (ps_peers ps) (p_key p) = Some kps" "p \<in> set kps"
  shows "p_port ` (all_peers ps - {p}) = set (ps_ports (snd (peers_removePeer p ps)))"
proof -
  have others: "q \<in> set kps \<longleftrightarrow> q \<in> all_peers ps \<and> p_key q = p_key p" for q
    using lists_okD [OF peers_okD(4) [OF ok] kps(1)] kps(1) all_peers_iff [OF ok, of q] by (metis option.inject)
  show ?thesis
  proof (cases "set_del p kps = []")
    case True
    then have sub: "set kps - {p} = {}" unfolding set_del_empty .
    have "p_port q \<noteq> p_port p" if q: "q \<in> all_peers ps - {p}" for q
    proof -
      have "q \<notin> set kps" using sub q by blast
      then show ?thesis using others [of q] peers_okD(8) [OF ok _ p, of q] q by simp
    qed
    from image_minus_only [of p "all_peers ps" p_port, OF p this] peers_okD(7) [OF ok] show ?thesis
      by (simp add: removePeer_ports [OF kps] True)
  next
    case False
    then obtain q where "q \<in> set kps" "q \<noteq> p" unfolding set_del_empty by blast
    then have "q \<in> all_peers ps - {p}" "p_port q = p_port p"
      using others [of q] peers_okD(8) [OF ok _ p, of q] by simp_all
    from image_minus_same [of p "all_peers ps" _ p_port, OF p this] peers_okD(7) [OF ok] show ?thesis
      by (simp add: removePeer_ports [OF kps] False)
  qed
qed

lemma peers_ok_shrink:
  assumes ok: "peers_ok ps" and all: "all_peers ps' = all_peers ps - {p}" and fresh: "ps_fresh ps' = ps_fresh ps"
    and rest: "m_ok (ps_peers ps')" "distinct (ps_ports ps')" "0 \<notin> set (ps_ports ps')" "lists_ok (ps_peers ps')"
      "p_port ` (all_peers ps - {p}) = set (ps_ports ps')"
  shows "peers_ok ps'"
proof -
  have "inj_on p_id (all_peers ps')" unfolding all using peers_okD(6) [OF ok] by (rule inj_on_diff)
  moreover have "\<forall>a \<in> all_peers ps'. p_id a < ps_fresh ps'"
    unfolding all fresh by (rule ballI, rule peers_okD(5) [OF ok], erule DiffD1)
  moreover have "\<forall>a \<in> all_peers ps'. \<forall>b \<in> all_peers ps'. p_port a = p_port b \<longleftrightarrow> p_key a = p_key b"
    unfolding all by (intro ballI, rule peers_okD(8) [OF ok], (erule DiffD1)+)
  moreover have "p_port ` all_peers ps' = set (ps_ports ps')" unfolding all by (rule rest(5))
  ultimately show ?thesis unfolding peers_ok_def using rest(1-4) by simp
qed

lemma peers_removePeer_ok:
  assumes ok: "peers_ok ps" and p: "p \<in> all_peers ps"
  shows "fst (peers_removePeer p ps) = None" "peers_ok (snd (peers_removePeer p ps))"
proof -
  obtain kps where kps: "m_get (ps_peers ps) (p_key p) = Some kps" "p \<in> set kps"
    using p unfolding all_peers_iff [OF ok] by blast
  show "fst (peers_removePeer p ps) = None" using kps by (simp add: peers_removePeer_def m_get0_def Let_def)
  note old = lists_okD [OF peers_okD(4) [OF ok] kps(1)]
  have keys: "\<forall>q \<in> set (set_del p kps). p_key q = p_key p" using old by (metis DiffD1 set_set_del)
  have dist: "distinct (set_del p kps)" using old distinct_set_del by metis
  have lists: "lists_ok (ps_peers (snd (peers_removePeer p ps)))"
    unfolding removePeer_table [OF kps]
    using lists_ok_del [OF peers_okD(4) [OF ok]] lists_ok_set [OF peers_okD(4) [OF ok] _ dist keys] by simp
  show "peers_ok (snd (peers_removePeer p ps))"
    by (rule peers_ok_shrink [OF ok all_peers_remove [OF ok p] _ _ _ _ lists removePeer_ports_used [OF ok p kps]])
      (use peers_okD(1-3) [OF ok] in \<open>simp_all add: peers_removePeer_def Let_def\<close>)
qed

lemma peers_removePeer_unknown:
  "peers_ok ps \<Longrightarrow> p \<notin> all_peers ps \<Longrightarrow> peers_removePeer p ps = (Some ErrPeerNotFound, ps)"
  using all_peers_key [of ps p] by (simp add: peers_removePeer_def Let_def)

subsection \<open>Runs\<close>

inductive peers_step :: "peersState \<Rightarrow> peersState \<Rightarrow> bool" where
  step_add: "length (ps_ports ps) < 2 ^ 64 - 1 \<Longrightarrow> peers_addPeer closed key conn prio ps = Inr (p, ps') \<Longrightarrow> peers_step ps ps'"
| step_remove: "peers_removePeer p ps = (err, ps') \<Longrightarrow> peers_step ps ps'"

lemma peers_step_ok: "peers_ok ps \<Longrightarrow> peers_step ps ps' \<Longrightarrow> peers_ok ps'"
proof -
  assume ok: "peers_ok ps" and step: "peers_step ps ps'"
  from step show "peers_ok ps'"
  proof cases
    case (step_add closed key conn prio p)
    then have "\<not> closed" by (auto simp: peers_addPeer_def)
    then show ?thesis using peers_addPeer_ok [OF ok step_add(1), of key conn prio] step_add(2) by auto
  next
    case (step_remove p err)
    then show ?thesis
      using peers_removePeer_ok(2) [OF ok, of p] peers_removePeer_unknown [OF ok, of p] ok
      by (cases "p \<in> all_peers ps") auto
  qed
qed

interpretation peers_actor: actor_invariant "\<lambda>ps. ps = peers_init" peers_step peers_ok
  by unfold_locales (auto intro: peers_init_ok peers_step_ok)

subsection \<open>Properties\<close>

text \<open>
  C28. Ports name neighbours: whatever connections came and went, every connection has a nonzero port, two
  connections have the same port exactly when they lead to the same key, and a port is reserved
  exactly as long as a connection uses it.
\<close>

theorem ports_name_neighbours:
  assumes "peers_step\<^sup>*\<^sup>* peers_init ps" "p \<in> all_peers ps" "p' \<in> all_peers ps"
  shows "p_port p \<noteq> 0 \<and> (p_port p = p_port p' \<longleftrightarrow> p_key p = p_key p') \<and> set (ps_ports ps) = p_port ` all_peers ps"
proof -
  have ok: "peers_ok ps" by (rule peers_actor.reachable_inv [OF refl assms(1)])
  have "p_port p \<in> set (ps_ports ps)" using imageI [OF assms(2), of p_port] peers_okD(7) [OF ok] by simp
  then have "p_port p \<noteq> 0" using peers_okD(3) [OF ok] by metis
  with peers_okD(7) [OF ok] peers_okD(8) [OF ok assms(2,3)] show ?thesis by simp
qed

lemma one_peer_reachable: "\<exists>ps p. peers_step\<^sup>*\<^sup>* peers_init ps \<and> all_peers ps = {p} \<and> p_key p = 7"
proof -
  have room: "length (ps_ports peers_init) < 2 ^ 64 - 1" by (simp add: peers_init_def)
  obtain p ps where "peers_addPeer False 7 None 0 peers_init = Inr (p, ps)" "p_key p = 7"
      "all_peers ps = insert p (all_peers peers_init)"
    using peers_addPeer_ok [OF peers_init_ok room] by blast
  moreover have "all_peers peers_init = {}" by (simp add: all_peers_def peers_init_def)
  ultimately show ?thesis using step_add [OF room] by blast
qed

theorem ports_name_neighbours_witness:
  "\<exists>ps p. peers_step\<^sup>*\<^sup>* peers_init ps \<and> p \<in> all_peers ps \<and> p_key p = 7 \<and> p_port p \<noteq> 0
     \<and> set (ps_ports ps) = p_port ` all_peers ps"
proof -
  obtain ps p where ps: "peers_step\<^sup>*\<^sup>* peers_init ps" "all_peers ps = {p}" "p_key p = 7"
    using one_peer_reachable by blast
  then have "p \<in> all_peers ps" by simp
  with ports_name_neighbours [OF ps(1), of p p] ps show ?thesis by blast
qed

text \<open>
  C29. The search for a port ends: \<open>addPeer\<close> on an open conn returns, for fewer than \<open>2^64 - 1\<close> ports
  in use, a new connection to the key, and for a new key the smallest positive port that is free.
\<close>

theorem addPeer_terminates:
  assumes "peers_step\<^sup>*\<^sup>* peers_init ps" "length (ps_ports ps) < 2 ^ 64 - 1"
  shows "\<exists>p ps'. peers_addPeer False key conn prio ps = Inr (p, ps') \<and> p_key p = key
    \<and> all_peers ps' = insert p (all_peers ps) \<and> p \<notin> all_peers ps
    \<and> (m_get (ps_peers ps) key = None \<longrightarrow>
        (\<exists>n. p_port p = of_nat n \<and> 1 \<le> n \<and> n \<le> length (ps_ports ps) + 1 \<and> p_port p \<notin> set (ps_ports ps)
          \<and> (\<forall>m. 1 \<le> m \<longrightarrow> m < n \<longrightarrow> of_nat m \<in> set (ps_ports ps))))"
proof -
  have ok: "peers_ok ps" by (rule peers_actor.reachable_inv [OF refl assms(1)])
  obtain p ps' where run: "peers_addPeer False key conn prio ps = Inr (p, ps')" "p_key p = key"
      "all_peers ps' = insert p (all_peers ps)" "p \<notin> all_peers ps"
    using peers_addPeer_ok [OF ok assms(2)] by blast
  obtain n where n: "alloc_port (ps_ports ps) 1 = Some (of_nat n)" "1 \<le> n" "n \<le> length (ps_ports ps) + 1"
      "(of_nat n :: peerPort) \<notin> set (ps_ports ps)" "\<forall>m. 1 \<le> m \<longrightarrow> m < n \<longrightarrow> (of_nat m :: peerPort) \<in> set (ps_ports ps)"
    using alloc_port_ok [OF assms(2)] by blast
  have "p_port p = of_nat n" if "m_get (ps_peers ps) key = None"
    using run(1) that n(1) by (auto simp: peers_addPeer_def Let_def)
  with run n(2-5) show ?thesis by (intro exI [of _ p] exI [of _ ps']) auto
qed

theorem addPeer_terminates_witness:
  "\<exists>p ps'. peers_addPeer False 7 (Some ''quic'') 3 peers_init = Inr (p, ps') \<and> p_key p = 7 \<and> p \<in> all_peers ps'"
proof -
  have "length (ps_ports peers_init) < 2 ^ 64 - 1" by (simp add: peers_init_def)
  from addPeer_terminates [OF rtranclp.rtrancl_refl this, of 7 "Some ''quic''" 3] show ?thesis by blast
qed

end
