(* ===== verification/Deadline.thy ===== *)
theory Deadline
  imports Prelude
begin

text \<open>
  The read deadline of \<^verbatim>\<open>ironwood/network/packetconn.go\<close>. Channels, \<open>sync.Once\<close> values and timers are
  numbered by their creation; \<open>dl_used\<close> and \<open>dl_closed\<close> list the onces that ran and the closed channels.
\<close>

record deadline =
  dl_timer :: "nat option"
  dl_once :: nat
  dl_cancel :: nat
  dl_armed :: "(nat \<times> int \<times> nat \<times> nat) list"
  dl_fired :: "(nat \<times> nat) list"
  dl_used :: "nat list"
  dl_closed :: "nat list"
  dl_fresh :: nat

definition newDeadline :: deadline where
  "newDeadline = \<lparr> dl_timer = None, dl_once = 0, dl_cancel = 1, dl_armed = [], dl_fired = [], dl_used = [],
     dl_closed = [], dl_fresh = 2 \<rparr>"

text \<open>\<open>set\<close>: an armed timer carries its time and the once and the channel its closure captured.\<close>

definition deadline_set :: "int \<Rightarrow> deadline \<Rightarrow> deadline" where
  "deadline_set t d =
     (let d1 = (if dl_once d \<in> set (dl_used d) then d
                else d\<lparr> dl_used := dl_once d # dl_used d,
                        dl_armed := (case dl_timer d of None \<Rightarrow> dl_armed d
                                     | Some timer \<Rightarrow> filter (\<lambda>a. fst a \<noteq> timer) (dl_armed d)) \<rparr>);
          d2 = (if dl_cancel d1 \<in> set (dl_closed d1) then d1\<lparr> dl_cancel := dl_fresh d1, dl_fresh := dl_fresh d1 + 1 \<rparr> else d1);
          d3 = d2\<lparr> dl_once := dl_fresh d2, dl_fresh := dl_fresh d2 + 1 \<rparr>
      in if t \<noteq> zero_time
         then d3\<lparr> dl_timer := Some (dl_fresh d3), dl_fresh := dl_fresh d3 + 1,
                  dl_armed := (dl_fresh d3, t, dl_once d3, dl_cancel d3) # dl_armed d3 \<rparr>
         else d3)"

definition getCancel :: "deadline \<Rightarrow> nat" where
  "getCancel d = dl_cancel d"

text \<open>
  A timer that runs out starts its closure, which \<open>Stop\<close> no longer reaches; the closure runs later.
  Closing a closed channel is a panic.
\<close>

definition deadline_fire :: "int \<Rightarrow> nat \<Rightarrow> deadline \<Rightarrow> deadline option" where
  "deadline_fire now k d =
     (if k < length (dl_armed d) then
        (case dl_armed d ! k of (timer, t, once, cancel) \<Rightarrow>
           if t \<le> now then Some (d\<lparr> dl_armed := take k (dl_armed d) @ drop (Suc k) (dl_armed d),
                                    dl_fired := dl_fired d @ [(once, cancel)] \<rparr>)
           else None)
      else None)"

definition deadline_run :: "nat \<Rightarrow> deadline \<Rightarrow> deadline option result" where
  "deadline_run k d =
     (if k < length (dl_fired d) then
        (case dl_fired d ! k of (once, cancel) \<Rightarrow>
           let d1 = d\<lparr> dl_fired := take k (dl_fired d) @ drop (Suc k) (dl_fired d) \<rparr> in
           if once \<in> set (dl_used d1) then Inr (Some d1)
           else if cancel \<in> set (dl_closed d1) then Inl Panic
           else Inr (Some (d1\<lparr> dl_used := once # dl_used d1, dl_closed := cancel # dl_closed d1 \<rparr>)))
      else Inr None)"

subsection \<open>Runs of a deadline\<close>

text \<open>The state is the clock, the argument of the latest \<open>set\<close>, and the deadline.\<close>

datatype dl_event = DlSet int | DlFire int nat | DlRun nat

fun dl_do :: "dl_event \<Rightarrow> int \<times> int \<times> deadline \<Rightarrow> (int \<times> int \<times> deadline) option result" where
  "dl_do (DlSet t) (now, latest, d) = Inr (Some (now, t, deadline_set t d))"
| "dl_do (DlFire now' k) (now, latest, d) =
     Inr (if now' < now then None else map_option (\<lambda>d'. (now', latest, d')) (deadline_fire now' k d))"
| "dl_do (DlRun k) (now, latest, d) =
     and_then (deadline_run k d) (\<lambda>r. Inr (map_option (\<lambda>d'. (now, latest, d')) r))"

fun dl_run :: "dl_event list \<Rightarrow> int \<times> int \<times> deadline \<Rightarrow> (int \<times> int \<times> deadline) option result" where
  "dl_run [] s = Inr (Some s)"
| "dl_run (ev # evs) s = and_then (dl_do ev s) (\<lambda>r. case r of None \<Rightarrow> Inr None | Some s' \<Rightarrow> dl_run evs s')"

text \<open>
  At most the timer of the latest \<open>set\<close> is armed, a closure whose once is unused belongs to it, and its
  channel is closed exactly when its once is used, which takes until the time that was set.
\<close>

definition dl_ids :: "deadline \<Rightarrow> bool" where
  "dl_ids d \<longleftrightarrow> dl_once d < dl_fresh d \<and> dl_cancel d < dl_fresh d
     \<and> (\<forall>x \<in> set (dl_used d). x < dl_fresh d) \<and> (\<forall>x \<in> set (dl_closed d). x < dl_fresh d)
     \<and> (\<forall>f \<in> set (dl_fired d). fst f < dl_fresh d)"

definition dl_ok :: "int \<Rightarrow> int \<Rightarrow> deadline \<Rightarrow> bool" where
  "dl_ok now latest d \<longleftrightarrow> dl_ids d
     \<and> (dl_armed d = [] \<or> dl_once d \<notin> set (dl_used d) \<and> latest \<noteq> zero_time
         \<and> (\<exists>tm. dl_armed d = [(tm, latest, dl_once d, dl_cancel d)] \<and> dl_timer d = Some tm))
     \<and> (\<forall>f \<in> set (dl_fired d). fst f \<in> set (dl_used d)
         \<or> f = (dl_once d, dl_cancel d) \<and> dl_armed d = [] \<and> latest \<noteq> zero_time \<and> latest \<le> now)
     \<and> (dl_cancel d \<in> set (dl_closed d) \<longleftrightarrow> dl_once d \<in> set (dl_used d))
     \<and> (dl_once d \<in> set (dl_used d) \<longrightarrow> latest \<noteq> zero_time \<and> latest \<le> now)"

lemma newDeadline_ok: "dl_ok now zero_time newDeadline"
  by (simp add: dl_ok_def dl_ids_def newDeadline_def)

lemma dl_ok_mono: "dl_ok now latest d \<Longrightarrow> now \<le> now' \<Longrightarrow> dl_ok now' latest d"
  by (auto simp: dl_ok_def)

text \<open>The first statement of \<open>set\<close> disarms everything, the second makes the channel an open one.\<close>

definition disarm :: "deadline \<Rightarrow> deadline" where
  "disarm d = (if dl_once d \<in> set (dl_used d) then d
     else d\<lparr> dl_used := dl_once d # dl_used d,
             dl_armed := (case dl_timer d of None \<Rightarrow> dl_armed d
                          | Some timer \<Rightarrow> filter (\<lambda>a. fst a \<noteq> timer) (dl_armed d)) \<rparr>)"

definition reopen :: "deadline \<Rightarrow> deadline" where
  "reopen d = (if dl_cancel d \<in> set (dl_closed d) then d\<lparr> dl_cancel := dl_fresh d, dl_fresh := dl_fresh d + 1 \<rparr> else d)"

definition disarmed :: "deadline \<Rightarrow> bool" where
  "disarmed d \<longleftrightarrow> dl_armed d = [] \<and> dl_ids d \<and> (\<forall>f \<in> set (dl_fired d). fst f \<in> set (dl_used d))"

lemma ids_fresh:
  assumes "dl_ids d"
  shows "dl_fresh d \<notin> set (dl_used d)" "dl_fresh d \<notin> set (dl_closed d)"
  using assms less_irrefl [of "dl_fresh d"] by (metis dl_ids_def)+

lemma ids_grow:
  assumes "dl_ids d" "dl_fresh d \<le> n" "once < n" "cancel < n"
  shows "dl_ids (d\<lparr> dl_once := once, dl_cancel := cancel, dl_fresh := n \<rparr>)"
  using assms unfolding dl_ids_def by simp (meson order.strict_trans2)

lemma disarm_ok: "dl_ok now latest d \<Longrightarrow> disarmed (disarm d)"
  by (fastforce simp: disarm_def disarmed_def dl_ok_def dl_ids_def split: option.splits)

lemma reopen_ok:
  assumes "disarmed d"
  shows "disarmed (reopen d) \<and> dl_cancel (reopen d) \<notin> set (dl_closed (reopen d))"
proof -
  have "dl_ids d" using assms by (simp add: disarmed_def)
  then have "dl_ids (d\<lparr> dl_cancel := dl_fresh d, dl_fresh := Suc (dl_fresh d) \<rparr>)"
    using ids_grow [of d "Suc (dl_fresh d)" "dl_once d" "dl_fresh d"] by (simp add: dl_ids_def)
  with assms ids_fresh [OF \<open>dl_ids d\<close>] show ?thesis by (simp add: reopen_def disarmed_def)
qed

lemma deadline_set_ok:
  assumes "dl_ok now latest d"
  shows "dl_ok now t (deadline_set t d)"
proof -
  define d2 where "d2 = reopen (disarm d)"
  have d2: "disarmed d2" "dl_cancel d2 \<notin> set (dl_closed d2)"
    using reopen_ok [OF disarm_ok [OF assms]] by (simp_all add: d2_def)
  have set_eq: "deadline_set t d = (let d3 = d2\<lparr> dl_once := dl_fresh d2, dl_fresh := dl_fresh d2 + 1 \<rparr>
      in if t \<noteq> zero_time
         then d3\<lparr> dl_timer := Some (dl_fresh d3), dl_fresh := dl_fresh d3 + 1,
                  dl_armed := (dl_fresh d3, t, dl_once d3, dl_cancel d3) # dl_armed d3 \<rparr>
         else d3)"
    by (simp only: deadline_set_def disarm_def reopen_def d2_def Let_def)
  have ids: "dl_ids d2" and cancel: "dl_cancel d2 < dl_fresh d2" using d2(1) by (simp_all add: disarmed_def dl_ids_def)
  show ?thesis
    using d2 ids_fresh [OF ids] ids_grow [OF ids, of "Suc (dl_fresh d2)" "dl_fresh d2" "dl_cancel d2"]
      ids_grow [OF ids, of "Suc (Suc (dl_fresh d2))" "dl_fresh d2" "dl_cancel d2"] cancel
    unfolding set_eq by (cases "t = zero_time") (simp_all add: dl_ok_def disarmed_def dl_ids_def Let_def)
qed

lemma deadline_fire_ok:
  assumes "dl_ok t latest d" "t \<le> now" "deadline_fire now k d = Some d'"
  shows "dl_ok now latest d'"
proof -
  have "k < length (dl_armed d)" using assms(3) by (simp add: deadline_fire_def split: if_splits)
  then obtain tm where "dl_armed d = [(tm, latest, dl_once d, dl_cancel d)]" "k = 0" "dl_once d \<notin> set (dl_used d)"
    using assms(1) by (auto simp: dl_ok_def)
  with assms show ?thesis
    by (fastforce simp: deadline_fire_def dl_ok_def dl_ids_def split: if_splits)
qed

lemma deadline_run_ok:
  assumes "dl_ok now latest d"
  shows "\<exists>r. deadline_run k d = Inr r \<and> (\<forall>d'. r = Some d' \<longrightarrow> dl_ok now latest d')"
proof (cases "k < length (dl_fired d)")
  case True
  obtain once cancel where f: "dl_fired d ! k = (once, cancel)" by (cases "dl_fired d ! k")
  define fs where "fs = take k (dl_fired d) @ drop (Suc k) (dl_fired d)"
  have sub: "\<And>x. x \<in> set fs \<Longrightarrow> x \<in> set (dl_fired d)"
    by (auto simp: fs_def dest: in_set_takeD in_set_dropD)
  have "(once, cancel) \<in> set (dl_fired d)" using True f by (metis nth_mem)
  then have new: "once \<in> set (dl_used d) \<or> once = dl_once d \<and> cancel = dl_cancel d \<and> dl_armed d = []
      \<and> latest \<noteq> zero_time \<and> latest \<le> now"
    using assms unfolding dl_ok_def by (metis fst_conv prod.inject)
  show ?thesis
  proof (cases "once \<in> set (dl_used d)")
    case used: True
    have "dl_ok now latest (d\<lparr> dl_fired := fs \<rparr>)" using assms sub unfolding dl_ok_def dl_ids_def by simp
    then show ?thesis using True f used by (simp add: deadline_run_def fs_def)
  next
    case unused: False
    with new assms have "cancel \<notin> set (dl_closed d)" by (simp add: dl_ok_def)
    moreover have "dl_ok now latest (d\<lparr> dl_fired := fs, dl_used := once # dl_used d, dl_closed := cancel # dl_closed d \<rparr>)"
      using assms sub new unused unfolding dl_ok_def dl_ids_def by auto
    ultimately show ?thesis using True f unused by (simp add: deadline_run_def fs_def)
  qed
qed (simp add: deadline_run_def)

lemma dl_do_ok:
  "dl_ok (fst s) (fst (snd s)) (snd (snd s)) \<Longrightarrow>
   \<exists>r. dl_do ev s = Inr r \<and> (\<forall>s'. r = Some s' \<longrightarrow> dl_ok (fst s') (fst (snd s')) (snd (snd s')))"
  using deadline_set_ok deadline_fire_ok deadline_run_ok
  by (cases "(ev, s)" rule: dl_do.cases) (fastforce simp: and_then_eq_Inr)+

lemma dl_run_ok:
  "dl_ok (fst s) (fst (snd s)) (snd (snd s)) \<Longrightarrow>
   \<exists>r. dl_run evs s = Inr r \<and> (\<forall>s'. r = Some s' \<longrightarrow> dl_ok (fst s') (fst (snd s')) (snd (snd s')))"
proof (induction evs arbitrary: s)
  case (Cons ev evs)
  obtain r where r: "dl_do ev s = Inr r" "\<forall>s'. r = Some s' \<longrightarrow> dl_ok (fst s') (fst (snd s')) (snd (snd s'))"
    using dl_do_ok [OF Cons.prems] by blast
  then show ?case using Cons.IH by (cases r) auto
qed (metis dl_run.simps(1) option.inject)

end
