(* ===== verification/PacketConn.thy ===== *)
theory PacketConn
  imports Links Peers Deadline
begin

text \<open>
  \<^verbatim>\<open>ironwood/network/packetconn.go\<close>: the interface of the network to its user.
  \<^item> \<open>pc_recv\<close> is the channel \<open>recv\<close>, of capacity one; \<open>pc_box\<close> the inbox of the actor; \<open>pc_readers\<close> holds,
    for each call of \<open>ReadFrom\<close> that waits in its \<open>select\<close>, the channel \<open>getCancel\<close> gave it.
  \<^item> A \<open>select\<close> with several ready branches takes any of them, so the branch is an argument; the
    result \<open>None\<close> means that the branch is not ready, i.e. the goroutine waits.
\<close>

subsection \<open>The packet conn\<close>

datatype pc_msg = DoPop | HandleTraffic traffic

record packetConn =
  pc_recv :: "traffic list"
  pc_recvReady :: u64
  pc_recvq :: packetQueue
  pc_readDeadline :: deadline
  pc_closed :: bool
  pc_box :: "pc_msg list"
  pc_readers :: "nat list"

definition packetConn_init :: packetConn where
  "packetConn_init = \<lparr> pc_recv = [], pc_recvReady = 0, pc_recvq = empty_queue, pc_readDeadline = newDeadline,
     pc_closed = False, pc_box = [], pc_readers = [] \<rparr>"

definition IsClosed :: "packetConn \<Rightarrow> bool" where
  "IsClosed pc = pc_closed pc"

definition pc_handleTraffic :: "bool \<Rightarrow> env \<Rightarrow> int \<Rightarrow> traffic \<Rightarrow> packetConn \<Rightarrow> packetConn option result" where
  "pc_handleTraffic on_closed E now tr pc =
     (if tr_dest tr \<noteq> self_key E then Inr (Some pc)
      else if 0 < pc_recvReady pc then
        Inr (if on_closed then (if pc_closed pc then Some pc else None)
             else if length (pc_recv pc) < 1
             then Some (pc\<lparr> pc_recv := pc_recv pc @ [tr], pc_recvReady := pc_recvReady pc - 1 \<rparr>)
             else None)
      else and_then (enqueue now (pc_recvq pc) (Traffic tr)) (\<lambda>q. Inr (Some (pc\<lparr> pc_recvq := q \<rparr>))))"

definition pc_doPop :: "bool \<Rightarrow> packetConn \<Rightarrow> packetConn option result" where
  "pc_doPop on_closed pc =
     and_then (queue_pop (pc_recvq pc)) (\<lambda>(q, got).
       let pc1 = pc\<lparr> pc_recvq := q \<rparr> in
       case got of
         None \<Rightarrow> Inr (Some (pc1\<lparr> pc_recvReady := pc_recvReady pc1 + 1 \<rparr>))
       | Some info \<Rightarrow>
           (case pq_packet info of
              Traffic tr \<Rightarrow>
                if on_closed \<and> pc_closed pc1 then Inr (Some pc1)
                else if \<not> on_closed \<and> length (pc_recv pc1) < 1 then Inr (Some (pc1\<lparr> pc_recv := pc_recv pc1 @ [tr] \<rparr>))
                else if \<not> pc_closed pc1 \<and> \<not> length (pc_recv pc1) < 1 then Inl Panic
                else Inr None
            | _ \<Rightarrow> Inl Panic))"

fun pc_act :: "bool \<Rightarrow> env \<Rightarrow> int \<Rightarrow> pc_msg \<Rightarrow> packetConn \<Rightarrow> packetConn option result" where
  "pc_act on_closed E now DoPop pc = pc_doPop on_closed pc"
| "pc_act on_closed E now (HandleTraffic tr) pc = pc_handleTraffic on_closed E now tr pc"

text \<open>\<open>ReadFrom\<close> up to its \<open>select\<close>, and the branches of the \<open>select\<close> for the waiting call \<open>i\<close>.\<close>

definition readFrom_begin :: "packetConn \<Rightarrow> packetConn" where
  "readFrom_begin pc = pc\<lparr> pc_box := pc_box pc @ [DoPop], pc_readers := pc_readers pc @ [getCancel (pc_readDeadline pc)] \<rparr>"

datatype read_branch = OnClosed | OnCancel | OnRecv

text \<open>What \<open>ReadFrom\<close> returns and leaves in the caller's buffer \<open>p\<close>.\<close>

definition read_copy :: "bytes \<Rightarrow> traffic \<Rightarrow> nat \<times> bytes \<times> publicKey" where
  "read_copy p tr =
     (let n = (if length p < length (tr_payload tr) then length p else length (tr_payload tr))
      in (n, take n (tr_payload tr) @ drop n p, tr_source tr))"

definition readFrom_select :: "read_branch \<Rightarrow> bytes \<Rightarrow> nat \<Rightarrow> packetConn \<Rightarrow> (packetConn \<times> (types_error + nat \<times> bytes \<times> publicKey)) option" where
  "readFrom_select branch p i pc =
     (if i < length (pc_readers pc) then
        (let pc1 = pc\<lparr> pc_readers := take i (pc_readers pc) @ drop (Suc i) (pc_readers pc) \<rparr> in
         case branch of
           OnClosed \<Rightarrow> if pc_closed pc then Some (pc1, Inl ErrClosed) else None
         | OnCancel \<Rightarrow> if pc_readers pc ! i \<in> set (dl_closed (pc_readDeadline pc)) then Some (pc1, Inl ErrTimeout) else None
         | OnRecv \<Rightarrow> (case pc_recv pc of [] \<Rightarrow> None | tr # rest \<Rightarrow> Some (pc1\<lparr> pc_recv := rest \<rparr>, Inr (read_copy p tr))))
      else None)"

subsection \<open>Writing\<close>

text \<open>A \<open>net.Addr\<close> is a \<open>types.Addr\<close>, the bytes of a key, or something else.\<close>

datatype net_addr = KeyAddr bytes | OtherAddr

definition pc_MTU :: "config \<Rightarrow> u64 result" where
  "pc_MTU cfg =
     and_then (traffic_size \<lparr> tr_path = [], tr_from = [], tr_source = 0, tr_dest = 0, tr_watermark = NOT 0, tr_payload = [] \<rparr>)
       (\<lambda>n. Inr (peerMaxMessageSize cfg - (of_nat n + 1)))"

definition writeTo :: "env \<Rightarrow> bytes \<Rightarrow> net_addr \<Rightarrow> packetConn \<Rightarrow> (nat \<times> router_event) result" where
  "writeTo E p addr pc =
     (if pc_closed pc then Inl (Error ErrClosed)
      else case addr of
          OtherAddr \<Rightarrow> Inl (Error ErrBadAddress)
        | KeyAddr dest \<Rightarrow>
            if length dest \<noteq> publicKeySize then Inl (Error ErrBadAddress)
            else and_then (pc_MTU (env_config E)) (\<lambda>mtu.
              if mtu < of_nat (length p) then Inl (Error ErrOversizedMessage)
              else Inr (length p, WriteTraffic \<lparr> tr_path = [], tr_from = [], tr_source = self_key E,
                  tr_dest = be_word dest, tr_watermark = NOT 0, tr_payload = p \<rparr>)))"

definition pc_SendLookup :: "bytes \<Rightarrow> router_event" where
  "pc_SendLookup key = WriteLookup (be_word (copy_array publicKeySize key))"

subsection \<open>Connections and closing\<close>

text \<open>\<open>HandleConn\<close> until the handler runs, and after it returned with \<open>err\<close>.\<close>

definition handleConn_open :: "env \<Rightarrow> packetConn \<Rightarrow> bytes \<Rightarrow> string option \<Rightarrow> byte \<Rightarrow> peersState \<Rightarrow> (peer \<times> peersState) result" where
  "handleConn_open E pc key conn prio ps =
     (if length key \<noteq> publicKeySize then Inl (Error ErrBadKey)
      else
        (let pk = be_word (copy_array publicKeySize key) in
         if publicKey_equal (self_key E) pk then Inl (Error ErrBadKey)
         else peers_addPeer (pc_closed pc) pk conn prio ps))"

definition handleConn_done :: "peer \<Rightarrow> conn_error \<Rightarrow> peersState \<Rightarrow> conn_error \<times> peersState" where
  "handleConn_done p err ps =
     (case peers_removePeer p ps of
        (Some e, ps') \<Rightarrow> (Fault (Error e), ps')
      | (None, ps') \<Rightarrow> (err, ps'))"

text \<open>\<open>Close\<close>: its error, and the connections it closes.\<close>

definition pc_Close :: "peersState \<Rightarrow> packetConn \<Rightarrow> packetConn \<times> (types_error + peer list \<times> router_event)" where
  "pc_Close ps pc =
     (if pc_closed pc then (pc, Inl ErrClosed)
      else (pc\<lparr> pc_closed := True \<rparr>, Inr (concat (map snd (ps_peers ps)), Shutdown)))"

subsection \<open>Runs\<close>

text \<open>Everything that can happen to a packet conn, with the clock.\<close>

datatype pc_event =
    PcRead
  | PcSelect read_branch bytes nat
  | PcArrive traffic
  | PcActor int bool
  | PcDeadline int
  | PcFire int nat
  | PcRun nat
  | PcClose peersState

fun pc_do :: "env \<Rightarrow> pc_event \<Rightarrow> int \<times> packetConn \<Rightarrow> (int \<times> packetConn) option result" where
  "pc_do E PcRead (t, pc) = Inr (Some (t, readFrom_begin pc))"
| "pc_do E (PcSelect branch p i) (t, pc) = Inr (map_option (\<lambda>(pc', _). (t, pc')) (readFrom_select branch p i pc))"
| "pc_do E (PcArrive tr) (t, pc) = Inr (Some (t, pc\<lparr> pc_box := pc_box pc @ [HandleTraffic tr] \<rparr>))"
| "pc_do E (PcActor now on_closed) (t, pc) =
     (case pc_box pc of
        [] \<Rightarrow> Inr None
      | m # ms \<Rightarrow>
          if now < t then Inr None
          else and_then (pc_act on_closed E now m (pc\<lparr> pc_box := ms \<rparr>)) (\<lambda>r. Inr (map_option (Pair now) r)))"
| "pc_do E (PcDeadline d) (t, pc) = Inr (Some (t, pc\<lparr> pc_readDeadline := deadline_set d (pc_readDeadline pc) \<rparr>))"
| "pc_do E (PcFire now k) (t, pc) =
     Inr (if now < t then None
          else map_option (\<lambda>d. (now, pc\<lparr> pc_readDeadline := d \<rparr>)) (deadline_fire now k (pc_readDeadline pc)))"
| "pc_do E (PcRun k) (t, pc) =
     and_then (deadline_run k (pc_readDeadline pc)) (\<lambda>r. Inr (map_option (\<lambda>d. (t, pc\<lparr> pc_readDeadline := d \<rparr>)) r))"
| "pc_do E (PcClose ps) (t, pc) = Inr (Some (t, fst (pc_Close ps pc)))"

fun pc_run :: "env \<Rightarrow> pc_event list \<Rightarrow> int \<times> packetConn \<Rightarrow> (int \<times> packetConn) option result" where
  "pc_run E [] s = Inr (Some s)"
| "pc_run E (ev # evs) s = and_then (pc_do E ev s) (\<lambda>r. case r of None \<Rightarrow> Inr None | Some s' \<Rightarrow> pc_run E evs s')"

subsection \<open>One reader that does not give up\<close>

text \<open>No call of \<open>ReadFrom\<close> begins while another one waits, and none returns by its deadline.\<close>

fun solo :: "bool \<Rightarrow> pc_event list \<Rightarrow> bool" where
  "solo waiting [] = True"
| "solo waiting (PcRead # evs) = (\<not> waiting \<and> solo True evs)"
| "solo waiting (PcSelect branch p i # evs) = (branch \<noteq> OnCancel \<and> solo False evs)"
| "solo waiting (_ # evs) = solo waiting evs"

fun msg_bytes :: "pc_msg \<Rightarrow> nat" where
  "msg_bytes (HandleTraffic tr) = length (traffic_bytes tr)"
| "msg_bytes DoPop = 0"

fun arrive_bytes :: "pc_event list \<Rightarrow> nat" where
  "arrive_bytes [] = 0"
| "arrive_bytes (PcArrive tr # evs) = length (traffic_bytes tr) + arrive_bytes evs"
| "arrive_bytes (_ # evs) = arrive_bytes evs"

definition only_traffic :: "flows \<Rightarrow> bool" where
  "only_traffic f \<longleftrightarrow> (\<forall>d s. \<forall>i \<in> set (f d s). \<exists>tr. pq_packet i = Traffic tr)"

definition recvq_ok :: "int \<Rightarrow> packetConn \<Rightarrow> bool" where
  "recvq_ok t pc \<longleftrightarrow> queue_ok (pc_recvq pc) \<and> all_before (stream (pc_recvq pc)) t \<and> only_traffic (stream (pc_recvq pc))
     \<and> (0 < pc_recvReady pc \<longrightarrow> (\<forall>d s. stream (pc_recvq pc) d s = []))"

text \<open>Until the packet conn is closed, each waiting reader has asked once, is known to be ready, or has its packet.\<close>

definition credits_ok :: "packetConn \<Rightarrow> bool" where
  "credits_ok pc \<longleftrightarrow> length (pc_readers pc) \<le> 1
     \<and> (pc_closed pc \<or> count_list (pc_box pc) DoPop + unat (pc_recvReady pc) + length (pc_recv pc) = length (pc_readers pc))"

definition pc_ok :: "nat \<Rightarrow> int \<Rightarrow> packetConn \<Rightarrow> bool" where
  "pc_ok rest t pc \<longleftrightarrow> recvq_ok t pc \<and> credits_ok pc \<and> (\<exists>latest. dl_ok t latest (pc_readDeadline pc))
     \<and> unat (q_size (pc_recvq pc)) + sum_list (map msg_bytes (pc_box pc)) + rest < 2 ^ 64"

lemma packetConn_init_ok: "rest < 2 ^ 64 \<Longrightarrow> pc_ok rest t packetConn_init"
  using newDeadline_ok [of t] empty_queue_ok
  by (auto simp: pc_ok_def recvq_ok_def credits_ok_def packetConn_init_def stream_empty all_before_def only_traffic_def)
    (simp add: empty_queue_def)

lemma only_traffic_took: "flow_took i f f' \<Longrightarrow> only_traffic f \<Longrightarrow> only_traffic f' \<and> (\<exists>tr. pq_packet i = Traffic tr)"
  unfolding only_traffic_def using took_not_after took_member by blast

lemma only_traffic_added: "flow_added i f f' \<Longrightarrow> only_traffic f \<Longrightarrow> pq_packet i = Traffic tr \<Longrightarrow> only_traffic f'"
  unfolding only_traffic_def using added_members by blast

lemma pc_ok_mono: "pc_ok rest t pc \<Longrightarrow> t \<le> now \<Longrightarrow> pc_ok rest now pc"
  by (auto simp: pc_ok_def recvq_ok_def intro: all_before_mono dl_ok_mono)

lemma doPop_ok:
  assumes "pc_ok rest t pc" "pc_box pc = DoPop # ms"
  shows "\<exists>r. pc_doPop b (pc\<lparr> pc_box := ms \<rparr>) = Inr r \<and> (\<forall>pc'. r = Some pc' \<longrightarrow> pc_ok rest t pc')
    \<and> (b = pc_closed pc \<longrightarrow> r \<noteq> None)"
proof -
  have q: "queue_ok (pc_recvq pc)" using assms(1) by (simp add: pc_ok_def recvq_ok_def)
  show ?thesis
  proof (cases "\<forall>d s. stream (pc_recvq pc) d s = []")
    case True
    have "pc_closed pc \<or> unat (pc_recvReady pc) < 2" using assms by (auto simp: pc_ok_def credits_ok_def)
    then have "pc_closed pc \<or> unat (pc_recvReady pc + 1) = unat (pc_recvReady pc) + 1"
      using unat_plus [of "pc_recvReady pc" 1] by auto
    then show ?thesis
      using assms True pq.pop_empty [OF q True] by (auto simp: pc_doPop_def pc_ok_def recvq_ok_def credits_ok_def Let_def)
  next
    case False
    obtain q' i where pop: "queue_pop (pc_recvq pc) = Inr (q', Some i)" "queue_ok q'" "unat (q_size q') < unat (q_size (pc_recvq pc))"
        "flow_took i (stream (pc_recvq pc)) (stream q')"
      using pq.pop_law [OF q False] by blast
    have recvq: "recvq_ok t pc" and credits: "credits_ok pc" using assms(1) by (simp_all add: pc_ok_def)
    then have ready: "pc_recvReady pc = 0" using False by (auto simp: recvq_ok_def word_gt_0 simp del: word_neq_0_conv)
    obtain tr where tr: "pq_packet i = Traffic tr" "only_traffic (stream q')"
      using only_traffic_took [OF pop(4)] recvq by (auto simp: recvq_ok_def)
    have room: "pc_recv pc = []" if "\<not> pc_closed pc" using credits that assms(2) by (cases "pc_recv pc") (auto simp: credits_ok_def)
    have "all_before (stream q') t" using recvq all_before_took [OF pop(4)] by (simp add: recvq_ok_def)
    then show ?thesis
      using assms pop tr room ready credits
      by (cases "pc_closed pc") (auto simp: pc_doPop_def pc_ok_def recvq_ok_def credits_ok_def Let_def)
  qed
qed

lemma pc_handleTraffic_ok:
  assumes "pc_ok rest t pc" "pc_box pc = HandleTraffic tr # ms"
  shows "\<exists>r. pc_handleTraffic b E t tr (pc\<lparr> pc_box := ms \<rparr>) = Inr r \<and> (\<forall>pc'. r = Some pc' \<longrightarrow> pc_ok rest t pc')
    \<and> (b = pc_closed pc \<longrightarrow> r \<noteq> None)"
proof (cases "tr_dest tr = self_key E \<and> pc_recvReady pc = 0")
  case True
  have q: "queue_ok (pc_recvq pc)" "all_before (stream (pc_recvq pc)) t" "only_traffic (stream (pc_recvq pc))"
    using assms(1) by (simp_all add: pc_ok_def recvq_ok_def)
  have n: "packet_size (Traffic tr) = Inr (length (traffic_bytes tr))" by (simp add: packet_codec_eq)
  obtain q' f where e: "enqueue t (pc_recvq pc) (Traffic tr) = Inr q'" "queue_ok q'"
      "unat (q_size q') \<le> unat (q_size (pc_recvq pc)) + length (traffic_bytes tr)" "all_before (stream q') t"
      "f = stream (pc_recvq pc) \<or> (\<exists>i. flow_took i (stream (pc_recvq pc)) f)"
      "flow_added (new_info t (Traffic tr) (length (traffic_bytes tr))) f (stream q')"
    using enqueue_ok [OF q(1,2) n] assms by (auto simp: pc_ok_def)
  have "only_traffic (stream q')"
    using only_traffic_added [OF e(6)] only_traffic_took e(5) q(3) by (metis new_info_def pqPacketInfo.select_convs(1))
  with True e assms show ?thesis by (auto simp: pc_handleTraffic_def pc_ok_def recvq_ok_def credits_ok_def)
next
  case False
  have "unat (pc_recvReady pc - 1) + 1 = unat (pc_recvReady pc)" if "pc_recvReady pc \<noteq> 0"
    using that by (simp add: unat_minus_one) (metis Suc_pred gr0I unsigned_eq_0_iff)
  moreover have "pc_recv pc = []" if "\<not> pc_closed pc" "pc_recvReady pc \<noteq> 0"
  proof -
    have "0 < unat (pc_recvReady pc)" using that(2) by (simp add: unsigned_eq_0_iff flip: neq0_conv)
    moreover have "length (pc_readers pc) \<le> 1 \<and> unat (pc_recvReady pc) + length (pc_recv pc) \<le> length (pc_readers pc)"
      using assms(1) that(1) by (auto simp: pc_ok_def credits_ok_def)
    ultimately have "length (pc_recv pc) < 1" by linarith
    then show ?thesis by simp
  qed
  ultimately show ?thesis
    using assms False by (cases "tr_dest tr = self_key E")
      (auto simp: pc_handleTraffic_def pc_ok_def recvq_ok_def credits_ok_def word_gt_0 simp del: word_neq_0_conv)
qed

lemma doPop_readers:
  assumes "pc_doPop b pc = Inr (Some pc')"
  shows "pc_readers pc' = pc_readers pc"
proof -
  obtain q got where pop: "queue_pop (pc_recvq pc) = Inr (q, got)"
    using assms by (auto simp: pc_doPop_def and_then_eq_Inr)
  show ?thesis
  proof (cases got)
    case (Some i)
    with pop assms show ?thesis by (cases "pq_packet i") (auto simp: pc_doPop_def Let_def split: if_splits)
  qed (use pop assms in \<open>auto simp: pc_doPop_def Let_def\<close>)
qed

lemma act_readers: "pc_act b E now m pc = Inr (Some pc') \<Longrightarrow> pc_readers pc' = pc_readers pc"
  by (cases m) (auto simp: pc_handleTraffic_def and_then_eq_Inr dest: doPop_readers split: if_splits)

lemma pc_do_ok:
  assumes "pc_ok (arrive_bytes (ev # evs)) (fst s) (snd s)" "solo (pc_readers (snd s) \<noteq> []) (ev # evs)"
  shows "\<exists>r. pc_do E ev s = Inr r \<and> (\<forall>s'. r = Some s' \<longrightarrow>
    pc_ok (arrive_bytes evs) (fst s') (snd s') \<and> solo (pc_readers (snd s') \<noteq> []) evs)"
proof -
  obtain t pc where s: "s = (t, pc)" by (cases s)
  show ?thesis
  proof (cases ev)
    case PcRead
    then show ?thesis using assms s by (auto simp: readFrom_begin_def pc_ok_def recvq_ok_def credits_ok_def)
  next
    case (PcSelect branch p i)
    have "length (pc_readers pc) \<le> 1" using assms(1) s by (simp add: pc_ok_def credits_ok_def)
    then have single: "i < length (pc_readers pc) \<Longrightarrow> pc_readers pc = [pc_readers pc ! i] \<and> i = 0"
      by (cases "pc_readers pc") auto
    show ?thesis
      using PcSelect assms s single
      by (cases branch; cases "pc_recv pc")
        (auto simp: readFrom_select_def pc_ok_def recvq_ok_def credits_ok_def split: if_splits)
  next
    case (PcArrive tr)
    then show ?thesis using assms s by (auto simp: pc_ok_def recvq_ok_def credits_ok_def)
  next
    case (PcActor now b)
    show ?thesis
    proof (cases "pc_box pc = [] \<or> now < t")
      case True
      then show ?thesis using PcActor s by (auto split: list.split)
    next
      case False
      then obtain m ms where box: "pc_box pc = m # ms" by (cases "pc_box pc") auto
      have ok: "pc_ok (arrive_bytes evs) now pc" using assms(1) PcActor s False pc_ok_mono by auto
      show ?thesis
        using act_readers [of b E now m "pc\<lparr> pc_box := ms \<rparr>"] doPop_ok [OF ok, of ms b] pc_handleTraffic_ok [OF ok, of _ ms b E] PcActor s False box assms(2) by (cases m) auto
    qed
  next
    case (PcDeadline d)
    have "\<exists>latest. dl_ok t latest (deadline_set d (pc_readDeadline pc))"
      using assms(1) s deadline_set_ok by (fastforce simp: pc_ok_def)
    then show ?thesis using PcDeadline assms s by (auto simp: pc_ok_def recvq_ok_def credits_ok_def)
  next
    case (PcFire now k)
    show ?thesis
    proof (cases "now < t")
      case False
      then have ok: "pc_ok (arrive_bytes evs) now pc" using assms(1) PcFire s pc_ok_mono by auto
      have "deadline_fire now k (pc_readDeadline pc) = Some d \<Longrightarrow> \<exists>latest. dl_ok now latest d" for d
        using ok deadline_fire_ok [of now _ "pc_readDeadline pc" now k d] by (auto simp: pc_ok_def)
      then show ?thesis using ok PcFire s False assms(2) by (auto simp: pc_ok_def recvq_ok_def credits_ok_def)
    qed (use PcFire s in auto)
  next
    case (PcRun k)
    obtain latest where "dl_ok t latest (pc_readDeadline pc)" using assms(1) s by (auto simp: pc_ok_def)
    then obtain r where "deadline_run k (pc_readDeadline pc) = Inr r" "\<forall>d'. r = Some d' \<longrightarrow> dl_ok t latest d'"
      using deadline_run_ok by blast
    then show ?thesis using PcRun assms s by (auto simp: pc_ok_def recvq_ok_def credits_ok_def)
  next
    case (PcClose ps)
    then show ?thesis using assms s by (auto simp: pc_Close_def pc_ok_def recvq_ok_def credits_ok_def)
  qed
qed

lemma pc_run_ok:
  assumes "pc_ok (arrive_bytes evs) (fst s) (snd s)" "solo (pc_readers (snd s) \<noteq> []) evs"
  shows "\<exists>r. pc_run E evs s = Inr r \<and> (\<forall>s'. r = Some s' \<longrightarrow> pc_ok 0 (fst s') (snd s'))"
  using assms
proof (induction evs arbitrary: s)
  case (Cons ev evs)
  obtain r where r: "pc_do E ev s = Inr r" "\<forall>s'. r = Some s' \<longrightarrow>
      pc_ok (arrive_bytes evs) (fst s') (snd s') \<and> solo (pc_readers (snd s') \<noteq> []) evs"
    using pc_do_ok [OF Cons.prems] by blast
  then show ?case using Cons.IH by (cases r) auto
qed (metis arrive_bytes.simps(1) option.inject pc_run.simps(1))

text \<open>The actor is never blocked: with the right branch its next message is handled.\<close>

lemma actor_proceeds:
  assumes "pc_ok rest t pc" "pc_box pc \<noteq> []"
  shows "\<exists>s'. pc_do E (PcActor t (pc_closed pc)) (t, pc) = Inr (Some s')"
proof -
  obtain m ms where box: "pc_box pc = m # ms" using assms(2) by (cases "pc_box pc") auto
  have "\<exists>pc'. pc_act (pc_closed pc) E t m (pc\<lparr> pc_box := ms \<rparr>) = Inr (Some pc')"
    using doPop_ok [OF assms(1), of ms "pc_closed pc"] pc_handleTraffic_ok [OF assms(1), of _ ms "pc_closed pc" E] box
    by (cases m) auto
  then show ?thesis using box by auto
qed

subsection \<open>Properties\<close>

text \<open>
  C22. A packet conn that one goroutine reads, whose calls of \<open>ReadFrom\<close> do not return by a deadline, works:
  whatever packets arrive, whatever deadlines are set, and whenever it is closed, no step panics, the
  actor can always handle its next message, and there is no lost wake-up: a reader that waits on an open
  packet conn with nothing left in the inbox has its packet in the channel, or nothing is queued.
\<close>

theorem single_reader_served:
  assumes "solo False evs" "arrive_bytes evs < 2 ^ 64"
  shows "\<exists>r. pc_run E evs (t0, packetConn_init) = Inr r \<and> (\<forall>t pc. r = Some (t, pc) \<longrightarrow>
     (pc_box pc \<noteq> [] \<longrightarrow> (\<exists>s'. pc_do E (PcActor t (pc_closed pc)) (t, pc) = Inr (Some s')))
     \<and> (pc_readers pc \<noteq> [] \<and> \<not> pc_closed pc \<and> pc_box pc = [] \<and> pc_recv pc = []
          \<longrightarrow> (\<forall>d s. stream (pc_recvq pc) d s = [])))"
proof -
  have "pc_ok (arrive_bytes evs) (fst (t0, packetConn_init)) (snd (t0, packetConn_init))"
      "solo (pc_readers (snd (t0, packetConn_init)) \<noteq> []) evs"
    using packetConn_init_ok [OF assms(2)] assms(1) by (simp_all add: packetConn_init_def)
  then obtain r where r: "pc_run E evs (t0, packetConn_init) = Inr r" "\<forall>s'. r = Some s' \<longrightarrow> pc_ok 0 (fst s') (snd s')"
    using pc_run_ok by blast
  have "\<forall>d s. stream (pc_recvq pc) d s = []"
    if "pc_ok 0 t pc" "pc_readers pc \<noteq> [] \<and> \<not> pc_closed pc \<and> pc_box pc = [] \<and> pc_recv pc = []" for t pc
  proof -
    have "0 < unat (pc_recvReady pc)" using that by (simp add: pc_ok_def credits_ok_def)
    then have "0 < pc_recvReady pc" by (simp add: word_less_nat_alt)
    then show ?thesis using that(1) by (simp add: pc_ok_def recvq_ok_def)
  qed
  with r actor_proceeds show ?thesis by (metis fst_conv snd_conv)
qed

definition sample_to :: "publicKey \<Rightarrow> byte \<Rightarrow> traffic" where
  "sample_to dest b = \<lparr> tr_path = [], tr_from = [], tr_source = 7, tr_dest = dest, tr_watermark = 0, tr_payload = [b] \<rparr>"

lemma sample_to_length: "length (traffic_bytes (sample_to d b)) = 68"
  using sample_packet_size [of 7 d b] by (simp add: sample_packet_def sample_to_def packet_codec_eq)

definition solo_events :: "publicKey \<Rightarrow> pc_event list" where
  "solo_events self = [PcRead, PcActor 1 False, PcArrive (sample_to self 1), PcArrive (sample_to self 2),
     PcActor 2 False, PcSelect OnRecv [0, 0] 0, PcRead, PcActor 2 False, PcActor 2 False]"

theorem single_reader_served_witness:
  "solo False (solo_events 5) \<and> arrive_bytes (solo_events 5) < 2 ^ 64
   \<and> (\<exists>r. pc_run (sample_env 1) (solo_events 5) (0, packetConn_init) = Inr r \<and> (\<forall>t pc. r = Some (t, pc) \<longrightarrow>
     (pc_box pc \<noteq> [] \<longrightarrow> (\<exists>s'. pc_do (sample_env 1) (PcActor t (pc_closed pc)) (t, pc) = Inr (Some s')))
     \<and> (pc_readers pc \<noteq> [] \<and> \<not> pc_closed pc \<and> pc_box pc = [] \<and> pc_recv pc = []
          \<longrightarrow> (\<forall>d s. stream (pc_recvq pc) d s = []))))"
proof -
  have h: "solo False (solo_events 5)" "arrive_bytes (solo_events 5) < 2 ^ 64"
    by (simp_all add: solo_events_def sample_to_length)
  show ?thesis using h single_reader_served [OF h, of "sample_env 1" 0] by blast
qed

text \<open>A deadline passes, the read gives up, two packets arrive, and the next read begins.\<close>

definition timeout_events :: "bytes \<Rightarrow> traffic \<Rightarrow> traffic \<Rightarrow> pc_event list" where
  "timeout_events buf a b = [PcDeadline 2, PcRead, PcActor 1 False, PcFire 2 0, PcRun 0, PcSelect OnCancel buf 0,
     PcArrive a, PcActor 3 False, PcArrive b, PcActor 3 False, PcRead, PcActor 3 False]"

text \<open>
  C36. The panic \<open>this should never happen\<close> of \<open>doPop\<close> can happen although there is only one reader: after a
  \<open>ReadFrom\<close> that returned \<open>ErrTimeout\<close> its request is still counted in \<open>recvReady\<close>, so the next packet goes
  into the channel and the one after it into the queue, and the next call of \<open>ReadFrom\<close> pops it while the
  channel is full.
\<close>

theorem timed_out_read_panics:
  assumes "tr_dest a = self_key E" "tr_dest b = self_key E" "length (traffic_bytes b) < 2 ^ 64"
  shows "pc_run E (timeout_events buf a b) (0, packetConn_init) = Inl Panic"
proof -
  have n: "packet_size (Traffic b) = Inr (length (traffic_bytes b))" by (simp add: packet_codec_eq)
  have before: "all_before (stream empty_queue) 3" by (simp add: stream_empty all_before_def)
  have size: "unat (q_size empty_queue) + length (traffic_bytes b) < 2 ^ 64" using assms(3) by (simp add: empty_queue_def)
  obtain q f where q: "enqueue 3 empty_queue (Traffic b) = Inr q" "queue_ok q"
      "flow_added (new_info 3 (Traffic b) (length (traffic_bytes b))) f (stream q)"
    using enqueue_ok [OF empty_queue_ok before n] size by blast
  obtain i where i: "\<exists>q'. queue_pop q = Inr (q', Some i)"
    using pq.pop_law [OF q(2)] q(3) by (fastforce simp: flow_added_def Let_def)
  have empty: "queue_pop empty_queue = Inr (empty_queue, None)"
    by (rule pq.pop_empty [OF empty_queue_ok]) (simp add: stream_empty)
  from i obtain q' where q': "queue_pop q = Inr (q', Some i)" by blast
  show ?thesis
    using q(1) q' empty assms(1,2)
    by (cases "pq_packet i")
      (simp_all add: timeout_events_def packetConn_init_def newDeadline_def deadline_set_def deadline_fire_def deadline_run_def
        zero_time_def readFrom_begin_def getCancel_def readFrom_select_def pc_doPop_def pc_handleTraffic_def Let_def)
qed

theorem timed_out_read_panics_witness:
  "pc_run (sample_env 1) (timeout_events [0] (sample_to (self_key (sample_env 1)) 1) (sample_to (self_key (sample_env 1)) 2))
     (0, packetConn_init) = Inl Panic"
  by (rule timed_out_read_panics) (simp_all add: sample_to_length, simp_all add: sample_to_def)

lemma bare_traffic_length:
  "length (traffic_bytes \<lparr> tr_path = [], tr_from = [], tr_source = src, tr_dest = dest, tr_watermark = NOT 0, tr_payload = payload \<rparr>) = 76 + length payload"
proof -
  have "length (traffic_bytes \<lparr> tr_path = [], tr_from = [], tr_source = 0, tr_dest = 0, tr_watermark = NOT 0, tr_payload = [] \<rparr>) = 76"
    by code_simp
  then show ?thesis by (simp add: traffic_bytes_def)
qed

lemma pc_MTU_eq: "pc_MTU cfg = Inr (peerMaxMessageSize cfg - 77)"
  using bare_traffic_length [of 0 0 "[]"] by (simp add: pc_MTU_def traffic_size_eq)

text \<open>
  What \<open>WriteTo\<close> accepts is within the limit of a peer as long as it has no path: for a limit above the
  overhead, it hands a packet from us to the destination to the router exactly when the packet conn
  is open, the address is that of a key and the payload is at most the MTU, and the frame of that packet fits;
  otherwise it returns the error for the first of these that fails.
\<close>

theorem writeTo_within_mtu:
  assumes "77 \<le> unat (peerMaxMessageSize (env_config E))" "length p < 2 ^ 64"
  shows "\<exists>mtu. pc_MTU (env_config E) = Inr mtu \<and> unat mtu = unat (peerMaxMessageSize (env_config E)) - 77 \<and>
     (case writeTo E p addr pc of
        Inr (n, ev) \<Rightarrow> \<not> pc_closed pc \<and> length p \<le> unat mtu \<and> n = length p
          \<and> (\<exists>dest tr. addr = KeyAddr dest \<and> length dest = publicKeySize \<and> ev = WriteTraffic tr
             \<and> tr_source tr = self_key E \<and> key_bytes (tr_dest tr) = dest \<and> tr_payload tr = p
             \<and> fits (env_config E) (OutPacket (Traffic tr)))
      | Inl e \<Rightarrow> e = Error (if pc_closed pc then ErrClosed
          else if \<not> (\<exists>dest. addr = KeyAddr dest \<and> length dest = publicKeySize) then ErrBadAddress
          else ErrOversizedMessage) \<and> (e = Error ErrOversizedMessage \<longrightarrow> unat mtu < length p))"
proof -
  define tr where "tr src dest payload = \<lparr> tr_path = [], tr_from = [], tr_source = src, tr_dest = dest,
      tr_watermark = NOT 0, tr_payload = payload \<rparr>" for src dest payload
  have len: "length (traffic_bytes (tr src dest payload)) = 76 + length payload" for src dest payload
    unfolding tr_def by (rule bare_traffic_length)
  have mtu: "pc_MTU (env_config E) = Inr (peerMaxMessageSize (env_config E) - 77)" by (rule pc_MTU_eq)
  have unat: "unat (peerMaxMessageSize (env_config E) - 77) = unat (peerMaxMessageSize (env_config E)) - 77"
    using assms(1) by (subst unat_minus) (simp_all add: word_le_nat_alt)
  have cmp: "peerMaxMessageSize (env_config E) - 77 < of_nat (length p) \<longleftrightarrow> unat (peerMaxMessageSize (env_config E)) - 77 < length p"
    using unat64_of_nat [OF assms(2)] by (simp add: word_less_nat_alt unat)
  have "fits (env_config E) (OutPacket (Traffic (tr src dest p)))" if "length p \<le> unat (peerMaxMessageSize (env_config E)) - 77" for src dest
    using that assms(1) by (simp add: fits_def len)
  then show ?thesis
    using mtu unat cmp by (cases addr) (auto simp: writeTo_def tr_def key_bytes_be_word publicKeySize_def)
qed

theorem writeTo_within_mtu_witness:
  "77 \<le> unat (peerMaxMessageSize (env_config (sample_env 1)))
   \<and> (\<exists>mtu. pc_MTU (env_config (sample_env 1)) = Inr mtu \<and> unat mtu = 1048576 - 77)"
  using writeTo_within_mtu [of "sample_env 1" "[]"] by (simp add: sample_max) blast

end
