(* ===== verification/EncryptedConn.thy ===== *)
theory EncryptedConn
  imports SessionSystem PacketConn
begin

text \<open>
  \<^verbatim>\<open>ironwood/encrypted/packetconn.go\<close> and \<^verbatim>\<open>network.go\<close>: the encrypted connection on top of the session manager
  and of the network's connection, and the loop that reads from the network.
  \<^item> \<open>nm_pending\<close> holds the actions sent to the reader's inbox, each of which hands one message to \<open>nm_readCh\<close>,
    a channel of capacity one.
  \<^item> A \<open>select\<close> branch that is not ready is \<open>None\<close>; which ready branch is taken is an argument.
\<close>

subsection \<open>The reading loop\<close>

definition netBufferSize :: nat where "netBufferSize = 128 * 1024"

datatype netReadInfo = NetData edPub bytes | NetErr types_error

record netManager =
  nm_readCh :: "netReadInfo list"
  nm_closed :: bool
  nm_running :: bool
  nm_pending :: "netReadInfo list"

definition nm_init :: netManager where
  "nm_init = \<lparr> nm_readCh = [], nm_closed = False, nm_running = False, nm_pending = [] \<rparr>"

definition nm_recv :: "edPub \<Rightarrow> bytes \<Rightarrow> netManager \<Rightarrow> netManager" where
  "nm_recv from data m = m\<lparr> nm_pending := nm_pending m @ [NetData from data] \<rparr>"

text \<open>The next action of the reader's inbox.\<close>

definition nm_reader :: "bool \<Rightarrow> netManager \<Rightarrow> netManager option" where
  "nm_reader on_closed m =
     (case nm_pending m of
        [] \<Rightarrow> None
      | i # is \<Rightarrow>
          if on_closed then (if nm_closed m then Some (m\<lparr> nm_pending := is \<rparr>) else None)
          else if length (nm_readCh m) < 1 then Some (m\<lparr> nm_pending := is, nm_readCh := nm_readCh m @ [i] \<rparr>)
          else None)"

text \<open>\<open>read\<close> starts the loop unless it runs; the flag tells whether it started it.\<close>

definition nm_read :: "netManager \<Rightarrow> netManager \<times> bool" where
  "nm_read m = (if nm_running m then (m, False) else (m\<lparr> nm_running := True \<rparr>, True))"

text \<open>One round of the loop, given what \<open>ReadFrom\<close> of the network returned: the data for the sessions, if it goes on.\<close>

definition nm_loop :: "bool \<Rightarrow> types_error + nat \<times> bytes \<times> publicKey \<Rightarrow> netManager \<Rightarrow> netManager \<times> (edPub \<times> bytes) option" where
  "nm_loop is_closed got m =
     (case got of
        Inl err \<Rightarrow>
          (let m1 = m\<lparr> nm_running := False \<rparr>;
               m2 = (if is_closed then m1\<lparr> nm_closed := True \<rparr> else m1)
           in (if length (nm_readCh m2) < 1 then m2\<lparr> nm_readCh := nm_readCh m2 @ [NetErr err] \<rparr> else m2, None))
      | Inr (n, buf, from) \<Rightarrow> (m, Some (from, take n buf)))"

subsection \<open>The connection\<close>

definition enc_MTU :: "config \<Rightarrow> u64 result" where
  "enc_MTU cfg = and_then (pc_MTU cfg) (\<lambda>mtu. Inr (mtu - of_nat sessionTrafficOverhead))"

text \<open>\<open>ReadFrom\<close> after \<open>read()\<close>: \<open>None\<close> while it waits; else what it returns and leaves in the caller's buffer.\<close>

definition enc_ReadFrom :: "bytes \<Rightarrow> netManager \<Rightarrow> (netManager \<times> (types_error + nat \<times> bytes \<times> edPub)) option" where
  "enc_ReadFrom p m =
     (case nm_readCh m of
        [] \<Rightarrow> None
      | NetErr err # rest \<Rightarrow> Some (m\<lparr> nm_readCh := rest \<rparr>, Inl err)
      | NetData from data # rest \<Rightarrow>
          (let n = (if length p < length data then length p else length data)
           in Some (m\<lparr> nm_readCh := rest \<rparr>, Inr (n, take n data @ drop n p, from))))"

text \<open>
  \<open>append(allocBytes(0), p...)\<close>: the pool may hold no buffer yet and then gives a nil slice, to which nothing
  is appended when \<open>p\<close> is empty.
\<close>

definition pool_copy :: "bool \<Rightarrow> bytes \<Rightarrow> bytes option" where
  "pool_copy pooled p = (if p = [] \<and> \<not> pooled then None else Some p)"

definition enc_WriteTo :: "config \<Rightarrow> session_env \<Rightarrow> int \<Rightarrow> bool \<Rightarrow> bytes \<Rightarrow> net_addr \<Rightarrow> netManager \<Rightarrow> mgr_state \<Rightarrow> (nat \<times> mgr_state) result" where
  "enc_WriteTo cfg e now pooled p addr m s =
     (if nm_closed m then Inl (Error ErrClosed)
      else case addr of
          OtherAddr \<Rightarrow> Inl (Error ErrBadAddress)
        | KeyAddr dest \<Rightarrow>
            if length dest \<noteq> publicKeySize then Inl (Error ErrBadAddress)
            else and_then (enc_MTU cfg) (\<lambda>mtu.
              if mtu < of_nat (length p) then Inl (Error ErrOversizedMessage)
              else and_then (mgr_writeTo e now (be_word dest) (pool_copy pooled p) s) (\<lambda>s'. Inr (length p, s'))))"

subsection \<open>Sizes\<close>

lemma packet_length:
  assumes "crypto_ok e"
  shows "length (packet (se_nacl e) shared l r n key msg) \<le> 79 + length msg" "52 + length msg \<le> length (packet (se_nacl e) shared l r n key msg)"
  using assms header_length [of l r n] by (simp_all add: packet_def crypto_ok_def nacl_correct_def)

lemma enc_MTU_eq: "enc_MTU cfg = Inr (peerMaxMessageSize cfg - 156)"
  by (simp add: enc_MTU_def pc_MTU_eq session_sizes)

text \<open>
  The limit of the encrypted connection is safe: with a peer limit above the overheads, every message up to
  its MTU is sealed by a session into a packet that the network's \<open>WriteTo\<close> below it accepts.
\<close>

theorem sealed_message_fits:
  assumes "crypto_ok e" "156 \<le> unat (peerMaxMessageSize (env_config E))" "enc_MTU (env_config E) = Inr mtu" "length msg \<le> unat mtu"
    and "s_sendNonce info + 1 \<noteq> 0" "\<not> pc_closed pc"
  shows "\<exists>info' w' bs. info_doSend e msg info w = Inr (info', w') \<and> w_out w' = w_out w @ [NetWrite bs (s_ed info)]
    \<and> (\<exists>ev. writeTo E bs (KeyAddr (key_bytes (s_ed info))) pc = Inr (length bs, ev))"
proof -
  define bs where "bs = packet (se_nacl e) (s_sendShared info) (s_localKeySeq info) (s_remoteKeySeq info) (s_sendNonce info + 1) (s_nextPub info) msg"
  have "unat mtu = unat (peerMaxMessageSize (env_config E)) - 156"
    using assms(2,3) unat_minus [of 156 "peerMaxMessageSize (env_config E)"] by (simp add: enc_MTU_eq word_le_nat_alt)
  then have l: "length bs \<le> unat (peerMaxMessageSize (env_config E)) - 77"
    using packet_length(1) [OF assms(1), of "s_sendShared info" "s_localKeySeq info" "s_remoteKeySeq info" "s_sendNonce info + 1" "s_nextPub info" msg]
      assms(2,4) unfolding bs_def by linarith
  have "unat (peerMaxMessageSize (env_config E) - 77) = unat (peerMaxMessageSize (env_config E)) - 77"
    using assms(2) by (subst unat_minus) (simp_all add: word_le_nat_alt)
  then have "\<not> peerMaxMessageSize (env_config E) - 77 < of_nat (length bs)"
    using l by (metis le_unat_uoi linorder_not_less word_less_nat_alt)
  then have "\<exists>ev. writeTo E bs (KeyAddr (key_bytes (s_ed info))) pc = Inr (length bs, ev)"
    using assms(6) by (simp add: writeTo_def publicKeySize_def pc_MTU_eq)
  then show ?thesis using doSend_est [OF assms(5), of e msg w] unfolding bs_def by blast
qed

lemma sample_session_keys [simp]: "s_ed sample_session = 7" "s_nextPub sample_session = 3"
  by (simp_all add: sample_session_def fixShared_def)

theorem sealed_message_fits_witness:
  "\<exists>info' w' bs. info_doSend (sample_senv 3) [42] sample_session sample_world = Inr (info', w') \<and> w_out w' = w_out sample_world @ [NetWrite bs 7]
    \<and> (\<exists>ev. writeTo (sample_env 1) bs (KeyAddr (key_bytes 7)) packetConn_init = Inr (length bs, ev))"
proof -
  have m: "unat (peerMaxMessageSize (env_config (sample_env 1))) = 1048576" using sample_max [of 1] by simp
  have u: "unat (1048420 :: u64) = 1048420" "peerMaxMessageSize (env_config (sample_env 1)) - 156 = 1048420" by (simp_all add: sample_max)
  show ?thesis
    using sealed_message_fits [of "sample_senv 3" "sample_env 1" 1048420 "[42]" sample_session packetConn_init sample_world] m u
    by (simp add: sample_own enc_MTU_eq packetConn_init_def)
qed

subsection \<open>Long messages\<close>

text \<open>Documented of the box: it adds 16 bytes to every message.\<close>

definition opens_exact :: "nacl \<Rightarrow> bool" where
  "opens_exact nc \<longleftrightarrow> (\<forall>k n b m. box_open nc k n b = Some m \<longrightarrow> length b = length m + 16)"

lemma drop_parse: "parse_traffic msg = Some (r, l, n, boxed) \<Longrightarrow> length boxed \<le> length msg"
  by (auto simp: parse_traffic_def split: if_splits prod.splits)

lemma onSuccess_out: "onSuccess nc c now n key info w = Inr (info', w') \<Longrightarrow> w_out w' = w_out w"
  by (cases c) (auto simp: rotate_def newBoxKeys_def Let_def and_then_eq_Inr split: if_splits list.splits)

lemma sendInit_out: "mgr_sendInit e to init w = Inr w' \<Longrightarrow> \<exists>bs. w_out w' = w_out w @ [NetWrite bs to]"
  by (auto simp: mgr_sendInit_def init_encrypt_def newBoxKeys_def Let_def and_then_eq_Inr split: if_splits list.splits)

lemma doRecv_emits:
  assumes "info_doRecv e now bs info w = Inr (info', w')" "opens_exact (se_nacl e)"
  shows "\<exists>outs. w_out w' = w_out w @ outs \<and> (\<forall>k m. NetRecv k m \<in> set outs \<longrightarrow> length m + 48 \<le> length bs)"
proof (cases "parse_traffic bs")
  case None
  then show ?thesis using assms(1) by (simp add: info_doRecv_def)
next
  case (Some p)
  obtain r l n boxed where p: "parse_traffic bs = Some (r, l, n, boxed)" using Some by (cases p) auto
  consider "w' = w" | "info_sendInit e now info w = Inr w'"
    | c u info1 w2 x where "boxOpen (se_nacl e) boxed n (case_shared c info) = Some u" "32 \<le> length u"
        "onSuccess (se_nacl e) c now n (be_word (take 32 u)) info (w_emit (NetRecv (s_ed info) (drop 32 u)) w) = Inr (info1, w2)"
        "resetTimer x w2 = (info', w')"
    using assms(1) p by (auto simp: info_doRecv_def and_then_eq_Inr Let_def boxPubSize_def not_less split: option.splits if_splits prod.splits)
  then show ?thesis
  proof cases
    case 2
    then show ?thesis using sendInit_out unfolding info_sendInit_def by fastforce
  next
    case 3
    have "w_out w' = w_out w2" using resetTimer_fields(7) [of x w2] 3(4) by simp
    moreover have "length u + 16 \<le> length bs" using 3(1) assms(2) drop_parse [OF p] unfolding opens_exact_def boxOpen_def by metis
    ultimately show ?thesis using onSuccess_out [OF 3(3)] 3(2) by simp
  qed simp
qed

text \<open>
  A message of 128 KiB is lost although \<open>WriteTo\<close> accepts it: with the default limit the MTU is above it,
  but the packet it is sealed into does not fit the buffer of the reading loop, so the other side's session
  gets a cut packet and never hands out the message.
\<close>

theorem long_message_never_arrives:
  assumes "crypto_ok e" "opens_exact (se_nacl e)" "netBufferSize \<le> length msg" "s_sendNonce info + 1 \<noteq> 0"
    and "info_doSend e msg info w = Inr (info', w')" "w_out w' = w_out w @ [NetWrite bs to]"
    and "read_copy (replicate netBufferSize 0) \<lparr> tr_path = [], tr_from = [], tr_source = src, tr_dest = dest, tr_watermark = wm, tr_payload = bs \<rparr> = got"
    and "nm_loop closed (Inr got) m = (m', Some (pub, part))" "info_doRecv e now part peer_info v = Inr (peer_info', v')"
  shows "enc_MTU (configDefaults) = Inr 1048420 \<and> netBufferSize < length bs
    \<and> (\<exists>outs. w_out v' = w_out v @ outs \<and> NetRecv k msg \<notin> set outs)"
proof -
  obtain shared l r n key where bs: "bs = packet (se_nacl e) shared l r n key msg"
    using doSend_est [OF assms(4), of e msg w] assms(5,6) by auto
  then have "52 + length msg \<le> length bs" using packet_length(2) [OF assms(1)] by simp
  then have l: "netBufferSize < length bs" using assms(3) by simp
  have "part = take netBufferSize bs" using assms(7,8) l by (auto simp: nm_loop_def read_copy_def)
  then have "length part < length msg + 48" using l assms(3) by simp
  then have "\<exists>outs. w_out v' = w_out v @ outs \<and> NetRecv k msg \<notin> set outs" using doRecv_emits [OF assms(9,2)] by fastforce
  then show ?thesis using l by (simp add: enc_MTU_eq configDefaults_def)
qed

lemma sample_opens_exact: "opens_exact sample_nacl"
  by (auto simp: opens_exact_def sample_nacl_def dest!: arg_cong [where f = length] split: if_splits)

lemma sample_recv_any:
  assumes "32 \<le> length rest"
  shows "\<exists>i v'. info_doRecv (sample_senv 3) 2 (header_bytes 1 0 1 @ replicate 16 0 @ rest) sample_session sample_world = Inr (i, v')"
proof -
  have "parse_traffic (header_bytes 1 0 1 @ replicate 16 0 @ rest) = Some (1, 0, 1, replicate 16 0 @ rest)"
    using parse_header [of 1 0 1 "replicate 16 0 @ rest"] header_length(1) [of 1 0 1] assms by simp
  then show ?thesis using assms
    by (simp add: info_doRecv_def recv_case_def boxOpen_def sample_senv_def sample_nacl_def boxPubSize_def Let_def rotate_def
        zero_time_def time_sub_def sample_session_def fixShared_def)
qed

theorem long_message_never_arrives_witness:
  "\<exists>info' w' bs i v' outs. info_doSend (sample_senv 3) (replicate netBufferSize 42) sample_session sample_world = Inr (info', w')
    \<and> w_out w' = w_out sample_world @ [NetWrite bs 7] \<and> netBufferSize < length bs
    \<and> info_doRecv (sample_senv 3) 2 (take netBufferSize bs) sample_session sample_world = Inr (i, v')
    \<and> w_out v' = w_out sample_world @ outs \<and> NetRecv 7 (replicate netBufferSize 42) \<notin> set outs"
proof -
  define msg :: bytes where "msg = replicate netBufferSize 42"
  have n: "s_sendNonce sample_session + 1 \<noteq> 0" by simp
  obtain info' w' where d: "info_doSend (sample_senv 3) msg sample_session sample_world = Inr (info', w')"
      "w_out w' = w_out sample_world @ [NetWrite (packet sample_nacl (s_sendShared sample_session) 1 0 1 3 msg) 7]"
    using doSend_est [OF n, of "sample_senv 3" msg sample_world] by (auto simp: sample_own)
  define bs where "bs = packet sample_nacl (s_sendShared sample_session) 1 0 1 3 msg"
  have h: "length (header_bytes 1 0 1) \<le> 31" by (rule header_length)
  then have "take netBufferSize bs = header_bytes 1 0 1 @ replicate 16 0 @ take (netBufferSize - length (header_bytes 1 0 1) - 16) (key_bytes 3 @ msg)"
    by (simp add: bs_def packet_def sample_nacl_def netBufferSize_def)
  moreover have "32 \<le> length (take (netBufferSize - length (header_bytes 1 0 1) - 16) (key_bytes 3 @ msg))"
    using h by (simp add: netBufferSize_def msg_def)
  ultimately obtain i v' where r: "info_doRecv (sample_senv 3) 2 (take netBufferSize bs) sample_session sample_world = Inr (i, v')"
    using sample_recv_any by metis
  have "52 + netBufferSize \<le> length bs"
    using packet_length(2) [of "sample_senv 3", where msg = msg] by (simp add: bs_def msg_def sample_own)
  then have "netBufferSize < length bs" by simp
  then have copy: "read_copy (replicate netBufferSize 0) \<lparr> tr_path = [], tr_from = [], tr_source = 7, tr_dest = 8, tr_watermark = 0, tr_payload = bs \<rparr>
      = (netBufferSize, take netBufferSize bs, 7)"
    by (simp add: read_copy_def)
  have loop: "nm_loop False (Inr (netBufferSize, take netBufferSize bs, 7)) nm_init = (nm_init, Some (7, take netBufferSize bs))"
    by (simp add: nm_loop_def)
  have "netBufferSize \<le> length msg" "opens_exact (se_nacl (sample_senv 3))" by (simp_all add: msg_def sample_own sample_opens_exact)
  from long_message_never_arrives [OF sample_own(2) this(2,1) n d(1) d(2) [folded bs_def] copy loop r, of 7]
  have "\<exists>outs. w_out v' = w_out sample_world @ outs \<and> NetRecv 7 msg \<notin> set outs" "netBufferSize < length bs" by blast+
  with d r show ?thesis unfolding msg_def [symmetric] bs_def [symmetric] by blast
qed

end
