(* ===== verification/Address.thy ===== *)
theory Address
  imports Crypto
begin

text \<open>
  \<^verbatim>\<open>src/address/address.go\<close>: IPv6 addresses and subnets derived from public keys, and the partial keys
  that lookups derive from them. An \<open>Address\<close> is a list of 16 bytes, a \<open>Subnet\<close> one of 8, a key slice a list
  of any length; the global prefix byte is an argument. \<open>bit_at bs i\<close>, bit \<open>i\<close> of a byte string counted
  from its first byte's top bit, is how the lemmas read them.
\<close>

definition SetPrefix :: "byte \<Rightarrow> byte option" where
  "SetPrefix p = (if p AND 0x01 \<noteq> 0 then None else Some p)"

definition Address_IsValid :: "byte \<Rightarrow> bytes \<Rightarrow> bool" where
  "Address_IsValid prefix a \<longleftrightarrow> a ! 0 = prefix"

definition Subnet_IsValid :: "byte \<Rightarrow> bytes \<Rightarrow> bool" where
  "Subnet_IsValid prefix s \<longleftrightarrow> s ! 0 = prefix OR 0x01"

text \<open>The variables of the loop of \<open>AddrForKey\<close> and its body.\<close>

record addr_state =
  as_done :: bool
  as_ones :: byte
  as_bits :: byte
  as_nBits :: nat
  as_temp :: bytes

definition addr_bit :: "bytes \<Rightarrow> nat \<Rightarrow> byte" where
  "addr_bit buf idx = drop_bit (7 - idx mod 8) (buf ! (idx div 8) AND drop_bit (idx mod 8) 0x80)"

definition addr_step :: "byte \<Rightarrow> addr_state \<Rightarrow> addr_state" where
  "addr_step b s =
     (if \<not> as_done s \<and> b \<noteq> 0 then s\<lparr> as_ones := as_ones s + 1 \<rparr>
      else if \<not> as_done s \<and> b = 0 then s\<lparr> as_done := True \<rparr>
      else
        (let bits = push_bit 1 (as_bits s) OR b; nBits = as_nBits s + 1 in
         if nBits = 8 then s\<lparr> as_bits := bits, as_nBits := 0, as_temp := as_temp s @ [bits] \<rparr>
         else s\<lparr> as_bits := bits, as_nBits := nBits \<rparr>))"

definition AddrForKey :: "byte \<Rightarrow> bytes \<Rightarrow> bytes option" where
  "AddrForKey prefix key =
     (if length key \<noteq> publicKeySize then None
      else
        (let buf = map (\<lambda>b. NOT b) key;
             s = fold (\<lambda>idx. addr_step (addr_bit buf idx)) [0..<8 * length buf]
                   \<lparr> as_done = False, as_ones = 0, as_bits = 0, as_nBits = 0, as_temp = [] \<rparr>
         in Some (copy_array 16 (prefix # as_ones s # as_temp s))))"

definition SubnetForKey :: "byte \<Rightarrow> bytes \<Rightarrow> bytes option" where
  "SubnetForKey prefix key =
     (case AddrForKey prefix key of
        None \<Rightarrow> None
      | Some addr \<Rightarrow> (let snet = take 8 addr in Some (snet[0 := snet ! 0 OR 0x01])))"

text \<open>The two loops of \<open>GetKey\<close>; the second one ends where the key ends.\<close>

definition set_key_bit :: "nat \<Rightarrow> byte \<Rightarrow> bytes \<Rightarrow> bytes" where
  "set_key_bit idx b key = key[idx div 8 := key ! (idx div 8) OR b]"

fun getKey_loop :: "bytes \<Rightarrow> nat \<Rightarrow> nat list \<Rightarrow> bytes \<Rightarrow> bytes" where
  "getKey_loop a keyOffset [] key = key"
| "getKey_loop a keyOffset (idx # idxs) key =
     (let bits = push_bit (idx mod 8) (a ! (idx div 8) AND drop_bit (idx mod 8) 0x80);
          keyIdx = keyOffset + (idx - 16);
          bits' = drop_bit (keyIdx mod 8) bits
      in if length key \<le> keyIdx div 8 then key
         else getKey_loop a keyOffset idxs (set_key_bit keyIdx bits' key))"

definition Address_GetKey :: "bytes \<Rightarrow> bytes" where
  "Address_GetKey a =
     (let ones = unat (a ! 1);
          key1 = fold (\<lambda>idx. set_key_bit idx (drop_bit (idx mod 8) 0x80)) [0..<ones] (replicate publicKeySize 0);
          key2 = getKey_loop a (ones + 1) [16..<8 * length a] key1
      in map (\<lambda>b. NOT b) key2)"

definition Subnet_GetKey :: "bytes \<Rightarrow> bytes" where
  "Subnet_GetKey s = Address_GetKey (copy_array 16 s)"

subsection \<open>Bits of byte strings\<close>

definition bit_at :: "bytes \<Rightarrow> nat \<Rightarrow> bool" where
  "bit_at bs i = bit (bs ! (i div 8)) (7 - i mod 8)"

lemma bytes_eq_bits:
  assumes "length xs = length ys" "\<And>i. i < 8 * length xs \<Longrightarrow> bit_at xs i = bit_at ys i"
  shows "xs = ys"
proof (rule nth_equalityI [OF assms(1)])
  fix k assume k: "k < length xs"
  show "xs ! k = ys ! k"
  proof (rule bit_word_eqI)
    fix n assume n: "n < LENGTH(8)"
    have i: "8 * k + (7 - n) < 8 * length xs" using k n by simp
    have "(8 * k + (7 - n)) mod 8 = 7 - n" using n mod_mult_self4 [of 8 k "7 - n"] by simp
    moreover have "(8 * k + (7 - n)) div 8 = k" using n div_mult_self4 [of 8 k "7 - n"] by simp
    moreover have "7 - (7 - n) = n" using n by simp
    ultimately have "(8 * k + (7 - n)) div 8 = k" "7 - (8 * k + (7 - n)) mod 8 = n" by simp_all
    then show "bit (xs ! k) n = bit (ys ! k) n"
      using assms(2) [OF i] by (simp only: bit_at_def)
  qed
qed

lemma bit_80: "bit (0x80 :: byte) n \<longleftrightarrow> n = 7"
proof (cases "n < 8")
  case True
  then have "n \<in> set [0..<8]" by simp
  then show ?thesis by (simp add: upt_rec) auto
next
  case False
  then show ?thesis using bit_imp_le_length [of "0x80 :: byte" n] by auto
qed

declare bit_numeral_word_iff [simp del]

lemma bit_byte_bound: "bit (b :: byte) n \<Longrightarrow> n < 8"
  using bit_imp_le_length [of b n] by simp

text \<open>The masks of the source select one bit.\<close>

lemma addr_bit_eq: "addr_bit buf idx = (if bit_at buf idx then 1 else 0)"
proof (rule bit_word_eqI)
  fix n assume "n < LENGTH(8)"
  have "idx mod 8 + (7 - idx mod 8 + n) = 7 \<longleftrightarrow> n = 0" by auto
  then show "bit (addr_bit buf idx) n = bit (if bit_at buf idx then 1 else 0 :: byte) n"
    by (cases "n = 0") (simp_all add: addr_bit_def bit_at_def bit_drop_bit_eq bit_and_iff bit_80 bit_1_iff)
qed

lemma bit_at_set:
  assumes "idx div 8 < length key" "i < 8 * length key"
  shows "bit_at (set_key_bit idx (drop_bit (idx mod 8) (if c then 0x80 else 0)) key) i \<longleftrightarrow> bit_at key i \<or> (c \<and> i = idx)"
proof (cases "i div 8 = idx div 8")
  case True
  have "idx mod 8 + (7 - i mod 8) = 7 \<longleftrightarrow> i mod 8 = idx mod 8" by auto
  also have "\<dots> \<longleftrightarrow> i = idx" using True by (metis div_mult_mod_eq)
  finally show ?thesis using True assms by (simp add: bit_at_def set_key_bit_def bit_or_iff bit_drop_bit_eq bit_80)
qed (use assms in \<open>auto simp: bit_at_def set_key_bit_def\<close>)

lemma length_set_key_bit [simp]: "length (set_key_bit idx b key) = length key"
  by (simp add: set_key_bit_def)

lemma bit_at_zeros: "i < 8 * n \<Longrightarrow> \<not> bit_at (replicate n 0) i"
  by (simp add: bit_at_def less_mult_imp_div_less mult.commute)

lemma bit_at_not: "i < 8 * length bs \<Longrightarrow> bit_at (map (\<lambda>b. NOT b) bs) i \<longleftrightarrow> \<not> bit_at bs i"
  using less_imp_diff_less [of 7 8 "i mod 8"] by (simp add: bit_at_def less_mult_imp_div_less mult.commute bit_not_iff)

subsection \<open>GetKey\<close>

lemma ones_loop:
  "n \<le> 8 * length key \<Longrightarrow> length (fold (\<lambda>idx. set_key_bit idx (drop_bit (idx mod 8) 0x80)) [0..<n] key) = length key
   \<and> (\<forall>i < 8 * length key. bit_at (fold (\<lambda>idx. set_key_bit idx (drop_bit (idx mod 8) 0x80)) [0..<n] key) i \<longleftrightarrow> bit_at key i \<or> i < n)"
proof (induction n)
  case (Suc n)
  let ?k = "fold (\<lambda>idx. set_key_bit idx (drop_bit (idx mod 8) 0x80)) [0..<n] key"
  have "n div 8 < length ?k" using Suc by (simp add: less_mult_imp_div_less mult.commute)
  from bit_at_set [OF this, of _ True] Suc show ?case by (auto simp: less_Suc_eq)
qed simp

lemma mask_eq: "push_bit (idx mod 8) (a ! (idx div 8) AND drop_bit (idx mod 8) 0x80) = (if bit_at a idx then 0x80 else 0 :: byte)"
proof (rule bit_word_eqI)
  fix n assume "n < LENGTH(8)"
  then show "bit (push_bit (idx mod 8) (a ! (idx div 8) AND drop_bit (idx mod 8) 0x80)) n = bit (if bit_at a idx then 0x80 else 0 :: byte) n"
    by (cases "n = 7") (auto simp: bit_push_bit_iff bit_and_iff bit_drop_bit_eq bit_80 bit_at_def)
qed

lemma getKey_loop_bits:
  "16 \<le> k \<Longrightarrow> length (getKey_loop a off [k..<e] key) = length key
   \<and> (\<forall>i < 8 * length key. bit_at (getKey_loop a off [k..<e] key) i
        \<longleftrightarrow> bit_at key i \<or> (off + (k - 16) \<le> i \<and> i + 16 < off + e \<and> bit_at a (i + 16 - off)))"
proof (induction "e - k" arbitrary: k key)
  case (Suc d)
  let ?K = "off + (k - 16)"
  have upt: "[k..<e] = k # [Suc k..<e]" using Suc(2) by (simp add: upt_rec)
  show ?case
  proof (cases "length key \<le> ?K div 8")
    case True
    then have "8 * length key \<le> ?K" by (simp add: less_eq_div_iff_mult_less_eq mult.commute)
    then show ?thesis using True by (simp add: upt Let_def)
  next
    case False
    define key' where "key' = set_key_bit ?K (drop_bit (?K mod 8) (if bit_at a k then 0x80 else 0)) key"
    have "bit_at key' i \<longleftrightarrow> bit_at key i \<or> (bit_at a k \<and> i = ?K)" if "i < 8 * length key" for i
      unfolding key'_def by (rule bit_at_set [OF _ that]) (use False in simp)
    moreover have "getKey_loop a off [k..<e] key = getKey_loop a off [Suc k..<e] key'"
      using False by (simp only: upt getKey_loop.simps Let_def mask_eq key'_def if_False)
    moreover have "length key' = length key" by (simp add: key'_def)
    moreover have "d = e - Suc k" using Suc(2) by simp
    moreover have "(bit_at a k \<and> i = ?K) \<or> (off + (Suc k - 16) \<le> i \<and> i + 16 < off + e \<and> bit_at a (i + 16 - off))
      \<longleftrightarrow> ?K \<le> i \<and> i + 16 < off + e \<and> bit_at a (i + 16 - off)" for i
    proof (cases "i = ?K")
      case True
      then have "i + 16 - off = k" using Suc.prems by simp
      then show ?thesis using True Suc(2) Suc.prems by auto
    qed (use Suc.prems in auto)
    ultimately show ?thesis using Suc(1) [of "Suc k" key'] Suc.prems by simp
  qed
qed auto

lemma GetKey_bits:
  assumes "length a = 16"
  shows "length (Address_GetKey a) = 32" and "i < 256 \<Longrightarrow> bit_at (map (\<lambda>b. NOT b) (Address_GetKey a)) i
    \<longleftrightarrow> i < unat (a ! 1) \<or> (unat (a ! 1) < i \<and> i \<le> unat (a ! 1) + 112 \<and> bit_at a (i + 15 - unat (a ! 1)))"
proof -
  define n where "n = unat (a ! 1)"
  define key1 where "key1 = fold (\<lambda>idx. set_key_bit idx (drop_bit (idx mod 8) (0x80 :: byte))) [0..<n] (replicate 32 0)"
  have "n < 256" using unsigned_less [of "a ! 1"] by (simp add: n_def)
  then have k1: "length key1 = 32" "\<forall>i < 256. bit_at key1 i \<longleftrightarrow> i < n"
    using ones_loop [of n "replicate 32 0"] bit_at_zeros [of _ 32] by (auto simp: key1_def)
  have eq: "map (\<lambda>b. NOT b) (Address_GetKey a) = getKey_loop a (n + 1) [16..<128] key1"
    using assms by (simp add: Address_GetKey_def Let_def n_def key1_def publicKeySize_def comp_def)
  have bits: "length (getKey_loop a (n + 1) [16..<128] key1) = 32"
      "\<forall>i < 256. bit_at (getKey_loop a (n + 1) [16..<128] key1) i
        \<longleftrightarrow> bit_at key1 i \<or> (n + 1 \<le> i \<and> i + 16 < n + 1 + 128 \<and> bit_at a (i + 16 - (n + 1)))"
    using getKey_loop_bits [of 16 a "n + 1" 128 key1] unfolding k1(1) by simp_all
  from arg_cong [OF eq, of length] show "length (Address_GetKey a) = 32" using bits(1) by simp
  show "i < 256 \<Longrightarrow> bit_at (map (\<lambda>b. NOT b) (Address_GetKey a)) i
    \<longleftrightarrow> i < unat (a ! 1) \<or> (unat (a ! 1) < i \<and> i \<le> unat (a ! 1) + 112 \<and> bit_at a (i + 15 - unat (a ! 1)))"
    unfolding eq n_def [symmetric] using bits k1(2) by (auto simp: Suc_le_eq add.commute)
qed

subsection \<open>AddrForKey\<close>

text \<open>The number of leading ones, and what the loop has done after \<open>j\<close> bits behind the first zero.\<close>

definition leading :: "bytes \<Rightarrow> nat" where
  "leading buf = length (takeWhile (bit_at buf) [0..<8 * length buf])"

definition packed :: "(nat \<Rightarrow> bool) \<Rightarrow> nat \<Rightarrow> addr_state \<Rightarrow> bool" where
  "packed f j s \<longleftrightarrow> as_done s \<and> as_nBits s = j mod 8 \<and> length (as_temp s) = j div 8
     \<and> (\<forall>i < 8 * (j div 8). bit_at (as_temp s) i = f i)
     \<and> (\<forall>t < 8. t < j \<longrightarrow> bit (as_bits s) t = f (j - 1 - t))"

lemma leading_bits:
  "leading buf \<le> 8 * length buf" "i < leading buf \<Longrightarrow> bit_at buf i"
  "leading buf < 8 * length buf \<Longrightarrow> \<not> bit_at buf (leading buf)"
proof -
  let ?l = "[0..<8 * length buf]"
  show "leading buf \<le> 8 * length buf" using length_takeWhile_le [of _ ?l] by (simp add: leading_def)
  show "i < leading buf \<Longrightarrow> bit_at buf i"
    using nth_mem [of i "takeWhile (bit_at buf) ?l"] takeWhile_nth [of i "bit_at buf" ?l] length_takeWhile_le [of "bit_at buf" ?l]
    by (fastforce simp: leading_def dest: set_takeWhileD)
  show "leading buf < 8 * length buf \<Longrightarrow> \<not> bit_at buf (leading buf)"
    using nth_length_takeWhile [of "bit_at buf" ?l] by (simp add: leading_def)
qed

lemma leadingI:
  assumes "n \<le> 8 * length buf" "\<And>i. i < n \<Longrightarrow> bit_at buf i" "n < 8 * length buf \<Longrightarrow> \<not> bit_at buf n"
  shows "leading buf = n"
  using leading_bits(1) [of buf] leading_bits(2) [of _ buf] leading_bits(3) [of buf] assms by (metis le_neq_implies_less linorder_neqE_nat order.strict_trans2)

lemma bit_shift_in: "bit (push_bit 1 b OR (if c then 1 else 0) :: byte) t \<longleftrightarrow> t < 8 \<and> (if t = 0 then c else bit b (t - 1))"
  by (simp only: bit_or_iff bit_push_bit_iff) (auto simp: bit_1_iff Suc_le_eq dest: bit_byte_bound)

definition shift_in :: "byte \<Rightarrow> bool \<Rightarrow> byte" where
  "shift_in bits c = push_bit 1 bits OR (if c then 1 else 0)"

lemma packed_shift:
  assumes "packed f j s" "t < 8" "t \<le> j"
  shows "bit (shift_in (as_bits s) (f j)) t = f (j - t)"
  unfolding shift_in_def bit_shift_in using assms by (cases t) (auto simp: packed_def)

lemma packed_full:
  assumes "packed f j s" "j mod 8 = 7" "i < 8 * (j div 8) + 8"
  shows "bit_at (as_temp s @ [shift_in (as_bits s) (f j)]) i = f i"
proof (cases "i < 8 * (j div 8)")
  case True
  then have "i div 8 < j div 8" by (simp add: div_less_iff_less_mult mult.commute)
  with True assms(1) show ?thesis by (simp add: packed_def bit_at_def nth_append)
next
  case False
  with assms(3) have i: "i div 8 = j div 8" by (intro div_nat_eqI) simp_all
  have "j - (7 - r) = 8 * q + r \<and> 7 - r \<le> j" if "j = 8 * q + 7" "r < 8" for q r :: nat using that by auto
  moreover have "j = 8 * (j div 8) + 7" "i = 8 * (j div 8) + i mod 8"
    using mult_div_mod_eq [of 8 j] mult_div_mod_eq [of 8 i] unfolding assms(2) i by simp_all
  ultimately have m: "j - (7 - i mod 8) = i" "7 - i mod 8 \<le> j" by (metis mod_less_divisor zero_less_numeral)+
  have "length (as_temp s) = j div 8" using assms(1) by (simp add: packed_def)
  then have "bit_at (as_temp s @ [shift_in (as_bits s) (f j)]) i = bit (shift_in (as_bits s) (f j)) (7 - i mod 8)"
    unfolding bit_at_def i by (metis nth_append_length)
  also have "\<dots> = f i" using packed_shift [OF assms(1) _ m(2)] unfolding m(1) by simp
  finally show ?thesis .
qed

lemma packed_step:
  assumes "packed f j s"
  shows "packed f (Suc j) (addr_step (if f j then 1 else 0) s)"
proof -
  define bits where "bits = shift_in (as_bits s) (f j)"
  have s: "as_done s" "as_nBits s = j mod 8" "length (as_temp s) = j div 8" using assms by (simp_all add: packed_def)
  have step: "addr_step (if f j then 1 else 0) s = (if j mod 8 + 1 = 8
      then s\<lparr> as_bits := bits, as_nBits := 0, as_temp := as_temp s @ [bits] \<rparr>
      else s\<lparr> as_bits := bits, as_nBits := j mod 8 + 1 \<rparr>)"
    unfolding addr_step_def Let_def bits_def shift_in_def s(2) using s(1) by simp
  have new: "\<forall>t < 8. t < Suc j \<longrightarrow> bit bits t = f (Suc j - 1 - t)"
    using packed_shift [OF assms] by (simp add: bits_def less_Suc_eq_le)
  show ?thesis
  proof (cases "j mod 8 = 7")
    case True
    then have j: "Suc j div 8 = j div 8 + 1" "Suc j mod 8 = 0" by (simp_all add: div_Suc mod_Suc)
    have "\<forall>i < 8 * (j div 8 + 1). bit_at (as_temp s @ [bits]) i = f i"
      using packed_full [OF assms True] by (simp add: bits_def)
    then show ?thesis unfolding packed_def step j using new True s by simp
  next
    case False
    then have j: "Suc j div 8 = j div 8" "Suc j mod 8 = j mod 8 + 1" by (simp_all add: div_Suc mod_Suc)
    have "\<forall>i < 8 * (j div 8). bit_at (as_temp s) i = f i" using assms by (simp add: packed_def)
    then show ?thesis unfolding packed_def step j using new False s by simp
  qed
qed

text \<open>The state of the loop after all bits.\<close>

definition addr_final :: "bytes \<Rightarrow> addr_state" where
  "addr_final buf = fold (\<lambda>idx. addr_step (addr_bit buf idx)) [0..<8 * length buf]
     \<lparr> as_done = False, as_ones = 0, as_bits = 0, as_nBits = 0, as_temp = [] \<rparr>"

lemma ones_phase:
  assumes "n \<le> leading buf"
  shows "fold (\<lambda>idx. addr_step (addr_bit buf idx)) [0..<n] \<lparr> as_done = False, as_ones = 0, as_bits = 0, as_nBits = 0, as_temp = [] \<rparr>
    = \<lparr> as_done = False, as_ones = of_nat n, as_bits = 0, as_nBits = 0, as_temp = [] \<rparr>"
  using assms
proof (induction n)
  case (Suc n)
  then show ?case using leading_bits(2) [of n buf] by (simp add: addr_step_def addr_bit_eq add.commute)
qed simp

lemma rest_phase:
  assumes "packed (\<lambda>j. bit_at buf (k + j)) 0 s"
  shows "packed (\<lambda>j. bit_at buf (k + j)) m (fold (\<lambda>idx. addr_step (addr_bit buf idx)) [k..<k + m] s)
    \<and> as_ones (fold (\<lambda>idx. addr_step (addr_bit buf idx)) [k..<k + m] s) = as_ones s"
proof (induction m)
  case (Suc m)
  let ?s = "fold (\<lambda>idx. addr_step (addr_bit buf idx)) [k..<k + m] s"
  have "as_done ?s" using Suc by (simp add: packed_def)
  then have "as_ones (addr_step b ?s) = as_ones ?s" for b by (simp add: addr_step_def [of b] Let_def)
  then show ?case using packed_step [of "\<lambda>j. bit_at buf (k + j)" m ?s] Suc by (simp add: addr_bit_eq)
qed (use assms in simp)

lemma addr_final_bits:
  assumes "length buf = 32"
  shows "as_ones (addr_final buf) = of_nat (leading buf)"
    and "length (as_temp (addr_final buf)) = (255 - leading buf) div 8"
    and "i < 8 * ((255 - leading buf) div 8) \<Longrightarrow> bit_at (as_temp (addr_final buf)) i = bit_at buf (leading buf + 1 + i)"
proof -
  define n where "n = leading buf"
  let ?step = "\<lambda>idx. addr_step (addr_bit buf idx)"
  let ?s1 = "\<lparr> as_done = False, as_ones = of_nat n, as_bits = 0, as_nBits = 0, as_temp = [] \<rparr>"
  have all: "as_ones (addr_final buf) = of_nat n \<and> length (as_temp (addr_final buf)) = (255 - n) div 8
    \<and> (\<forall>i < 8 * ((255 - n) div 8). bit_at (as_temp (addr_final buf)) i = bit_at buf (n + 1 + i))"
  proof (cases "n < 256")
    case True
    have "[0..<256] = [0..<n] @ n # [n + 1..<n + 1 + (255 - n)]"
      using True upt_add_eq_append [of 0 n "256 - n"] by (simp add: upt_rec [of n 256] del: upt_Suc)
    then have final: "addr_final buf = fold ?step [n + 1..<n + 1 + (255 - n)] (?step n ?s1)"
      using assms ones_phase [of n buf] by (simp add: addr_final_def n_def del: upt_Suc)
    have "\<not> bit_at buf n" using leading_bits(3) [of buf] True assms by (simp add: n_def)
    then have "packed (\<lambda>j. bit_at buf (n + 1 + j)) 0 (?step n ?s1)" and one: "as_ones (?step n ?s1) = of_nat n"
      by (simp_all add: addr_step_def addr_bit_eq packed_def)
    from rest_phase [OF this(1), of "255 - n"] one show ?thesis by (simp add: final packed_def del: upt_Suc)
  next
    case False
    then have "n = 256" using leading_bits(1) [of buf] assms by (simp add: n_def)
    then show ?thesis using ones_phase [of n buf] assms by (simp add: addr_final_def n_def del: upt_Suc)
  qed
  then show "as_ones (addr_final buf) = of_nat (leading buf)" "length (as_temp (addr_final buf)) = (255 - leading buf) div 8"
    "i < 8 * ((255 - leading buf) div 8) \<Longrightarrow> bit_at (as_temp (addr_final buf)) i = bit_at buf (leading buf + 1 + i)"
    by (simp_all add: n_def)
qed

subsection \<open>Addresses and the keys behind them\<close>

text \<open>The bits of an address: the prefix, the count, and the complete bytes behind the first zero.\<close>

lemma AddrForKey_final:
  "length key = 32 \<Longrightarrow> AddrForKey prefix key =
     Some (copy_array 16 (prefix # as_ones (addr_final (map (\<lambda>b. NOT b) key)) # as_temp (addr_final (map (\<lambda>b. NOT b) key))))"
  by (simp add: AddrForKey_def addr_final_def publicKeySize_def Let_def)

definition addr_of :: "byte \<Rightarrow> bytes \<Rightarrow> bytes" where
  "addr_of prefix buf = copy_array 16 (prefix # as_ones (addr_final buf) # as_temp (addr_final buf))"

definition tail_bit :: "bytes \<Rightarrow> nat \<Rightarrow> bool" where
  "tail_bit buf j \<longleftrightarrow> j < 8 * ((255 - leading buf) div 8) \<and> bit_at buf (leading buf + 1 + j)"

lemma bit_at_Cons2: "bit_at (x # y # zs) (16 + j) = bit_at zs j"
proof -
  have "(16 + j) div 8 = j div 8 + 2" "(16 + j) mod 8 = j mod 8" by presburger+
  then show ?thesis by (simp add: bit_at_def)
qed

lemma bit_at_copy:
  assumes "i < 8 * n"
  shows "bit_at (copy_array n bs) i \<longleftrightarrow> i < 8 * length bs \<and> bit_at bs i"
proof -
  have d: "i div 8 < n" using assms by (simp add: div_less_iff_less_mult mult.commute)
  show ?thesis
  proof (cases "i < 8 * length bs")
    case True
    then have "i div 8 < length bs" by (simp add: div_less_iff_less_mult mult.commute)
    with True d show ?thesis by (simp add: copy_array_def bit_at_def nth_append)
  next
    case False
    then have "\<not> i div 8 < length bs" by (simp add: div_less_iff_less_mult mult.commute)
    with False d show ?thesis by (simp add: copy_array_def bit_at_def nth_append)
  qed
qed

lemma addr_of_bits:
  assumes "length buf = 32"
  shows "length (addr_of prefix buf) = 16" "addr_of prefix buf ! 0 = prefix" "addr_of prefix buf ! 1 = of_nat (leading buf)"
    "j < 112 \<Longrightarrow> bit_at (addr_of prefix buf) (16 + j) = tail_bit buf j"
  using addr_final_bits [OF assms] bit_at_copy [of "16 + j" 16 "prefix # as_ones (addr_final buf) # as_temp (addr_final buf)"]
  by (auto simp: addr_of_def tail_bit_def bit_at_Cons2) (simp_all add: copy_array_def)

lemma addr_eqI:
  assumes "length a = 16" "length b = 16" "a ! 0 = b ! 0" "a ! 1 = b ! 1" "\<And>j. j < 112 \<Longrightarrow> bit_at a (16 + j) = bit_at b (16 + j)"
  shows "a = b"
proof (rule bytes_eq_bits)
  fix i assume i: "i < 8 * length a"
  consider "i div 8 = 0" | "i div 8 = 1" | "16 \<le> i" by (cases "i < 8"; cases "i < 16") (auto simp: div_nat_eqI)
  then show "bit_at a i = bit_at b i"
  proof cases
    case 3
    then show ?thesis using assms(5) [of "i - 16"] assms(1) i by simp
  qed (use assms in \<open>simp_all add: bit_at_def\<close>)
qed (use assms in simp)

text \<open>
  An address that shows the first \<open>m\<close> tail bits of a key gives a partial key with the same count and the
  same tail bits.
\<close>

lemma partial_key:
  assumes "length buf = 32" "length a = 16" "a ! 1 = of_nat (leading buf)" "m \<le> 112"
    and tail: "\<And>j. j < 112 \<Longrightarrow> bit_at a (16 + j) \<longleftrightarrow> j < m \<and> tail_bit buf j"
  defines "K \<equiv> map (\<lambda>b. NOT b) (Address_GetKey a)"
  shows "length K = 32" "(of_nat (leading K) :: byte) = of_nat (leading buf)" "j < m \<Longrightarrow> tail_bit K j = tail_bit buf j"
proof -
  define n where "n = unat (a ! 1)"
  have n: "n = leading buf mod 256" using assms(3) by (simp add: n_def unsigned_of_nat take_bit_eq_mod)
  have lead: "leading buf \<le> 256" using leading_bits(1) [of buf] assms(1) by simp
  then have full: "n = leading buf \<or> n = 0 \<and> leading buf = 256" using n by (cases "leading buf = 256") auto
  show len: "length K = 32" using GetKey_bits(1) [OF assms(2)] by (simp add: K_def)
  have bits: "bit_at K i \<longleftrightarrow> i < n \<or> (n < i \<and> i \<le> n + 112 \<and> i - Suc n < m \<and> tail_bit buf (i - Suc n))" if "i < 256" for i
  proof -
    have "i + 15 - n = 16 + (i - Suc n)" if "n < i" using that by simp
    then show ?thesis using GetKey_bits(2) [OF assms(2) \<open>i < 256\<close>] tail [of "i - Suc n"] by (auto simp: K_def n_def)
  qed
  have n256: "n < 256" using n by simp
  have lK: "leading K = n"
    using n256 by (intro leadingI) (auto simp: len bits)
  show "(of_nat (leading K) :: byte) = of_nat (leading buf)" using full by (auto simp: lK)
  show "tail_bit K j = tail_bit buf j" if "j < m"
  proof (cases "j < 8 * ((255 - n) div 8)")
    case True
    moreover have "8 * ((255 - n) div 8) \<le> 255 - n" by simp
    ultimately have "n + 1 + j < 256" by linarith
    then have "bit_at K (n + 1 + j) = tail_bit buf j" using bits [of "n + 1 + j"] that assms(4) by simp
    with True show ?thesis by (simp add: tail_bit_def [of K] lK)
  next
    case False
    then have "\<not> tail_bit buf j" using full by (auto simp: tail_bit_def)
    with False show ?thesis by (simp add: tail_bit_def [of K] lK)
  qed
qed

lemma AddrForKey_some: "length key = 32 \<Longrightarrow> AddrForKey prefix key = Some (addr_of prefix (map (\<lambda>b. NOT b) key))"
  by (simp add: AddrForKey_final addr_of_def)

lemma SubnetForKey_some:
  "length key = 32 \<Longrightarrow> SubnetForKey prefix key = Some ((take 8 (addr_of prefix (map (\<lambda>b. NOT b) key)))[0 := prefix OR 1])"
  using addr_of_bits(1,2) [of "map (\<lambda>b. NOT b) key" prefix] by (simp add: SubnetForKey_def AddrForKey_some Let_def)

lemma addr_of_eq:
  assumes "length buf = 32" "length buf' = 32" "(of_nat (leading buf) :: byte) = of_nat (leading buf')"
    "\<And>j. j < 112 \<Longrightarrow> tail_bit buf j = tail_bit buf' j"
  shows "addr_of prefix buf = addr_of prefix buf'"
  by (rule addr_eqI) (use assms addr_of_bits in auto)

lemma take8_eq:
  assumes "length a = 16" "length b = 16" "a ! 0 = b ! 0" "a ! 1 = b ! 1" "\<And>j. j < 48 \<Longrightarrow> bit_at a (16 + j) = bit_at b (16 + j)"
  shows "take 8 a = take 8 b"
proof (rule bytes_eq_bits)
  fix i assume "i < 8 * length (take 8 a)"
  then have i: "i < 64" using assms(1) by simp
  then have d: "i div 8 < 8" by (simp add: div_less_iff_less_mult)
  consider "i div 8 = 0" | "i div 8 = 1" | "16 \<le> i" by (cases "i < 8"; cases "i < 16") (auto simp: div_nat_eqI)
  then show "bit_at (take 8 a) i = bit_at (take 8 b) i"
  proof cases
    case 3
    then show ?thesis using assms(5) [of "i - 16"] i d by (simp add: bit_at_def)
  qed (use assms in \<open>simp_all add: bit_at_def\<close>)
qed (use assms in simp)

subsection \<open>Properties\<close>

lemma address_partial:
  assumes "length key = 32" "AddrForKey prefix key = Some a"
  shows "AddrForKey prefix (Address_GetKey a) = Some a"
proof -
  define buf where "buf = map (\<lambda>b. NOT b) key"
  have buf: "length buf = 32" and a: "a = addr_of prefix buf" using assms by (simp_all add: buf_def AddrForKey_some)
  note b = addr_of_bits [OF buf, where prefix = prefix]
  have K: "length (Address_GetKey a) = 32" using GetKey_bits(1) b(1) a by simp
  have p: "length buf = 32" "length a = 16" "a ! 1 = of_nat (leading buf)" "(112 :: nat) \<le> 112"
      "\<And>j. j < 112 \<Longrightarrow> bit_at a (16 + j) \<longleftrightarrow> j < 112 \<and> tail_bit buf j"
    using buf a b by simp_all
  have "addr_of prefix (map (\<lambda>b. NOT b) (Address_GetKey a)) = addr_of prefix buf"
    using partial_key [OF p] buf by (intro addr_of_eq) simp_all
  then show ?thesis unfolding AddrForKey_some [OF K] using a by simp
qed

lemma subnet_partial:
  assumes "length key = 32" "SubnetForKey prefix key = Some s"
  shows "SubnetForKey prefix (Subnet_GetKey s) = Some s"
proof -
  define buf where "buf = map (\<lambda>b. NOT b) key"
  define a where "a = copy_array 16 s"
  have buf: "length buf = 32" and s: "s = (take 8 (addr_of prefix buf))[0 := prefix OR 1]"
    using assms by (simp_all add: buf_def SubnetForKey_some)
  note b = addr_of_bits [OF buf, where prefix = prefix]
  have len: "length s = 8" "length a = 16" using s b(1) by (simp_all add: a_def)
  have one: "a ! 1 = of_nat (leading buf)" using s b(1,3) by (simp add: a_def copy_array_def nth_append)
  have tail: "bit_at a (16 + j) \<longleftrightarrow> j < 48 \<and> tail_bit buf j" if j: "j < 112" for j
  proof -
    have "bit_at s (16 + j) = bit_at (addr_of prefix buf) (16 + j)" if "j < 48"
    proof -
      have "(16 + j) div 8 = j div 8 + 2" by presburger
      moreover have "j div 8 < 6" using that by (simp add: div_less_iff_less_mult)
      ultimately show ?thesis using s b(1) by (simp add: bit_at_def)
    qed
    then show ?thesis using bit_at_copy [of "16 + j" 16 s] len(1) b(4) [OF j] j by (auto simp: a_def)
  qed
  have K: "length (Address_GetKey a) = 32" using GetKey_bits(1) len by simp
  have p: "length buf = 32" "length a = 16" "a ! 1 = of_nat (leading buf)" "(48 :: nat) \<le> 112"
      "\<And>j. j < 112 \<Longrightarrow> bit_at a (16 + j) \<longleftrightarrow> j < 48 \<and> tail_bit buf j"
    using buf len one tail by simp_all
  have "take 8 (addr_of prefix (map (\<lambda>b. NOT b) (Address_GetKey a))) = take 8 (addr_of prefix buf)"
    by (rule take8_eq) (use partial_key [OF p] b addr_of_bits [where buf = "map (\<lambda>b. NOT b) (Address_GetKey a)" and prefix = prefix] in auto)
  then show ?thesis unfolding Subnet_GetKey_def a_def [symmetric] SubnetForKey_some [OF K] by (simp only: s)
qed

text \<open>
  The partial keys that lookups use find the node: for every 32-byte key the address and the subnet are
  valid for the prefix of the network, the key recovered from the address leads to the same address and
  subnet, and the key recovered from the subnet leads to the same subnet; with a prefix that
  \<open>SetPrefix\<close> accepts no address passes for a subnet and no subnet for an address.
\<close>

theorem partial_keys_lead_back:
  assumes "length key = 32" "SetPrefix prefix = Some prefix"
  shows "\<exists>a s. AddrForKey prefix key = Some a \<and> length a = 16 \<and> Address_IsValid prefix a \<and> \<not> Subnet_IsValid prefix a
    \<and> SubnetForKey prefix key = Some s \<and> length s = 8 \<and> Subnet_IsValid prefix s \<and> \<not> Address_IsValid prefix s
    \<and> AddrForKey prefix (Address_GetKey a) = Some a \<and> SubnetForKey prefix (Address_GetKey a) = Some s
    \<and> SubnetForKey prefix (Subnet_GetKey s) = Some s"
proof -
  define buf where "buf = map (\<lambda>b. NOT b) key"
  have buf: "length buf = 32" using assms(1) by (simp add: buf_def)
  note b = addr_of_bits [OF buf, where prefix = prefix]
  have a: "AddrForKey prefix key = Some (addr_of prefix buf)" using assms(1) by (simp add: AddrForKey_some buf_def)
  have s: "SubnetForKey prefix key = Some ((take 8 (addr_of prefix buf))[0 := prefix OR 1])"
    using assms(1) by (simp add: SubnetForKey_some buf_def)
  have "prefix AND 1 = 0" using assms(2) by (simp add: SetPrefix_def split: if_splits)
  moreover have "(prefix OR 1) AND 1 = 1" by (rule bit_word_eqI) (auto simp: bit_and_iff bit_or_iff)
  ultimately have "prefix OR 1 \<noteq> prefix" by (metis zero_neq_one)
  moreover have "SubnetForKey prefix (Address_GetKey (addr_of prefix buf)) = SubnetForKey prefix key"
    unfolding SubnetForKey_def address_partial [OF assms(1) a] a ..
  ultimately show ?thesis
    using a s b(1,2) address_partial [OF assms(1) a] subnet_partial [OF assms(1) s]
    by (auto simp: Address_IsValid_def Subnet_IsValid_def)
qed

theorem partial_keys_lead_back_witness:
  "SetPrefix 2 = Some 2 \<and> (\<exists>a s. AddrForKey 2 (replicate 32 7) = Some a \<and> SubnetForKey 2 (replicate 32 7) = Some s
    \<and> AddrForKey 2 (Address_GetKey a) = Some a \<and> SubnetForKey 2 (Subnet_GetKey s) = Some s)"
proof -
  have h: "length (replicate 32 (7 :: byte)) = 32" "SetPrefix 2 = Some 2" by (simp_all add: SetPrefix_def)
  show ?thesis using h(2) partial_keys_lead_back [OF h] by blast
qed

text \<open>
  The byte that counts the leading ones wraps for the key of zeros, whose inverse has 256 of them: it
  shares its address with the key of ones.
\<close>

lemma zero_key_wraps: "AddrForKey prefix (replicate 32 0) = AddrForKey prefix (replicate 32 (- 1))"
proof -
  have "leading (replicate 32 (- 1)) = 256" "leading (replicate 32 0) = 0"
    using bit_at_zeros [of _ 32] by (intro leadingI; simp add: bit_at_def div_less_iff_less_mult)+
  then have "addr_of prefix (replicate 32 (- 1)) = addr_of prefix (replicate 32 0)"
    using bit_at_zeros [of _ 32] by (intro addr_of_eq) (auto simp: tail_bit_def)
  then show ?thesis by (simp add: AddrForKey_some)
qed

declare bit_numeral_word_iff [simp]

end
