(* ===== verification/KeyStore.thy ===== *)
theory KeyStore
  imports Address
begin

text \<open>
  \<^verbatim>\<open>src/ipv6rwc/ipv6rwc.go\<close> and \<^verbatim>\<open>icmpv6.go\<close>: the bridge between IPv6 packets and keys.
  \<^item> A \<open>*keyInfo\<close> and a \<open>*buffer\<close> carry the number of their creation, so comparing pointers is comparing
    the records' numbers; \<open>ks_timeouts\<close> holds the field \<open>timeout\<close> of each \<open>keyInfo\<close>.
  \<^item> A timer is armed with its closure; when it runs out the closure waits for the mutex (\<open>ks_fired\<close>),
    where \<open>Stop\<close> no longer reaches it.
  \<^item> Calls of \<open>core.WriteTo\<close> and \<open>core.SendLookup\<close> are outputs, in their order.
  \<^item> \<open>icmp.Message.Marshal\<close> is the parameter \<open>marshal\<close>, from source, destination, MTU and quoted
    packet to the message, or \<open>None\<close> on an error.
\<close>

record keyInfo =
  ki_id :: nat
  ki_key :: bytes
  ki_address :: bytes
  ki_subnet :: bytes

record ks_buffer =
  kb_id :: nat
  kb_packet :: bytes
  kb_timeout :: "nat option"

datatype ks_closure = ExpireInfo keyInfo | ExpireAddr bytes nat | ExpireSubnet bytes nat
datatype ks_output = KsWrite bytes bytes | KsLookup bytes

record keyStore =
  ks_prefix :: byte
  ks_address :: bytes
  ks_subnet :: bytes
  ks_keyToInfo :: "(bytes, keyInfo) gomap"
  ks_addrToInfo :: "(bytes, keyInfo) gomap"
  ks_addrBuffer :: "(bytes, ks_buffer) gomap"
  ks_subnetToInfo :: "(bytes, keyInfo) gomap"
  ks_subnetBuffer :: "(bytes, ks_buffer) gomap"
  ks_mtu :: u64
  ks_timeouts :: "(nat, nat) gomap"
  ks_armed :: "(nat \<times> ks_closure) list"
  ks_fired :: "ks_closure list"
  ks_fresh :: nat
  ks_out :: "ks_output list"

definition keyStore_init :: "byte \<Rightarrow> bytes \<Rightarrow> keyStore result" where
  "keyStore_init prefix publicKey =
     (case (AddrForKey prefix publicKey, SubnetForKey prefix publicKey) of
        (Some a, Some s) \<Rightarrow> Inr \<lparr> ks_prefix = prefix, ks_address = a, ks_subnet = s, ks_keyToInfo = [], ks_addrToInfo = [],
          ks_addrBuffer = [], ks_subnetToInfo = [], ks_subnetBuffer = [], ks_mtu = 1280, ks_timeouts = [], ks_armed = [],
          ks_fired = [], ks_fresh = 0, ks_out = [] \<rparr>
      | _ \<Rightarrow> Inl Panic)"

subsection \<open>Timers\<close>

definition ks_emit :: "ks_output list \<Rightarrow> keyStore \<Rightarrow> keyStore" where
  "ks_emit os k = k\<lparr> ks_out := ks_out k @ os \<rparr>"

definition ks_start :: "ks_closure \<Rightarrow> keyStore \<Rightarrow> nat \<times> keyStore" where
  "ks_start c k = (ks_fresh k, k\<lparr> ks_armed := (ks_fresh k, c) # ks_armed k, ks_fresh := ks_fresh k + 1 \<rparr>)"

definition ks_stop :: "nat option \<Rightarrow> keyStore \<Rightarrow> keyStore" where
  "ks_stop timer k = (case timer of None \<Rightarrow> k | Some t \<Rightarrow> k\<lparr> ks_armed := filter (\<lambda>a. fst a \<noteq> t) (ks_armed k) \<rparr>)"

definition ks_resetTimeout :: "keyInfo \<Rightarrow> keyStore \<Rightarrow> keyStore" where
  "ks_resetTimeout info k =
     (let (t, k1) = ks_start (ExpireInfo info) (ks_stop (m_get (ks_timeouts k) (ki_id info)) k)
      in k1\<lparr> ks_timeouts := m_set (ks_timeouts k1) (ki_id info) t \<rparr>)"

text \<open>The closures of the timers.\<close>

fun ks_expire :: "ks_closure \<Rightarrow> keyStore \<Rightarrow> keyStore" where
  "ks_expire (ExpireInfo info) k =
     (let k1 = (if m_get (ks_keyToInfo k) (ki_key info) = Some info
                then k\<lparr> ks_keyToInfo := m_del (ks_keyToInfo k) (ki_key info) \<rparr> else k);
          k2 = (if m_get (ks_addrToInfo k1) (ki_address info) = Some info
                then k1\<lparr> ks_addrToInfo := m_del (ks_addrToInfo k1) (ki_address info) \<rparr> else k1)
      in if m_get (ks_subnetToInfo k2) (ki_subnet info) = Some info
         then k2\<lparr> ks_subnetToInfo := m_del (ks_subnetToInfo k2) (ki_subnet info) \<rparr> else k2)"
| "ks_expire (ExpireAddr addr b) k =
     (if map_option kb_id (m_get (ks_addrBuffer k) addr) = Some b
      then k\<lparr> ks_addrBuffer := m_del (ks_addrBuffer k) addr \<rparr> else k)"
| "ks_expire (ExpireSubnet snet b) k =
     (if map_option kb_id (m_get (ks_subnetBuffer k) snet) = Some b
      then k\<lparr> ks_subnetBuffer := m_del (ks_subnetBuffer k) snet \<rparr> else k)"

subsection \<open>Sending\<close>

text \<open>The buffer of a destination, made when there is none, with the packet and a new timer.\<close>

definition new_buffer :: "(bytes, ks_buffer) gomap \<Rightarrow> bytes \<Rightarrow> keyStore \<Rightarrow> ks_buffer \<times> keyStore" where
  "new_buffer m dest k =
     (case m_get m dest of
        Some b \<Rightarrow> (b, k)
      | None \<Rightarrow> (\<lparr> kb_id = ks_fresh k, kb_packet = [], kb_timeout = None \<rparr>, k\<lparr> ks_fresh := ks_fresh k + 1 \<rparr>))"

definition sendToAddress :: "bytes \<Rightarrow> bytes \<Rightarrow> keyStore \<Rightarrow> keyStore" where
  "sendToAddress addr bs k =
     (case m_get (ks_addrToInfo k) addr of
        Some info \<Rightarrow> ks_emit [KsWrite bs (ki_key info)] (ks_resetTimeout info k)
      | None \<Rightarrow>
          (let (buf, k1) = new_buffer (ks_addrBuffer k) addr k;
               (t, k2) = ks_start (ExpireAddr addr (kb_id buf)) (ks_stop (kb_timeout buf) k1);
               k3 = k2\<lparr> ks_addrBuffer := m_set (ks_addrBuffer k2) addr (buf\<lparr> kb_packet := bs, kb_timeout := Some t \<rparr>) \<rparr>
           in ks_emit [KsLookup (Address_GetKey addr)] k3))"

definition sendToSubnet :: "bytes \<Rightarrow> bytes \<Rightarrow> keyStore \<Rightarrow> keyStore" where
  "sendToSubnet snet bs k =
     (case m_get (ks_subnetToInfo k) snet of
        Some info \<Rightarrow> ks_emit [KsWrite bs (ki_key info)] (ks_resetTimeout info k)
      | None \<Rightarrow>
          (let (buf, k1) = new_buffer (ks_subnetBuffer k) snet k;
               (t, k2) = ks_start (ExpireSubnet snet (kb_id buf)) (ks_stop (kb_timeout buf) k1);
               k3 = k2\<lparr> ks_subnetBuffer := m_set (ks_subnetBuffer k2) snet (buf\<lparr> kb_packet := bs, kb_timeout := Some t \<rparr>) \<rparr>
           in ks_emit [KsLookup (Subnet_GetKey snet)] k3))"

text \<open>\<open>update\<close>: the packets that waited for a new key, and the tables with it.\<close>

definition buffered :: "(bytes, ks_buffer) gomap \<Rightarrow> bytes \<Rightarrow> bytes list" where
  "buffered m dest = (case m_get m dest of None \<Rightarrow> [] | Some b \<Rightarrow> [kb_packet b])"

definition ks_update :: "bytes \<Rightarrow> keyStore \<Rightarrow> (keyInfo \<times> keyStore) result" where
  "ks_update key k =
     (let kArray = copy_array 32 key in
      case m_get (ks_keyToInfo k) kArray of
        Some info \<Rightarrow> Inr (info, ks_resetTimeout info k)
      | None \<Rightarrow>
          (case (AddrForKey (ks_prefix k) kArray, SubnetForKey (ks_prefix k) kArray) of
             (Some a, Some s) \<Rightarrow>
               (let info = \<lparr> ki_id = ks_fresh k, ki_key = kArray, ki_address = a, ki_subnet = s \<rparr>;
                    packets = buffered (ks_addrBuffer k) a @ buffered (ks_subnetBuffer k) s;
                    k1 = k\<lparr> ks_fresh := ks_fresh k + 1, ks_keyToInfo := m_set (ks_keyToInfo k) kArray info,
                            ks_addrToInfo := m_set (ks_addrToInfo k) a info, ks_subnetToInfo := m_set (ks_subnetToInfo k) s info,
                            ks_addrBuffer := m_del (ks_addrBuffer k) a, ks_subnetBuffer := m_del (ks_subnetBuffer k) s \<rparr>
                in Inr (info, ks_emit (map (\<lambda>p. KsWrite p (ki_key info)) packets) (ks_resetTimeout info k1)))
           | _ \<Rightarrow> Inl Panic))"

subsection \<open>Packets from the host\<close>

datatype write_error = EmptyPacket | NotIPv6 | Undersized nat | IncorrectSource | InvalidDestination

abbreviation src_addr :: "bytes \<Rightarrow> bytes" where "src_addr bs \<equiv> take 16 (drop 8 bs)"
abbreviation dst_addr :: "bytes \<Rightarrow> bytes" where "dst_addr bs \<equiv> take 16 (drop 24 bs)"
abbreviation src_subnet :: "bytes \<Rightarrow> bytes" where "src_subnet bs \<equiv> take 8 (drop 8 bs)"
abbreviation dst_subnet :: "bytes \<Rightarrow> bytes" where "dst_subnet bs \<equiv> take 8 (drop 24 bs)"

definition writePC :: "bytes \<Rightarrow> keyStore \<Rightarrow> (write_error + nat) \<times> keyStore" where
  "writePC bs k =
     (if length bs = 0 then (Inl EmptyPacket, k)
      else if bs ! 0 AND 0xf0 \<noteq> 0x60 then (Inl NotIPv6, k)
      else if length bs < 40 then (Inl (Undersized (length bs)), k)
      else if src_addr bs \<noteq> ks_address k \<and> src_subnet bs \<noteq> ks_subnet k then (Inl IncorrectSource, k)
      else if Address_IsValid (ks_prefix k) (dst_addr bs) then (Inr (length bs), sendToAddress (dst_addr bs) bs k)
      else if Subnet_IsValid (ks_prefix k) (dst_subnet bs) then (Inr (length bs), sendToSubnet (dst_subnet bs) bs k)
      else (Inl InvalidDestination, k))"

subsection \<open>ICMPv6\<close>

definition ipv6Header_Marshal :: "byte \<Rightarrow> byte \<Rightarrow> 32 word \<Rightarrow> nat \<Rightarrow> byte \<Rightarrow> byte \<Rightarrow> bytes \<Rightarrow> bytes \<Rightarrow> bytes" where
  "ipv6Header_Marshal version trafficClass flowLabel payloadLen nextHeader hopLimit src dst =
     [push_bit 4 version OR drop_bit 4 trafficClass, push_bit 4 trafficClass OR ucast (drop_bit 16 flowLabel),
      ucast (drop_bit 8 flowLabel), ucast flowLabel] @ be_bytes 2 (of_nat payloadLen :: u16)
     @ [nextHeader, hopLimit] @ copy_array 16 src @ copy_array 16 dst"

type_synonym icmp_marshal = "bytes \<Rightarrow> bytes \<Rightarrow> nat \<Rightarrow> bytes \<Rightarrow> bytes option"

definition CreateICMPv6 :: "icmp_marshal \<Rightarrow> bytes \<Rightarrow> bytes \<Rightarrow> nat \<Rightarrow> bytes \<Rightarrow> bytes option" where
  "CreateICMPv6 marshal dst src mtu data =
     (case marshal src dst mtu data of
        None \<Rightarrow> None
      | Some msg \<Rightarrow> Some (ipv6Header_Marshal 6 0 0 (length msg) 58 255 src dst @ msg))"

subsection \<open>Packets from the network\<close>

text \<open>One round of the loop of \<open>readPC\<close> on a packet of the network: the packet it returns, if any.\<close>

definition readPC_packet :: "icmp_marshal \<Rightarrow> bytes \<Rightarrow> bytes \<Rightarrow> keyStore \<Rightarrow> (bytes option \<times> keyStore) result" where
  "readPC_packet marshal bs from k =
     (if length bs = 0 then Inr (None, k)
      else if bs ! 0 AND 0xf0 \<noteq> 0x60 then Inr (None, k)
      else if length bs < 40 then Inr (None, k)
      else if unat (ks_mtu k) < length bs then
        (let buf = take 512 bs in
         case CreateICMPv6 marshal (take 16 (drop 8 buf)) (take 16 (drop 24 buf)) (unat (ks_mtu k)) buf of
           None \<Rightarrow> Inr (None, k)
         | Some packet \<Rightarrow> Inr (None, snd (writePC packet k)))
      else if dst_addr bs \<noteq> ks_address k \<and> dst_subnet bs \<noteq> ks_subnet k then Inr (None, k)
      else and_then (ks_update from k) (\<lambda>(info, k1).
        if src_addr bs \<noteq> ki_address info \<and> src_subnet bs \<noteq> ki_subnet info then Inr (None, k1)
        else Inr (Some bs, k1)))"

text \<open>\<open>readPC\<close> over what \<open>core.ReadFrom\<close> delivers; \<open>None\<close> is a call that still waits.\<close>

fun readPC :: "icmp_marshal \<Rightarrow> nat \<Rightarrow> (types_error + bytes \<times> bytes) list \<Rightarrow> keyStore \<Rightarrow> ((types_error + bytes) option \<times> keyStore) result" where
  "readPC marshal n [] k = Inr (None, k)"
| "readPC marshal n (Inl e # ins) k = Inr (Some (Inl e), k)"
| "readPC marshal n (Inr (bs, from) # ins) k =
     and_then (readPC_packet marshal bs from k) (\<lambda>(got, k1).
       case got of Some p \<Rightarrow> Inr (Some (Inr (take n p)), k1) | None \<Rightarrow> readPC marshal n ins k1)"

definition ks_SetMTU :: "u64 \<Rightarrow> u64 \<Rightarrow> keyStore \<Rightarrow> keyStore" where
  "ks_SetMTU maxMTU mtu k =
     (let m1 = (if maxMTU < mtu then maxMTU else mtu);
          m2 = (if m1 < 1280 then 1280 else m1)
      in k\<lparr> ks_mtu := m2 \<rparr>)"

subsection \<open>Steps\<close>

inductive ks_step :: "icmp_marshal \<Rightarrow> keyStore \<Rightarrow> keyStore \<Rightarrow> bool" for marshal where
  ks_write: "ks_step marshal k (snd (writePC bs k))"
| ks_read: "readPC_packet marshal bs from k = Inr (got, k') \<Longrightarrow> ks_step marshal k k'"
| ks_notify: "ks_update key k = Inr (info, k') \<Longrightarrow> ks_step marshal k k'"
| ks_timer: "i < length (ks_armed k) \<Longrightarrow>
    ks_step marshal k (k\<lparr> ks_armed := take i (ks_armed k) @ drop (Suc i) (ks_armed k), ks_fired := ks_fired k @ [snd (ks_armed k ! i)] \<rparr>)"
| ks_closure: "i < length (ks_fired k) \<Longrightarrow>
    ks_step marshal k (ks_expire (ks_fired k ! i) (k\<lparr> ks_fired := take i (ks_fired k) @ drop (Suc i) (ks_fired k) \<rparr>))"
| ks_mtu: "ks_step marshal k (ks_SetMTU maxMTU mtu k)"

subsection \<open>The invariant\<close>

text \<open>A packet of this host, and who may receive it.\<close>

definition own_packet :: "keyStore \<Rightarrow> bytes \<Rightarrow> bool" where
  "own_packet k bs \<longleftrightarrow> 40 \<le> length bs \<and> bs ! 0 AND 0xf0 = 0x60 \<and> (src_addr bs = ks_address k \<or> src_subnet bs = ks_subnet k)"

definition owner :: "byte \<Rightarrow> bytes \<Rightarrow> bytes \<Rightarrow> bool" where
  "owner prefix bs key \<longleftrightarrow> length key = 32
     \<and> (AddrForKey prefix key = Some (dst_addr bs) \<or> SubnetForKey prefix key = Some (dst_subnet bs))"

definition info_ok :: "byte \<Rightarrow> keyInfo \<Rightarrow> bool" where
  "info_ok prefix i \<longleftrightarrow> length (ki_key i) = 32 \<and> AddrForKey prefix (ki_key i) = Some (ki_address i)
     \<and> SubnetForKey prefix (ki_key i) = Some (ki_subnet i)"

fun out_ok :: "keyStore \<Rightarrow> ks_output \<Rightarrow> bool" where
  "out_ok k (KsWrite bs key) = (own_packet k bs \<and> owner (ks_prefix k) bs key)"
| "out_ok k (KsLookup partial) = True"

definition every :: "('k \<Rightarrow> 'v \<Rightarrow> bool) \<Rightarrow> ('k, 'v) gomap \<Rightarrow> bool" where
  "every P m \<longleftrightarrow> (\<forall>x v. m_get m x = Some v \<longrightarrow> P x v)"

lemma every_Nil [simp]: "every P []"
  by (simp add: every_def)

lemma every_set [simp]: "every P m \<Longrightarrow> P x v \<Longrightarrow> every P (m_set m x v)"
  by (simp add: every_def)

lemma every_del [simp]: "every P m \<Longrightarrow> every P (m_del m x)"
  by (simp add: every_def)

lemma everyD: "every P m \<Longrightarrow> m_get m x = Some v \<Longrightarrow> P x v"
  by (simp add: every_def)

definition tables_ok :: "keyStore \<Rightarrow> bool" where
  "tables_ok k \<longleftrightarrow>
     every (\<lambda>key i. ki_key i = key \<and> info_ok (ks_prefix k) i) (ks_keyToInfo k)
     \<and> every (\<lambda>a i. ki_address i = a \<and> info_ok (ks_prefix k) i) (ks_addrToInfo k)
     \<and> every (\<lambda>s i. ki_subnet i = s \<and> info_ok (ks_prefix k) i) (ks_subnetToInfo k)"

definition buffers_ok :: "keyStore \<Rightarrow> bool" where
  "buffers_ok k \<longleftrightarrow>
     every (\<lambda>a b. own_packet k (kb_packet b) \<and> dst_addr (kb_packet b) = a) (ks_addrBuffer k)
     \<and> every (\<lambda>s b. own_packet k (kb_packet b) \<and> dst_subnet (kb_packet b) = s) (ks_subnetBuffer k)"

definition ks_ok :: "keyStore \<Rightarrow> bool" where
  "ks_ok k \<longleftrightarrow> tables_ok k \<and> buffers_ok k \<and> (\<forall>out \<in> set (ks_out k). out_ok k out)"

definition same_node :: "keyStore \<Rightarrow> keyStore \<Rightarrow> bool" where
  "same_node k k' \<longleftrightarrow> ks_prefix k' = ks_prefix k \<and> ks_address k' = ks_address k \<and> ks_subnet k' = ks_subnet k"

lemma same_node_cong:
  "same_node k k' \<Longrightarrow> own_packet k' bs = own_packet k bs" "same_node k k' \<Longrightarrow> out_ok k' out = out_ok k out"
  "same_node k k' \<Longrightarrow> ks_prefix k' = ks_prefix k"
  by (cases out; simp add: same_node_def own_packet_def)+

text \<open>What the timer operations leave alone.\<close>

lemma ks_timer_fields [simp]:
  "ks_keyToInfo (ks_resetTimeout i k) = ks_keyToInfo k" "ks_addrToInfo (ks_resetTimeout i k) = ks_addrToInfo k"
  "ks_subnetToInfo (ks_resetTimeout i k) = ks_subnetToInfo k" "ks_addrBuffer (ks_resetTimeout i k) = ks_addrBuffer k"
  "ks_subnetBuffer (ks_resetTimeout i k) = ks_subnetBuffer k" "ks_out (ks_resetTimeout i k) = ks_out k"
  "ks_prefix (ks_resetTimeout i k) = ks_prefix k" "ks_address (ks_resetTimeout i k) = ks_address k"
  "ks_subnet (ks_resetTimeout i k) = ks_subnet k"
  by (cases "m_get (ks_timeouts k) (ki_id i)"; simp add: ks_resetTimeout_def ks_start_def ks_stop_def)+

lemma ks_ok_cong:
  assumes "same_node k k'" "ks_keyToInfo k' = ks_keyToInfo k" "ks_addrToInfo k' = ks_addrToInfo k" "ks_subnetToInfo k' = ks_subnetToInfo k"
    "ks_addrBuffer k' = ks_addrBuffer k" "ks_subnetBuffer k' = ks_subnetBuffer k" "ks_out k' = ks_out k"
  shows "ks_ok k' = ks_ok k"
  using same_node_cong [OF assms(1)] assms(2-) by (simp add: ks_ok_def tables_ok_def buffers_ok_def)

lemma resetTimeout_ok: "ks_ok (ks_resetTimeout i k) = ks_ok k"
  by (rule ks_ok_cong) (simp_all add: same_node_def)

lemma ks_emit_fields [simp]:
  "ks_keyToInfo (ks_emit os k) = ks_keyToInfo k" "ks_addrToInfo (ks_emit os k) = ks_addrToInfo k"
  "ks_subnetToInfo (ks_emit os k) = ks_subnetToInfo k" "ks_addrBuffer (ks_emit os k) = ks_addrBuffer k"
  "ks_subnetBuffer (ks_emit os k) = ks_subnetBuffer k" "ks_out (ks_emit os k) = ks_out k @ os"
  "ks_prefix (ks_emit os k) = ks_prefix k" "ks_address (ks_emit os k) = ks_address k" "ks_subnet (ks_emit os k) = ks_subnet k"
  by (simp_all add: ks_emit_def)

lemma emit_ok:
  assumes "ks_ok k" "\<forall>out \<in> set os. out_ok k out"
  shows "ks_ok (ks_emit os k)"
proof -
  have "same_node k (ks_emit os k)" by (simp add: same_node_def)
  note cong = same_node_cong [OF this]
  show ?thesis using assms unfolding ks_ok_def tables_ok_def buffers_ok_def by (simp add: cong ball_Un)
qed

lemma expire_ok:
  assumes "ks_ok k"
  shows "ks_ok (ks_expire c k)"
proof -
  have "same_node k (ks_expire c k)" by (cases c) (simp_all add: same_node_def Let_def)
  note cong = same_node_cong [OF this]
  show ?thesis
    using assms unfolding ks_ok_def tables_ok_def buffers_ok_def cong by (cases c) (simp_all add: Let_def)
qed

lemma new_buffer_fields:
  assumes "new_buffer m dest k = (b, k')"
  shows "same_node k k'" "ks_keyToInfo k' = ks_keyToInfo k" "ks_addrToInfo k' = ks_addrToInfo k" "ks_subnetToInfo k' = ks_subnetToInfo k"
    "ks_addrBuffer k' = ks_addrBuffer k" "ks_subnetBuffer k' = ks_subnetBuffer k" "ks_out k' = ks_out k"
  using assms by (auto simp: new_buffer_def same_node_def split: option.splits)

lemma write_known_ok:
  assumes "ks_ok k" "own_packet k bs" "owner (ks_prefix k) bs (ki_key info)"
  shows "ks_ok (ks_emit [KsWrite bs (ki_key info)] (ks_resetTimeout info k))"
proof (rule emit_ok)
  have "same_node k (ks_resetTimeout info k)" by (simp add: same_node_def)
  from same_node_cong(1) [OF this] assms(2,3)
  show "\<forall>out \<in> set [KsWrite bs (ki_key info)]. out_ok (ks_resetTimeout info k) out" by simp
qed (use assms(1) resetTimeout_ok in blast)

text \<open>A buffered packet with its timer.\<close>

lemma buffer_timer_fields:
  assumes "new_buffer m dest k = (b, k1)" "ks_start c (ks_stop (kb_timeout b) k1) = (t, k2)"
  shows "same_node k k2" "ks_keyToInfo k2 = ks_keyToInfo k" "ks_addrToInfo k2 = ks_addrToInfo k" "ks_subnetToInfo k2 = ks_subnetToInfo k"
    "ks_addrBuffer k2 = ks_addrBuffer k" "ks_subnetBuffer k2 = ks_subnetBuffer k" "ks_out k2 = ks_out k"
  using new_buffer_fields [OF assms(1)] assms(2)
  by (cases "kb_timeout b"; auto simp: ks_start_def ks_stop_def same_node_def)+

lemma sendToAddress_ok:
  assumes "ks_ok k" "own_packet k bs" "dst_addr bs = a"
  shows "ks_ok (sendToAddress a bs k)"
proof (cases "m_get (ks_addrToInfo k) a")
  case (Some info)
  have "ki_address info = a \<and> info_ok (ks_prefix k) info"
    by (rule everyD [where P = "\<lambda>a i. ki_address i = a \<and> info_ok (ks_prefix k) i", OF _ Some])
      (use assms(1) in \<open>simp add: ks_ok_def tables_ok_def\<close>)
  then have "owner (ks_prefix k) bs (ki_key info)" using assms(3) by (simp add: info_ok_def owner_def)
  from write_known_ok [OF assms(1,2) this] show ?thesis by (simp add: sendToAddress_def Some)
next
  case None
  obtain b k1 where nb: "new_buffer (ks_addrBuffer k) a k = (b, k1)" by (cases "new_buffer (ks_addrBuffer k) a k")
  obtain t k2 where st: "ks_start (ExpireAddr a (kb_id b)) (ks_stop (kb_timeout b) k1) = (t, k2)"
    by (cases "ks_start (ExpireAddr a (kb_id b)) (ks_stop (kb_timeout b) k1)")
  define k3 where "k3 = k2\<lparr> ks_addrBuffer := m_set (ks_addrBuffer k2) a (b\<lparr> kb_packet := bs, kb_timeout := Some t \<rparr>) \<rparr>"
  note f = buffer_timer_fields [OF nb st]
  have "same_node k k3" using f(1) by (simp add: k3_def same_node_def)
  note cong = same_node_cong [OF this]
  have "ks_ok k3"
    using assms unfolding ks_ok_def tables_ok_def buffers_ok_def cong by (simp add: k3_def f(2-))
  moreover have "sendToAddress a bs k = ks_emit [KsLookup (Address_GetKey a)] k3"
    by (simp add: sendToAddress_def None nb st k3_def)
  ultimately show ?thesis by (simp add: emit_ok)
qed

lemma sendToSubnet_ok:
  assumes "ks_ok k" "own_packet k bs" "dst_subnet bs = s"
  shows "ks_ok (sendToSubnet s bs k)"
proof (cases "m_get (ks_subnetToInfo k) s")
  case (Some info)
  have "ki_subnet info = s \<and> info_ok (ks_prefix k) info"
    by (rule everyD [where P = "\<lambda>s i. ki_subnet i = s \<and> info_ok (ks_prefix k) i", OF _ Some])
      (use assms(1) in \<open>simp add: ks_ok_def tables_ok_def\<close>)
  then have "owner (ks_prefix k) bs (ki_key info)" using assms(3) by (simp add: info_ok_def owner_def)
  from write_known_ok [OF assms(1,2) this] show ?thesis by (simp add: sendToSubnet_def Some)
next
  case None
  obtain b k1 where nb: "new_buffer (ks_subnetBuffer k) s k = (b, k1)" by (cases "new_buffer (ks_subnetBuffer k) s k")
  obtain t k2 where st: "ks_start (ExpireSubnet s (kb_id b)) (ks_stop (kb_timeout b) k1) = (t, k2)"
    by (cases "ks_start (ExpireSubnet s (kb_id b)) (ks_stop (kb_timeout b) k1)")
  define k3 where "k3 = k2\<lparr> ks_subnetBuffer := m_set (ks_subnetBuffer k2) s (b\<lparr> kb_packet := bs, kb_timeout := Some t \<rparr>) \<rparr>"
  note f = buffer_timer_fields [OF nb st]
  have "same_node k k3" using f(1) by (simp add: k3_def same_node_def)
  note cong = same_node_cong [OF this]
  have "ks_ok k3"
    using assms unfolding ks_ok_def tables_ok_def buffers_ok_def cong by (simp add: k3_def f(2-))
  moreover have "sendToSubnet s bs k = ks_emit [KsLookup (Subnet_GetKey s)] k3"
    by (simp add: sendToSubnet_def None nb st k3_def)
  ultimately show ?thesis by (simp add: emit_ok)
qed

lemma writePC_ok: "ks_ok k \<Longrightarrow> ks_ok (snd (writePC bs k))"
  using sendToAddress_ok [of k bs] sendToSubnet_ok [of k bs]
  by (auto simp: writePC_def own_packet_def not_less)

lemma buffered_out:
  assumes "every (\<lambda>x b. P x (kb_packet b)) m" "p \<in> set (buffered m dest)"
  shows "P dest p"
proof (cases "m_get m dest")
  case (Some b)
  with everyD [OF assms(1) Some] assms(2) show ?thesis by (simp add: buffered_def)
qed (use assms(2) in \<open>simp add: buffered_def\<close>)

lemma update_ok:
  assumes "ks_ok k"
  shows "\<exists>info k'. ks_update key k = Inr (info, k') \<and> ks_ok k' \<and> same_node k k'
    \<and> info_ok (ks_prefix k) info \<and> ki_key info = copy_array 32 key"
proof (cases "m_get (ks_keyToInfo k) (copy_array 32 key)")
  case (Some info)
  have "ki_key info = copy_array 32 key \<and> info_ok (ks_prefix k) info"
    by (rule everyD [where P = "\<lambda>key i. ki_key i = key \<and> info_ok (ks_prefix k) i", OF _ Some])
      (use assms in \<open>simp add: ks_ok_def tables_ok_def\<close>)
  with Some assms resetTimeout_ok show ?thesis by (simp add: ks_update_def same_node_def)
next
  case None
  let ?K = "copy_array 32 key"
  obtain a s where as: "AddrForKey (ks_prefix k) ?K = Some a" "SubnetForKey (ks_prefix k) ?K = Some s"
    using AddrForKey_some [of ?K "ks_prefix k"] SubnetForKey_some [of ?K "ks_prefix k"] by simp
  define info where "info = \<lparr> ki_id = ks_fresh k, ki_key = ?K, ki_address = a, ki_subnet = s \<rparr>"
  define k1 where "k1 = k\<lparr> ks_fresh := ks_fresh k + 1, ks_keyToInfo := m_set (ks_keyToInfo k) ?K info,
      ks_addrToInfo := m_set (ks_addrToInfo k) a info, ks_subnetToInfo := m_set (ks_subnetToInfo k) s info,
      ks_addrBuffer := m_del (ks_addrBuffer k) a, ks_subnetBuffer := m_del (ks_subnetBuffer k) s \<rparr>"
  define packets where "packets = buffered (ks_addrBuffer k) a @ buffered (ks_subnetBuffer k) s"
  have info: "info_ok (ks_prefix k) info" using as by (simp add: info_ok_def info_def)
  have same: "same_node k k1" by (simp add: same_node_def k1_def)
  note cong = same_node_cong [OF this]
  have "ks_ok k1"
    using assms info unfolding ks_ok_def tables_ok_def buffers_ok_def cong by (simp add: k1_def info_def)
  then have k2: "ks_ok (ks_resetTimeout info k1)" by (simp only: resetTimeout_ok)
  have "own_packet k p \<and> owner (ks_prefix k) p ?K" if "p \<in> set packets" for p
  proof (cases "p \<in> set (buffered (ks_addrBuffer k) a)")
    case True
    have "own_packet k p \<and> dst_addr p = a"
      by (rule buffered_out [where P = "\<lambda>a p. own_packet k p \<and> dst_addr p = a", OF _ True])
        (use assms in \<open>simp add: ks_ok_def buffers_ok_def\<close>)
    then show ?thesis using as by (simp add: owner_def)
  next
    case False
    then have p: "p \<in> set (buffered (ks_subnetBuffer k) s)" using that by (simp add: packets_def)
    have "own_packet k p \<and> dst_subnet p = s"
      by (rule buffered_out [where P = "\<lambda>s p. own_packet k p \<and> dst_subnet p = s", OF _ p])
        (use assms in \<open>simp add: ks_ok_def buffers_ok_def\<close>)
    then show ?thesis using as by (simp add: owner_def)
  qed
  moreover have r: "same_node k (ks_resetTimeout info k1)" using same by (simp add: same_node_def)
  ultimately have "\<forall>out \<in> set (map (\<lambda>p. KsWrite p ?K) packets). out_ok (ks_resetTimeout info k1) out"
    using same_node_cong(2) [OF r] by (simp only: set_map ball_simps out_ok.simps) blast
  from emit_ok [OF k2 this]
  have "ks_ok (ks_emit (map (\<lambda>p. KsWrite p ?K) packets) (ks_resetTimeout info k1))" .
  moreover have "ks_update key k = Inr (info, ks_emit (map (\<lambda>p. KsWrite p ?K) packets) (ks_resetTimeout info k1))"
    by (simp add: ks_update_def Let_def None as packets_def k1_def info_def)
  ultimately show ?thesis using info r by (simp add: same_node_def) (simp add: info_def)
qed

lemma same_node_trans: "same_node k k' \<Longrightarrow> same_node k' k'' \<Longrightarrow> same_node k k''"
  by (simp add: same_node_def)

lemma send_same:
  "same_node k (sendToAddress a bs k)" "same_node k (sendToSubnet s bs k)"
proof -
  show "same_node k (sendToAddress a bs k)"
    by (cases "new_buffer (ks_addrBuffer k) a k") (auto simp: sendToAddress_def same_node_def ks_start_def ks_stop_def new_buffer_def split: option.splits)
  show "same_node k (sendToSubnet s bs k)"
    by (cases "new_buffer (ks_subnetBuffer k) s k") (auto simp: sendToSubnet_def same_node_def ks_start_def ks_stop_def new_buffer_def split: option.splits)
qed

lemma writePC_same: "same_node k (snd (writePC bs k))"
  using send_same [of k] by (simp add: writePC_def same_node_def)

lemma readPC_packet_ok:
  assumes "ks_ok k"
  shows "\<exists>got k'. readPC_packet marshal bs from k = Inr (got, k') \<and> ks_ok k' \<and> same_node k k'
    \<and> (\<forall>p. got = Some p \<longrightarrow> p = bs \<and> 40 \<le> length bs \<and> (dst_addr bs = ks_address k \<or> dst_subnet bs = ks_subnet k)
       \<and> (AddrForKey (ks_prefix k) (copy_array 32 from) = Some (src_addr bs) \<or> SubnetForKey (ks_prefix k) (copy_array 32 from) = Some (src_subnet bs)))"
proof -
  obtain info k' where up: "ks_update from k = Inr (info, k')" "ks_ok k'" "same_node k k'"
      "info_ok (ks_prefix k) info" "ki_key info = copy_array 32 from"
    using update_ok [OF assms, of "from"] by blast
  have refl: "same_node k k" by (simp add: same_node_def)
  show ?thesis
    using up assms refl writePC_ok [OF assms] writePC_same [of k]
    by (auto simp: readPC_packet_def info_ok_def Let_def not_less split: option.split)
qed

lemma step_ok: "ks_ok k \<Longrightarrow> ks_step marshal k k' \<Longrightarrow> ks_ok k'"
proof (erule ks_step.cases, goal_cases)
  case (2 bs sender k0 got k'')
  then show ?case using readPC_packet_ok [of k marshal bs sender] by auto
next
  case (3 key k0 info k'')
  then show ?case using update_ok [of k key] by auto
next
  case (4 i k0)
  then show ?case using ks_ok_cong [of k k'] by (simp add: same_node_def)
next
  case (5 i k0)
  then show ?case using expire_ok ks_ok_cong [of k "k\<lparr> ks_fired := take i (ks_fired k) @ drop (Suc i) (ks_fired k) \<rparr>"]
    by (simp add: same_node_def)
next
  case (6 k0 maxMTU mtu)
  then show ?case using ks_ok_cong [of k k'] by (simp add: same_node_def ks_SetMTU_def Let_def)
qed (simp add: writePC_ok)

lemma step_same: "ks_ok k \<Longrightarrow> ks_step marshal k k' \<Longrightarrow> same_node k k'"
proof (erule ks_step.cases, goal_cases)
  case (2 bs sender k0 got k'')
  then show ?case using readPC_packet_ok [of k marshal bs sender] by auto
next
  case (3 key k0 info k'')
  then show ?case using update_ok [of k key] by auto
next
  case (5 i k0)
  then show ?case by (cases "ks_fired k ! i") (simp_all add: same_node_def Let_def)
qed (simp_all add: writePC_same, simp_all add: same_node_def ks_SetMTU_def Let_def)

lemma init_ok: "keyStore_init prefix pub = Inr k \<Longrightarrow> ks_ok k"
  by (auto simp: keyStore_init_def ks_ok_def tables_ok_def buffers_ok_def split: option.splits)

interpretation ks_actor: actor_invariant "\<lambda>k. keyStore_init prefix pub = Inr k" "ks_step marshal"
    "\<lambda>k. ks_ok k \<and> ks_prefix k = prefix \<and> AddrForKey prefix pub = Some (ks_address k) \<and> SubnetForKey prefix pub = Some (ks_subnet k)"
  for prefix pub marshal
proof (unfold_locales, goal_cases)
  case (1 k)
  then show ?case using init_ok by (auto simp: keyStore_init_def split: option.splits)
next
  case (2 k k')
  then show ?case using step_ok step_same by (fastforce simp: same_node_def)
qed

subsection \<open>Properties\<close>

text \<open>
  C6. The bridge does not spoof and is not spoofed. In every reachable state, a packet it has handed to the
  network for a key has a source of this node, and its destination address or subnet is the one derived from
  that key; and a packet from the network reaches the host only if its destination is this node's and its
  source address or subnet is derived from the key of the sender. No packet makes it panic.
\<close>

theorem packets_match_keys:
  assumes "keyStore_init prefix pub = Inr k0" "(ks_step marshal)\<^sup>*\<^sup>* k0 k"
  shows "(\<forall>bs key. KsWrite bs key \<in> set (ks_out k) \<longrightarrow> own_packet k bs \<and> owner prefix bs key)
    \<and> (\<exists>got k'. readPC_packet marshal bs from k = Inr (got, k') \<and> (\<forall>p. got = Some p \<longrightarrow>
        p = bs \<and> 40 \<le> length bs \<and> (AddrForKey prefix pub = Some (dst_addr bs) \<or> SubnetForKey prefix pub = Some (dst_subnet bs))
        \<and> (AddrForKey prefix (copy_array 32 from) = Some (src_addr bs) \<or> SubnetForKey prefix (copy_array 32 from) = Some (src_subnet bs))))"
proof -
  have inv: "ks_ok k" "ks_prefix k = prefix" "AddrForKey prefix pub = Some (ks_address k)" "SubnetForKey prefix pub = Some (ks_subnet k)"
    using ks_actor.reachable_inv [OF assms] by simp_all
  have "\<forall>bs key. KsWrite bs key \<in> set (ks_out k) \<longrightarrow> own_packet k bs \<and> owner prefix bs key"
    using inv(1,2) by (fastforce simp: ks_ok_def)
  moreover have "\<exists>got k'. readPC_packet marshal bs from k = Inr (got, k') \<and> (\<forall>p. got = Some p \<longrightarrow>
        p = bs \<and> 40 \<le> length bs \<and> (AddrForKey prefix pub = Some (dst_addr bs) \<or> SubnetForKey prefix pub = Some (dst_subnet bs))
        \<and> (AddrForKey prefix (copy_array 32 from) = Some (src_addr bs) \<or> SubnetForKey prefix (copy_array 32 from) = Some (src_subnet bs)))"
    using readPC_packet_ok [OF inv(1), of marshal bs "from"] inv(2-4) by auto
  ultimately show ?thesis by blast
qed

definition sample_ip :: "bytes \<Rightarrow> bytes \<Rightarrow> bytes" where
  "sample_ip src dst = [0x60, 0, 0, 0, 0, 0, 59, 64] @ copy_array 16 src @ copy_array 16 dst"

lemma sample_init: "\<exists>k0. keyStore_init 2 (replicate 32 7) = Inr k0"
  using AddrForKey_some [of "replicate 32 7" 2] SubnetForKey_some [of "replicate 32 7" 2] by (simp add: keyStore_init_def)

theorem packets_match_keys_witness:
  "\<exists>k0 got k'. keyStore_init 2 (replicate 32 7) = Inr k0 \<and> readPC_packet (\<lambda>_ _ _ _. None) (sample_ip [] []) [1] k0 = Inr (got, k')
    \<and> (\<forall>p. got = Some p \<longrightarrow> p = sample_ip [] [])"
proof -
  obtain k0 where k0: "keyStore_init 2 (replicate 32 7) = Inr k0" using sample_init by blast
  have "(ks_step (\<lambda>_ _ _ _. None))\<^sup>*\<^sup>* k0 k0" by simp
  from packets_match_keys [OF k0 this, of "sample_ip [] []" "[1]"] k0 show ?thesis by blast
qed

lemma sendToAddress_unknown:
  assumes "m_get (ks_addrToInfo k) a = None"
  shows "same_node k (sendToAddress a bs k) \<and> ks_out (sendToAddress a bs k) = ks_out k @ [KsLookup (Address_GetKey a)]
    \<and> ks_keyToInfo (sendToAddress a bs k) = ks_keyToInfo k \<and> ks_subnetBuffer (sendToAddress a bs k) = ks_subnetBuffer k
    \<and> buffered (ks_addrBuffer (sendToAddress a bs k)) a = [bs]"
proof -
  obtain b k1 where nb: "new_buffer (ks_addrBuffer k) a k = (b, k1)" by (cases "new_buffer (ks_addrBuffer k) a k")
  obtain t k2 where st: "ks_start (ExpireAddr a (kb_id b)) (ks_stop (kb_timeout b) k1) = (t, k2)"
    by (cases "ks_start (ExpireAddr a (kb_id b)) (ks_stop (kb_timeout b) k1)")
  show ?thesis
    using buffer_timer_fields [OF nb st] send_same(1) [of k a bs]
    by (simp add: sendToAddress_def assms nb st buffered_def)
qed

text \<open>
  C25. The first packet to an unknown address is not lost: it is buffered, a lookup goes out for the partial
  key that the address spells out, which has the address and the subnet of the owner (the subnet is what the
  bloom filters of the network are keyed by), and when the network reports the owner's key, the
  packet is sent to it, once, followed only by the packet that waits for the owner's subnet, if one
  does. Nothing stays buffered for either, and the address is known from then on.
\<close>

theorem first_packet_finds_owner:
  assumes "length key = 32" "AddrForKey (ks_prefix k) key = Some (dst_addr bs)" "own_packet k bs"
    and "m_get (ks_addrToInfo k) (dst_addr bs) = None" "m_get (ks_keyToInfo k) key = None"
  shows "\<exists>k1 sn info k2. writePC bs k = (Inr (length bs), k1) \<and> ks_out k1 = ks_out k @ [KsLookup (Address_GetKey (dst_addr bs))]
    \<and> AddrForKey (ks_prefix k) (Address_GetKey (dst_addr bs)) = Some (dst_addr bs)
    \<and> SubnetForKey (ks_prefix k) (Address_GetKey (dst_addr bs)) = Some sn \<and> SubnetForKey (ks_prefix k) key = Some sn
    \<and> ks_update key k1 = Inr (info, k2) \<and> ki_key info = key
    \<and> ks_out k2 = ks_out k1 @ KsWrite bs key # map (\<lambda>p. KsWrite p key) (buffered (ks_subnetBuffer k) sn)
    \<and> m_get (ks_addrBuffer k2) (dst_addr bs) = None \<and> m_get (ks_subnetBuffer k2) sn = None
    \<and> m_get (ks_addrToInfo k2) (dst_addr bs) = Some info"
proof -
  let ?a = "dst_addr bs"
  define k1 where "k1 = sendToAddress ?a bs k"
  note s = sendToAddress_unknown [OF assms(4), of bs, folded k1_def]
  have valid: "Address_IsValid (ks_prefix k) ?a"
    using assms(1,2) addr_of_bits(2) [of "map (\<lambda>b. NOT b) key" "ks_prefix k"]
    by (simp only: Address_IsValid_def AddrForKey_some option.inject length_map)
  have len: "length bs \<noteq> 0" "\<not> length bs < 40" using assms(3) by (auto simp: own_packet_def)
  have w: "writePC bs k = (Inr (length bs), k1)"
    using assms(3) len valid by (auto simp: writePC_def k1_def own_packet_def)
  note partial = address_partial [OF assms(1,2)]
  obtain sn where sn: "SubnetForKey (ks_prefix k) key = Some sn" using SubnetForKey_some [OF assms(1)] by blast
  then have sub: "SubnetForKey (ks_prefix k) (Address_GetKey ?a) = Some sn" by (simp add: SubnetForKey_def partial assms(2))
  have K: "copy_array 32 key = key" using assms(1) by simp
  have pre: "ks_prefix k1 = ks_prefix k" using s by (simp add: same_node_def)
  have none: "m_get (ks_keyToInfo k1) key = None" using s assms(5) by simp
  obtain info k2 where "ks_update key k1 = Inr (info, k2)" "ki_key info = key"
      "ks_out k2 = ks_out k1 @ map (\<lambda>p. KsWrite p key) (buffered (ks_addrBuffer k1) ?a @ buffered (ks_subnetBuffer k1) sn)"
      "m_get (ks_addrBuffer k2) ?a = None" "m_get (ks_subnetBuffer k2) sn = None" "m_get (ks_addrToInfo k2) ?a = Some info"
    using assms(2) sn by (simp add: ks_update_def Let_def K none pre)
  then show ?thesis
    using w s partial sub sn by (intro exI [of _ k1] exI [of _ sn] exI [of _ info] exI [of _ k2]) simp
qed

theorem first_packet_finds_owner_witness:
  "\<exists>k a bs info k2. keyStore_init 2 (replicate 32 7) = Inr k \<and> AddrForKey 2 (replicate 32 9) = Some a
     \<and> bs = sample_ip (ks_address k) a
     \<and> ks_update (replicate 32 9) (snd (writePC bs k)) = Inr (info, k2)
     \<and> ks_out k2 = [KsLookup (Address_GetKey a), KsWrite bs (replicate 32 9)]"
proof -
  obtain k0 where k0: "keyStore_init 2 (replicate 32 7) = Inr k0" using sample_init by blast
  then have pre: "ks_prefix k0 = 2" "ks_addrToInfo k0 = []" "ks_keyToInfo k0 = []" "ks_out k0 = []" "ks_subnetBuffer k0 = []" "length (ks_address k0) = 16"
    using addr_of_bits(1) [of "map (\<lambda>b. NOT b) (replicate 32 7)" 2]
    by (auto simp: keyStore_init_def AddrForKey_some split: option.splits)
  obtain a where a: "AddrForKey 2 (replicate 32 9) = Some a" "length a = 16"
    using AddrForKey_some [of "replicate 32 9" 2] addr_of_bits(1) [of "map (\<lambda>b. NOT b) (replicate 32 9)" 2] by simp
  define bs where "bs = sample_ip (ks_address k0) a"
  have bs: "dst_addr bs = a" "own_packet k0 bs" using a(2) pre(6) by (simp_all add: bs_def sample_ip_def own_packet_def)
  have "length (replicate 32 (9 :: byte)) = 32" "AddrForKey (ks_prefix k0) (replicate 32 9) = Some (dst_addr bs)"
      "m_get (ks_addrToInfo k0) (dst_addr bs) = None" "m_get (ks_keyToInfo k0) (replicate 32 9) = None"
    using a bs pre by simp_all
  from first_packet_finds_owner [OF this(1,2) bs(2) this(3,4)] show ?thesis
    using k0 a(1) pre bs_def bs(1) by (auto simp: buffered_def)
qed

end
