(* ===== verification/Handshake.thy ===== *)
theory Handshake
  imports Crypto
begin

text \<open>
  \<^verbatim>\<open>src/core/version.go\<close>: the metadata two nodes exchange when a connection opens.
  \<^item> The keyed and the plain BLAKE2b-512 digest are the parameter \<open>blake2b\<close>; \<open>b2_keyed\<close> is \<open>None\<close> where
    \<open>blake2b.New512\<close> refuses the key. What the code relies on is \<open>b2_correct\<close>.
  \<^item> An \<open>io.Reader\<close> is the list of the bytes it will deliver.
\<close>

record blake2b =
  b2_keyed :: "bytes \<Rightarrow> bytes \<Rightarrow> bytes option"
  b2_sum :: "bytes \<Rightarrow> bytes"

definition b2_correct :: "blake2b \<Rightarrow> bool" where
  "b2_correct b2 \<longleftrightarrow> (\<forall>key msg. (b2_keyed b2 key msg = None \<longleftrightarrow> 64 < length key)
     \<and> (\<forall>h. b2_keyed b2 key msg = Some h \<longrightarrow> length h = 64)) \<and> (\<forall>msg. length (b2_sum b2 msg) = 64)"

record version_metadata =
  vm_majorVer :: u16
  vm_minorVer :: u16
  vm_publicKey :: bytes
  vm_priority :: byte
  vm_features :: u64
  vm_communityProof :: bytes
  vm_nodeInfo :: bytes

definition ProtocolVersionMajor :: u16 where "ProtocolVersionMajor = 0"
definition ProtocolVersionMinor :: u16 where "ProtocolVersionMinor = 5"
definition FeatureCommunity :: u64 where "FeatureCommunity = push_bit 0 1"

definition metaVersionMajor :: u16 where "metaVersionMajor = 0"
definition metaVersionMinor :: u16 where "metaVersionMinor = 1"
definition metaPublicKey :: u16 where "metaPublicKey = 2"
definition metaPriority :: u16 where "metaPriority = 3"
definition metaFeatures :: u16 where "metaFeatures = 4"
definition metaCommunityProof :: u16 where "metaCommunityProof = 5"
definition metaNodeInfo :: u16 where "metaNodeInfo = 6"

lemmas meta_defs = metaVersionMajor_def metaVersionMinor_def metaPublicKey_def metaPriority_def metaFeatures_def
  metaCommunityProof_def metaNodeInfo_def

datatype handshakeError =
    InvalidPreamble | InvalidLength | InvalidPassword | HashFailure | IncorrectPassword
  | CommunityRequired | CommunityMismatch | NodeInfoTooLong | ReadEOF | ReadUnexpectedEOF

definition zero_metadata :: version_metadata where
  "zero_metadata = \<lparr> vm_majorVer = 0, vm_minorVer = 0, vm_publicKey = [], vm_priority = 0, vm_features = 0,
     vm_communityProof = [], vm_nodeInfo = [] \<rparr>"

definition version_getBaseMetadata :: version_metadata where
  "version_getBaseMetadata = zero_metadata\<lparr> vm_majorVer := ProtocolVersionMajor, vm_minorVer := ProtocolVersionMinor \<rparr>"

subsection \<open>Community proofs\<close>

definition communityProofKey :: "blake2b \<Rightarrow> bytes \<Rightarrow> bytes" where
  "communityProofKey b2 community = (if length community \<le> 64 then community else b2_sum b2 community)"

definition newCommunityProof :: "blake2b \<Rightarrow> bytes \<Rightarrow> bytes \<Rightarrow> bytes option" where
  "newCommunityProof b2 community pubkey = b2_keyed b2 (communityProofKey b2 community) pubkey"

definition verifyCommunityProof :: "blake2b \<Rightarrow> bytes \<Rightarrow> bytes \<Rightarrow> bytes \<Rightarrow> bool" where
  "verifyCommunityProof b2 community proof pubkey =
     (case newCommunityProof b2 community pubkey of None \<Rightarrow> False | Some expected \<Rightarrow> expected = proof)"

subsection \<open>Encoding\<close>

definition encode_fields :: "version_metadata \<Rightarrow> bytes" where
  "encode_fields m =
     be_bytes 2 metaVersionMajor @ be_bytes 2 (2 :: u16) @ be_bytes 2 (vm_majorVer m)
     @ be_bytes 2 metaVersionMinor @ be_bytes 2 (2 :: u16) @ be_bytes 2 (vm_minorVer m)
     @ be_bytes 2 metaPublicKey @ be_bytes 2 (32 :: u16) @ vm_publicKey m
     @ be_bytes 2 metaPriority @ be_bytes 2 (1 :: u16) @ [vm_priority m]
     @ (if vm_features m \<noteq> 0 then be_bytes 2 metaFeatures @ be_bytes 2 (8 :: u16) @ be_bytes 8 (vm_features m) else [])
     @ (if 0 < length (vm_communityProof m)
        then be_bytes 2 metaCommunityProof @ be_bytes 2 (of_nat (length (vm_communityProof m)) :: u16) @ vm_communityProof m
        else [])
     @ (if 0 < length (vm_nodeInfo m)
        then be_bytes 2 metaNodeInfo @ be_bytes 2 (of_nat (length (vm_nodeInfo m)) :: u16) @ vm_nodeInfo m
        else [])"

definition meta_magic :: bytes where
  "meta_magic = [0x6d, 0x65, 0x74, 0x61]"

definition metadata_encode :: "ed25519 \<Rightarrow> blake2b \<Rightarrow> version_metadata \<Rightarrow> bytes \<Rightarrow> bytes \<Rightarrow> handshakeError + bytes" where
  "metadata_encode ed b2 m privateKey password =
     (if 16384 < length (vm_nodeInfo m) then Inl NodeInfoTooLong
      else case b2_keyed b2 password (vm_publicKey m) of
          None \<Rightarrow> Inl InvalidPassword
        | Some hash \<Rightarrow>
            if length (vm_publicKey m) \<noteq> 32 then Inl HashFailure
            else
              (let rest = encode_fields m @ ed_sign ed privateKey hash
               in Inr (meta_magic @ be_bytes 2 (of_nat (length rest) :: u16) @ rest)))"

subsection \<open>Decoding\<close>

definition decode_field :: "u16 \<Rightarrow> bytes \<Rightarrow> version_metadata \<Rightarrow> handshakeError + version_metadata" where
  "decode_field op field m =
     (if op = metaVersionMajor then
        (if length field \<noteq> 2 then Inl InvalidLength else Inr (m\<lparr> vm_majorVer := be_word field \<rparr>))
      else if op = metaVersionMinor then
        (if length field \<noteq> 2 then Inl InvalidLength else Inr (m\<lparr> vm_minorVer := be_word field \<rparr>))
      else if op = metaPublicKey then
        (if length field \<noteq> 32 then Inl InvalidLength else Inr (m\<lparr> vm_publicKey := field \<rparr>))
      else if op = metaPriority then
        (if length field \<noteq> 1 then Inl InvalidLength else Inr (m\<lparr> vm_priority := field ! 0 \<rparr>))
      else if op = metaFeatures then
        Inr (if 8 \<le> length field then m\<lparr> vm_features := be_word (take 8 field) \<rparr> else m)
      else if op = metaCommunityProof then Inr (m\<lparr> vm_communityProof := field \<rparr>)
      else if op = metaNodeInfo then
        (if 16384 < length field then Inl NodeInfoTooLong else Inr (m\<lparr> vm_nodeInfo := field \<rparr>))
      else Inr m)"

function decode_fields :: "bytes \<Rightarrow> version_metadata \<Rightarrow> handshakeError + version_metadata" where
  "decode_fields bs m =
     (if length bs < 4 then (if bs = [] then Inr m else Inl InvalidLength)
      else
        (let op = be_word (take 2 bs);
             oplen = unat (be_word (take 2 (drop 2 bs)) :: u16);
             bs1 = drop 4 bs
         in if length bs1 < oplen then Inl InvalidLength
            else case decode_field op (take oplen bs1) m of
                Inl e \<Rightarrow> Inl e
              | Inr m' \<Rightarrow> decode_fields (drop oplen bs1) m'))"
  by pat_completeness auto
termination
  by (relation "measure (\<lambda>(bs, _). length bs)") auto

declare decode_fields.simps [simp del]

text \<open>\<open>io.ReadFull\<close> of \<open>n\<close> bytes: what it read and what the reader still holds.\<close>

definition readFull :: "nat \<Rightarrow> bytes \<Rightarrow> handshakeError + bytes \<times> bytes" where
  "readFull n r = (if n \<le> length r then Inr (take n r, drop n r)
     else Inl (if r = [] then ReadEOF else ReadUnexpectedEOF))"

definition decodeTLV :: "bytes \<Rightarrow> version_metadata \<Rightarrow> handshakeError + bytes \<times> version_metadata \<times> bytes" where
  "decodeTLV r m =
     (case readFull 6 r of
        Inl e \<Rightarrow> Inl e
      | Inr (bh, r1) \<Rightarrow>
          if take 4 bh \<noteq> meta_magic then Inl InvalidPreamble
          else
            (let hl = (be_word (drop 4 bh) :: u16) in
             if hl < 64 then Inl InvalidLength
             else case readFull (unat hl) r1 of
                 Inl e \<Rightarrow> Inl e
               | Inr (bs, r2) \<Rightarrow>
                   (case decode_fields (take (length bs - 64) bs) m of
                      Inl e \<Rightarrow> Inl e
                    | Inr m' \<Rightarrow> Inr (drop (length bs - 64) bs, m', r2))))"

definition verifySignature :: "ed25519 \<Rightarrow> blake2b \<Rightarrow> version_metadata \<Rightarrow> bytes \<Rightarrow> bytes \<Rightarrow> handshakeError option" where
  "verifySignature ed b2 m sig password =
     (case b2_keyed b2 password (vm_publicKey m) of
        None \<Rightarrow> Some InvalidPassword
      | Some hash \<Rightarrow>
          if length (vm_publicKey m) \<noteq> 32 then Some HashFailure
          else if \<not> ed_verify ed (vm_publicKey m) hash sig then Some IncorrectPassword
          else None)"

definition metadata_decode :: "ed25519 \<Rightarrow> blake2b \<Rightarrow> bytes \<Rightarrow> bytes \<Rightarrow> version_metadata \<Rightarrow> handshakeError + version_metadata \<times> bytes" where
  "metadata_decode ed b2 r password m =
     (case decodeTLV r m of
        Inl e \<Rightarrow> Inl e
      | Inr (sig, m', r') \<Rightarrow>
          (case verifySignature ed b2 m' sig password of Some e \<Rightarrow> Inl e | None \<Rightarrow> Inr (m', r')))"

definition metadata_check :: "version_metadata \<Rightarrow> bool" where
  "metadata_check m \<longleftrightarrow> vm_majorVer m = ProtocolVersionMajor \<and> vm_minorVer m = ProtocolVersionMinor
     \<and> length (vm_publicKey m) = 32"

subsection \<open>Round trip\<close>

lemma be_word16 [simp]: "be_word (be_bytes 2 (w :: u16)) = w"
  by (rule be_word_be_bytes) simp

lemma be_word64 [simp]: "be_word (be_bytes 8 (w :: u64)) = w"
  by (rule be_word_be_bytes) simp

lemma unat16_of_nat: "n < 65536 \<Longrightarrow> unat (of_nat n :: u16) = n"
  by (simp add: unsigned_of_nat take_bit_nat_eq_self)

definition tlv :: "u16 \<Rightarrow> bytes \<Rightarrow> bytes" where
  "tlv op field = be_bytes 2 op @ be_bytes 2 (of_nat (length field) :: u16) @ field"

lemma decode_fields_tlv:
  assumes "length field < 65536"
  shows "decode_fields (tlv op field @ bs) m = (case decode_field op field m of Inl e \<Rightarrow> Inl e | Inr m' \<Rightarrow> decode_fields bs m')"
  unfolding tlv_def
  by (subst decode_fields.simps) (simp add: Let_def unat16_of_nat [OF assms] cong: sum.case_cong)

lemma decode_fields_Nil: "decode_fields [] m = Inr m"
  by (simp add: decode_fields.simps)

text \<open>Metadata a node sends: a key, a digest or no proof, and node information within its limit.\<close>

definition metadata_wf :: "version_metadata \<Rightarrow> bool" where
  "metadata_wf m \<longleftrightarrow> length (vm_publicKey m) = 32 \<and> length (vm_communityProof m) \<le> 64 \<and> length (vm_nodeInfo m) \<le> 16384"

lemma encode_fields_tlv:
  "length (vm_publicKey m) = 32 \<Longrightarrow> encode_fields m =
     tlv metaVersionMajor (be_bytes 2 (vm_majorVer m)) @ tlv metaVersionMinor (be_bytes 2 (vm_minorVer m))
     @ tlv metaPublicKey (vm_publicKey m) @ tlv metaPriority [vm_priority m]
     @ (if vm_features m \<noteq> 0 then tlv metaFeatures (be_bytes 8 (vm_features m)) else [])
     @ (if vm_communityProof m \<noteq> [] then tlv metaCommunityProof (vm_communityProof m) else [])
     @ (if vm_nodeInfo m \<noteq> [] then tlv metaNodeInfo (vm_nodeInfo m) else []) @ []"
  by (simp add: encode_fields_def tlv_def)

lemma decode_encode_fields:
  assumes "metadata_wf m"
  shows "decode_fields (encode_fields m) zero_metadata = Inr m"
proof -
  note len = assms [unfolded metadata_wf_def]
  have opt: "decode_fields ((if c then tlv op field else []) @ bs) m0 =
      (if c then (case decode_field op field m0 of Inl e \<Rightarrow> Inl e | Inr m' \<Rightarrow> decode_fields bs m') else decode_fields bs m0)"
    if "length field < 65536" for c op field bs m0
    using decode_fields_tlv [OF that] by simp
  show ?thesis
    unfolding encode_fields_tlv [OF conjunct1 [OF len]]
    using len by (simp add: decode_fields_tlv opt decode_fields_Nil decode_field_def meta_defs zero_metadata_def del: append_Nil2)
qed

lemma encode_fields_length:
  assumes "metadata_wf m"
  shows "length (encode_fields m) < 65536 - 64"
  using assms unfolding metadata_wf_def by (simp add: encode_fields_def)

lemma encode_TLV:
  assumes "ed_correct ed" "b2_correct b2" "metadata_wf m" "vm_publicKey m = ed_public ed privateKey" "length password \<le> 64"
  shows "\<exists>bs sig. metadata_encode ed b2 m privateKey password = Inr bs
    \<and> (\<forall>rest. decodeTLV (bs @ rest) zero_metadata = Inr (sig, m, rest)) \<and> verifySignature ed b2 m sig password = None"
proof -
  obtain hash where hash: "b2_keyed b2 password (vm_publicKey m) = Some hash"
    using assms(2,5) unfolding b2_correct_def by (metis linorder_not_less option.exhaust)
  define sig where "sig = ed_sign ed privateKey hash"
  have sig: "length sig = 64" "ed_verify ed (vm_publicKey m) hash sig"
    using assms(1,4) by (simp_all add: ed_correct_def sig_def)
  define body where "body = encode_fields m @ sig"
  have len: "length body < 65536" "64 \<le> length body" "length body - 64 = length (encode_fields m)"
    using encode_fields_length [OF assms(3)] sig(1) by (simp_all add: body_def)
  define bs where "bs = meta_magic @ be_bytes 2 (of_nat (length body) :: u16) @ body"
  have "metadata_encode ed b2 m privateKey password = Inr bs"
    using assms(3) hash by (simp add: metadata_encode_def metadata_wf_def bs_def body_def sig_def Let_def)
  moreover have "decodeTLV (bs @ rest) zero_metadata = Inr (sig, m, rest)" for rest
    using len decode_encode_fields [OF assms(3)]
    by (simp add: decodeTLV_def readFull_def bs_def meta_magic_def word_less_nat_alt unat16_of_nat Let_def)
      (simp add: body_def)
  moreover have "verifySignature ed b2 m sig password = None"
    using hash sig(2) assms(3) by (simp add: verifySignature_def metadata_wf_def)
  ultimately show ?thesis by blast
qed

text \<open>
  The handshake survives its encoding: whatever metadata a node may send, with a password BLAKE2b
  accepts, is encoded, and the receiver that has the same password and reads these bytes, followed by
  anything, decodes exactly this metadata and leaves exactly what followed. With a longer password nothing
  is sent.
\<close>

theorem metadata_roundtrip:
  assumes "ed_correct ed" "b2_correct b2" "metadata_wf m" "vm_publicKey m = ed_public ed privateKey"
  shows "if length password \<le> 64
    then \<exists>bs. metadata_encode ed b2 m privateKey password = Inr bs
       \<and> metadata_decode ed b2 (bs @ rest) password zero_metadata = Inr (m, rest)
    else metadata_encode ed b2 m privateKey password = Inl InvalidPassword"
proof (cases "length password \<le> 64")
  case True
  then show ?thesis using encode_TLV [OF assms True] by (auto simp: metadata_decode_def)
next
  case False
  then have "b2_keyed b2 password (vm_publicKey m) = None" using assms(2) by (simp add: b2_correct_def)
  then show ?thesis using False assms(3) by (simp add: metadata_encode_def metadata_wf_def)
qed

text \<open>The hypotheses can hold: a stand-in digest that keeps the key and the message.\<close>

definition sample_b2 :: blake2b where
  "sample_b2 = \<lparr> b2_keyed = (\<lambda>key msg. if 64 < length key then None else Some (copy_array 64 (key @ msg))),
     b2_sum = copy_array 64 \<rparr>"

lemma b2_correct_sample: "b2_correct sample_b2"
  by (simp add: b2_correct_def sample_b2_def)

definition sample_metadata :: version_metadata where
  "sample_metadata = version_getBaseMetadata\<lparr> vm_publicKey := ed_public sample_ed (replicate 64 9), vm_priority := 3,
     vm_features := FeatureCommunity, vm_communityProof := replicate 64 1, vm_nodeInfo := [0x7b, 0x7d] \<rparr>"

theorem metadata_roundtrip_witness:
  "ed_correct sample_ed \<and> b2_correct sample_b2 \<and> metadata_wf sample_metadata
   \<and> (\<exists>bs. metadata_encode sample_ed sample_b2 sample_metadata (replicate 64 9) [1, 2] = Inr bs
       \<and> metadata_decode sample_ed sample_b2 (bs @ [5]) [1, 2] zero_metadata = Inr (sample_metadata, [5]))"
proof -
  have wf: "metadata_wf sample_metadata"
    using ed_correct_sample by (simp add: metadata_wf_def sample_metadata_def ed_correct_def)
  have pub: "vm_publicKey sample_metadata = ed_public sample_ed (replicate 64 9)" by (simp add: sample_metadata_def)
  show ?thesis
    using ed_correct_sample b2_correct_sample wf
      metadata_roundtrip [OF ed_correct_sample b2_correct_sample wf pub, of "[1, 2]" "[5]"] by simp
qed

end
