(* ===== verification/Admission.thy ===== *)
theory Admission
  imports Handshake Address
begin

text \<open>
  \<^verbatim>\<open>src/core/link.go\<close>, \<open>handler\<close>: what a node sends when a connection opens, and how it decides, from
  what the other side sent, whether to hand the connection to the network. \<open>handler_hello\<close> is the
  part that builds our handshake, \<open>handler_admit\<close> the part that reads and judges the remote one, up to
  the call of \<open>HandleConn\<close>. Errors of the connection itself are those of the reader; logging is left out.
\<close>

datatype linkType = linkTypePersistent | linkTypeEphemeral | linkTypeIncoming
datatype communityMode = CommunityModeStrict | CommunityModeSoft
datatype communityStatus = CommunityOff | CommunityLegacy | CommunityStrict

record node_config =
  nc_secret :: bytes
  nc_public :: bytes
  nc_community :: bytes
  nc_communityMode :: communityMode
  nc_allowed :: "bytes list"
  nc_nodeInfo :: bytes

record linkOptions =
  lo_pinned :: "bytes list"
  lo_priority :: byte
  lo_password :: bytes

datatype admissionError =
    ProofFailed | Generate handshakeError | Handshake handshakeError | IncompatibleVersion | ErrLinkToSelf
  | NotPinned | NotAllowed

definition hello_metadata :: "node_config \<Rightarrow> linkOptions \<Rightarrow> version_metadata" where
  "hello_metadata nc opts = version_getBaseMetadata\<lparr> vm_publicKey := nc_public nc, vm_priority := lo_priority opts,
     vm_nodeInfo := nc_nodeInfo nc \<rparr>"

definition handler_metadata :: "blake2b \<Rightarrow> node_config \<Rightarrow> linkOptions \<Rightarrow> admissionError + version_metadata" where
  "handler_metadata b2 nc opts =
     (let m = hello_metadata nc opts in
      if 0 < length (nc_community nc) then
        (case newCommunityProof b2 (nc_community nc) (nc_public nc) of
           None \<Rightarrow> Inl ProofFailed
         | Some proof \<Rightarrow> Inr (m\<lparr> vm_features := vm_features m OR FeatureCommunity, vm_communityProof := proof \<rparr>))
      else Inr m)"

definition handler_hello :: "ed25519 \<Rightarrow> blake2b \<Rightarrow> node_config \<Rightarrow> linkOptions \<Rightarrow> admissionError + bytes" where
  "handler_hello ed b2 nc opts =
     (case handler_metadata b2 nc opts of
        Inl e \<Rightarrow> Inl e
      | Inr m \<Rightarrow>
          (case metadata_encode ed b2 m (nc_secret nc) (lo_password opts) of Inl e \<Rightarrow> Inl (Generate e) | Inr bs \<Rightarrow> Inr bs))"

definition check_community :: "blake2b \<Rightarrow> node_config \<Rightarrow> linkType \<Rightarrow> version_metadata \<Rightarrow> handshakeError + communityStatus" where
  "check_community b2 nc linkType m =
     (if 0 < length (nc_community nc) then
        (if vm_features m AND FeatureCommunity = 0 then
           (if nc_communityMode nc = CommunityModeSoft \<and> linkType \<noteq> linkTypeIncoming then Inr CommunityLegacy
            else Inl CommunityRequired)
         else if \<not> verifyCommunityProof b2 (nc_community nc) (vm_communityProof m) (vm_publicKey m) then Inl CommunityMismatch
         else Inr CommunityStrict)
      else Inr CommunityOff)"

record admission =
  ad_key :: bytes
  ad_priority :: byte
  ad_status :: communityStatus
  ad_nodeInfo :: bytes
  ad_rest :: bytes

definition handler_admit :: "ed25519 \<Rightarrow> blake2b \<Rightarrow> node_config \<Rightarrow> linkType \<Rightarrow> linkOptions \<Rightarrow> bool \<Rightarrow> bytes \<Rightarrow> admissionError + admission" where
  "handler_admit ed b2 nc linkType opts local conn =
     (case decodeTLV conn zero_metadata of
        Inl e \<Rightarrow> Inl (Handshake e)
      | Inr (sig, m, rest) \<Rightarrow>
          (case check_community b2 nc linkType m of
             Inl e \<Rightarrow> Inl (Handshake e)
           | Inr status \<Rightarrow>
               (case verifySignature ed b2 m sig (lo_password opts) of
                  Some e \<Rightarrow> Inl (Handshake e)
                | None \<Rightarrow>
                    if \<not> metadata_check m then Inl IncompatibleVersion
                    else if vm_publicKey m = nc_public nc then Inl ErrLinkToSelf
                    else if 0 < length (lo_pinned opts) \<and> copy_array 32 (vm_publicKey m) \<notin> set (lo_pinned opts) then Inl NotPinned
                    else if \<not> local \<and> linkType = linkTypeIncoming
                        \<and> \<not> (length (nc_allowed nc) = 0 \<or> (\<exists>k \<in> set (nc_allowed nc). k = vm_publicKey m)) then Inl NotAllowed
                    else Inr \<lparr> ad_key = vm_publicKey m,
                               ad_priority = (if lo_priority opts < vm_priority m then vm_priority m else lo_priority opts),
                               ad_status = status, ad_nodeInfo = vm_nodeInfo m, ad_rest = rest \<rparr>)))"

subsection \<open>Two nodes of the program\<close>

text \<open>What \<open>core.New\<close> and the options guarantee of a node.\<close>

definition node_ok :: "ed25519 \<Rightarrow> node_config \<Rightarrow> bool" where
  "node_ok ed nc \<longleftrightarrow> nc_public nc = ed_public ed (nc_secret nc) \<and> length (nc_nodeInfo nc) \<le> 16384"

text \<open>Whether \<open>nc\<close>, with its options for the link, wants a link with the key \<open>k\<close>.\<close>

definition wants_key :: "node_config \<Rightarrow> linkType \<Rightarrow> linkOptions \<Rightarrow> bool \<Rightarrow> bytes \<Rightarrow> bool" where
  "wants_key nc lt opts local k \<longleftrightarrow> k \<noteq> nc_public nc \<and> (lo_pinned opts = [] \<or> k \<in> set (lo_pinned opts))
     \<and> (local \<or> lt \<noteq> linkTypeIncoming \<or> nc_allowed nc = [] \<or> k \<in> set (nc_allowed nc))"

lemma handler_metadata_ok:
  assumes "b2_correct b2" "ed_correct ed" "node_ok ed nc"
  shows "\<exists>m. handler_metadata b2 nc opts = Inr m \<and> metadata_wf m \<and> vm_publicKey m = nc_public nc \<and> metadata_check m
    \<and> vm_priority m = lo_priority opts \<and> vm_nodeInfo m = nc_nodeInfo nc
    \<and> (if nc_community nc = [] then vm_features m = 0
       else vm_features m = 1 \<and> newCommunityProof b2 (nc_community nc) (nc_public nc) = Some (vm_communityProof m))"
proof -
  have pub: "length (nc_public nc) = 32" using assms by (simp add: ed_correct_def node_ok_def)
  have "length (communityProofKey b2 (nc_community nc)) \<le> 64"
    using assms(1) by (auto simp: communityProofKey_def b2_correct_def)
  then obtain pf where "newCommunityProof b2 (nc_community nc) (nc_public nc) = Some pf" "length pf = 64"
    using assms(1) unfolding newCommunityProof_def b2_correct_def by (metis linorder_not_less option.exhaust)
  then show ?thesis
    using pub assms(3)
    by (cases "nc_community nc = []") (simp_all add: handler_metadata_def hello_metadata_def metadata_wf_def metadata_check_def node_ok_def
        version_getBaseMetadata_def zero_metadata_def FeatureCommunity_def)
qed

text \<open>How \<open>receiver\<close> judges the handshake of \<open>sender\<close>.\<close>

lemma admit_hello:
  assumes "ed_correct ed" "b2_correct b2" "node_ok ed sender" "lo_password sopts = lo_password ropts" "length (lo_password ropts) \<le> 64"
  shows "\<exists>bs. handler_hello ed b2 sender sopts = Inr bs \<and> (\<forall>rest. handler_admit ed b2 receiver lt ropts local (bs @ rest) =
    (if nc_community receiver \<noteq> [] \<and> nc_community sender = [] \<and> \<not> (nc_communityMode receiver = CommunityModeSoft \<and> lt \<noteq> linkTypeIncoming)
     then Inl (Handshake CommunityRequired)
     else if nc_community receiver \<noteq> [] \<and> nc_community sender \<noteq> [] \<and>
        newCommunityProof b2 (nc_community receiver) (nc_public sender) \<noteq> newCommunityProof b2 (nc_community sender) (nc_public sender)
     then Inl (Handshake CommunityMismatch)
     else if nc_public sender = nc_public receiver then Inl ErrLinkToSelf
     else if lo_pinned ropts \<noteq> [] \<and> nc_public sender \<notin> set (lo_pinned ropts) then Inl NotPinned
     else if \<not> wants_key receiver lt ropts local (nc_public sender) then Inl NotAllowed
     else Inr \<lparr> ad_key = nc_public sender, ad_priority = max (lo_priority sopts) (lo_priority ropts),
       ad_status = (if nc_community receiver = [] then CommunityOff else if nc_community sender = [] then CommunityLegacy else CommunityStrict),
       ad_nodeInfo = nc_nodeInfo sender, ad_rest = rest \<rparr>))"
proof -
  obtain m where m: "handler_metadata b2 sender sopts = Inr m" "metadata_wf m" "vm_publicKey m = nc_public sender" "metadata_check m"
      "vm_priority m = lo_priority sopts" "vm_nodeInfo m = nc_nodeInfo sender"
      and comm: "if nc_community sender = [] then vm_features m = 0
       else vm_features m = 1 \<and> newCommunityProof b2 (nc_community sender) (nc_public sender) = Some (vm_communityProof m)"
    using handler_metadata_ok [OF assms(2,1,3), of sopts] by blast
  have pub: "vm_publicKey m = ed_public ed (nc_secret sender)" using m(3) assms(3) by (simp add: node_ok_def)
  have pw: "length (lo_password sopts) \<le> 64" using assms(4,5) by simp
  obtain bs sig where bs: "metadata_encode ed b2 m (nc_secret sender) (lo_password sopts) = Inr bs"
      "\<And>rest. decodeTLV (bs @ rest) zero_metadata = Inr (sig, m, rest)" "verifySignature ed b2 m sig (lo_password sopts) = None"
    using encode_TLV [OF assms(1,2) m(2) pub pw] by blast
  have copy: "copy_array 32 (nc_public sender) = nc_public sender" using m(2,3) by (simp add: metadata_wf_def)
  have "handler_hello ed b2 sender sopts = Inr bs" using m(1) bs(1) by (simp add: handler_hello_def)
  moreover have community: "check_community b2 receiver lt m =
      (if nc_community receiver \<noteq> [] \<and> nc_community sender = [] \<and> \<not> (nc_communityMode receiver = CommunityModeSoft \<and> lt \<noteq> linkTypeIncoming)
       then Inl CommunityRequired
       else if nc_community receiver \<noteq> [] \<and> nc_community sender \<noteq> [] \<and>
          newCommunityProof b2 (nc_community receiver) (nc_public sender) \<noteq> newCommunityProof b2 (nc_community sender) (nc_public sender)
       then Inl CommunityMismatch
       else Inr (if nc_community receiver = [] then CommunityOff else if nc_community sender = [] then CommunityLegacy else CommunityStrict))"
    using comm m(3) by (auto simp: check_community_def verifyCommunityProof_def FeatureCommunity_def split: option.splits)
  ultimately show ?thesis
    using bs(2,3) m(3-6) assms(4) copy
    by (intro exI [of _ bs]) (auto simp: handler_admit_def wants_key_def max_def not_less)
qed

subsection \<open>Properties\<close>

text \<open>
  C26. Two nodes that share password and community admit each other: if each wants the key of the other, both
  handshakes are sent and accepted, each side learns the true key and the node information of the
  other, both settle on the higher of the two priorities, and what follows the handshake on the connection is
  untouched.
\<close>

theorem nodes_meet:
  assumes "ed_correct ed" "b2_correct b2" "node_ok ed a" "node_ok ed b"
    and "lo_password aopts = lo_password bopts" "length (lo_password bopts) \<le> 64" "nc_community a = nc_community b"
    and "wants_key a alt aopts alocal (nc_public b)" "wants_key b blt bopts blocal (nc_public a)"
  shows "\<exists>ahello bhello a_sees b_sees. handler_hello ed b2 a aopts = Inr ahello \<and> handler_hello ed b2 b bopts = Inr bhello
    \<and> handler_admit ed b2 b blt bopts blocal (ahello @ arest) = Inr b_sees
    \<and> handler_admit ed b2 a alt aopts alocal (bhello @ brest) = Inr a_sees
    \<and> ad_key b_sees = nc_public a \<and> ad_key a_sees = nc_public b
    \<and> ad_nodeInfo b_sees = nc_nodeInfo a \<and> ad_nodeInfo a_sees = nc_nodeInfo b
    \<and> ad_priority a_sees = max (lo_priority aopts) (lo_priority bopts) \<and> ad_priority b_sees = ad_priority a_sees
    \<and> ad_status a_sees = ad_status b_sees
    \<and> ad_rest b_sees = arest \<and> ad_rest a_sees = brest"
proof -
  have pw: "length (lo_password aopts) \<le> 64" using assms(5,6) by simp
  obtain ahello where "handler_hello ed b2 a aopts = Inr ahello"
      "handler_admit ed b2 b blt bopts blocal (ahello @ arest) = Inr \<lparr> ad_key = nc_public a,
         ad_priority = max (lo_priority aopts) (lo_priority bopts),
         ad_status = (if nc_community b = [] then CommunityOff else CommunityStrict), ad_nodeInfo = nc_nodeInfo a, ad_rest = arest \<rparr>"
    using admit_hello [OF assms(1-3,5,6), of b blt blocal] assms(7,9) by (auto simp: wants_key_def)
  moreover obtain bhello where "handler_hello ed b2 b bopts = Inr bhello"
      "handler_admit ed b2 a alt aopts alocal (bhello @ brest) = Inr \<lparr> ad_key = nc_public b,
         ad_priority = max (lo_priority bopts) (lo_priority aopts),
         ad_status = (if nc_community a = [] then CommunityOff else CommunityStrict), ad_nodeInfo = nc_nodeInfo b, ad_rest = brest \<rparr>"
    using admit_hello [OF assms(1,2,4) assms(5) [symmetric] pw, of a alt alocal] assms(7,8) by (auto simp: wants_key_def)
  ultimately show ?thesis using assms(7) by (simp add: max.commute)
qed

definition sample_node :: "byte \<Rightarrow> node_config" where
  "sample_node b = \<lparr> nc_secret = replicate 64 b, nc_public = ed_public sample_ed (replicate 64 b), nc_community = [1, 2, 3],
     nc_communityMode = CommunityModeStrict, nc_allowed = [], nc_nodeInfo = [] \<rparr>"

definition sample_options :: linkOptions where
  "sample_options = \<lparr> lo_pinned = [], lo_priority = 3, lo_password = [7] \<rparr>"

theorem nodes_meet_witness:
  "node_ok sample_ed (sample_node 1) \<and> node_ok sample_ed (sample_node 2)
   \<and> (\<exists>ahello b_sees. handler_hello sample_ed sample_b2 (sample_node 1) (sample_options\<lparr> lo_priority := 4 \<rparr>) = Inr ahello
      \<and> handler_admit sample_ed sample_b2 (sample_node 2) linkTypeIncoming sample_options False (ahello @ [5]) = Inr b_sees
      \<and> ad_key b_sees = nc_public (sample_node 1) \<and> ad_priority b_sees = 4)"
proof -
  have ok: "node_ok sample_ed (sample_node b)" for b by (simp add: node_ok_def sample_node_def)
  have neq: "nc_public (sample_node 1) \<noteq> nc_public (sample_node 2)" by (simp add: sample_node_def sample_ed_def)
  have "length (lo_password sample_options) \<le> 64" "nc_community (sample_node 1) = nc_community (sample_node 2)"
      "wants_key (sample_node 1) linkTypePersistent (sample_options\<lparr> lo_priority := 4 \<rparr>) False (nc_public (sample_node 2))"
      "wants_key (sample_node 2) linkTypeIncoming sample_options False (nc_public (sample_node 1))"
    using neq by (auto simp: wants_key_def sample_options_def) (simp_all add: sample_node_def)
  moreover have "lo_password (sample_options\<lparr> lo_priority := 4 \<rparr>) = lo_password sample_options"
      "max (lo_priority (sample_options\<lparr> lo_priority := 4 \<rparr>)) (lo_priority sample_options) = 4" by (simp_all add: sample_options_def max_def)
  ultimately show ?thesis
    using nodes_meet [OF ed_correct_sample b2_correct_sample ok ok, of "sample_options\<lparr> lo_priority := 4 \<rparr>" sample_options 1 2
        linkTypePersistent False linkTypeIncoming False "[5]" "[]"] ok by metis
qed

lemma decodeTLV_preamble: "decodeTLV conn m0 = Inr (sig, m, rest) \<Longrightarrow> take 4 conn = map of_char ''meta''"
  by (auto simp: decodeTLV_def readFull_def meta_magic_def min_def Let_def split: if_splits sum.splits)



end
