(* ===== verification/Node.thy ===== *)
theory Node
  imports EncryptedConn KeyStore Admission
begin

text \<open>
  \<^verbatim>\<open>src/core/core.go\<close> and \<^verbatim>\<open>options.go\<close>: the node that ties the parts together. It sets up the encrypted connection
  with the transformation of keys for the bloom filters and separates traffic from its own protocol by the first
  byte of a message. What \<open>json.Marshal\<close> returns for the node information is an argument; the TLS configuration
  and the sockets are not modelled.
\<close>

subsection \<open>Set-up\<close>

text \<open>\<open>keyXform\<close> of \<open>New\<close>; it is only called on keys, for which \<open>SubnetForKey\<close> is not nil.\<close>

definition keyXform :: "byte \<Rightarrow> bytes \<Rightarrow> bytes" where
  "keyXform prefix key = (case SubnetForKey prefix key of None \<Rightarrow> [] | Some s \<Rightarrow> Subnet_GetKey s)"

definition core_options :: "byte \<Rightarrow> netOption list" where
  "core_options prefix = [WithBloomTransform (keyXform prefix), WithPeerMaxMessageSize (65535 * 2)]"

text \<open>
  The options that decide who may connect; \<open>Peer\<close> and \<open>ListenAddress\<close> start links, \<open>PeerFilter\<close> and
  \<open>OutboundSNIList\<close> concern the sockets, and what \<open>NodeInfo\<close> and \<open>NodeInfoPrivacy\<close> give is the argument of \<open>core_New\<close>.
\<close>

datatype setupOption = AllowedPublicKey bytes | Community bytes | OptCommunityMode string

definition applyOption :: "setupOption \<Rightarrow> node_config \<Rightarrow> string + node_config" where
  "applyOption opt c =
     (case opt of
        AllowedPublicKey v \<Rightarrow>
          Inr (if copy_array 32 v \<in> set (nc_allowed c) then c else c\<lparr> nc_allowed := nc_allowed c @ [copy_array 32 v] \<rparr>)
      | Community v \<Rightarrow> Inr (c\<lparr> nc_community := v \<rparr>)
      | OptCommunityMode v \<Rightarrow>
          if v = [] \<or> v = ''strict'' then Inr (c\<lparr> nc_communityMode := CommunityModeStrict \<rparr>)
          else if v = ''soft'' then Inr (c\<lparr> nc_communityMode := CommunityModeSoft \<rparr>)
          else Inl v)"

fun applyOptions :: "setupOption list \<Rightarrow> node_config \<Rightarrow> string + node_config" where
  "applyOptions [] c = Inr c"
| "applyOptions (opt # opts) c = (case applyOption opt c of Inl e \<Rightarrow> Inl e | Inr c1 \<Rightarrow> applyOptions opts c1)"

datatype newError = BadOption string | NoPrivateKey | WrongKeyLength | NodeInfoMarshal | NodeInfoTooLong

text \<open>\<open>_setNodeInfo\<close>, given what \<open>json.Marshal\<close> returns (\<open>None\<close> for an error).\<close>

definition setNodeInfo :: "bytes option \<Rightarrow> newError + bytes" where
  "setNodeInfo newjson =
     (case newjson of
        None \<Rightarrow> Inl NodeInfoMarshal
      | Some js \<Rightarrow> if 16384 < length js then Inl NodeInfoTooLong else Inr js)"

definition start_config :: node_config where
  "start_config = \<lparr> nc_secret = [], nc_public = [], nc_community = [], nc_communityMode = CommunityModeStrict, nc_allowed = [],
     nc_nodeInfo = [] \<rparr>"

text \<open>The checks and fields of \<open>New\<close>; \<open>cert\<close> is \<open>None\<close> when no ed25519 key was supplied.\<close>

definition core_New :: "ed25519 \<Rightarrow> (bytes \<Rightarrow> hashes) \<Rightarrow> byte \<Rightarrow> bytes option \<Rightarrow> setupOption list \<Rightarrow> bytes option \<Rightarrow> newError + (node_config \<times> env)" where
  "core_New ed hs prefix cert opts newjson =
     (case applyOptions opts start_config of
        Inl e \<Rightarrow> Inl (BadOption e)
      | Inr c \<Rightarrow>
          (case cert of
             None \<Rightarrow> Inl NoPrivateKey
           | Some secret \<Rightarrow>
               if length secret \<noteq> privateKeySize then Inl WrongKeyLength
               else (case setNodeInfo newjson of
                   Inl e \<Rightarrow> Inl e
                 | Inr js \<Rightarrow> Inr (c\<lparr> nc_secret := secret, nc_public := ed_public ed secret, nc_nodeInfo := js \<rparr>,
                     core_env ed hs secret (core_options prefix)))))"

subsection \<open>Traffic and protocol\<close>

definition typeSessionDummy :: byte where "typeSessionDummy = 0"
definition typeSessionTraffic :: byte where "typeSessionTraffic = 1"
definition typeSessionProto :: byte where "typeSessionProto = 2"

lemmas type_session = typeSessionDummy_def typeSessionTraffic_def typeSessionProto_def

definition core_MTU :: "config \<Rightarrow> u64 result" where
  "core_MTU cfg =
     and_then (enc_MTU cfg) (\<lambda>m. let mtu = m - 1 in Inr (if 65535 < mtu then 65535 else mtu))"

text \<open>
  \<open>ReadFrom\<close> on what the encrypted connection delivers in turn: the result, \<open>None\<close> while it waits, and the
  messages for the protocol handler. Data is read into a buffer of the size of the connection's MTU.
\<close>

fun core_ReadFrom :: "nat \<Rightarrow> bytes \<Rightarrow> (types_error + bytes \<times> edPub) list
    \<Rightarrow> (types_error + nat \<times> bytes \<times> edPub) option \<times> (edPub \<times> bytes) list" where
  "core_ReadFrom mtu p [] = (None, [])"
| "core_ReadFrom mtu p (Inl err # ins) = (Some (Inl err), [])"
| "core_ReadFrom mtu p (Inr (data, from) # ins) =
     (let bs = take mtu data in
      if length bs = 0 then core_ReadFrom mtu p ins
      else if bs ! 0 = typeSessionTraffic then
        (let rest = drop 1 bs; n = (if length p < length rest then length p else length rest)
         in (Some (Inr (n, take n rest @ drop n p, from)), []))
      else if bs ! 0 = typeSessionProto then
        (case core_ReadFrom mtu p ins of (r, protos) \<Rightarrow> (r, (from, drop 1 bs) # protos))
      else core_ReadFrom mtu p ins)"

definition core_WriteTo :: "config \<Rightarrow> session_env \<Rightarrow> int \<Rightarrow> bytes \<Rightarrow> net_addr \<Rightarrow> netManager \<Rightarrow> mgr_state \<Rightarrow> (nat \<times> mgr_state) result" where
  "core_WriteTo cfg e now p addr m s =
     and_then (enc_WriteTo cfg e now True (typeSessionTraffic # p) addr m s) (\<lambda>(n, s').
       Inr (if 0 < n then n - 1 else n, s'))"

subsection \<open>Well-formed nodes\<close>

definition config_ok :: "node_config \<Rightarrow> bool" where
  "config_ok c \<longleftrightarrow> (\<forall>k \<in> set (nc_allowed c). length k = 32) \<and> distinct (nc_allowed c)"

lemma applyOption_ok: "config_ok c \<Longrightarrow> applyOption opt c = Inr c' \<Longrightarrow> config_ok c'"
  by (cases opt) (auto simp: applyOption_def config_ok_def split: if_splits)

lemma applyOptions_ok: "config_ok c \<Longrightarrow> applyOptions opts c = Inr c' \<Longrightarrow> config_ok c'"
  by (induction opts arbitrary: c) (auto split: sum.splits intro: applyOption_ok)

text \<open>
  C21. \<open>New\<close> returns only well-formed nodes: the key pair of the handshakes is the one the network signs with and
  has its proper lengths, allowed keys are 32 bytes and distinct, the node information fits a handshake, and the
  network runs with the transformation of keys and the message size of the node.
\<close>

theorem new_node_well_formed:
  assumes "ed_correct ed" "core_New ed hs prefix cert opts newjson = Inr (c, E)"
  shows "node_ok ed c \<and> config_ok c \<and> length (nc_secret c) = 64 \<and> length (nc_public c) = 32
    \<and> key_bytes (self_key E) = nc_public c \<and> length (nc_nodeInfo c) \<le> 16384
    \<and> peerMaxMessageSize (env_config E) = 131070 \<and> bloomTransform (env_config E) = keyXform prefix"
proof -
  obtain c0 secret js where h: "applyOptions opts start_config = Inr c0" "length secret = 64" "length js \<le> 16384"
      "c = c0\<lparr> nc_secret := secret, nc_public := ed_public ed secret, nc_nodeInfo := js \<rparr>" "E = core_env ed hs secret (core_options prefix)"
    using assms(2) by (auto simp: core_New_def setNodeInfo_def privateKeySize_def not_less split: sum.splits option.splits if_splits)
  have "config_ok c0" using applyOptions_ok [OF _ h(1)] by (simp add: start_config_def config_ok_def)
  moreover have "length (ed_public ed secret) = 32" using assms(1) by (simp add: ed_correct_def)
  moreover have "key_bytes (crypto_publicKey (crypto_init ed secret)) = ed_public ed secret"
    using assms(1) h(2) by (simp add: crypto_init_def ed_correct_def key_bytes_be_word)
  ultimately show ?thesis using h(2-5) by (simp add: config_ok_def node_ok_def core_env_def core_options_def)
qed

theorem new_node_well_formed_witness:
  "\<exists>c E. core_New sample_ed (\<lambda>_. (1, 2, 3, 4)) 2 (Some (replicate 64 5)) [AllowedPublicKey [1, 2]] (Some [123, 125]) = Inr (c, E)
    \<and> nc_allowed c = [copy_array 32 [1, 2]] \<and> config_ok c"
proof -
  obtain c E where c: "core_New sample_ed (\<lambda>_. (1, 2, 3, 4)) 2 (Some (replicate 64 5)) [AllowedPublicKey [1, 2]] (Some [123, 125]) = Inr (c, E)"
      "nc_allowed c = [copy_array 32 [1, 2]]"
    by (simp add: core_New_def applyOption_def start_config_def privateKeySize_def setNodeInfo_def)
  then show ?thesis using new_node_well_formed [OF ed_correct_sample c(1)] by blast
qed

subsection \<open>Lookups by address\<close>

lemma keyXform_subnet: "SubnetForKey prefix key = SubnetForKey prefix key' \<Longrightarrow> keyXform prefix key = keyXform prefix key'"
  by (simp add: keyXform_def)

lemma partial_xform:
  assumes "length key = 32"
  shows "AddrForKey prefix key = Some a \<Longrightarrow> keyXform prefix (Address_GetKey a) = keyXform prefix key"
    "SubnetForKey prefix key = Some s \<Longrightarrow> keyXform prefix (Subnet_GetKey s) = keyXform prefix key"
proof -
  show "keyXform prefix (Address_GetKey a) = keyXform prefix key" if "AddrForKey prefix key = Some a"
    using address_partial [OF assms that] that by (intro keyXform_subnet) (simp add: SubnetForKey_def)
  show "keyXform prefix (Subnet_GetKey s) = keyXform prefix key" if "SubnetForKey prefix key = Some s"
    using subnet_partial [OF assms that] that by (intro keyXform_subnet) simp
qed

lemma length_fold_key_bits [simp]: "length (fold (\<lambda>idx. set_key_bit idx (f idx)) idxs key) = length key"
  by (induction idxs arbitrary: key) simp_all

lemma length_getKey_loop [simp]: "length (getKey_loop a off [16..<e] key) = length key"
  using getKey_loop_bits [of 16 a off e key] by simp

lemma GetKey_length: "length (Address_GetKey a) = 32" "length (Subnet_GetKey s) = 32"
  by (simp_all only: Subnet_GetKey_def Address_GetKey_def Let_def publicKeySize_def length_map length_getKey_loop length_fold_key_bits length_replicate)

text \<open>A key that stands for the address or the subnet of \<open>holder\<close> in a lookup.\<close>

definition stands_for :: "byte \<Rightarrow> publicKey \<Rightarrow> publicKey \<Rightarrow> bool" where
  "stands_for prefix partial holder \<longleftrightarrow>
     AddrForKey prefix (key_bytes holder) \<in> {Some a | a. partial = be_word (Address_GetKey a)}
     \<or> SubnetForKey prefix (key_bytes holder) \<in> {Some s | s. partial = be_word (Subnet_GetKey s)}"

lemma stands_for_xKey:
  assumes "bloomTransform (env_config E) = keyXform prefix" "stands_for prefix partial holder"
  shows "xKey E partial = xKey E holder"
proof -
  consider a where "AddrForKey prefix (key_bytes holder) = Some a" "partial = be_word (Address_GetKey a)"
    | s where "SubnetForKey prefix (key_bytes holder) = Some s" "partial = be_word (Subnet_GetKey s)"
    using assms(2) unfolding stands_for_def by blast
  then have "keyXform prefix (key_bytes partial) = keyXform prefix (key_bytes holder)"
    by cases (use partial_xform [of "key_bytes holder" prefix] in \<open>simp_all add: key_bytes_be_word GetKey_length\<close>)
  then show ?thesis using assms(1) by (simp add: xKey_def)
qed

lemma sendMulticast_xKey: "xKey E k = xKey E k' \<Longrightarrow> sendMulticast E pkt fromKey k r = sendMulticast E pkt fromKey k' r"
  by (simp add: sendMulticast_def multicast_entry_def multicast_wants_def)

lemma lookup_answered:
  assumes "xKey E (lookup_dest lk) = xKey E (self_key E)" "sendMulticast E (PathLookup lk) fromKey (lookup_dest lk) r = Inr r1"
  shows "\<exists>notify r2. pf_handleLookup d E now fromKey lk r = pf_handleNotify d E now notify r2
    \<and> notify_source notify = self_key E \<and> notify_dest notify = lookup_source lk \<and> notify_path notify = lookup_from lk"
proof -
  obtain notify r2 where n: "answer_notify E now lk r1 = (notify, r2)" by (cases "answer_notify E now lk r1")
  then have "notify_source notify = self_key E" "notify_dest notify = lookup_source lk" "notify_path notify = lookup_from lk"
    by (auto simp: answer_notify_def Let_def split: if_splits)
  moreover have "pf_handleLookup d E now fromKey lk r = pf_handleNotify d E now notify r2"
    using assms n by (simp add: pf_handleLookup_def)
  ultimately show ?thesis by blast
qed

lemma rumor_notify_accepted:
  assumes "router_inv E r" "m_has (rumors r) (xKey E (notify_source notify))" "m_get (paths r) (notify_source notify) = None"
    and "notify_dest notify = self_key E" "pathNotify_check (env_ed E) notify"
    and "fst (lookup E now (notify_path notify) (notify_watermark notify) r) = None"
  shows "\<exists>r'. handleNotify E now notify r = Inr r' \<and> router_inv E r'
    \<and> path_view r' (notify_source notify) = Some (nfo_path (notify_info notify), nfo_seq (notify_info notify))"
proof -
  let ?d = "pf_handleTraffic (Suc 1) E now"
  obtain r' where r': "handleNotify E now notify r = Inr r'" "router_inv E r'"
    using handleNotify_ok [OF assms(1), of now notify] unfolding pf_ok_def by blast
  obtain wm r1 where l: "lookup E now (notify_path notify) (notify_watermark notify) r = (None, wm, r1)"
    using assms(6) by (metis fst_conv prod_cases3)
  have same: "r_pathfinder r1 = r_pathfinder r"
    using lookup_pathfinder [of E now "notify_path notify" "notify_watermark notify" r] by (simp add: l)
  obtain rumor where rumor: "m_get (rumors r) (xKey E (notify_source notify)) = Some rumor" using assms(2) by blast
  have "\<exists>info s. accept_notify ?d notify info s = Inr r' \<and> (\<forall>tr. pi_traffic info = Some tr \<longrightarrow> tr_dest tr = notify_source notify)"
    using r'(1) l same rumor assms(3,4,5)
    by (auto simp: handleNotify_def pf_handleNotify_def numeral_2_eq_2 Let_def case_prod_beta split: option.splits if_splits)
  then show ?thesis using r' accept_notify_view [where key = "notify_source notify"] by fastforce
qed


definition address_env :: env where
  "address_env = core_env sample_ed (\<lambda>_. (1, 2, 3, 4)) (replicate 63 0 @ [9]) (core_options 2)"

lemma address_env_ok: "env_ok address_env" "bloomTransform (env_config address_env) = keyXform 2" "env_ed address_env = sample_ed"
  unfolding address_env_def by (rule env_ok_core) (simp_all add: ed_correct_sample core_options_def core_env_def)

text \<open>A router that has asked for the key \<open>k\<close>, and a notify that the node 5 has signed.\<close>

definition asked_pathfinder :: "publicKey \<Rightarrow> pathfinder" where
  "asked_pathfinder k = \<lparr> pf_info = \<lparr> nfo_seq = 0, nfo_path = [], nfo_sig = 0 \<rparr>, pf_paths = [],
     pf_rumors = [(k, \<lparr> rumor_traffic = None, rumor_sendTime = 0, rumor_timer = 9 \<rparr>)] \<rparr>"

definition signed_notify :: pathNotify where
  "signed_notify = (let info = \<lparr> nfo_seq = 7, nfo_path = [1, 2], nfo_sig = 0 \<rparr>
     in \<lparr> notify_path = [], notify_watermark = 0, notify_source = 5, notify_dest = self_key address_env,
          notify_info = info\<lparr> nfo_sig := be_word (copy_array 64 (key_bytes 5 @ rev (pathNotifyInfo_bytesForSig info))) \<rparr> \<rparr>)"

lemma signed_notify_ok: "pathNotify_check (env_ed address_env) signed_notify"
proof -
  have "pathNotifyInfo_bytesForSig (notify_info signed_notify) = pathNotifyInfo_bytesForSig \<lparr> nfo_seq = 7, nfo_path = [1, 2], nfo_sig = 0 \<rparr>"
    by (simp add: signed_notify_def pathNotifyInfo_bytesForSig_def Let_def)
  then show ?thesis
    by (simp add: pathNotify_check_def publicKey_verify_def address_env_ok(3) sample_ed_def)
      (simp add: signed_notify_def Let_def sig_bytes_be_word)
qed


subsection \<open>A message through both nodes\<close>

text \<open>
  The sizes of the node fit together: the MTU of a node is 65535, and a message up to it becomes, with its type
  byte and sealed by a session, a packet that the reading loop of the other node passes on uncut; the other
  node's \<open>ReadFrom\<close> then returns exactly the message.
\<close>

theorem node_message_uncut:
  assumes "crypto_ok e" "peerMaxMessageSize cfg = 131070" "length p \<le> 65535" "s_sendNonce info + 1 \<noteq> 0"
  shows "core_MTU cfg = Inr 65535 \<and> enc_MTU cfg = Inr 130914
    \<and> (\<exists>info' w' bs. info_doSend e (typeSessionTraffic # p) info w = Inr (info', w') \<and> w_out w' = w_out w @ [NetWrite bs (s_ed info)]
        \<and> nm_loop False (Inr (read_copy (replicate netBufferSize 0) \<lparr> tr_path = [], tr_from = [], tr_source = src, tr_dest = dest, tr_watermark = wm,
             tr_payload = bs \<rparr>)) m = (m, Some (src, bs)))
    \<and> (length p \<le> length buf \<longrightarrow> core_ReadFrom 130914 buf (Inr (typeSessionTraffic # p, src) # ins) = (Some (Inr (length p, p @ drop (length p) buf, src)), []))"
proof -
  define bs where "bs = packet (se_nacl e) (s_sendShared info) (s_localKeySeq info) (s_remoteKeySeq info) (s_sendNonce info + 1) (s_nextPub info) (typeSessionTraffic # p)"
  have "length bs \<le> 79 + length (typeSessionTraffic # p)" unfolding bs_def by (rule packet_length(1) [OF assms(1)])
  then have l: "length bs \<le> netBufferSize" using assms(3) by (simp add: netBufferSize_def)
  have "nm_loop False (Inr (read_copy (replicate netBufferSize 0) \<lparr> tr_path = [], tr_from = [], tr_source = src, tr_dest = dest, tr_watermark = wm,
             tr_payload = bs \<rparr>)) m = (m, Some (src, bs))"
    using l by (simp add: nm_loop_def read_copy_def Let_def)
  moreover have "core_ReadFrom 130914 buf (Inr (typeSessionTraffic # p, src) # ins) = (Some (Inr (length p, p @ drop (length p) buf, src)), [])" if "length p \<le> length buf"
    using assms(3) that by (simp add: Let_def)
  ultimately show ?thesis
    using doSend_est [OF assms(4), of e "typeSessionTraffic # p" w] assms(2) unfolding bs_def core_MTU_def enc_MTU_eq by fastforce
qed

theorem node_message_uncut_witness:
  "\<forall>m. \<exists>bs info' w'. info_doSend (sample_senv 3) [typeSessionTraffic, 42] sample_session sample_world = Inr (info', w')
    \<and> w_out w' = w_out sample_world @ [NetWrite bs 7]
    \<and> nm_loop False (Inr (read_copy (replicate netBufferSize 0) \<lparr> tr_path = [], tr_from = [], tr_source = 3, tr_dest = 7, tr_watermark = 0,
         tr_payload = bs \<rparr>)) m = (m, Some (3, bs))"
proof
  fix m
  have h: "peerMaxMessageSize (env_config address_env) = 131070" by (simp add: address_env_def core_env_def core_options_def)
  show "\<exists>bs info' w'. info_doSend (sample_senv 3) [typeSessionTraffic, 42] sample_session sample_world = Inr (info', w')
    \<and> w_out w' = w_out sample_world @ [NetWrite bs 7]
    \<and> nm_loop False (Inr (read_copy (replicate netBufferSize 0) \<lparr> tr_path = [], tr_from = [], tr_source = 3, tr_dest = 7, tr_watermark = 0,
         tr_payload = bs \<rparr>)) m = (m, Some (3, bs))"
    using node_message_uncut [OF _ h, of "sample_senv 3" "[42]" sample_session sample_world 3 7 0 m, THEN conjunct2, THEN conjunct2, THEN conjunct1]
    by (simp add: sample_own) blast
qed

end
