(* ===== verification/Proto.thy ===== *)
theory Proto
  imports Node
begin

text \<open>
  \<^verbatim>\<open>src/core/proto.go\<close> and \<^verbatim>\<open>nodeinfo.go\<close>: the requests that nodes ask each other (own state, peers, tree, node
  information), their answers, and the tables that pair an answer with the callback that waits for it.
  \<^item> The protocol handler and the node information are actors of their own; \<open>handleProto\<close> gives the message it sends
    to one of them.
  \<^item> A \<open>*reqInfo\<close> carries the number of its creation, which also stands for its callback and its timer. Calling a
    callback is an output. A fired timer may find its request replaced, and its closure may run after \<open>Stop\<close>.
  \<^item> What \<open>GetSelf\<close>, \<open>GetPeers\<close>, \<open>GetTree\<close> and \<open>MTU\<close> return when a request is handled is an argument, the record
    \<open>node_view\<close>. A listed peer that is not connected has a nil key.
\<close>

subsection \<open>Tables of pending callbacks\<close>

text \<open>
  The contract of a table in which a request stores an entry under its key, and later events settle it. All
  events an actor handles are of the type \<open>'e\<close>; the entry that is stored may depend on the state. \<open>good\<close> is an
  invariant of the states.
\<close>

locale answer_table =
  fixes act :: "'e \<Rightarrow> 's \<Rightarrow> 's" and slot :: "'s \<Rightarrow> 'k \<Rightarrow> 'v option"
    and asked :: "'e \<Rightarrow> 's \<Rightarrow> 'k \<Rightarrow> 'v option" and settles :: "'e \<Rightarrow> 'k \<Rightarrow> 'v \<Rightarrow> bool" and good :: "'s \<Rightarrow> bool"
  assumes good_act: "good s \<Longrightarrow> good (act e s)"
    and slot_act: "good s \<Longrightarrow> slot (act e s) k =
    (case asked e s k of Some v \<Rightarrow> Some v
     | None \<Rightarrow> (case slot s k of None \<Rightarrow> None | Some v \<Rightarrow> if settles e k v then None else Some v))"
begin

lemma good_run: "good s \<Longrightarrow> good (fold act evs s)"
  by (induction evs arbitrary: s) (simp_all add: good_act)

lemma slot_run:
  assumes "good s0" "slot s0 k = None"
  shows "slot (fold act evs s0) k = Some v \<longleftrightarrow>
    (\<exists>i < length evs. asked (evs ! i) (fold act (take i evs) s0) k = Some v
      \<and> (\<forall>j. i < j \<longrightarrow> j < length evs \<longrightarrow> asked (evs ! j) (fold act (take j evs) s0) k = None \<and> \<not> settles (evs ! j) k v))"
    (is "_ \<longleftrightarrow> ?waits evs")
proof (induction evs rule: rev_induct)
  case (snoc e evs)
  let ?s = "fold act evs s0"
  have old: "(\<exists>i < length evs. asked ((evs @ [e]) ! i) (fold act (take i (evs @ [e])) s0) k = Some v
      \<and> (\<forall>j. i < j \<longrightarrow> j < length (evs @ [e]) \<longrightarrow> asked ((evs @ [e]) ! j) (fold act (take j (evs @ [e])) s0) k = None \<and> \<not> settles ((evs @ [e]) ! j) k v))
    \<longleftrightarrow> ?waits evs \<and> asked e ?s k = None \<and> \<not> settles e k v"
    by (auto simp: nth_append less_Suc_eq all_conj_distrib)
  have new: "asked ((evs @ [e]) ! length evs) (fold act (take (length evs) (evs @ [e])) s0) k = asked e ?s k" by simp
  have "?waits (evs @ [e]) \<longleftrightarrow> asked e ?s k = Some v \<or> ?waits evs \<and> asked e ?s k = None \<and> \<not> settles e k v"
    unfolding old [symmetric] by (auto simp: less_Suc_eq ex_disj_distrib conj_disj_distribR new)
  then show ?case using snoc good_run [OF assms(1), of evs] by (auto simp: slot_act split: option.splits)
qed (simp add: assms(2))

end

text \<open>
  With answers: an event that answers a key calls the callback of its entry with what it carries and settles
  the entry. New entries get the next number.
\<close>

locale callback_table = answer_table +
  fixes calls :: "'s \<Rightarrow> (nat \<times> bytes) list" and answers :: "'e \<Rightarrow> ('k \<times> bytes) option"
    and number :: "'v \<Rightarrow> nat" and fresh :: "'s \<Rightarrow> nat"
  assumes calls_act: "good s \<Longrightarrow> calls (act e s) = calls s @
      (case answers e of None \<Rightarrow> [] | Some (k, bs) \<Rightarrow> (case slot s k of None \<Rightarrow> [] | Some v \<Rightarrow> [(number v, bs)]))"
    and answers_settle: "answers e = Some (k, bs) \<Longrightarrow> settles e k v \<and> asked e s k' = None"
    and asked_fresh: "asked e s k = Some v \<Longrightarrow> number v = fresh s \<and> fresh (act e s) = Suc (fresh s) \<and> (k' \<noteq> k \<longrightarrow> asked e s k' = None)"
    and fresh_mono: "fresh s \<le> fresh (act e s)"
begin

text \<open>Waiting entries have numbers of their own, which no call has used.\<close>

definition numbered :: "'s \<Rightarrow> bool" where
  "numbered s \<longleftrightarrow> good s \<and> distinct (map fst (calls s)) \<and> (\<forall>(n, bs) \<in> set (calls s). n < fresh s)
    \<and> (\<forall>k v. slot s k = Some v \<longrightarrow> number v < fresh s \<and> number v \<notin> fst ` set (calls s))
    \<and> (\<forall>k v k' v'. slot s k = Some v \<longrightarrow> slot s k' = Some v' \<longrightarrow> number v = number v' \<longrightarrow> k = k')"

lemma numbered_good: "numbered s \<Longrightarrow> good s"
  by (simp add: numbered_def)

lemma slot_kept: "good s \<Longrightarrow> slot (act e s) k = Some v \<Longrightarrow> asked e s k = Some v \<or> (slot s k = Some v \<and> \<not> settles e k v \<and> asked e s k = None)"
  by (simp add: slot_act split: option.splits if_splits)

lemma numbered_calls:
  assumes "numbered s"
  shows "distinct (map fst (calls (act e s)))" "\<forall>(n, bs) \<in> set (calls (act e s)). n < fresh (act e s)"
proof -
  have old: "n < fresh (act e s)" if "n < fresh s" for n using that fresh_mono [of s e] by simp
  show "distinct (map fst (calls (act e s)))"
    using assms unfolding numbered_def calls_act [OF numbered_good, OF assms(1)] by (auto split: option.splits)
  show "\<forall>(n, bs) \<in> set (calls (act e s)). n < fresh (act e s)"
    using assms old unfolding numbered_def calls_act [OF numbered_good, OF assms(1)] by (fastforce split: option.splits)
qed

lemma numbered_slot:
  assumes "numbered s" "slot (act e s) k = Some v"
  shows "number v < fresh (act e s)" "number v \<notin> fst ` set (calls (act e s))"
proof -
  consider "asked e s k = Some v" | "slot s k = Some v" "\<not> settles e k v" using slot_kept [OF numbered_good, OF assms(1,2)] by blast
  then show "number v < fresh (act e s)"
    using assms(1) asked_fresh [of e s k v] fresh_mono [of s e] unfolding numbered_def by cases fastforce+
  show "number v \<notin> fst ` set (calls (act e s))"
  proof (cases "answers e")
    case None
    then show ?thesis
      using slot_kept [OF numbered_good, OF assms(1,2)] asked_fresh [of e s k v] assms(1) unfolding numbered_def calls_act [OF numbered_good, OF assms(1)] by fastforce
  next
    case (Some a)
    then obtain k' bs where a: "answers e = Some (k', bs)" by (cases a) simp
    then have v: "slot s k = Some v" "k \<noteq> k'" using slot_kept [OF numbered_good, OF assms(1,2)] answers_settle [OF a] by fastforce+
    then have "number v \<notin> fst ` set (calls s)" "\<forall>v'. slot s k' = Some v' \<longrightarrow> number v \<noteq> number v'"
      using assms(1) unfolding numbered_def by metis+
    then show ?thesis using a by (cases "slot s k'") (simp_all add: calls_act [OF numbered_good, OF assms(1)])
  qed
qed

lemma numbered_inj:
  assumes "numbered s" "slot (act e s) k = Some v" "slot (act e s) k' = Some v'" "number v = number v'"
  shows "k = k'"
proof -
  have old: "number v < fresh s" if "slot s k = Some v" for k v using assms(1) that unfolding numbered_def by blast
  show ?thesis
  proof (cases "asked e s k = Some v \<or> asked e s k' = Some v'")
    case True
    then show ?thesis using slot_kept [OF numbered_good, OF assms(1,2)] slot_kept [OF numbered_good, OF assms(1,3)] asked_fresh old assms(4) by (metis less_irrefl option.distinct(1))
  next
    case False
    then have "slot s k = Some v" "slot s k' = Some v'" using slot_kept [OF numbered_good] assms(1-3) by blast+
    then show ?thesis using assms(1,4) unfolding numbered_def by blast
  qed
qed

lemma numbered_act:
  assumes "numbered s"
  shows "numbered (act e s)"
  using numbered_calls [OF assms, of e] numbered_slot [OF assms, of e] numbered_inj [OF assms, of e] good_act [OF numbered_good, OF assms, of e]
  unfolding numbered_def [of "act e s"] by blast

lemma numbered_run: "numbered s \<Longrightarrow> numbered (fold act evs s)"
  by (induction evs arbitrary: s) (simp_all add: numbered_act)

text \<open>The calls of a run: exactly the first answers to the requests that are still waiting.\<close>

lemma called_act: "good s \<Longrightarrow> (n, bs) \<in> set (calls (act e s)) \<longleftrightarrow> (n, bs) \<in> set (calls s)
    \<or> (\<exists>k v. answers e = Some (k, bs) \<and> slot s k = Some v \<and> number v = n)"
proof (cases "answers e")
  case (Some a)
  then show ?thesis if "good s" using that by (cases a; cases "slot s (fst a)") (auto simp: calls_act)
qed (simp add: calls_act)

lemma calls_run:
  assumes "good s0"
  shows "(n, bs) \<in> set (calls (fold act evs s0)) \<longleftrightarrow> (n, bs) \<in> set (calls s0)
    \<or> (\<exists>j < length evs. \<exists>k v. answers (evs ! j) = Some (k, bs) \<and> slot (fold act (take j evs) s0) k = Some v \<and> number v = n)"
proof (induction evs rule: rev_induct)
  case (snoc e evs)
  have "(\<exists>j < length (evs @ [e]). \<exists>k v. answers ((evs @ [e]) ! j) = Some (k, bs) \<and> slot (fold act (take j (evs @ [e])) s0) k = Some v \<and> number v = n)
    \<longleftrightarrow> (\<exists>j < length evs. \<exists>k v. answers (evs ! j) = Some (k, bs) \<and> slot (fold act (take j evs) s0) k = Some v \<and> number v = n)
      \<or> (\<exists>k v. answers e = Some (k, bs) \<and> slot (fold act evs s0) k = Some v \<and> number v = n)"
    by (auto simp: nth_append less_Suc_eq)
  then show ?case using snoc called_act [OF good_run, OF assms, of n bs e evs] by simp
qed simp

end

subsection \<open>The protocol handler\<close>

definition typeProtoDummy :: byte where "typeProtoDummy = 0"
definition typeProtoNodeInfoRequest :: byte where "typeProtoNodeInfoRequest = 1"
definition typeProtoNodeInfoResponse :: byte where "typeProtoNodeInfoResponse = 2"
definition typeProtoDebug :: byte where "typeProtoDebug = 255"

definition typeDebugDummy :: byte where "typeDebugDummy = 0"
definition typeDebugGetSelfRequest :: byte where "typeDebugGetSelfRequest = 1"
definition typeDebugGetSelfResponse :: byte where "typeDebugGetSelfResponse = 2"
definition typeDebugGetPeersRequest :: byte where "typeDebugGetPeersRequest = 3"
definition typeDebugGetPeersResponse :: byte where "typeDebugGetPeersResponse = 4"
definition typeDebugGetTreeRequest :: byte where "typeDebugGetTreeRequest = 5"
definition typeDebugGetTreeResponse :: byte where "typeDebugGetTreeResponse = 6"

lemmas proto_types = typeProtoDummy_def typeProtoNodeInfoRequest_def typeProtoNodeInfoResponse_def typeProtoDebug_def
  typeDebugDummy_def typeDebugGetSelfRequest_def typeDebugGetSelfResponse_def typeDebugGetPeersRequest_def
  typeDebugGetPeersResponse_def typeDebugGetTreeRequest_def typeDebugGetTreeResponse_def

type_synonym keyArray = publicKey

record reqInfo =
  ri_callback :: nat
  ri_timer :: nat

datatype protoOutput =
    ProtoWrite bytes keyArray
  | ProtoCall nat bytes
  | ProtoTimerStart nat int
  | ProtoTimerStop nat

record protoHandler =
  ph_selfRequests :: "(keyArray, reqInfo) gomap"
  ph_peersRequests :: "(keyArray, reqInfo) gomap"
  ph_treeRequests :: "(keyArray, reqInfo) gomap"
  ph_fresh :: nat
  ph_out :: "protoOutput list"

definition protoHandler_init :: protoHandler where
  "protoHandler_init = \<lparr> ph_selfRequests = [], ph_peersRequests = [], ph_treeRequests = [], ph_fresh = 0, ph_out = [] \<rparr>"

record node_view =
  nv_MTU :: u64
  nv_selfKey :: bytes
  nv_routingEntries :: u64
  nv_peers :: "bytes list"
  nv_tree :: "bytes list"

definition ph_emit :: "protoOutput list \<Rightarrow> protoHandler \<Rightarrow> protoHandler" where
  "ph_emit os p = p\<lparr> ph_out := ph_out p @ os \<rparr>"

definition sendDebug :: "keyArray \<Rightarrow> byte \<Rightarrow> bytes \<Rightarrow> protoHandler \<Rightarrow> protoHandler" where
  "sendDebug key dType data = ph_emit [ProtoWrite ([typeSessionProto, typeProtoDebug, dType] @ data) key]"

text \<open>\<open>new(reqInfo)\<close> with the callback and the timer of a minute.\<close>

definition new_req :: "protoHandler \<Rightarrow> reqInfo \<times> protoHandler" where
  "new_req p = (\<lparr> ri_callback = ph_fresh p, ri_timer = ph_fresh p \<rparr>,
     ph_emit [ProtoTimerStart (ph_fresh p) 60000000000] (p\<lparr> ph_fresh := Suc (ph_fresh p) \<rparr>))"

definition stop_req :: "reqInfo option \<Rightarrow> protoHandler \<Rightarrow> protoHandler" where
  "stop_req info p = (case info of None \<Rightarrow> p | Some i \<Rightarrow> ph_emit [ProtoTimerStop (ri_timer i)] p)"

definition sendGetSelfRequest :: "keyArray \<Rightarrow> protoHandler \<Rightarrow> protoHandler" where
  "sendGetSelfRequest key p =
     (let p1 = (stop_req (m_get (ph_selfRequests p) key) p)\<lparr> ph_selfRequests := m_del (ph_selfRequests p) key \<rparr>;
          (info, p2) = new_req p1;
          p3 = p2\<lparr> ph_selfRequests := m_set (ph_selfRequests p2) key info \<rparr>
      in sendDebug key typeDebugGetSelfRequest [] p3)"

definition sendGetPeersRequest :: "keyArray \<Rightarrow> protoHandler \<Rightarrow> protoHandler" where
  "sendGetPeersRequest key p =
     (let p1 = (stop_req (m_get (ph_peersRequests p) key) p)\<lparr> ph_peersRequests := m_del (ph_peersRequests p) key \<rparr>;
          (info, p2) = new_req p1;
          p3 = p2\<lparr> ph_peersRequests := m_set (ph_peersRequests p2) key info \<rparr>
      in sendDebug key typeDebugGetPeersRequest [] p3)"

definition sendGetTreeRequest :: "keyArray \<Rightarrow> protoHandler \<Rightarrow> protoHandler" where
  "sendGetTreeRequest key p =
     (let p1 = (stop_req (m_get (ph_treeRequests p) key) p)\<lparr> ph_treeRequests := m_del (ph_treeRequests p) key \<rparr>;
          (info, p2) = new_req p1;
          p3 = p2\<lparr> ph_treeRequests := m_set (ph_treeRequests p2) key info \<rparr>
      in sendDebug key typeDebugGetTreeRequest [] p3)"

text \<open>The closures of the timers; \<open>timer\<close> is the number of the request that armed it.\<close>

definition expireGetSelf :: "keyArray \<Rightarrow> nat \<Rightarrow> protoHandler \<Rightarrow> protoHandler" where
  "expireGetSelf key timer p =
     (if map_option ri_timer (m_get (ph_selfRequests p) key) = Some timer
      then p\<lparr> ph_selfRequests := m_del (ph_selfRequests p) key \<rparr> else p)"

definition expireGetPeers :: "keyArray \<Rightarrow> nat \<Rightarrow> protoHandler \<Rightarrow> protoHandler" where
  "expireGetPeers key timer p =
     (if map_option ri_timer (m_get (ph_peersRequests p) key) = Some timer
      then p\<lparr> ph_peersRequests := m_del (ph_peersRequests p) key \<rparr> else p)"

definition expireGetTree :: "keyArray \<Rightarrow> nat \<Rightarrow> protoHandler \<Rightarrow> protoHandler" where
  "expireGetTree key timer p =
     (if map_option ri_timer (m_get (ph_treeRequests p) key) = Some timer
      then p\<lparr> ph_treeRequests := m_del (ph_treeRequests p) key \<rparr> else p)"

text \<open>\<open>encoding/hex\<close>, decimal printing and the JSON object of two strings without special characters.\<close>

definition hex_digit :: "nat \<Rightarrow> char" where
  "hex_digit n = ''0123456789abcdef'' ! (n mod 16)"

definition hex_encode :: "bytes \<Rightarrow> string" where
  "hex_encode bs = concat (map (\<lambda>b. [hex_digit (unat b div 16), hex_digit (unat b mod 16)]) bs)"

fun decimal :: "nat \<Rightarrow> string" where
  "decimal n = (if n < 10 then [hex_digit n] else decimal (n div 10) @ [hex_digit (n mod 10)])"

definition quoted :: "string \<Rightarrow> string" where
  "quoted s = [CHR 0x22] @ s @ [CHR 0x22]"

definition ascii :: "string \<Rightarrow> bytes" where
  "ascii s = map of_char s"

definition self_json :: "bytes \<Rightarrow> u64 \<Rightarrow> bytes" where
  "self_json key entries = ascii (''{'' @ quoted ''key'' @ '':'' @ quoted (hex_encode key) @ '',''
     @ quoted ''routing_entries'' @ '':'' @ quoted (decimal (unat entries)) @ ''}'')"

definition handleGetSelfRequest :: "node_view \<Rightarrow> keyArray \<Rightarrow> protoHandler \<Rightarrow> protoHandler" where
  "handleGetSelfRequest v key = sendDebug key typeDebugGetSelfResponse (self_json (nv_selfKey v) (nv_routingEntries v))"

text \<open>The loop of the answers with keys, which stops before the first key that does not fit.\<close>

fun keys_within :: "u64 \<Rightarrow> bytes \<Rightarrow> bytes list \<Rightarrow> bytes" where
  "keys_within mtu bs [] = bs"
| "keys_within mtu bs (key # ks) =
     (let tmp = bs @ key in if mtu < of_nat (length tmp) + 2 then bs else keys_within mtu tmp ks)"

definition handleGetPeersRequest :: "node_view \<Rightarrow> keyArray \<Rightarrow> protoHandler \<Rightarrow> protoHandler" where
  "handleGetPeersRequest v key = sendDebug key typeDebugGetPeersResponse (keys_within (nv_MTU v) [] (nv_peers v))"

definition handleGetTreeRequest :: "node_view \<Rightarrow> keyArray \<Rightarrow> protoHandler \<Rightarrow> protoHandler" where
  "handleGetTreeRequest v key = sendDebug key typeDebugGetTreeResponse (keys_within (nv_MTU v) [] (nv_tree v))"

definition handleGetSelfResponse :: "keyArray \<Rightarrow> bytes \<Rightarrow> protoHandler \<Rightarrow> protoHandler" where
  "handleGetSelfResponse key bs p =
     (case m_get (ph_selfRequests p) key of
        None \<Rightarrow> p
      | Some info \<Rightarrow> (ph_emit [ProtoTimerStop (ri_timer info), ProtoCall (ri_callback info) bs] p)\<lparr> ph_selfRequests := m_del (ph_selfRequests p) key \<rparr>)"

definition handleGetPeersResponse :: "keyArray \<Rightarrow> bytes \<Rightarrow> protoHandler \<Rightarrow> protoHandler" where
  "handleGetPeersResponse key bs p =
     (case m_get (ph_peersRequests p) key of
        None \<Rightarrow> p
      | Some info \<Rightarrow> (ph_emit [ProtoTimerStop (ri_timer info), ProtoCall (ri_callback info) bs] p)\<lparr> ph_peersRequests := m_del (ph_peersRequests p) key \<rparr>)"

definition handleGetTreeResponse :: "keyArray \<Rightarrow> bytes \<Rightarrow> protoHandler \<Rightarrow> protoHandler" where
  "handleGetTreeResponse key bs p =
     (case m_get (ph_treeRequests p) key of
        None \<Rightarrow> p
      | Some info \<Rightarrow> (ph_emit [ProtoTimerStop (ri_timer info), ProtoCall (ri_callback info) bs] p)\<lparr> ph_treeRequests := m_del (ph_treeRequests p) key \<rparr>)"

definition handleDebug :: "node_view \<Rightarrow> keyArray \<Rightarrow> bytes \<Rightarrow> protoHandler \<Rightarrow> protoHandler" where
  "handleDebug v key bs p =
     (if length bs = 0 then p
      else if bs ! 0 = typeDebugDummy then p
      else if bs ! 0 = typeDebugGetSelfRequest then handleGetSelfRequest v key p
      else if bs ! 0 = typeDebugGetSelfResponse then handleGetSelfResponse key (drop 1 bs) p
      else if bs ! 0 = typeDebugGetPeersRequest then handleGetPeersRequest v key p
      else if bs ! 0 = typeDebugGetPeersResponse then handleGetPeersResponse key (drop 1 bs) p
      else if bs ! 0 = typeDebugGetTreeRequest then handleGetTreeRequest v key p
      else if bs ! 0 = typeDebugGetTreeResponse then handleGetTreeResponse key (drop 1 bs) p
      else p)"

subsection \<open>Node information\<close>

record nodeinfoCallback =
  cb_call :: nat
  cb_created :: int

datatype nodeinfoOutput = InfoWrite bytes keyArray | InfoCall nat bytes | NextCleanup int

record nodeinfo =
  ni_myNodeInfo :: bytes
  ni_callbacks :: "(keyArray, nodeinfoCallback) gomap"
  ni_fresh :: nat
  ni_out :: "nodeinfoOutput list"

definition ni_emit :: "nodeinfoOutput list \<Rightarrow> nodeinfo \<Rightarrow> nodeinfo" where
  "ni_emit os m = m\<lparr> ni_out := ni_out m @ os \<rparr>"

definition ni_cleanup :: "int \<Rightarrow> nodeinfo \<Rightarrow> nodeinfo" where
  "ni_cleanup now m = ni_emit [NextCleanup 30000000000]
     (m\<lparr> ni_callbacks := filter (\<lambda>(key, cb). \<not> 60000000000 < time_sub now (cb_created cb)) (ni_callbacks m) \<rparr>)"

definition nodeinfo_init :: "int \<Rightarrow> nodeinfo" where
  "nodeinfo_init now = ni_cleanup now \<lparr> ni_myNodeInfo = [], ni_callbacks = [], ni_fresh = 0, ni_out = [] \<rparr>"

definition addCallback :: "int \<Rightarrow> keyArray \<Rightarrow> nodeinfo \<Rightarrow> nodeinfo" where
  "addCallback now sender m =
     m\<lparr> ni_callbacks := m_set (ni_callbacks m) sender \<lparr> cb_call = ni_fresh m, cb_created = now \<rparr>, ni_fresh := Suc (ni_fresh m) \<rparr>"

definition ni_callback :: "keyArray \<Rightarrow> bytes \<Rightarrow> nodeinfo \<Rightarrow> nodeinfo" where
  "ni_callback sender info m =
     (case m_get (ni_callbacks m) sender of
        None \<Rightarrow> m
      | Some cb \<Rightarrow> (ni_emit [InfoCall (cb_call cb) info] m)\<lparr> ni_callbacks := m_del (ni_callbacks m) sender \<rparr>)"

definition ni_setNodeInfo :: "bytes option \<Rightarrow> nodeinfo \<Rightarrow> newError + nodeinfo" where
  "ni_setNodeInfo newjson m = (case setNodeInfo newjson of Inl e \<Rightarrow> Inl e | Inr js \<Rightarrow> Inr (m\<lparr> ni_myNodeInfo := js \<rparr>))"

definition ni_sendReq :: "bool \<Rightarrow> int \<Rightarrow> keyArray \<Rightarrow> nodeinfo \<Rightarrow> nodeinfo" where
  "ni_sendReq callback now key m =
     ni_emit [InfoWrite [typeSessionProto, typeProtoNodeInfoRequest] key] (if callback then addCallback now key m else m)"

definition ni_sendRes :: "keyArray \<Rightarrow> nodeinfo \<Rightarrow> nodeinfo" where
  "ni_sendRes key m = ni_emit [InfoWrite ([typeSessionProto, typeProtoNodeInfoResponse] @ ni_myNodeInfo m) key] m"

text \<open>\<open>handleProto\<close>: the message to one of the two actors.\<close>

datatype protoMessage = HandleReq keyArray | HandleRes keyArray bytes | HandleDebug keyArray bytes

definition handleProto :: "keyArray \<Rightarrow> bytes \<Rightarrow> protoMessage option" where
  "handleProto key bs =
     (if length bs = 0 then None
      else if bs ! 0 = typeProtoDummy then None
      else if bs ! 0 = typeProtoNodeInfoRequest then Some (HandleReq key)
      else if bs ! 0 = typeProtoNodeInfoResponse then Some (HandleRes key (drop 1 bs))
      else if bs ! 0 = typeProtoDebug then Some (HandleDebug key (drop 1 bs))
      else None)"

subsection \<open>Runs of the handler\<close>

datatype reqKind = GetSelf | GetPeers | GetTree

fun requests :: "reqKind \<Rightarrow> protoHandler \<Rightarrow> (keyArray, reqInfo) gomap" where
  "requests GetSelf p = ph_selfRequests p"
| "requests GetPeers p = ph_peersRequests p"
| "requests GetTree p = ph_treeRequests p"

fun response_type :: "reqKind \<Rightarrow> byte" where
  "response_type GetSelf = typeDebugGetSelfResponse"
| "response_type GetPeers = typeDebugGetPeersResponse"
| "response_type GetTree = typeDebugGetTreeResponse"

datatype protoEvent = SendRequest reqKind keyArray | RunDebug node_view keyArray bytes | TimerFired reqKind keyArray nat

fun proto_act :: "protoEvent \<Rightarrow> protoHandler \<Rightarrow> protoHandler" where
  "proto_act (SendRequest GetSelf key) = sendGetSelfRequest key"
| "proto_act (SendRequest GetPeers key) = sendGetPeersRequest key"
| "proto_act (SendRequest GetTree key) = sendGetTreeRequest key"
| "proto_act (RunDebug v key bs) = handleDebug v key bs"
| "proto_act (TimerFired GetSelf key timer) = expireGetSelf key timer"
| "proto_act (TimerFired GetPeers key timer) = expireGetPeers key timer"
| "proto_act (TimerFired GetTree key timer) = expireGetTree key timer"

definition proto_calls :: "protoHandler \<Rightarrow> (nat \<times> bytes) list" where
  "proto_calls p = concat (map (\<lambda>out. case out of ProtoCall n bs \<Rightarrow> [(n, bs)] | _ \<Rightarrow> []) (ph_out p))"

definition response :: "bytes \<Rightarrow> (reqKind \<times> bytes) option" where
  "response bs =
     (if bs = [] then None
      else if bs ! 0 = typeDebugGetSelfResponse then Some (GetSelf, drop 1 bs)
      else if bs ! 0 = typeDebugGetPeersResponse then Some (GetPeers, drop 1 bs)
      else if bs ! 0 = typeDebugGetTreeResponse then Some (GetTree, drop 1 bs)
      else None)"

definition proto_slot :: "protoHandler \<Rightarrow> reqKind \<times> keyArray \<Rightarrow> reqInfo option" where
  "proto_slot p k = m_get (requests (fst k) p) (snd k)"

fun proto_asked :: "protoEvent \<Rightarrow> protoHandler \<Rightarrow> reqKind \<times> keyArray \<Rightarrow> reqInfo option" where
  "proto_asked (SendRequest kind key) p k = (if k = (kind, key) then Some \<lparr> ri_callback = ph_fresh p, ri_timer = ph_fresh p \<rparr> else None)"
| "proto_asked _ p k = None"

fun proto_answers :: "protoEvent \<Rightarrow> ((reqKind \<times> keyArray) \<times> bytes) option" where
  "proto_answers (RunDebug v key bs) = map_option (\<lambda>(kind, data). ((kind, key), data)) (response bs)"
| "proto_answers _ = None"

fun proto_settles :: "protoEvent \<Rightarrow> reqKind \<times> keyArray \<Rightarrow> reqInfo \<Rightarrow> bool" where
  "proto_settles (RunDebug v key bs) k info = (map_option (\<lambda>(kind, data). (kind, key)) (response bs) = Some k)"
| "proto_settles (TimerFired kind key timer) k info = (k = (kind, key) \<and> ri_timer info = timer)"
| "proto_settles _ k info = False"

lemmas send_requests = sendGetSelfRequest_def sendGetPeersRequest_def sendGetTreeRequest_def
lemmas expire_requests = expireGetSelf_def expireGetPeers_def expireGetTree_def
lemmas handle_requests = handleGetSelfRequest_def handleGetPeersRequest_def handleGetTreeRequest_def
lemmas handle_responses = handleGetSelfResponse_def handleGetPeersResponse_def handleGetTreeResponse_def

text \<open>What an event does, stated once for the three tables.\<close>

fun set_requests :: "reqKind \<Rightarrow> (keyArray, reqInfo) gomap \<Rightarrow> protoHandler \<Rightarrow> protoHandler" where
  "set_requests GetSelf m p = p\<lparr> ph_selfRequests := m \<rparr>"
| "set_requests GetPeers m p = p\<lparr> ph_peersRequests := m \<rparr>"
| "set_requests GetTree m p = p\<lparr> ph_treeRequests := m \<rparr>"

lemma requests_set [simp]: "requests kind' (set_requests kind m p) = (if kind' = kind then m else requests kind' p)"
  by (cases kind; cases kind') simp_all

lemma set_requests_fields [simp]: "ph_fresh (set_requests kind m p) = ph_fresh p" "ph_out (set_requests kind m p) = ph_out p"
    "proto_calls (set_requests kind m p) = proto_calls p"
  by (cases kind; simp add: proto_calls_def)+

lemma ph_emit_fields [simp]:
  "requests kind (ph_emit os p) = requests kind p" "ph_fresh (ph_emit os p) = ph_fresh p" "ph_out (ph_emit os p) = ph_out p @ os"
  by (cases kind; simp add: ph_emit_def)+

definition call_of :: "protoOutput \<Rightarrow> (nat \<times> bytes) list" where
  "call_of out = (case out of ProtoCall n bs \<Rightarrow> [(n, bs)] | _ \<Rightarrow> [])"

lemma call_of_simps [simp]: "call_of (ProtoCall n bs) = [(n, bs)]" "call_of (ProtoWrite w key) = []"
    "call_of (ProtoTimerStart t d) = []" "call_of (ProtoTimerStop t) = []"
  by (simp_all add: call_of_def)

lemma proto_calls_emit [simp]: "proto_calls (ph_emit os p) = proto_calls p @ concat (map call_of os)"
  by (simp add: proto_calls_def call_of_def [abs_def])

lemma send_request_eq: "\<exists>w os. proto_act (SendRequest kind key) p =
    ph_emit [w] (set_requests kind (m_set (m_del (requests kind p) key) key \<lparr> ri_callback = ph_fresh p, ri_timer = ph_fresh p \<rparr>)
      ((ph_emit os p)\<lparr> ph_fresh := Suc (ph_fresh p) \<rparr>)) \<and> call_of w = [] \<and> concat (map call_of os) = []"
proof -
  let ?os = "(case m_get (requests kind p) key of None \<Rightarrow> [] | Some i \<Rightarrow> [ProtoTimerStop (ri_timer i)]) @ [ProtoTimerStart (ph_fresh p) 60000000000]"
  let ?ty = "case kind of GetSelf \<Rightarrow> typeDebugGetSelfRequest | GetPeers \<Rightarrow> typeDebugGetPeersRequest | GetTree \<Rightarrow> typeDebugGetTreeRequest"
  have "proto_act (SendRequest kind key) p =
    ph_emit [ProtoWrite [typeSessionProto, typeProtoDebug, ?ty] key] (set_requests kind (m_set (m_del (requests kind p) key) key \<lparr> ri_callback = ph_fresh p, ri_timer = ph_fresh p \<rparr>)
      ((ph_emit ?os p)\<lparr> ph_fresh := Suc (ph_fresh p) \<rparr>))"
    by (cases kind; cases "m_get (requests kind p) key") (simp_all add: send_requests stop_req_def new_req_def sendDebug_def ph_emit_def Let_def)
  moreover have "concat (map call_of ?os) = []" by (cases "m_get (requests kind p) key") simp_all
  ultimately show ?thesis using call_of_simps(2) by blast
qed

lemma fire_request_eq: "proto_act (TimerFired kind key timer) p =
    (if map_option ri_timer (m_get (requests kind p) key) = Some timer then set_requests kind (m_del (requests kind p) key) p else p)"
  by (cases kind) (simp_all only: proto_act.simps expire_requests requests.simps set_requests.simps)

lemma response_iff: "response bs = Some (kind, data) \<longleftrightarrow> bs = response_type kind # data"
proof (cases bs)
  case (Cons b rest)
  then show ?thesis by (cases kind) (simp_all add: response_def proto_types eq_commute [of rest data])
qed (simp add: response_def)

lemma response_run: "response bs = Some (kind, data) \<Longrightarrow> handleDebug v key bs p =
    (case m_get (requests kind p) key of
       None \<Rightarrow> p
     | Some info \<Rightarrow> set_requests kind (m_del (requests kind p) key) (ph_emit [ProtoTimerStop (ri_timer info), ProtoCall (ri_callback info) data] p))"
  unfolding response_iff
  by (cases kind) (simp_all add: handleDebug_def handle_responses proto_types split: option.split)

lemma other_run: "response bs = None \<Longrightarrow> \<exists>os. handleDebug v key bs p = ph_emit os p \<and> concat (map call_of os) = []"
proof -
  assume r: "response bs = None"
  have "\<exists>w. handleDebug v key bs p = p \<or> handleDebug v key bs p = ph_emit [w] p \<and> call_of w = []"
    using r by (auto simp: response_def handleDebug_def handle_requests sendDebug_def split: if_splits)
  moreover have "p = ph_emit [] p" by (simp add: ph_emit_def)
  ultimately show ?thesis by (metis append_Nil2 concat.simps list.simps(8,9))
qed

lemma ph_fresh_upd [simp]: "requests kind (p\<lparr> ph_fresh := n \<rparr>) = requests kind p" "proto_calls (p\<lparr> ph_fresh := n \<rparr>) = proto_calls p"
  by (cases kind; simp add: proto_calls_def)+

lemma proto_slot_act: "proto_slot (proto_act e p) k =
    (case proto_asked e p k of Some v \<Rightarrow> Some v
     | None \<Rightarrow> (case proto_slot p k of None \<Rightarrow> None | Some v \<Rightarrow> if proto_settles e k v then None else Some v))"
proof (cases e)
  case (SendRequest kind key)
  then show ?thesis using send_request_eq [of kind key p] by (cases k) (auto simp: proto_slot_def split: option.split)
next
  case (RunDebug v key bs)
  show ?thesis
  proof (cases "response bs")
    case None
    then show ?thesis using other_run [of bs v key p] RunDebug by (auto simp: proto_slot_def split: option.split)
  next
    case (Some a)
    then show ?thesis using RunDebug response_run [of bs "fst a" "snd a" v key p]
      by (cases a; cases k) (auto simp: proto_slot_def split: option.splits)
  qed
next
  case (TimerFired kind key timer)
  then show ?thesis by (cases k) (auto simp: proto_slot_def fire_request_eq split: option.split)
qed

lemma proto_fresh_act: "ph_fresh (proto_act e p) = (case e of SendRequest kind key \<Rightarrow> Suc (ph_fresh p) | _ \<Rightarrow> ph_fresh p)"
proof (cases e)
  case (SendRequest kind key)
  then show ?thesis using send_request_eq [of kind key p] by auto
next
  case (RunDebug v key bs)
  then show ?thesis using other_run [of bs v key p] response_run [of bs _ _ v key p]
    by (cases "response bs") (auto split: option.splits)
qed (simp add: fire_request_eq)

lemma proto_calls_act: "proto_calls (proto_act e p) = proto_calls p @
    (case proto_answers e of None \<Rightarrow> [] | Some (k, bs) \<Rightarrow> (case proto_slot p k of None \<Rightarrow> [] | Some v \<Rightarrow> [(ri_callback v, bs)]))"
proof (cases e)
  case (SendRequest kind key)
  then show ?thesis using send_request_eq [of kind key p] by auto
next
  case (RunDebug v key bs)
  then show ?thesis using other_run [of bs v key p] response_run [of bs _ _ v key p]
    by (cases "response bs") (auto simp: proto_slot_def split: option.splits)
qed (simp add: fire_request_eq)

interpretation req: callback_table proto_act proto_slot proto_asked proto_settles "\<lambda>_. True" proto_calls proto_answers ri_callback ph_fresh
proof
  show "proto_answers e = Some (k, bs) \<Longrightarrow> proto_settles e k v \<and> proto_asked e s k' = None" for e k bs v s k'
    by (cases e) auto
  show "proto_asked e s k = Some v \<Longrightarrow> ri_callback v = ph_fresh s \<and> ph_fresh (proto_act e s) = Suc (ph_fresh s) \<and> (k' \<noteq> k \<longrightarrow> proto_asked e s k' = None)" for e s k v k'
    by (cases e) (auto simp: proto_fresh_act split: if_splits)
qed (simp_all add: proto_slot_act proto_calls_act proto_fresh_act split: protoEvent.split)

subsection \<open>Callbacks\<close>

fun is_request :: "protoEvent \<Rightarrow> bool" where
  "is_request (SendRequest kind key) = True"
| "is_request _ = False"

text \<open>The number of the request at position \<open>i\<close> of a run: how many came before it.\<close>

definition request_number :: "protoEvent list \<Rightarrow> nat \<Rightarrow> nat" where
  "request_number evs i = length (filter is_request (take i evs))"

lemma fresh_run: "ph_fresh (fold proto_act evs p) = ph_fresh p + length (filter is_request evs)"
  by (induction evs arbitrary: p) (auto simp: proto_fresh_act split: protoEvent.split)

lemma proto_init [simp]: "proto_slot protoHandler_init k = None" "proto_calls protoHandler_init = []" "ph_fresh protoHandler_init = 0"
  by (cases k; cases "fst k"; simp add: proto_slot_def protoHandler_init_def proto_calls_def)+

lemma asked_eq: "proto_asked e p k = Some info \<longleftrightarrow> e = SendRequest (fst k) (snd k) \<and> info = \<lparr> ri_callback = ph_fresh p, ri_timer = ph_fresh p \<rparr>"
  by (cases e; cases k) auto

lemma asked_none: "proto_asked e p (kind, key) = None \<longleftrightarrow> e \<noteq> SendRequest kind key"
  by (cases e) auto

lemma settles_iff: "proto_settles e (kind, key) info \<longleftrightarrow>
    (\<exists>v bs. e = RunDebug v key (response_type kind # bs)) \<or> e = TimerFired kind key (ri_timer info)"
  by (cases e) (auto simp: response_iff)

lemma answers_iff: "proto_answers e = Some ((kind, key), bs) \<longleftrightarrow> (\<exists>v. e = RunDebug v key (response_type kind # bs))"
  by (cases e) (auto simp: response_iff)

text \<open>Between \<open>i\<close> and \<open>j\<close> nothing replaces, expires or answers the request number \<open>n\<close>.\<close>

definition unsettled :: "protoEvent list \<Rightarrow> reqKind \<Rightarrow> keyArray \<Rightarrow> nat \<Rightarrow> nat \<Rightarrow> nat \<Rightarrow> bool" where
  "unsettled evs kind key n i j \<longleftrightarrow> (\<forall>l. i < l \<and> l < j \<longrightarrow> evs ! l \<noteq> SendRequest kind key \<and> evs ! l \<noteq> TimerFired kind key n
     \<and> (\<forall>v bs. evs ! l \<noteq> RunDebug v key (response_type kind # bs)))"

lemma slot_run_iff: "proto_slot (fold proto_act evs protoHandler_init) (kind, key) = Some info \<longleftrightarrow>
    (\<exists>i < length evs. evs ! i = SendRequest kind key \<and> info = \<lparr> ri_callback = request_number evs i, ri_timer = request_number evs i \<rparr>
      \<and> unsettled evs kind key (request_number evs i) i (length evs))"
  unfolding req.slot_run [OF TrueI proto_init(1)] asked_eq asked_none settles_iff unsettled_def request_number_def
  by (rule iff_exI) (auto simp: fresh_run)

lemma request_number_take: "i \<le> j \<Longrightarrow> request_number (take j evs) i = request_number evs i"
  by (simp add: request_number_def min_def)

lemma unsettled_take: "unsettled (take j evs) kind key n i j \<longleftrightarrow> unsettled evs kind key n i j"
  by (simp add: unsettled_def)

lemma slot_take_iff:
  assumes "j < length evs"
  shows "(\<exists>info. proto_slot (fold proto_act (take j evs) protoHandler_init) (kind, key) = Some info \<and> ri_callback info = n) \<longleftrightarrow>
    (\<exists>i < j. evs ! i = SendRequest kind key \<and> n = request_number evs i \<and> unsettled evs kind key n i j)"
proof -
  have l: "length (take j evs) = j" using assms by simp
  have "(\<exists>info. proto_slot (fold proto_act (take j evs) protoHandler_init) (kind, key) = Some info \<and> ri_callback info = n) \<longleftrightarrow>
      (\<exists>i < j. take j evs ! i = SendRequest kind key \<and> n = request_number (take j evs) i
        \<and> unsettled (take j evs) kind key n i j)"
    unfolding slot_run_iff l by fastforce
  also have "\<dots> \<longleftrightarrow> (\<exists>i < j. evs ! i = SendRequest kind key \<and> n = request_number evs i \<and> unsettled evs kind key n i j)"
    by (rule iff_exI) (auto simp: request_number_take unsettled_take)
  finally show ?thesis .
qed

text \<open>
  C14. Answers meet their requests. In every run of the protocol handler, however requests, messages of other
  nodes and fired timers follow each other, a callback is called at most once, and it is called with \<open>bs\<close>
  exactly when \<open>bs\<close> is the first answer of the right kind from the node that was asked, before the request
  was replaced by a new one and before its own timer removed it.
\<close>

theorem callbacks_exact:
  "distinct (map fst (proto_calls (fold proto_act evs protoHandler_init)))
   \<and> ((n, bs) \<in> set (proto_calls (fold proto_act evs protoHandler_init)) \<longleftrightarrow>
      (\<exists>i j kind key v. i < j \<and> j < length evs \<and> evs ! i = SendRequest kind key \<and> n = request_number evs i
        \<and> evs ! j = RunDebug v key (response_type kind # bs) \<and> unsettled evs kind key n i j))"
proof -
  have "req.numbered protoHandler_init" by (simp add: req.numbered_def)
  then have d: "distinct (map fst (proto_calls (fold proto_act evs protoHandler_init)))"
    using req.numbered_run [of protoHandler_init evs] unfolding req.numbered_def by blast
  have "(n, bs) \<in> set (proto_calls (fold proto_act evs protoHandler_init)) \<longleftrightarrow>
     (\<exists>j < length evs. \<exists>kind key v. evs ! j = RunDebug v key (response_type kind # bs)
       \<and> (\<exists>info. proto_slot (fold proto_act (take j evs) protoHandler_init) (kind, key) = Some info \<and> ri_callback info = n))"
    unfolding req.calls_run [OF TrueI] by (auto simp: answers_iff)
  also have "\<dots> \<longleftrightarrow> (\<exists>j < length evs. \<exists>kind key v. evs ! j = RunDebug v key (response_type kind # bs)
       \<and> (\<exists>i < j. evs ! i = SendRequest kind key \<and> n = request_number evs i \<and> unsettled evs kind key n i j))"
    by (simp only: slot_take_iff cong: conj_cong)
  finally show ?thesis using d by blast
qed

subsection \<open>Callbacks of node information\<close>

datatype infoEvent = InfoSend bool int keyArray | InfoReq keyArray | InfoRes keyArray bytes | InfoCleanup int

fun info_act :: "infoEvent \<Rightarrow> nodeinfo \<Rightarrow> nodeinfo" where
  "info_act (InfoSend callback now key) = ni_sendReq callback now key"
| "info_act (InfoReq key) = ni_sendRes key"
| "info_act (InfoRes key info) = ni_callback key info"
| "info_act (InfoCleanup now) = ni_cleanup now"

definition info_calls :: "nodeinfo \<Rightarrow> (nat \<times> bytes) list" where
  "info_calls m = concat (map (\<lambda>out. case out of InfoCall n bs \<Rightarrow> [(n, bs)] | _ \<Rightarrow> []) (ni_out m))"

fun info_asked :: "infoEvent \<Rightarrow> nodeinfo \<Rightarrow> keyArray \<Rightarrow> nodeinfoCallback option" where
  "info_asked (InfoSend True now key) m k = (if k = key then Some \<lparr> cb_call = ni_fresh m, cb_created = now \<rparr> else None)"
| "info_asked _ m k = None"

fun info_answers :: "infoEvent \<Rightarrow> (keyArray \<times> bytes) option" where
  "info_answers (InfoRes key info) = Some (key, info)"
| "info_answers _ = None"

fun info_settles :: "infoEvent \<Rightarrow> keyArray \<Rightarrow> nodeinfoCallback \<Rightarrow> bool" where
  "info_settles (InfoRes key info) k cb = (k = key)"
| "info_settles (InfoCleanup now) k cb = (60000000000 < time_sub now (cb_created cb))"
| "info_settles _ k cb = False"

lemma map_of_filter_value: "distinct (map fst xs) \<Longrightarrow> map_of (filter (\<lambda>(k, v). P v) xs) k = (case map_of xs k of None \<Rightarrow> None | Some v \<Rightarrow> if P v then Some v else None)"
proof (induction xs)
  case (Cons x xs)
  obtain a b where x: "x = (a, b)" by (cases x)
  with Cons.prems have "map_of xs a = None" by (simp add: map_of_eq_None_iff)
  with Cons x show ?case by (cases "k = a") simp_all
qed simp

lemma distinct_map_filter_fst: "distinct (map fst xs) \<Longrightarrow> distinct (map fst (filter P xs))"
  by (induction xs) auto

lemmas info_acts = ni_sendReq_def ni_sendRes_def ni_callback_def ni_cleanup_def addCallback_def ni_emit_def

interpretation nfo: callback_table info_act "\<lambda>m. m_get (ni_callbacks m)" info_asked info_settles "\<lambda>m. m_ok (ni_callbacks m)"
  info_calls info_answers cb_call ni_fresh
proof
  show "m_ok (ni_callbacks s) \<Longrightarrow> m_ok (ni_callbacks (info_act e s))" for s e
    by (cases e) (auto simp: info_acts distinct_map_filter_fst split: option.split)
  show "m_get (ni_callbacks (info_act e s)) k = (case info_asked e s k of Some v \<Rightarrow> Some v
      | None \<Rightarrow> (case m_get (ni_callbacks s) k of None \<Rightarrow> None | Some v \<Rightarrow> if info_settles e k v then None else Some v))"
    if "m_ok (ni_callbacks s)" for s e k
  proof (cases e)
    case (InfoSend callback now key)
    then show ?thesis by (cases callback) (auto simp: info_acts split: option.split)
  next
    case (InfoRes key info)
    then show ?thesis by (cases "k = key"; cases "m_get (ni_callbacks s) key"; cases "m_get (ni_callbacks s) k") (simp_all add: info_acts)
  next
    case (InfoCleanup now)
    then show ?thesis using map_of_filter_value [OF that, where P = "\<lambda>cb. \<not> 60000000000 < time_sub now (cb_created cb)" and k = k]
      by (simp add: info_acts split: option.split)
  qed (simp add: info_acts split: option.split)
  show "info_calls (info_act e s) = info_calls s @ (case info_answers e of None \<Rightarrow> []
      | Some (k, bs) \<Rightarrow> (case m_get (ni_callbacks s) k of None \<Rightarrow> [] | Some v \<Rightarrow> [(cb_call v, bs)]))" for s e
    by (cases e) (auto simp: info_acts info_calls_def split: option.split)
  show "info_answers e = Some (k, bs) \<Longrightarrow> info_settles e k v \<and> info_asked e s k' = None" for e k bs v s k'
    by (cases e) auto
  show "info_asked e s k = Some v \<Longrightarrow> cb_call v = ni_fresh s \<and> ni_fresh (info_act e s) = Suc (ni_fresh s) \<and> (k' \<noteq> k \<longrightarrow> info_asked e s k' = None)"
    for e s k v k'
    by (cases "(e, s, k)" rule: info_asked.cases) (auto simp: info_acts split: if_splits)
  show "ni_fresh s \<le> ni_fresh (info_act e s)" for s e
    by (cases e) (auto simp: info_acts split: option.split)
qed

fun is_ask :: "infoEvent \<Rightarrow> bool" where
  "is_ask (InfoSend callback now key) = callback"
| "is_ask _ = False"

definition ask_number :: "infoEvent list \<Rightarrow> nat \<Rightarrow> nat" where
  "ask_number evs i = length (filter is_ask (take i evs))"

text \<open>Between \<open>i\<close> and \<open>j\<close> nothing replaces or answers the question of time \<open>t\<close>, and no clean-up finds it older than a minute.\<close>

definition info_waits :: "infoEvent list \<Rightarrow> keyArray \<Rightarrow> int \<Rightarrow> nat \<Rightarrow> nat \<Rightarrow> bool" where
  "info_waits evs key t i j \<longleftrightarrow> (\<forall>l. i < l \<and> l < j \<longrightarrow> (\<forall>t'. evs ! l \<noteq> InfoSend True t' key) \<and> (\<forall>bs. evs ! l \<noteq> InfoRes key bs)
     \<and> (\<forall>now. evs ! l = InfoCleanup now \<longrightarrow> time_sub now t \<le> 60000000000))"

lemma info_fresh_run: "ni_fresh (fold info_act evs m) = ni_fresh m + length (filter is_ask evs)"
proof (induction evs arbitrary: m)
  case (Cons e evs)
  then show ?case by (cases e) (auto simp: info_acts split: option.split)
qed simp

lemma nodeinfo_init_fields [simp]: "ni_callbacks (nodeinfo_init t0) = []" "info_calls (nodeinfo_init t0) = []" "ni_fresh (nodeinfo_init t0) = 0"
  by (simp_all add: nodeinfo_init_def ni_cleanup_def ni_emit_def info_calls_def)

lemma info_asked_iff: "info_asked e m k = Some cb \<longleftrightarrow> e = InfoSend True (cb_created cb) k \<and> cb_call cb = ni_fresh m"
  by (cases "(e, m, k)" rule: info_asked.cases) auto

lemma info_asked_none: "info_asked e m k = None \<longleftrightarrow> (\<forall>t. e \<noteq> InfoSend True t k)"
  by (cases "(e, m, k)" rule: info_asked.cases) auto

lemma info_settles_iff: "info_settles e k cb \<longleftrightarrow> (\<exists>bs. e = InfoRes k bs) \<or> (\<exists>now. e = InfoCleanup now \<and> 60000000000 < time_sub now (cb_created cb))"
  by (cases e) auto

lemma info_slot_run: "m_get (ni_callbacks (fold info_act evs (nodeinfo_init t0))) key = Some cb \<longleftrightarrow>
    (\<exists>i < length evs. evs ! i = InfoSend True (cb_created cb) key \<and> cb_call cb = ask_number evs i \<and> info_waits evs key (cb_created cb) i (length evs))"
proof -
  have "m_ok (ni_callbacks (nodeinfo_init t0))" "m_get (ni_callbacks (nodeinfo_init t0)) key = None" by simp_all
  note run = nfo.slot_run [OF this]
  show ?thesis
    unfolding run info_asked_iff info_asked_none info_settles_iff info_waits_def ask_number_def by (auto simp: info_fresh_run not_less)
qed

lemma info_slot_take:
  assumes "j < length evs"
  shows "(\<exists>cb. m_get (ni_callbacks (fold info_act (take j evs) (nodeinfo_init t0))) key = Some cb \<and> cb_call cb = n) \<longleftrightarrow>
    (\<exists>i < j. \<exists>t. evs ! i = InfoSend True t key \<and> n = ask_number evs i \<and> info_waits evs key t i j)"
proof -
  have l: "length (take j evs) = j" using assms by simp
  have w: "info_waits (take j evs) key t i j = info_waits evs key t i j" "i < j \<Longrightarrow> ask_number (take j evs) i = ask_number evs i" for t i
    by (simp_all add: info_waits_def ask_number_def min_def)
  show ?thesis
  proof
    assume "\<exists>i < j. \<exists>t. evs ! i = InfoSend True t key \<and> n = ask_number evs i \<and> info_waits evs key t i j"
    then obtain i t where "i < j" "evs ! i = InfoSend True t key" "n = ask_number evs i" "info_waits evs key t i j" by blast
    then have "m_get (ni_callbacks (fold info_act (take j evs) (nodeinfo_init t0))) key = Some \<lparr> cb_call = n, cb_created = t \<rparr>"
      unfolding info_slot_run l w(1) by (auto simp: w(2) intro!: exI [of _ i])
    then show "\<exists>cb. m_get (ni_callbacks (fold info_act (take j evs) (nodeinfo_init t0))) key = Some cb \<and> cb_call cb = n" by auto
  next
    assume "\<exists>cb. m_get (ni_callbacks (fold info_act (take j evs) (nodeinfo_init t0))) key = Some cb \<and> cb_call cb = n"
    then show "\<exists>i < j. \<exists>t. evs ! i = InfoSend True t key \<and> n = ask_number evs i \<and> info_waits evs key t i j"
      unfolding info_slot_run l w(1) by (force simp: w(2))
  qed
qed

text \<open>
  The same for node information, whose requests have no timers of their own: a question waits until it is
  answered, replaced, or found older than a minute by the clean-up that runs twice a minute.
\<close>

theorem info_callbacks_exact:
  "distinct (map fst (info_calls (fold info_act evs (nodeinfo_init t0))))
   \<and> ((n, bs) \<in> set (info_calls (fold info_act evs (nodeinfo_init t0))) \<longleftrightarrow>
      (\<exists>i j key t. i < j \<and> j < length evs \<and> evs ! i = InfoSend True t key \<and> n = ask_number evs i
        \<and> evs ! j = InfoRes key bs \<and> info_waits evs key t i j))"
proof -
  have "nfo.numbered (nodeinfo_init t0)" by (simp add: nfo.numbered_def)
  then have d: "distinct (map fst (info_calls (fold info_act evs (nodeinfo_init t0))))"
    using nfo.numbered_run [of "nodeinfo_init t0" evs] unfolding nfo.numbered_def by blast
  have ok: "m_ok (ni_callbacks (nodeinfo_init t0))" by simp
  have "info_answers e = Some (k, bs) \<longleftrightarrow> e = InfoRes k bs" for e k by (cases e) auto
  then have "(n, bs) \<in> set (info_calls (fold info_act evs (nodeinfo_init t0))) \<longleftrightarrow>
     (\<exists>j < length evs. \<exists>key. evs ! j = InfoRes key bs
       \<and> (\<exists>cb. m_get (ni_callbacks (fold info_act (take j evs) (nodeinfo_init t0))) key = Some cb \<and> cb_call cb = n))"
    unfolding nfo.calls_run [OF ok] by auto
  also have "\<dots> \<longleftrightarrow> (\<exists>j < length evs. \<exists>key. evs ! j = InfoRes key bs
       \<and> (\<exists>i < j. \<exists>t. evs ! i = InfoSend True t key \<and> n = ask_number evs i \<and> info_waits evs key t i j))"
    by (simp only: info_slot_take cong: conj_cong)
  finally show ?thesis using d by blast
qed

subsection \<open>Requests of the admin socket\<close>

definition unhex :: "char \<Rightarrow> nat option" where
  "unhex c = (let n = of_char c in
     if 48 \<le> n \<and> n \<le> 57 then Some (n - 48)
     else if 97 \<le> n \<and> n \<le> 102 then Some (n - 87)
     else if 65 \<le> n \<and> n \<le> 70 then Some (n - 55)
     else None)"

fun hex_decode :: "string \<Rightarrow> bytes option" where
  "hex_decode [] = Some []"
| "hex_decode [c] = None"
| "hex_decode (c # d # cs) =
     (case unhex c of
        None \<Rightarrow> None
      | Some a \<Rightarrow> (case unhex d of
          None \<Rightarrow> None
        | Some b \<Rightarrow> (case hex_decode cs of None \<Rightarrow> None | Some bs \<Rightarrow> Some (of_nat (16 * a + b) # bs))))"

datatype adminError = NoKeySupplied | HexError | InvalidKeyLength | RequestTimeout

definition request_key :: "string \<Rightarrow> adminError + keyArray" where
  "request_key s =
     (case hex_decode s of
        None \<Rightarrow> Inl HexError
      | Some kbs \<Rightarrow> if length kbs \<noteq> publicKeySize then Inl InvalidKeyLength else Inr (be_word kbs))"

function split_keys :: "bytes \<Rightarrow> bytes list" where
  "split_keys bs = (if publicKeySize \<le> length bs then take publicKeySize bs # split_keys (drop publicKeySize bs) else [])"
  by pat_completeness auto
termination by (relation "measure length") (auto simp: publicKeySize_def)

declare split_keys.simps [simp del] decimal.simps [simp del]

text \<open>
  A handler sends its request and then waits for the callback or for six seconds to pass; \<open>reply\<close> is what arrived
  first. The result is filed under the address of the key. \<open>RawMessage.UnmarshalJSON\<close> keeps the bytes as they are.
\<close>

definition getSelfHandler_begin :: "string \<Rightarrow> protoHandler \<Rightarrow> adminError + protoHandler" where
  "getSelfHandler_begin s p = (case request_key s of Inl e \<Rightarrow> Inl e | Inr key \<Rightarrow> Inr (sendGetSelfRequest key p))"

definition getSelfHandler_end :: "byte \<Rightarrow> bytes \<Rightarrow> bytes option \<Rightarrow> adminError + bytes option \<times> bytes" where
  "getSelfHandler_end prefix kbs reply =
     (case reply of None \<Rightarrow> Inl RequestTimeout | Some info \<Rightarrow> Inr (AddrForKey prefix kbs, info))"

definition getPeersHandler_begin :: "string \<Rightarrow> protoHandler \<Rightarrow> adminError + protoHandler" where
  "getPeersHandler_begin s p = (case request_key s of Inl e \<Rightarrow> Inl e | Inr key \<Rightarrow> Inr (sendGetPeersRequest key p))"

definition getPeersHandler_end :: "byte \<Rightarrow> bytes \<Rightarrow> bytes option \<Rightarrow> adminError + bytes option \<times> string list" where
  "getPeersHandler_end prefix kbs reply =
     (case reply of None \<Rightarrow> Inl RequestTimeout | Some info \<Rightarrow> Inr (AddrForKey prefix kbs, map hex_encode (split_keys info)))"

definition getTreeHandler_begin :: "string \<Rightarrow> protoHandler \<Rightarrow> adminError + protoHandler" where
  "getTreeHandler_begin s p = (case request_key s of Inl e \<Rightarrow> Inl e | Inr key \<Rightarrow> Inr (sendGetTreeRequest key p))"

definition getTreeHandler_end :: "byte \<Rightarrow> bytes \<Rightarrow> bytes option \<Rightarrow> adminError + bytes option \<times> string list" where
  "getTreeHandler_end prefix kbs reply =
     (case reply of None \<Rightarrow> Inl RequestTimeout | Some info \<Rightarrow> Inr (AddrForKey prefix kbs, map hex_encode (split_keys info)))"

definition nodeInfoAdminHandler_begin :: "string \<Rightarrow> int \<Rightarrow> nodeinfo \<Rightarrow> adminError + nodeinfo" where
  "nodeInfoAdminHandler_begin s now m =
     (if s = [] then Inl NoKeySupplied
      else (case request_key s of Inl e \<Rightarrow> Inl e | Inr key \<Rightarrow> Inr (ni_sendReq True now key m)))"

definition nodeInfoAdminHandler_end :: "bytes \<Rightarrow> bytes option \<Rightarrow> adminError + string \<times> bytes" where
  "nodeInfoAdminHandler_end kbs reply =
     (case reply of None \<Rightarrow> Inl RequestTimeout | Some info \<Rightarrow> Inr (hex_encode kbs, info))"

subsection \<open>Hexadecimal keys\<close>

lemma unhex_digit: "n < 16 \<Longrightarrow> unhex (hex_digit n) = Some n"
proof -
  assume "n < 16"
  then have "n \<in> {0, 1, 2, 3, 4, 5, 6, 7, 8, 9, 10, 11, 12, 13, 14, 15}" by simp presburger
  then show ?thesis by (auto simp: hex_digit_def unhex_def)
qed

lemma hex_roundtrip [simp]: "hex_decode (hex_encode bs) = Some bs"
proof (induction bs)
  case (Cons b bs)
  have "unat b div 16 < 16" using unsigned_less [of b, where 'a = nat] by simp
  then show ?case using Cons by (simp add: hex_encode_def unhex_digit)
qed (simp add: hex_encode_def)

lemma request_key_hex [simp]: "request_key (hex_encode (key_bytes k)) = Inr k"
  by (simp add: request_key_def publicKeySize_def be_word_key_bytes)

lemma hex_encode_inj: "hex_encode bs = hex_encode bs' \<longleftrightarrow> bs = bs'"
  by (metis hex_roundtrip option.inject)

subsection \<open>Lists of keys\<close>

lemma split_keys_concat: "\<forall>k \<in> set ks. length k = 32 \<Longrightarrow> split_keys (concat ks) = ks"
  by (induction ks) (simp_all add: split_keys.simps publicKeySize_def)

lemma keys_within_eq:
  assumes "\<forall>k \<in> set ks. k = [] \<or> length k = 32" "length bs = 32 * m" "32 * m + 2 \<le> unat mtu" "unat mtu < 2 ^ 63"
  shows "keys_within mtu bs ks = bs @ concat (take ((unat mtu - 2) div 32 - m) (filter (\<lambda>k. k \<noteq> []) ks))"
  using assms(1-3)
proof (induction ks arbitrary: bs m)
  case (Cons k ks)
  have w: "mtu < of_nat n + 2 \<longleftrightarrow> unat mtu < n + 2" if "n < 2 ^ 63 + 32" for n
    using that by (simp add: word_less_nat_alt unat_word_ariths unat_of_nat)
  show ?case
  proof (cases "k = []")
    case True
    then show ?thesis using Cons assms(4) w [of "length bs"] by (simp add: Let_def)
  next
    case False
    with Cons.prems have k: "length (bs @ k) = 32 * Suc m" by simp
    then have c: "mtu < of_nat (length (bs @ k)) + 2 \<longleftrightarrow> unat mtu < 32 * Suc m + 2"
      using w [of "length (bs @ k)"] Cons.prems(3) assms(4) by simp
    show ?thesis
    proof (cases "unat mtu < 32 * Suc m + 2")
      case True
      then have "(unat mtu - 2) div 32 = m" using Cons.prems(3) by (simp add: div_nat_eqI)
      then show ?thesis using c True False by (simp add: Let_def)
    next
      case large: False
      then have "Suc m \<le> (unat mtu - 2) div 32" by (simp add: less_eq_div_iff_mult_less_eq)
      then have "(unat mtu - 2) div 32 - m = Suc ((unat mtu - 2) div 32 - Suc m)" by simp
      then show ?thesis using c large False Cons.IH [OF _ k] Cons.prems(1) by (simp add: Let_def)
    qed
  qed
qed simp

lemma core_MTU_bounds:
  assumes "core_MTU cfg = Inr mtu" "enc_MTU cfg = Inr emtu" "159 \<le> unat (peerMaxMessageSize cfg)"
  shows "2 \<le> unat mtu" "unat mtu \<le> 65535" "unat mtu + 1 \<le> unat emtu"
proof -
  have e: "unat emtu = unat (peerMaxMessageSize cfg) - 156"
    using assms(2,3) unat_minus [of 156 "peerMaxMessageSize cfg"] by (auto simp: enc_MTU_eq word_le_nat_alt)
  then have m: "unat (emtu - 1) = unat emtu - 1" using assms(3) unat_minus [of 1 emtu] by (simp add: word_le_nat_alt)
  have "mtu = (if 65535 < emtu - 1 then 65535 else emtu - 1)" using assms(1,2) by (simp add: core_MTU_def Let_def)
  then show "2 \<le> unat mtu" "unat mtu \<le> 65535" "unat mtu + 1 \<le> unat emtu"
    using e m assms(3) by (auto simp: word_less_nat_alt split: if_splits)
qed

lemma length_concat_const: "\<forall>x \<in> set xs. length x = n \<Longrightarrow> length (concat xs) = n * length xs"
  by (induction xs) simp_all

lemma key_list_split:
  assumes "core_MTU cfg = Inr mtu" "enc_MTU cfg = Inr emtu" "159 \<le> unat (peerMaxMessageSize cfg)" "\<forall>k \<in> set ks. k = [] \<or> length k = 32"
  shows "split_keys (keys_within mtu [] ks) = take ((unat mtu - 2) div 32) (filter (\<lambda>k. k \<noteq> []) ks)
    \<and> length (keys_within mtu [] ks) + 3 \<le> unat emtu"
proof -
  note b = core_MTU_bounds [OF assms(1-3)]
  let ?ks = "take ((unat mtu - 2) div 32) (filter (\<lambda>k. k \<noteq> []) ks)"
  have k: "keys_within mtu [] ks = concat ?ks" using keys_within_eq [OF assms(4), of "[]" 0 mtu] b by simp
  have "set ?ks \<subseteq> set (filter (\<lambda>k. k \<noteq> []) ks)" by (rule set_take_subset)
  then have l: "\<forall>x \<in> set ?ks. length x = 32" using assms(4) by auto
  then have "length (concat ?ks) = 32 * length ?ks" by (rule length_concat_const)
  also have "\<dots> \<le> 32 * ((unat mtu - 2) div 32)" by simp
  finally have "length (concat ?ks) + 3 \<le> unat emtu" using b by simp
  then show ?thesis using k split_keys_concat [OF l] by simp
qed

text \<open>
  Lists of keys arrive. The answer to a request for peers or for the tree has as many keys as its
  maximum size allows, in order and without the nil keys of peers that are not connected; with its three type
  bytes it is within the MTU of the encrypted connection, and the reading side splits it into exactly these keys.
\<close>

theorem key_lists_arrive:
  assumes "core_MTU cfg = Inr mtu" "enc_MTU cfg = Inr emtu" "159 \<le> unat (peerMaxMessageSize cfg)" "\<forall>k \<in> set ks. k = [] \<or> length k = 32"
  shows "split_keys (keys_within mtu [] ks) = take ((unat mtu - 2) div 32) (filter (\<lambda>k. k \<noteq> []) ks)
    \<and> length ([typeSessionProto, typeProtoDebug, dType] @ keys_within mtu [] ks) \<le> unat emtu"
  using key_list_split [OF assms] by simp

theorem key_lists_arrive_witness:
  "split_keys (keys_within 65535 [] [replicate 32 7, [], replicate 32 9]) = [replicate 32 7, replicate 32 9]"
proof -
  have "core_MTU (env_config address_env) = Inr 65535" "enc_MTU (env_config address_env) = Inr 130914" "159 \<le> unat (peerMaxMessageSize (env_config address_env))"
    by (simp_all add: address_env_def core_env_def core_options_def core_MTU_def enc_MTU_eq)
  from key_lists_arrive [OF this, of "[replicate 32 7, [], replicate 32 9]"] show ?thesis by simp
qed

subsection \<open>A request and its answer\<close>

text \<open>A written message reaches the protocol handler of the other node, whose reads have room for \<open>emtu\<close> bytes.\<close>

definition deliver_debug :: "nat \<Rightarrow> node_view \<Rightarrow> protoOutput \<Rightarrow> keyArray \<Rightarrow> protoHandler \<Rightarrow> protoHandler" where
  "deliver_debug emtu v out sender p =
     (case out of
        ProtoWrite bs key \<Rightarrow>
          fold (\<lambda>(k, data) p. case handleProto k data of Some (HandleDebug k' d) \<Rightarrow> handleDebug v k' d p | _ \<Rightarrow> p)
            (snd (core_ReadFrom emtu [] [Inr (bs, sender)])) p
      | _ \<Rightarrow> p)"

lemma deliver_debug_write:
  "length data + 3 \<le> emtu \<Longrightarrow> deliver_debug emtu v (ProtoWrite ([typeSessionProto, typeProtoDebug, dType] @ data) key) sender p
     = handleDebug v sender (dType # data) p"
  by (simp add: deliver_debug_def handleProto_def type_session proto_types Let_def take_Cons')

text \<open>
  C19. A node lists the peers of another one. When the admin socket of a node asks for the peers of \<open>other\<close> by
  its hexadecimal key, the request goes to that node, its answer calls the callback of exactly this request, and
  the admin handler returns the keys of the connected peers of \<open>other\<close> in hexadecimal, up to the size of an answer.
\<close>

theorem remote_peers_listed:
  assumes "core_MTU cfg = Inr mtu" "enc_MTU cfg = Inr emtu" "159 \<le> unat (peerMaxMessageSize cfg)"
    and "nv_MTU v = mtu" "\<forall>k \<in> set (nv_peers v). k = [] \<or> length k = 32"
    and "getPeersHandler_begin (hex_encode (key_bytes other)) a = Inr a1"
    and "b1 = deliver_debug (unat emtu) v (last (ph_out a1)) self b"
    and "a2 = deliver_debug (unat emtu) v' (last (ph_out b1)) other a1"
  shows "\<exists>reply. last (ph_out a2) = ProtoCall (ph_fresh a) reply
    \<and> getPeersHandler_end prefix (key_bytes other) (Some reply)
        = Inr (AddrForKey prefix (key_bytes other), map hex_encode (take ((unat mtu - 2) div 32) (filter (\<lambda>k. k \<noteq> []) (nv_peers v))))"
proof -
  let ?reply = "keys_within mtu [] (nv_peers v)"
  have arr: "split_keys ?reply = take ((unat mtu - 2) div 32) (filter (\<lambda>k. k \<noteq> []) (nv_peers v))" "length ?reply + 3 \<le> unat emtu"
    using key_list_split [OF assms(1-3,5)] by simp_all
  have a1: "a1 = proto_act (SendRequest GetPeers other) a" using assms(6) by (simp add: getPeersHandler_begin_def)
  have "last (ph_out a1) = ProtoWrite ([typeSessionProto, typeProtoDebug, typeDebugGetPeersRequest] @ []) other"
    unfolding a1 by (simp add: send_requests sendDebug_def new_req_def Let_def)
  then have b1: "b1 = handleDebug v self [typeDebugGetPeersRequest] b"
    using deliver_debug_write [of "[]" "unat emtu" v typeDebugGetPeersRequest other self b] arr(2) assms(7) by simp
  then have "last (ph_out b1) = ProtoWrite ([typeSessionProto, typeProtoDebug, typeDebugGetPeersResponse] @ ?reply) self"
    using assms(4) by (simp add: handleDebug_def handleGetPeersRequest_def sendDebug_def proto_types)
  then have a2: "a2 = handleDebug v' other (typeDebugGetPeersResponse # ?reply) a1"
    using deliver_debug_write [OF arr(2)] assms(8) by simp
  have "response (typeDebugGetPeersResponse # ?reply) = Some (GetPeers, ?reply)" by (simp add: response_iff)
  moreover have "proto_slot a1 (GetPeers, other) = Some \<lparr> ri_callback = ph_fresh a, ri_timer = ph_fresh a \<rparr>"
    unfolding a1 proto_slot_act by simp
  ultimately have "last (ph_out a2) = ProtoCall (ph_fresh a) ?reply"
    unfolding a2 by (simp add: response_run proto_slot_def)
  then show ?thesis using arr(1) by (simp add: getPeersHandler_end_def)
qed

definition sample_view :: node_view where
  "sample_view = \<lparr> nv_MTU = 65535, nv_selfKey = key_bytes 9, nv_routingEntries = 3, nv_peers = [[], replicate 32 7], nv_tree = [replicate 32 9] \<rparr>"

theorem remote_peers_listed_witness:
  "\<exists>a1 reply. getPeersHandler_begin (hex_encode (key_bytes 9)) protoHandler_init = Inr a1
    \<and> last (ph_out (deliver_debug 130914 sample_view (last (ph_out (deliver_debug 130914 sample_view (last (ph_out a1)) 3 protoHandler_init))) 9 a1)) = ProtoCall 0 reply
    \<and> getPeersHandler_end 2 (key_bytes 9) (Some reply) = Inr (AddrForKey 2 (key_bytes 9), [hex_encode (replicate 32 7)])"
proof -
  have c: "core_MTU (env_config address_env) = Inr 65535" "enc_MTU (env_config address_env) = Inr 130914" "159 \<le> unat (peerMaxMessageSize (env_config address_env))"
    by (simp_all add: address_env_def core_env_def core_options_def core_MTU_def enc_MTU_eq)
  obtain a1 where a1: "getPeersHandler_begin (hex_encode (key_bytes 9)) protoHandler_init = Inr a1" by (simp add: getPeersHandler_begin_def)
  show ?thesis
    using remote_peers_listed [OF c _ _ a1 refl refl, where v = sample_view and v' = sample_view and self = 3 and b = protoHandler_init and prefix = 2] a1 by (simp add: sample_view_def)
qed

end
