(* ===== verification/LinkSetup.thy ===== *)
theory LinkSetup
  imports Proto "HOL-Library.List_Lexorder" "HOL-Library.Char_ord"
begin

text \<open>
  \<^verbatim>\<open>src/core/link.go\<close>: what \<open>add\<close> reads from a peering URI before it starts a link, and which host name it
  presents. A URL is given by the parts that \<^verbatim>\<open>net/url\<close> parses; what \<open>time.ParseDuration\<close>, \<open>net.ParseIP\<close> and
  \<open>net.SplitHostPort\<close> return is an argument. Names are ASCII.
\<close>

record url =
  u_scheme :: string
  u_host :: string
  u_query :: "(string, string list) gomap"
  u_plain :: string
  u_string :: string

record go_net =
  gn_parseDuration :: "string \<Rightarrow> int option"
  gn_isIP :: "string \<Rightarrow> bool"
  gn_splitHost :: "string \<Rightarrow> string option"

definition query_all :: "url \<Rightarrow> string \<Rightarrow> string list" where
  "query_all u name = m_get0 [] (u_query u) name"

definition query_get :: "url \<Rightarrow> string \<Rightarrow> string" where
  "query_get u name = (case query_all u name of [] \<Rightarrow> [] | v # vs \<Rightarrow> v)"

definition lower :: "string \<Rightarrow> string" where
  "lower s = map (\<lambda>c. let n = (of_char c :: nat) in if 65 \<le> n \<and> n \<le> 90 then char_of (n + 32) else c) s"

definition defaultBackoffLimit :: int where "defaultBackoffLimit = 1000000000 * 2 ^ 12"
definition minimumBackoffLimit :: int where "minimumBackoffLimit = 5 * 1000000000"

datatype linkError =
    ErrLinkAlreadyConfigured | ErrLinkNotConfigured | ErrLinkPriorityInvalid | ErrLinkPinnedKeyInvalid
  | ErrLinkPasswordInvalid | ErrLinkUnrecognisedSchema | ErrLinkMaxBackoffInvalid

datatype linkProtocol = linkTCP | linkTLS | linkSOCKS | linkUNIX | linkQUIC | linkWS | linkWSS | linkXrayReality | linkXrayHysteria

definition dialerFor :: "url \<Rightarrow> linkError + linkProtocol" where
  "dialerFor u = (let scheme = lower (u_scheme u) in
     if scheme = ''tcp'' then Inr linkTCP
     else if scheme = ''tls'' then Inr linkTLS
     else if scheme = ''socks'' \<or> scheme = ''sockstls'' then Inr linkSOCKS
     else if scheme = ''unix'' then Inr linkUNIX
     else if scheme = ''quic'' then Inr linkQUIC
     else if scheme = ''ws'' then Inr linkWS
     else if scheme = ''wss'' then Inr linkWSS
     else if scheme = ''xray+reality'' then Inr linkXrayReality
     else if scheme = ''xray+hysteria'' then Inr linkXrayHysteria
     else Inl ErrLinkUnrecognisedSchema)"

subsection \<open>Options of a peering\<close>

record dialOptions = linkOptions +
  do_tlsSNI :: string
  do_maxBackoff :: int

text \<open>The loop over the pinned keys: the set of keys, and the strings they were given by.\<close>

fun pinned_keys :: "string list \<Rightarrow> bytes list \<Rightarrow> string list \<Rightarrow> linkError + bytes list \<times> string list" where
  "pinned_keys [] pinned ids = Inr (pinned, ids)"
| "pinned_keys (pubkey # pubkeys) pinned ids =
     (let normalized = lower pubkey in
      case hex_decode normalized of
        None \<Rightarrow> Inl ErrLinkPinnedKeyInvalid
      | Some sigPub \<Rightarrow> pinned_keys pubkeys (set_add (copy_array publicKeySize sigPub) pinned) (ids @ [normalized]))"

text \<open>\<open>strconv.ParseUint\<close> in base 10 for 8 bits.\<close>

fun parse_digits :: "string \<Rightarrow> nat \<Rightarrow> nat option" where
  "parse_digits [] n = Some n"
| "parse_digits (c # cs) n =
     (let d = (of_char c :: nat) in if 48 \<le> d \<and> d \<le> 57 then parse_digits cs (10 * n + (d - 48)) else None)"

definition parseUint8 :: "string \<Rightarrow> byte option" where
  "parseUint8 s = (if s = [] then None else case parse_digits s 0 of None \<Rightarrow> None | Some n \<Rightarrow> if 255 < n then None else Some (of_nat n))"

definition blake2bSize :: nat where "blake2bSize = 64"

definition option_priority :: "url \<Rightarrow> linkError + byte" where
  "option_priority u =
     (let p = query_get u ''priority'' in
      if p = [] then Inr 0 else (case parseUint8 p of None \<Rightarrow> Inl ErrLinkPriorityInvalid | Some pi \<Rightarrow> Inr pi))"

definition option_password :: "url \<Rightarrow> linkError + bytes" where
  "option_password u =
     (let p = query_get u ''password'' in
      if p = [] then Inr [] else if blake2bSize < length p then Inl ErrLinkPasswordInvalid else Inr (ascii p))"

definition option_maxBackoff :: "go_net \<Rightarrow> url \<Rightarrow> linkError + int" where
  "option_maxBackoff lib u =
     (let p = query_get u ''maxbackoff'' in
      if p = [] then Inr defaultBackoffLimit
      else (case gn_parseDuration lib p of
          None \<Rightarrow> Inl ErrLinkMaxBackoffInvalid
        | Some d \<Rightarrow> if d < minimumBackoffLimit then Inl ErrLinkMaxBackoffInvalid else Inr d))"

subsection \<open>Server names\<close>

text \<open>\<open>strings.TrimSpace\<close> and the 64-bit FNV-1a hash.\<close>

definition is_space :: "char \<Rightarrow> bool" where
  "is_space c \<longleftrightarrow> (of_char c :: nat) \<in> {9, 10, 11, 12, 13, 32}"

definition trimSpace :: "string \<Rightarrow> string" where
  "trimSpace s = rev (dropWhile is_space (rev (dropWhile is_space s)))"

definition fnv1a :: "bytes \<Rightarrow> u64" where
  "fnv1a bs = fold (\<lambda>b h. (h XOR ucast b) * 1099511628211) bs 14695981039346656037"

definition sni_candidates :: "go_net \<Rightarrow> string list \<Rightarrow> string list" where
  "sni_candidates lib outboundSNIList = filter (\<lambda>sni. sni \<noteq> [] \<and> \<not> gn_isIP lib sni) (map trimSpace outboundSNIList)"

definition peerID :: "url \<Rightarrow> string list \<Rightarrow> string" where
  "peerID u keyIDs =
     (if 0 < length keyIDs then ''key:'' @ sort keyIDs ! 0
      else if u_host u \<noteq> [] then ''host:'' @ lower (u_host u)
      else ''url:'' @ u_string u)"

definition stickySNI :: "go_net \<Rightarrow> string list \<Rightarrow> url \<Rightarrow> string list \<Rightarrow> string" where
  "stickySNI lib outboundSNIList u keyIDs =
     (if length outboundSNIList = 0 then []
      else let candidates = sni_candidates lib outboundSNIList in
        if length candidates = 0 then []
        else candidates ! unat (fnv1a (ascii (u_scheme u) @ [0] @ ascii (peerID u keyIDs)) mod of_nat (length candidates)))"

definition option_sni :: "go_net \<Rightarrow> string list \<Rightarrow> url \<Rightarrow> string list \<Rightarrow> string" where
  "option_sni lib outboundSNIList u keyIDs =
     (let given = query_get u ''sni'';
          sni1 = (if given \<noteq> [] \<and> \<not> gn_isIP lib given then given else []);
          sni2 = (if sni1 = [] then stickySNI lib outboundSNIList u keyIDs else sni1)
      in if sni2 = [] then (case gn_splitHost lib (u_host u) of
             None \<Rightarrow> []
           | Some host \<Rightarrow> if \<not> gn_isIP lib host then host else [])
         else sni2)"

definition link_options :: "go_net \<Rightarrow> string list \<Rightarrow> url \<Rightarrow> linkError + dialOptions" where
  "link_options lib outboundSNIList u =
     (case pinned_keys (query_all u ''key'') [] [] of
        Inl e \<Rightarrow> Inl e
      | Inr (pinned, keyIDs) \<Rightarrow>
          (case option_priority u of
             Inl e \<Rightarrow> Inl e
           | Inr priority \<Rightarrow>
               (case option_password u of
                  Inl e \<Rightarrow> Inl e
                | Inr password \<Rightarrow>
                    (case option_maxBackoff lib u of
                       Inl e \<Rightarrow> Inl e
                     | Inr maxBackoff \<Rightarrow> Inr \<lparr> lo_pinned = pinned, lo_priority = priority, lo_password = password,
                         do_tlsSNI = option_sni lib outboundSNIList u keyIDs, do_maxBackoff = maxBackoff \<rparr>))))"

text \<open>The options of a listener: it reads the priority and the password only.\<close>

definition listen_options :: "url \<Rightarrow> linkError + dialOptions" where
  "listen_options u =
     (case option_priority u of
        Inl e \<Rightarrow> Inl e
      | Inr priority \<Rightarrow>
          (case option_password u of
             Inl e \<Rightarrow> Inl e
           | Inr password \<Rightarrow> Inr \<lparr> lo_pinned = [], lo_priority = priority, lo_password = password, do_tlsSNI = [], do_maxBackoff = 0 \<rparr>))"

subsection \<open>What the options promise\<close>

lemma pinned_keys_ok:
  assumes "pinned_keys ks pinned ids = Inr (pinned', ids')" "\<forall>k \<in> set pinned. length k = 32" "distinct pinned"
  shows "(\<forall>k \<in> set pinned'. length k = 32) \<and> distinct pinned' \<and> (pinned' = [] \<longleftrightarrow> pinned = [] \<and> ks = [])"
  using assms
proof (induction ks arbitrary: pinned ids)
  case (Cons pubkey ks)
  from Cons.prems(1) obtain sigPub where s: "pinned_keys ks (set_add (copy_array publicKeySize sigPub) pinned) (ids @ [lower pubkey]) = Inr (pinned', ids')"
    by (cases "hex_decode (lower pubkey)") (simp_all add: Let_def)
  have "\<forall>k \<in> set (set_add (copy_array publicKeySize sigPub) pinned). length k = 32" "distinct (set_add (copy_array publicKeySize sigPub) pinned)"
      "set_add (copy_array publicKeySize sigPub) pinned \<noteq> []"
    using Cons.prems(2,3) by (auto simp: set_add_def publicKeySize_def)
  from Cons.IH [OF s this(1,2)] this(3) show ?case by simp
qed simp

lemma option_password_ok: "option_password u = Inr p \<Longrightarrow> length p \<le> 64"
  by (auto simp: option_password_def Let_def blake2bSize_def ascii_def not_less split: if_splits)

lemma option_maxBackoff_ok: "option_maxBackoff lib u = Inr d \<Longrightarrow> minimumBackoffLimit \<le> d"
  by (auto simp: option_maxBackoff_def Let_def minimumBackoffLimit_def defaultBackoffLimit_def not_less split: if_splits option.splits)

lemma link_options_ok:
  assumes "link_options lib snis u = Inr opts"
  shows "\<forall>k \<in> set (lo_pinned opts). length k = 32" "distinct (lo_pinned opts)" "length (lo_password opts) \<le> 64"
    "minimumBackoffLimit \<le> do_maxBackoff opts" "lo_pinned opts = [] \<longleftrightarrow> query_all u ''key'' = []"
proof -
  obtain ids where p: "pinned_keys (query_all u ''key'') [] [] = Inr (lo_pinned opts, ids)" "option_password u = Inr (lo_password opts)"
      "option_maxBackoff lib u = Inr (do_maxBackoff opts)"
  proof (cases "pinned_keys (query_all u ''key'') [] []"; cases "option_priority u"; cases "option_password u"; cases "option_maxBackoff lib u")
  qed (use assms in \<open>auto simp only: link_options_def sum.case prod.case linkOptions.simps dialOptions.simps split: prod.splits\<close>)
  show "\<forall>k \<in> set (lo_pinned opts). length k = 32" "distinct (lo_pinned opts)" "lo_pinned opts = [] \<longleftrightarrow> query_all u ''key'' = []"
    using pinned_keys_ok [OF p(1)] by simp_all
  show "length (lo_password opts) \<le> 64" "minimumBackoffLimit \<le> do_maxBackoff opts"
    using option_password_ok [OF p(2)] option_maxBackoff_ok [OF p(3)] by simp_all
qed

lemma node_ok_New: "core_New ed hs prefix cert nopts newjson = Inr (c, E) \<Longrightarrow> node_ok ed c"
  by (auto simp: core_New_def setNodeInfo_def node_ok_def not_less split: sum.splits option.splits if_splits)

text \<open>
  C16. What \<open>New\<close> and \<open>add\<close> accept always leads to a handshake: a node made from any key and options, with a link
  made from any peering URI, writes a handshake that every node of the same password and community admits under its
  key, if that node wants the key: it is not its own, is among the pinned keys of its link if there are any, and
  for an incoming link that is not local among its allowed keys if there are any. Pinned keys have 32 bytes, there are some exactly when the URI gives some, and the backoff
  limit is at least five seconds.
\<close>

theorem configured_links_connect:
  assumes "ed_correct ed" "b2_correct b2" "core_New ed hs prefix cert nopts newjson = Inr (c, E)"
    and "link_options lib snis u = Inr opts" "lo_password ropts = lo_password opts" "nc_community receiver = nc_community c"
    and "wants_key receiver lt ropts local (nc_public c)"
  shows "(\<exists>hello sees. handler_hello ed b2 c (linkOptions.truncate opts) = Inr hello
      \<and> handler_admit ed b2 receiver lt ropts local (hello @ rest) = Inr sees \<and> ad_key sees = nc_public c \<and> ad_rest sees = rest)
    \<and> (\<forall>k \<in> set (lo_pinned opts). length k = 32) \<and> (lo_pinned opts = [] \<longleftrightarrow> query_all u ''key'' = [])
    \<and> 5 * 10 ^ 9 \<le> do_maxBackoff opts"
proof -
  have pw: "length (lo_password ropts) \<le> 64" "lo_password (linkOptions.truncate opts) = lo_password ropts"
    using link_options_ok(3) [OF assms(4)] assms(5) by (simp_all add: linkOptions.defs)
  obtain hello where h: "handler_hello ed b2 c (linkOptions.truncate opts) = Inr hello"
      "\<forall>rest. \<exists>sees. handler_admit ed b2 receiver lt ropts local (hello @ rest) = Inr sees \<and> ad_key sees = nc_public c \<and> ad_rest sees = rest"
    using admit_hello [OF assms(1,2) node_ok_New [OF assms(3)] pw(2,1), of receiver lt local] assms(6,7)
    by (auto simp: wants_key_def)
  then show ?thesis using link_options_ok [OF assms(4)] by (simp add: minimumBackoffLimit_def)
qed

definition sample_url :: url where
  "sample_url = \<lparr> u_scheme = ''tls'', u_host = ''a:1'', u_query = [], u_plain = ''tls://a:1'', u_string = ''tls://a:1'' \<rparr>"

definition sample_lib :: go_net where
  "sample_lib = \<lparr> gn_parseDuration = (\<lambda>_. None), gn_isIP = (\<lambda>_. False), gn_splitHost = (\<lambda>_. Some ''a'') \<rparr>"

theorem configured_links_connect_witness:
  "\<exists>c E opts hello sees. core_New sample_ed (\<lambda>_. (1, 2, 3, 4)) 2 (Some (replicate 64 5)) [] (Some [123, 125]) = Inr (c, E)
    \<and> link_options sample_lib [] sample_url = Inr opts \<and> handler_hello sample_ed sample_b2 c (linkOptions.truncate opts) = Inr hello
    \<and> handler_admit sample_ed sample_b2 start_config linkTypeIncoming \<lparr> lo_pinned = [], lo_priority = 0, lo_password = [] \<rparr> False hello = Inr sees
    \<and> ad_key sees = nc_public c"
proof -
  obtain c E where c: "core_New sample_ed (\<lambda>_. (1, 2, 3, 4)) 2 (Some (replicate 64 5)) [] (Some [123, 125]) = Inr (c, E)"
      "nc_community c = []" "nc_public c = ed_public sample_ed (replicate 64 5)"
    by (simp add: core_New_def start_config_def privateKeySize_def setNodeInfo_def)
  obtain opts where o: "link_options sample_lib [] sample_url = Inr opts" "lo_password opts = []"
    by (simp add: link_options_def query_all_def query_get_def sample_url_def m_get0_def option_priority_def option_password_def option_maxBackoff_def)
  have "length (nc_public c) = 32" using c(3) ed_correct_sample by (simp add: ed_correct_def)
  then have w: "wants_key start_config linkTypeIncoming \<lparr> lo_pinned = [], lo_priority = 0, lo_password = [] \<rparr> False (nc_public c)"
    by (auto simp: wants_key_def start_config_def)
  show ?thesis
    using configured_links_connect [OF ed_correct_sample b2_correct_sample c(1) o(1) _ _ w, of "[]"] o(2) c(1,2) o(1) by (auto simp: start_config_def)
qed

subsection \<open>Sticky server names\<close>

lemma sort_first: "xs \<noteq> [] \<Longrightarrow> sort xs ! 0 = Min (set xs)"
  for xs :: "string list"
proof (rule sym, rule Min_eqI)
  assume "xs \<noteq> []"
  then show "sort xs ! 0 \<in> set xs" by (metis length_greater_0_conv length_sort nth_mem set_sort)
  fix y assume "y \<in> set xs"
  then obtain i where "i < length (sort xs)" "y = sort xs ! i" by (metis in_set_conv_nth set_sort)
  then show "sort xs ! 0 \<le> y" by (simp add: sorted_nth_mono)
qed simp

lemma peerID_keys: "ids \<noteq> [] \<Longrightarrow> set ids = set ids' \<Longrightarrow> peerID u ids = peerID u' ids'"
  by (cases "ids' = []") (simp_all add: peerID_def sort_first)

lemma sticky_index: "candidates \<noteq> [] \<Longrightarrow> length candidates < 2 ^ 64 \<Longrightarrow> unat (h mod of_nat (length candidates) :: u64) < length candidates"
  by (simp add: unat_mod unat_of_nat take_bit_nat_eq_self)

text \<open>
  The server name of a peering is sticky: it is one of the configured names, never empty text or an IP
  address, and for a peering with pinned keys it depends on the scheme and the set of keys alone, not on their order
  or on the host.
\<close>

theorem sticky_server_name:
  assumes "length snis < 2 ^ 64"
  shows "(sni_candidates lib snis \<noteq> [] \<longrightarrow> stickySNI lib snis u ids \<in> set (sni_candidates lib snis))
    \<and> (sni_candidates lib snis = [] \<longrightarrow> stickySNI lib snis u ids = [])
    \<and> (\<forall>sni \<in> set (sni_candidates lib snis). sni \<noteq> [] \<and> \<not> gn_isIP lib sni \<and> (\<exists>given \<in> set snis. sni = trimSpace given))
    \<and> (\<forall>u' ids'. u_scheme u = u_scheme u' \<longrightarrow> ids \<noteq> [] \<longrightarrow> set ids = set ids' \<longrightarrow> stickySNI lib snis u ids = stickySNI lib snis u' ids')"
proof -
  have "length (sni_candidates lib snis) \<le> length snis"
    unfolding sni_candidates_def using length_filter_le [of "\<lambda>sni. sni \<noteq> [] \<and> \<not> gn_isIP lib sni" "map trimSpace snis"] by simp
  then have l: "length (sni_candidates lib snis) < 2 ^ 64" using assms by linarith
  have c: "sni \<noteq> [] \<and> \<not> gn_isIP lib sni \<and> (\<exists>given \<in> set snis. sni = trimSpace given)" if "sni \<in> set (sni_candidates lib snis)" for sni
    using that by (auto simp: sni_candidates_def)
  have n: "sni_candidates lib snis \<noteq> [] \<Longrightarrow> snis \<noteq> []" by (auto simp: sni_candidates_def)
  have "stickySNI lib snis u ids \<in> set (sni_candidates lib snis)" if "sni_candidates lib snis \<noteq> []"
    using sticky_index [OF that l] n [OF that] that by (simp add: stickySNI_def Let_def)
  moreover have "stickySNI lib snis u ids = []" if "sni_candidates lib snis = []" using that by (simp add: stickySNI_def Let_def)
  moreover have "stickySNI lib snis u ids = stickySNI lib snis u' ids'" if "u_scheme u = u_scheme u'" "ids \<noteq> []" "set ids = set ids'" for u' ids'
    using peerID_keys [OF that(2,3), of u u'] that(1) by (simp add: stickySNI_def Let_def)
  ultimately show ?thesis using c by blast
qed

theorem sticky_server_name_witness:
  "stickySNI sample_lib ['' b.example '', ''c.example''] sample_url [''02'', ''01'']
     = stickySNI sample_lib ['' b.example '', ''c.example''] (sample_url\<lparr> u_host := ''other:9'' \<rparr>) [''01'', ''02'']"
proof -
  have "length ['' b.example '', ''c.example''] < 2 ^ 64" by simp
  note sticky_server_name [OF this, where lib = sample_lib and u = sample_url and ids = "[''02'', ''01'']",
      THEN conjunct2, THEN conjunct2, THEN conjunct2, rule_format, of "sample_url\<lparr> u_host := ''other:9'' \<rparr>" "[''01'', ''02'']"]
  then show ?thesis by auto
qed

end
