(* ===== verification/Multicast.thy ===== *)
theory Multicast
  imports LinkSetup
begin

text \<open>
  \<^verbatim>\<open>src/multicast\<close>: beacons on the local network. A node announces its key and port on the interfaces it is
  configured for and dials the nodes whose beacons it hears.
  \<^item> The interfaces of the system, their addresses and flags, the order in which maps are ranged over, and what
    \<open>ListenLocal\<close> returns are arguments; joining groups, beacons and stopped listeners are outputs. \<open>announce\<close> is
    the work of one round, after the group address was resolved and before the timer of the next round is set.
  \<^item> An address is the IP of its CIDR notation in 16 bytes, \<open>None\<close> when it does not parse.
  \<^item> A URL made from parts has the parts as its fields: parsing the encoded query gives back the values.
\<close>

subsection \<open>Advertisements\<close>

record multicastAdvertisement =
  ma_major :: u16
  ma_minor :: u16
  ma_publicKey :: bytes
  ma_port :: u16
  ma_hash :: bytes

definition adv_MarshalBinary :: "multicastAdvertisement \<Rightarrow> bytes" where
  "adv_MarshalBinary m = be_bytes 2 (ma_major m) @ be_bytes 2 (ma_minor m) @ ma_publicKey m @ be_bytes 2 (ma_port m)
     @ be_bytes 2 (of_nat (length (ma_hash m)) :: u16) @ ma_hash m"

definition adv_headerLen :: nat where "adv_headerLen = publicKeySize + 8"

definition adv_UnmarshalBinary :: "bytes \<Rightarrow> multicastAdvertisement option" where
  "adv_UnmarshalBinary b =
     (if length b < adv_headerLen then None
      else let dl = unat (be_word (take 2 (drop (6 + publicKeySize) b)) :: u16) in
        if length b < adv_headerLen + dl then None
        else Some \<lparr> ma_major = be_word (take 2 b), ma_minor = be_word (take 2 (drop 2 b)), ma_publicKey = take publicKeySize (drop 4 b),
          ma_port = be_word (take 2 (drop (4 + publicKeySize) b)), ma_hash = take dl (drop adv_headerLen b) \<rparr>)"

subsection \<open>Interfaces\<close>

record netInterface =
  if_name :: string
  if_up :: bool
  if_running :: bool
  if_multicast :: bool
  if_pointToPoint :: bool
  if_addrs :: "bytes option list option"

record multicastInterface =
  mi_regex :: "string \<Rightarrow> bool"
  mi_beacon :: bool
  mi_listen :: bool
  mi_port :: u16
  mi_priority :: byte
  mi_password :: bytes

record interfaceInfo =
  ii_iface :: netInterface
  ii_addrs :: "bytes list"
  ii_beacon :: bool
  ii_listen :: bool
  ii_port :: u16
  ii_priority :: byte
  ii_password :: bytes
  ii_hash :: bytes

text \<open>The inner loop: the first configuration that is enabled, matches and has a usable password.\<close>

fun configured_interface :: "blake2b \<Rightarrow> bytes \<Rightarrow> netInterface \<Rightarrow> multicastInterface list \<Rightarrow> interfaceInfo option" where
  "configured_interface b2 pk iface [] = None"
| "configured_interface b2 pk iface (ifcfg # cfgs) =
     (if \<not> mi_beacon ifcfg \<and> \<not> mi_listen ifcfg then configured_interface b2 pk iface cfgs
      else if \<not> mi_regex ifcfg (if_name iface) then configured_interface b2 pk iface cfgs
      else (case b2_keyed b2 (mi_password ifcfg) pk of
          None \<Rightarrow> configured_interface b2 pk iface cfgs
        | Some hash \<Rightarrow>
            if length pk \<noteq> publicKeySize then configured_interface b2 pk iface cfgs
            else Some \<lparr> ii_iface = iface, ii_addrs = [], ii_beacon = mi_beacon ifcfg, ii_listen = mi_listen ifcfg, ii_port = mi_port ifcfg,
              ii_priority = mi_priority ifcfg, ii_password = mi_password ifcfg, ii_hash = hash \<rparr>))"

definition usable_interface :: "netInterface \<Rightarrow> bool" where
  "usable_interface iface \<longleftrightarrow> if_up iface \<and> if_running iface \<and> if_multicast iface \<and> \<not> if_pointToPoint iface"

definition getAllowedInterfaces :: "blake2b \<Rightarrow> bytes \<Rightarrow> multicastInterface list \<Rightarrow> netInterface list option \<Rightarrow> (string, interfaceInfo) gomap" where
  "getAllowedInterfaces b2 pk cfgs allifaces =
     (case allifaces of
        None \<Rightarrow> []
      | Some ifaces \<Rightarrow>
          fold (\<lambda>iface m.
             if \<not> usable_interface iface then m
             else (case configured_interface b2 pk iface cfgs of None \<Rightarrow> m | Some info \<Rightarrow> m_set m (if_name iface) info)) ifaces [])"

definition ip_isV4 :: "bytes \<Rightarrow> bool" where
  "ip_isV4 ip \<longleftrightarrow> take 12 ip = replicate 10 0 @ [0xff, 0xff]"

definition ip_isLinkLocalUnicast :: "bytes \<Rightarrow> bool" where
  "ip_isLinkLocalUnicast ip \<longleftrightarrow> ip ! 0 = 0xfe \<and> ip ! 1 AND 0xc0 = 0x80"

definition linkLocal :: "bytes option \<Rightarrow> bytes list" where
  "linkLocal addr = (case addr of None \<Rightarrow> [] | Some ip \<Rightarrow> if ip_isV4 ip \<or> \<not> ip_isLinkLocalUnicast ip then [] else [ip])"

definition updateInterfaces :: "blake2b \<Rightarrow> bytes \<Rightarrow> multicastInterface list \<Rightarrow> netInterface list option \<Rightarrow> (string, interfaceInfo) gomap" where
  "updateInterfaces b2 pk cfgs allifaces =
     concat (map (\<lambda>(name, info). case if_addrs (ii_iface info) of
         None \<Rightarrow> []
       | Some addrs \<Rightarrow> [(name, info\<lparr> ii_addrs := ii_addrs info @ concat (map linkLocal addrs) \<rparr>)])
       (getAllowedInterfaces b2 pk cfgs allifaces))"

subsection \<open>Announcing\<close>

record listenerInfo =
  lr_addr :: bytes
  lr_port :: u16
  lr_time :: int
  lr_interval :: int

datatype multicastOutput = JoinGroup string | Beacon bytes string | StopListener string

record multicastState =
  ms_listeners :: "(string, listenerInfo) gomap"
  ms_out :: "multicastOutput list"

definition ms_emit :: "multicastOutput \<Rightarrow> multicastState \<Rightarrow> multicastState" where
  "ms_emit out s = s\<lparr> ms_out := ms_out s @ [out] \<rparr>"

text \<open>A listener is stopped when its interface is gone or has lost the address it listens on.\<close>

definition stop_listener :: "(string, interfaceInfo) gomap \<Rightarrow> string \<times> listenerInfo \<Rightarrow> multicastState \<Rightarrow> multicastState" where
  "stop_listener interfaces = (\<lambda>(name, l) s.
     if (case m_get interfaces name of None \<Rightarrow> False | Some info \<Rightarrow> lr_addr l \<in> set (ii_addrs info)) then s
     else (ms_emit (StopListener name) s)\<lparr> ms_listeners := m_del (ms_listeners s) name \<rparr>)"

definition beacon_for :: "bytes \<Rightarrow> interfaceInfo \<Rightarrow> listenerInfo \<Rightarrow> bytes" where
  "beacon_for pk info l = adv_MarshalBinary \<lparr> ma_major = ProtocolVersionMajor, ma_minor = ProtocolVersionMinor, ma_publicKey = pk,
     ma_port = lr_port l, ma_hash = ii_hash info \<rparr>"

text \<open>
  The loop over the addresses of one interface. \<open>listenLocal\<close> gives the address and port of a new listener on the
  address, the port and the name of the interface, or \<open>None\<close> for an error.
\<close>

fun announce_addrs :: "(bytes \<Rightarrow> u16 \<Rightarrow> string \<Rightarrow> (bytes \<times> u16) option) \<Rightarrow> bytes \<Rightarrow> int \<Rightarrow> interfaceInfo \<Rightarrow> bytes list \<Rightarrow> multicastState \<Rightarrow> multicastState" where
  "announce_addrs listenLocal pk now info [] s = s"
| "announce_addrs listenLocal pk now info (ip # ips) s =
     (let name = if_name (ii_iface info);
          s1 = (if ii_listen info then ms_emit (JoinGroup name) s else s)
      in if \<not> ii_beacon info then s1
         else let s2 = (case m_get (ms_listeners s1) name of
                  Some l \<Rightarrow> s1
                | None \<Rightarrow> (case listenLocal ip (ii_port info) name of
                    None \<Rightarrow> s1
                  | Some (addr, port) \<Rightarrow>
                      s1\<lparr> ms_listeners := m_set (ms_listeners s1) name \<lparr> lr_addr = addr, lr_port = port, lr_time = now, lr_interval = 0 \<rparr> \<rparr>))
              in case m_get (ms_listeners s2) name of
                   None \<Rightarrow> announce_addrs listenLocal pk now info ips s2
                 | Some l \<Rightarrow>
                     if time_sub now (lr_time l) < lr_interval l then announce_addrs listenLocal pk now info ips s2
                     else (ms_emit (Beacon (beacon_for pk info l) name) s2)
                       \<lparr> ms_listeners := m_set (ms_listeners s2) name
                           (l\<lparr> lr_interval := lr_interval l + (if lr_interval l < 15000000000 then 1000000000 else 0), lr_time := now \<rparr>) \<rparr>)"

definition announce :: "(bytes \<Rightarrow> u16 \<Rightarrow> string \<Rightarrow> (bytes \<times> u16) option) \<Rightarrow> bytes \<Rightarrow> int \<Rightarrow> (string, interfaceInfo) gomap \<Rightarrow> multicastState \<Rightarrow> multicastState" where
  "announce listenLocal pk now interfaces s =
     fold (\<lambda>(name, info). announce_addrs listenLocal pk now info (ii_addrs info)) interfaces
       (fold (stop_listener interfaces) (ms_listeners s) s)"

subsection \<open>Listening\<close>

definition chars :: "bytes \<Rightarrow> string" where
  "chars bs = map (\<lambda>b. char_of (unat b)) bs"

text \<open>The URL a beacon is dialled with; \<open>host\<close> is the address of the sender with the advertised port.\<close>

definition beacon_url :: "(string \<times> string list) list \<Rightarrow> string \<Rightarrow> string \<Rightarrow> url" where
  "beacon_url v encoded host = \<lparr> u_scheme = ''tls'', u_host = host, u_query = v, u_plain = ''tls://'' @ host, u_string = ''tls://'' @ host @ ''?'' @ encoded \<rparr>"

definition beacon_values :: "multicastAdvertisement \<Rightarrow> interfaceInfo \<Rightarrow> (string \<times> string list) list" where
  "beacon_values adv info = [(''key'', [hex_encode (ma_publicKey adv)]), (''priority'', [decimal (unat (ii_priority info))]), (''password'', [chars (ii_password info)])]"

text \<open>
  One pass of the loop: the URL to call and the interface, if the datagram is a beacon to follow. \<open>dst\<close> tells, when the
  system does, whether it was sent to a link-local multicast address and to the group.
\<close>

definition listen_beacon :: "(bool \<times> bool) option \<Rightarrow> blake2b \<Rightarrow> bytes \<Rightarrow> (string, interfaceInfo) gomap \<Rightarrow> (u16 \<Rightarrow> string) \<Rightarrow> ((string \<times> string list) list \<Rightarrow> string) \<Rightarrow> string \<Rightarrow> bytes \<Rightarrow> (url \<times> string) option" where
  "listen_beacon dst b2 pk interfaces hostWith encode zone bs =
     (if (case dst of None \<Rightarrow> False | Some (isMulticast, isGroup) \<Rightarrow> \<not> isMulticast \<or> \<not> isGroup) then None
      else case adv_UnmarshalBinary bs of
        None \<Rightarrow> None
      | Some adv \<Rightarrow>
          if ma_major adv \<noteq> ProtocolVersionMajor then None
          else if ma_minor adv \<noteq> ProtocolVersionMinor then None
          else if ma_publicKey adv = pk then None
          else (case m_get interfaces zone of
              None \<Rightarrow> None
            | Some info \<Rightarrow>
                if \<not> ii_listen info then None
                else (case b2_keyed b2 (ii_password info) (ma_publicKey adv) of
                    None \<Rightarrow> None
                  | Some hash \<Rightarrow>
                      if length (ma_publicKey adv) \<noteq> publicKeySize then None
                      else if hash \<noteq> ma_hash adv then None
                      else let v = beacon_values adv info in Some (beacon_url v (encode v) (hostWith (ma_port adv)), zone))))"

subsection \<open>What beacons promise\<close>

lemma hex_digit_char: "n < 10 \<Longrightarrow> (of_char (hex_digit n) :: nat) = 48 + n"
proof -
  assume "n < 10"
  then have "n \<in> {0, 1, 2, 3, 4, 5, 6, 7, 8, 9}" by simp presburger
  then show ?thesis by (auto simp: hex_digit_def)
qed

lemma parse_digits_append: "parse_digits (xs @ ys) n = (case parse_digits xs n of None \<Rightarrow> None | Some m \<Rightarrow> parse_digits ys m)"
  by (induction xs arbitrary: n) (simp_all add: Let_def)

lemma parse_decimal: "parse_digits (decimal n) 0 = Some n"
proof (induction n rule: decimal.induct)
  case (1 n)
  have "parse_digits [hex_digit (n mod 10)] m = Some (10 * m + n mod 10)" for m using hex_digit_char [of "n mod 10"] by (simp add: Let_def)
  then show ?case using 1 hex_digit_char [of n] by (subst decimal.simps) (auto simp: parse_digits_append Let_def)
qed

lemma decimal_nonempty: "decimal n \<noteq> []"
  by (subst decimal.simps) simp

lemma parseUint8_decimal: "parseUint8 (decimal (unat b)) = Some b"
proof -
  have "unat b \<le> 255" using unsigned_less [of b, where 'a = nat] by simp
  then show ?thesis by (simp add: parseUint8_def decimal_nonempty parse_decimal)
qed

lemma ascii_chars [simp]: "ascii (chars bs) = bs"
proof -
  have "of_char (char_of (unat b) :: char) = b" for b :: byte
  proof -
    have "unat b < 256" using unsigned_less [of b, where 'a = nat] by simp
    then have "of_nat (of_char (char_of (unat b) :: char) :: nat) = b" by (simp only: of_char_of) simp
    then show ?thesis by (simp only: of_nat_of_char)
  qed
  then show ?thesis by (simp add: ascii_def chars_def comp_def)
qed

lemma length_chars [simp]: "length (chars bs) = length bs" "chars bs = [] \<longleftrightarrow> bs = []"
  by (simp_all add: chars_def)

lemma lower_hex: "lower (hex_encode bs) = hex_encode bs"
proof -
  have "(let n = (of_char (hex_digit k) :: nat) in if 65 \<le> n \<and> n \<le> 90 then char_of (n + 32) else hex_digit k) = hex_digit k" for k
  proof -
    have "k mod 16 \<in> {0, 1, 2, 3, 4, 5, 6, 7, 8, 9, 10, 11, 12, 13, 14, 15}" by simp presburger
    then show ?thesis by (auto simp: hex_digit_def)
  qed
  then show ?thesis by (induction bs) (simp_all add: lower_def hex_encode_def)
qed

lemma adv_roundtrip:
  assumes "length (ma_publicKey m) = 32" "length (ma_hash m) < 2 ^ 16"
  shows "adv_UnmarshalBinary (adv_MarshalBinary m @ rest) = Some m"
proof -
  have "unat (of_nat (length (ma_hash m)) :: u16) = length (ma_hash m)" using assms(2) by (simp add: unat_of_nat take_bit_nat_eq_self)
  then show ?thesis using assms(1) by (simp add: adv_UnmarshalBinary_def adv_MarshalBinary_def adv_headerLen_def publicKeySize_def)
qed

lemma beacon_options:
  assumes "length (ma_publicKey adv) = 32" "length (ii_password info) \<le> 64"
  shows "\<exists>opts. link_options lib snis (beacon_url (beacon_values adv info) enc host) = Inr opts \<and> lo_pinned opts = [ma_publicKey adv]
    \<and> lo_priority opts = ii_priority info \<and> lo_password opts = ii_password info \<and> do_maxBackoff opts = defaultBackoffLimit"
proof -
  let ?u = "beacon_url (beacon_values adv info) enc host"
  have q: "query_all ?u ''key'' = [hex_encode (ma_publicKey adv)]" "query_get ?u ''priority'' = decimal (unat (ii_priority info))"
      "query_get ?u ''password'' = chars (ii_password info)" "query_get ?u ''maxbackoff'' = []"
    by (simp_all add: query_all_def query_get_def beacon_url_def beacon_values_def m_get0_def)
  have "pinned_keys (query_all ?u ''key'') [] [] = Inr ([ma_publicKey adv], [hex_encode (ma_publicKey adv)])"
    unfolding q using assms(1) by (simp add: Let_def lower_hex set_add_def publicKeySize_def copy_array_def)
  moreover have "option_priority ?u = Inr (ii_priority info)" unfolding option_priority_def q by (simp add: decimal_nonempty parseUint8_decimal)
  moreover have "option_password ?u = Inr (ii_password info)"
    unfolding option_password_def q using assms(2) by (simp add: Let_def blake2bSize_def)
  moreover have "option_maxBackoff lib ?u = Inr defaultBackoffLimit" unfolding option_maxBackoff_def q by simp
  ultimately show ?thesis by (simp add: link_options_def)
qed

lemma configured_hash: "configured_interface b2 pk iface cfgs = Some info \<Longrightarrow> b2_keyed b2 (ii_password info) pk = Some (ii_hash info) \<and> length pk = 32 \<and> ii_iface info = iface"
  by (induction cfgs) (auto simp: publicKeySize_def split: if_splits option.splits)

lemma allowed_hash:
  assumes "(name, info) \<in> set (getAllowedInterfaces b2 pk cfgs allifaces)"
  shows "b2_keyed b2 (ii_password info) pk = Some (ii_hash info) \<and> usable_interface (ii_iface info) \<and> if_name (ii_iface info) = name"
proof -
  let ?P = "\<lambda>m :: (string, interfaceInfo) gomap. \<forall>(n, i) \<in> set m. b2_keyed b2 (ii_password i) pk = Some (ii_hash i) \<and> usable_interface (ii_iface i) \<and> if_name (ii_iface i) = n"
  have set: "set (m_set m k v) \<subseteq> insert (k, v) (set m)" for m :: "(string, interfaceInfo) gomap" and k v
    by (induction m) auto
  have "?P (fold (\<lambda>iface m. if \<not> usable_interface iface then m
      else (case configured_interface b2 pk iface cfgs of None \<Rightarrow> m | Some info \<Rightarrow> m_set m (if_name iface) info)) ifaces [])" for ifaces
  proof (rule fold_inv)
    fix iface and m :: "(string, interfaceInfo) gomap" assume m: "?P m"
    show "?P (if \<not> usable_interface iface then m else (case configured_interface b2 pk iface cfgs of None \<Rightarrow> m | Some info \<Rightarrow> m_set m (if_name iface) info))"
    proof (cases "usable_interface iface"; cases "configured_interface b2 pk iface cfgs")
      fix i assume "usable_interface iface" "configured_interface b2 pk iface cfgs = Some i"
      then show ?thesis using m set [where m = m and k = "if_name iface" and v = i] configured_hash [of b2 pk iface cfgs i] by auto
    qed (use m in simp_all)
  qed simp
  then show ?thesis using assms by (cases allifaces) (auto simp: getAllowedInterfaces_def)
qed

lemma update_hash: "(name, info) \<in> set (updateInterfaces b2 pk cfgs allifaces) \<Longrightarrow> b2_keyed b2 (ii_password info) pk = Some (ii_hash info)"
  using allowed_hash by (fastforce simp: updateInterfaces_def split: option.splits)

lemma allowed_distinct: "m_ok (getAllowedInterfaces b2 pk cfgs allifaces)"
proof -
  have "m_ok (fold (\<lambda>iface m. if \<not> usable_interface iface then m
      else (case configured_interface b2 pk iface cfgs of None \<Rightarrow> m | Some info \<Rightarrow> m_set m (if_name iface) info)) ifaces [])" for ifaces
    by (rule fold_inv) (simp_all split: option.split)
  then show ?thesis by (simp add: getAllowedInterfaces_def split: option.split)
qed

lemma update_names:
  "m_ok (updateInterfaces b2 pk cfgs allifaces)"
  "(name, info) \<in> set (updateInterfaces b2 pk cfgs allifaces) \<Longrightarrow> if_name (ii_iface info) = name"
proof -
  let ?f = "\<lambda>(name, info). case if_addrs (ii_iface info) of
         None \<Rightarrow> []
       | Some addrs \<Rightarrow> [(name, info\<lparr> ii_addrs := ii_addrs info @ concat (map linkLocal addrs) \<rparr>)]"
  have key: "fst y = fst x" if "y \<in> set (?f x)" for x y using that by (cases x) (auto split: option.splits)
  have sub: "fst ` set (concat (map ?f m)) \<subseteq> fst ` set m" for m
  proof
    fix k assume "k \<in> fst ` set (concat (map ?f m))"
    then obtain y x where y: "x \<in> set m" "y \<in> set (?f x)" "k = fst y" unfolding set_concat set_map by blast
    then show "k \<in> fst ` set m" using key [OF y(2)] by (simp only: image_eqI)
  qed
  have "m_ok (concat (map ?f m))" if "m_ok m" for m
    using that
  proof (induction m)
    case (Cons x m)
    then show ?case using sub [of m] by (cases x) (auto split: option.splits)
  qed simp
  then show "m_ok (updateInterfaces b2 pk cfgs allifaces)" unfolding updateInterfaces_def using allowed_distinct by blast
  show "if_name (ii_iface info) = name" if "(name, info) \<in> set (updateInterfaces b2 pk cfgs allifaces)"
    using that allowed_hash [of _ _ b2 pk cfgs allifaces] by (fastforce simp: updateInterfaces_def split: option.splits)
qed

text \<open>What is announced: beacons for the interfaces at hand, with the ports of the listeners that are kept.\<close>

definition old_or_beacon :: "bytes \<Rightarrow> interfaceInfo \<Rightarrow> multicastState \<Rightarrow> multicastState \<Rightarrow> bool" where
  "old_or_beacon pk info s s' \<longleftrightarrow>
     (\<forall>msg name. Beacon msg name \<in> set (ms_out s') \<longrightarrow> Beacon msg name \<in> set (ms_out s)
        \<or> name = if_name (ii_iface info) \<and> (\<exists>l. m_get (ms_listeners s') name = Some l \<and> msg = beacon_for pk info l))
     \<and> (\<forall>n. n \<noteq> if_name (ii_iface info) \<longrightarrow> m_get (ms_listeners s') n = m_get (ms_listeners s) n)"

lemma announce_addrs_out: "old_or_beacon pk info s (announce_addrs ll pk now info ips s)"
proof (induction ips arbitrary: s)
  case (Cons ip ips)
  let ?name = "if_name (ii_iface info)"
  define s1 where "s1 = (if ii_listen info then ms_emit (JoinGroup ?name) s else s)"
  define s2 where "s2 = (case m_get (ms_listeners s1) ?name of
                  Some l \<Rightarrow> s1
                | None \<Rightarrow> (case ll ip (ii_port info) ?name of
                    None \<Rightarrow> s1
                  | Some (addr, port) \<Rightarrow>
                      s1\<lparr> ms_listeners := m_set (ms_listeners s1) ?name \<lparr> lr_addr = addr, lr_port = port, lr_time = now, lr_interval = 0 \<rparr> \<rparr>))"
  have s1: "Beacon msg name \<in> set (ms_out s1) \<longleftrightarrow> Beacon msg name \<in> set (ms_out s)" "ms_listeners s1 = ms_listeners s" for msg name
    by (auto simp: s1_def ms_emit_def)
  have s2: "ms_out s2 = ms_out s1" "n \<noteq> ?name \<Longrightarrow> m_get (ms_listeners s2) n = m_get (ms_listeners s) n" for n
    unfolding s2_def using s1(2) by (simp_all split: option.split prod.split)
  have first: "old_or_beacon pk info s s1" using s1 by (simp add: old_or_beacon_def)
  have rest: "old_or_beacon pk info s (announce_addrs ll pk now info ips s2)"
    using Cons.IH [of s2] s1(1) s2 unfolding old_or_beacon_def by simp
  have new: "old_or_beacon pk info s (ms_emit (Beacon (beacon_for pk info l) ?name) s2
      \<lparr> ms_listeners := m_set (ms_listeners s2) ?name (l\<lparr> lr_interval := x, lr_time := y \<rparr>) \<rparr>)" for l x y
    using s1(1) s2 by (auto simp: old_or_beacon_def ms_emit_def beacon_for_def)
  show ?case
    unfolding announce_addrs.simps Let_def s1_def [symmetric] s2_def [symmetric]
    by (simp add: first rest new split: option.split)
qed (simp add: old_or_beacon_def)

lemma announce_infos_out:
  assumes "m_ok infos" "\<forall>(n, info) \<in> set infos. if_name (ii_iface info) = n"
    and t': "t' = fold (\<lambda>(n, info). announce_addrs ll pk now info (ii_addrs info)) infos t"
  shows "(\<forall>n. n \<notin> fst ` set infos \<longrightarrow> m_get (ms_listeners t') n = m_get (ms_listeners t) n)
    \<and> (\<forall>msg name. Beacon msg name \<in> set (ms_out t') \<longrightarrow> Beacon msg name \<in> set (ms_out t)
        \<or> (\<exists>info l. (name, info) \<in> set infos \<and> m_get (ms_listeners t') name = Some l \<and> msg = beacon_for pk info l))"
  using assms
proof (induction infos arbitrary: t)
  case (Cons x infos)
  obtain n info where x: "x = (n, info)" by (cases x)
  define t1 where "t1 = announce_addrs ll pk now info (ii_addrs info) t"
  have name: "if_name (ii_iface info) = n" "n \<notin> fst ` set infos" using Cons.prems(1,2) x by auto
  have one: "old_or_beacon pk info t t1" unfolding t1_def by (rule announce_addrs_out)
  have IH: "\<forall>n. n \<notin> fst ` set infos \<longrightarrow> m_get (ms_listeners t') n = m_get (ms_listeners t1) n"
    "\<forall>msg name. Beacon msg name \<in> set (ms_out t') \<longrightarrow> Beacon msg name \<in> set (ms_out t1)
        \<or> (\<exists>info l. (name, info) \<in> set infos \<and> m_get (ms_listeners t') name = Some l \<and> msg = beacon_for pk info l)"
    using Cons.IH [of t1] Cons.prems x by (simp_all add: t1_def)
  show ?case
    using one IH name x unfolding old_or_beacon_def by (intro conjI allI impI) (simp, metis list.set_intros)
qed simp

lemma announce_out:
  assumes "m_ok interfaces" "\<forall>(n, info) \<in> set interfaces. if_name (ii_iface info) = n" "ms_out s = []"
    and "Beacon msg name \<in> set (ms_out (announce ll pk now interfaces s))"
  shows "\<exists>info l. (name, info) \<in> set interfaces \<and> m_get (ms_listeners (announce ll pk now interfaces s)) name = Some l \<and> msg = beacon_for pk info l"
proof -
  have "Beacon msg name \<in> set (ms_out (fold (stop_listener interfaces) ls t)) \<longrightarrow> Beacon msg name \<in> set (ms_out t)" for ls t
  proof (induction ls arbitrary: t)
    case (Cons x ls)
    have "Beacon msg name \<in> set (ms_out (stop_listener interfaces x t)) \<longrightarrow> Beacon msg name \<in> set (ms_out t)"
      by (cases x) (simp add: stop_listener_def ms_emit_def)
    then show ?case using Cons [of "stop_listener interfaces x t"] by simp
  qed simp
  then have "Beacon msg name \<notin> set (ms_out (fold (stop_listener interfaces) (ms_listeners s) s))" using assms(3) by fastforce
  then show ?thesis
    using announce_infos_out [OF assms(1,2) refl, where t = "fold (stop_listener interfaces) (ms_listeners s) s"] assms(4) unfolding announce_def by blast
qed

lemma keyed_password: "b2_correct b2 \<Longrightarrow> b2_keyed b2 pw msg = Some h \<Longrightarrow> length pw \<le> 64 \<and> length h = 64"
  unfolding b2_correct_def by (metis linorder_not_less option.distinct(1))

text \<open>
  Beacons are followed only when they should be: the datagram parses, has our version, is not our own, came in
  on an interface that listens, and its hash is made with the password of that interface; then the link that is
  started pins exactly the advertised key and uses the password and the priority of the interface.
\<close>

theorem beacon_followed:
  assumes "b2_correct b2" "listen_beacon dst b2 pk interfaces hostWith encode zone bs = Some (u, sintf)"
  shows "\<exists>adv info opts. adv_UnmarshalBinary bs = Some adv \<and> ma_major adv = ProtocolVersionMajor \<and> ma_minor adv = ProtocolVersionMinor \<and> ma_publicKey adv \<noteq> pk
    \<and> sintf = zone \<and> m_get interfaces zone = Some info \<and> ii_listen info \<and> b2_keyed b2 (ii_password info) (ma_publicKey adv) = Some (ma_hash adv)
    \<and> link_options lib snis u = Inr opts \<and> lo_pinned opts = [ma_publicKey adv] \<and> lo_priority opts = ii_priority info \<and> lo_password opts = ii_password info"
proof -
  obtain adv info where h: "adv_UnmarshalBinary bs = Some adv" "ma_major adv = ProtocolVersionMajor" "ma_minor adv = ProtocolVersionMinor" "ma_publicKey adv \<noteq> pk"
      "m_get interfaces zone = Some info" "ii_listen info" "b2_keyed b2 (ii_password info) (ma_publicKey adv) = Some (ma_hash adv)" "length (ma_publicKey adv) = 32"
      "sintf = zone" "u = beacon_url (beacon_values adv info) (encode (beacon_values adv info)) (hostWith (ma_port adv))"
    using assms(2) by (auto simp: listen_beacon_def publicKeySize_def Let_def split: option.splits if_splits)
  have "length (ii_password info) \<le> 64" using keyed_password [OF assms(1) h(7)] by simp
  from beacon_options [OF h(8) this, where lib = lib and snis = snis] h show ?thesis by blast
qed

text \<open>
  C18. Nodes on the same network find each other: every beacon that a node announces on an interface carries the port of
  the listener it keeps there, and each other node that listens with the password of that interface follows it, if
  the datagram was sent to the multicast group as far as its system tells: it dials the sender at that port, with
  the key of the announcing node pinned and the password and priority of its own interface.
\<close>

theorem beacons_meet:
  assumes "b2_correct b2" "length pk = 32" "pk' \<noteq> pk" "ms_out s = []"
    and "Beacon msg name \<in> set (ms_out (announce listenLocal pk now (updateInterfaces b2 pk cfgs allifaces) s))"
    and "m_get interfaces zone = Some info" "ii_listen info"
    and "m_get (updateInterfaces b2 pk cfgs allifaces) name = Some i" "ii_password i = ii_password info"
  shows "\<exists>l u opts. m_get (ms_listeners (announce listenLocal pk now (updateInterfaces b2 pk cfgs allifaces) s)) name = Some l
    \<and> (\<forall>dst. listen_beacon dst b2 pk' interfaces hostWith encode zone msg = (if dst = None \<or> dst = Some (True, True) then Some (u, zone) else None))
    \<and> u_host u = hostWith (lr_port l) \<and> link_options lib snis u = Inr opts \<and> lo_pinned opts = [pk]
    \<and> lo_password opts = ii_password info \<and> lo_priority opts = ii_priority info"
proof -
  have names: "\<forall>(n, info) \<in> set (updateInterfaces b2 pk cfgs allifaces). if_name (ii_iface info) = n" using update_names(2) by blast
  obtain i' l where i': "(name, i') \<in> set (updateInterfaces b2 pk cfgs allifaces)" "msg = beacon_for pk i' l"
      "m_get (ms_listeners (announce listenLocal pk now (updateInterfaces b2 pk cfgs allifaces) s)) name = Some l"
    using announce_out [OF update_names(1) names assms(4,5)] by blast
  then have [simp]: "i' = i" using assms(8) update_names(1) by simp
  define adv where "adv = \<lparr> ma_major = ProtocolVersionMajor, ma_minor = ProtocolVersionMinor, ma_publicKey = pk, ma_port = lr_port l, ma_hash = ii_hash i \<rparr>"
  have h: "b2_keyed b2 (ii_password info) pk = Some (ii_hash i)" using update_hash [OF i'(1)] assms(9) by simp
  have len: "length (ii_hash i) = 64" "length (ii_password info) \<le> 64" using keyed_password [OF assms(1) h] by auto
  then have a: "adv_UnmarshalBinary msg = Some adv" using adv_roundtrip [of adv "[]"] assms(2) i'(2) by (simp add: beacon_for_def adv_def)
  let ?u = "beacon_url (beacon_values adv info) (encode (beacon_values adv info)) (hostWith (lr_port l))"
  have "listen_beacon dst b2 pk' interfaces hostWith encode zone msg = (if dst = None \<or> dst = Some (True, True) then Some (?u, zone) else None)" for dst
    using a h assms(2,3,6,7) by (auto simp: listen_beacon_def publicKeySize_def Let_def adv_def split: option.split)
  moreover obtain opts where "link_options lib snis ?u = Inr opts" "lo_pinned opts = [pk]" "lo_password opts = ii_password info" "lo_priority opts = ii_priority info"
    using beacon_options [of adv info lib snis "encode (beacon_values adv info)" "hostWith (lr_port l)"] assms(2) len(2) by (auto simp: adv_def)
  moreover have "u_host ?u = hostWith (lr_port l)" by (simp add: beacon_url_def)
  ultimately show ?thesis using i'(3) by blast
qed

subsection \<open>A sample network\<close>

definition sample_iface :: netInterface where
  "sample_iface = \<lparr> if_name = ''eth0'', if_up = True, if_running = True, if_multicast = True, if_pointToPoint = False,
     if_addrs = Some [Some (replicate 16 0), Some ([0xfe, 0x80] @ replicate 14 1)] \<rparr>"

definition sample_mcfg :: multicastInterface where
  "sample_mcfg = \<lparr> mi_regex = (\<lambda>_. True), mi_beacon = True, mi_listen = True, mi_port = 0, mi_priority = 3, mi_password = [112] \<rparr>"

definition sample_interfaces :: "bytes \<Rightarrow> (string, interfaceInfo) gomap" where
  "sample_interfaces pk = updateInterfaces sample_b2 pk [sample_mcfg] (Some [sample_iface])"

lemma sample_interfaces_eq:
  assumes "length pk = 32"
  shows "\<exists>hash. sample_interfaces pk = [(''eth0'', \<lparr> ii_iface = sample_iface, ii_addrs = [[0xfe, 0x80] @ replicate 14 1], ii_beacon = True, ii_listen = True,
    ii_port = 0, ii_priority = 3, ii_password = [112], ii_hash = hash \<rparr>)]"
proof -
  obtain hash where h: "b2_keyed sample_b2 [112] pk = Some hash" by (simp add: sample_b2_def)
  have "linkLocal (Some (replicate 16 0)) = []" "linkLocal (Some ([0xfe, 0x80] @ replicate 14 1)) = [[0xfe, 0x80] @ replicate 14 1]"
    by (simp_all add: linkLocal_def ip_isV4_def ip_isLinkLocalUnicast_def) (simp add: numeral_eq_Suc)
  then show ?thesis using assms h
    by (simp add: sample_interfaces_def updateInterfaces_def getAllowedInterfaces_def usable_interface_def sample_iface_def sample_mcfg_def publicKeySize_def)
qed

lemma sample_announced:
  assumes "length pk = 32"
  shows "\<exists>msg. Beacon msg ''eth0'' \<in> set (ms_out (announce (\<lambda>ip port name. Some (ip, 9001)) pk 5 (sample_interfaces pk) \<lparr> ms_listeners = [], ms_out = [] \<rparr>))"
proof -
  obtain hash where "sample_interfaces pk = [(''eth0'', \<lparr> ii_iface = sample_iface, ii_addrs = [[0xfe, 0x80] @ replicate 14 1], ii_beacon = True, ii_listen = True,
    ii_port = 0, ii_priority = 3, ii_password = [112], ii_hash = hash \<rparr>)]" using sample_interfaces_eq [OF assms] by blast
  moreover have "if_name sample_iface = ''eth0''" by (simp add: sample_iface_def)
  ultimately show ?thesis by (simp add: announce_def ms_emit_def Let_def time_sub_def)
qed

theorem beacons_meet_witness:
  "\<exists>msg l u opts. Beacon msg ''eth0'' \<in> set (ms_out (announce (\<lambda>ip port name. Some (ip, 9001)) (replicate 32 1) 5 (sample_interfaces (replicate 32 1)) \<lparr> ms_listeners = [], ms_out = [] \<rparr>))
    \<and> m_get (ms_listeners (announce (\<lambda>ip port name. Some (ip, 9001)) (replicate 32 1) 5 (sample_interfaces (replicate 32 1)) \<lparr> ms_listeners = [], ms_out = [] \<rparr>)) ''eth0'' = Some l
    \<and> listen_beacon (Some (True, True)) sample_b2 (replicate 32 2) (sample_interfaces (replicate 32 2)) (\<lambda>port. decimal (unat port)) (\<lambda>v. []) ''eth0'' msg = Some (u, ''eth0'')
    \<and> u_host u = decimal (unat (lr_port l)) \<and> link_options sample_lib [] u = Inr opts \<and> lo_pinned opts = [replicate 32 1] \<and> lo_priority opts = 3"
proof -
  let ?a = "replicate 32 1 :: bytes" and ?b = "replicate 32 2 :: bytes"
  have l: "length ?a = 32" "length ?b = 32" "?b \<noteq> ?a" by simp_all
  obtain msg where msg: "Beacon msg ''eth0'' \<in> set (ms_out (announce (\<lambda>ip port name. Some (ip, 9001)) ?a 5 (sample_interfaces ?a) \<lparr> ms_listeners = [], ms_out = [] \<rparr>))"
    using sample_announced [OF l(1)] by blast
  obtain info where info: "m_get (sample_interfaces ?b) ''eth0'' = Some info" "ii_listen info" "ii_password info = [112]" "ii_priority info = 3"
    using sample_interfaces_eq [OF l(2)] by auto
  obtain i where i: "m_get (sample_interfaces ?a) ''eth0'' = Some i" "ii_password i = ii_password info" using sample_interfaces_eq [OF l(1)] info(3) by auto
  have e: "ms_out \<lparr> ms_listeners = [], ms_out = [] \<rparr> = []" by simp
  from beacons_meet [OF b2_correct_sample l(1,3) e msg [unfolded sample_interfaces_def] info(1,2) i [unfolded sample_interfaces_def],
      where hostWith = "\<lambda>port. decimal (unat port)" and encode = "\<lambda>v. []" and lib = sample_lib and snis = "[]"] msg info(4)
  show ?thesis unfolding sample_interfaces_def by (metis (no_types, lifting))
qed

theorem beacon_followed_witness:
  "\<exists>msg u opts. listen_beacon None sample_b2 (replicate 32 2) (sample_interfaces (replicate 32 2)) (\<lambda>port. ''host'') (\<lambda>v. []) ''eth0'' msg = Some (u, ''eth0'')
    \<and> link_options sample_lib [] u = Inr opts \<and> lo_password opts = [112]"
proof -
  let ?a = "replicate 32 1 :: bytes" and ?b = "replicate 32 2 :: bytes"
  have l: "length ?a = 32" "length ?b = 32" by simp_all
  obtain info where info: "m_get (sample_interfaces ?b) ''eth0'' = Some info" "ii_listen info" "ii_password info = [112]"
    using sample_interfaces_eq [OF l(2)] by auto
  obtain hash where h: "b2_keyed sample_b2 [112] ?a = Some hash" by (simp add: sample_b2_def)
  define adv where "adv = \<lparr> ma_major = ProtocolVersionMajor, ma_minor = ProtocolVersionMinor, ma_publicKey = ?a, ma_port = 9, ma_hash = hash \<rparr>"
  have a: "adv_UnmarshalBinary (adv_MarshalBinary adv) = Some adv" using adv_roundtrip [of adv "[]"] keyed_password [OF b2_correct_sample h] by (simp add: adv_def)
  have r: "listen_beacon None sample_b2 ?b (sample_interfaces ?b) (\<lambda>port. ''host'') (\<lambda>v. []) ''eth0'' (adv_MarshalBinary adv)
      = Some (beacon_url (beacon_values adv info) [] ''host'', ''eth0'')"
    using a h info by (simp add: listen_beacon_def Let_def) (simp add: adv_def publicKeySize_def)
  from beacon_followed [OF b2_correct_sample r, of sample_lib "[]"] info(1,3)
  obtain opts where "link_options sample_lib [] (beacon_url (beacon_values adv info) [] ''host'') = Inr opts" "lo_password opts = [112]" by fastforce
  with r show ?thesis by blast
qed

end
