(* ===== verification/WebUI.thy ===== *)
theory WebUI
  imports LinkSetup
begin

text \<open>
  \<^verbatim>\<open>src/webui/server.go\<close>: logins, sessions and the blocking of addresses that guess passwords.
  \<^item> A request is given by the parts the handlers read; its body is the decoded password, \<open>None\<close> when it does not
    decode. \<open>hr_remote\<close> is the host part of the remote address, \<open>[]\<close> when it cannot be split.
  \<^item> The random bytes of a session identifier are an argument (\<open>None\<close> when the generator fails).
  \<^item> Handlers of different requests interleave. A login is two steps, because each takes the lock on the failed
    attempts once: the check whether the address is blocked, and, after the body was read, the comparison with
    the recording of its outcome. The table of sessions has a lock of its own, and nothing reads both tables in
    one step. The deletion of an expired session that a check starts is a step of its own.
\<close>

record failedLogin =
  fl_count :: int
  fl_last :: int
  fl_blockedUntil :: int

record webui =
  wu_password :: string
  wu_sessions :: "(string, int) gomap"
  wu_failed :: "(string, failedLogin) gomap"

definition MaxFailedAttempts :: int where "MaxFailedAttempts = 3"
definition BlockDuration :: int where "BlockDuration = 60000000000"
definition AttemptWindow :: int where "AttemptWindow = 15 * 60000000000"
definition sessionLifetime :: int where "sessionLifetime = 24 * 60 * 60000000000"

definition webui_Server :: "string \<Rightarrow> webui" where
  "webui_Server password = \<lparr> wu_password = password, wu_sessions = [], wu_failed = [] \<rparr>"

record httpRequest =
  hr_method :: string
  hr_path :: string
  hr_forwarded :: string
  hr_realIP :: string
  hr_remote :: string
  hr_cookie :: "string option"
  hr_body :: "string option"

datatype httpReply =
    MethodNotAllowed | TooManyRequests | BadRequest | InvalidPasswordReply | LoggedIn string | LoggedOut
  | RedirectTo string | UnauthorizedReply | Served

subsection \<open>Sessions\<close>

definition generateSessionID :: "bytes option \<Rightarrow> int \<Rightarrow> string" where
  "generateSessionID rnd now = (case rnd of None \<Rightarrow> hex_encode (ascii (decimal (nat now))) | Some bs \<Rightarrow> hex_encode bs)"

definition isValidSession :: "int \<Rightarrow> string \<Rightarrow> webui \<Rightarrow> bool" where
  "isValidSession now sessionID w =
     (case m_get (wu_sessions w) sessionID of None \<Rightarrow> False | Some expiry \<Rightarrow> \<not> expiry < now)"

text \<open>The goroutine of \<open>isValidSession\<close>.\<close>

definition dropSession :: "string \<Rightarrow> webui \<Rightarrow> webui" where
  "dropSession sessionID w = w\<lparr> wu_sessions := m_del (wu_sessions w) sessionID \<rparr>"

definition createSession :: "bytes option \<Rightarrow> int \<Rightarrow> webui \<Rightarrow> string \<times> webui" where
  "createSession rnd now w =
     (let sessionID = generateSessionID rnd now
      in (sessionID, w\<lparr> wu_sessions := m_set (wu_sessions w) sessionID (now + sessionLifetime) \<rparr>))"

definition cleanupExpiredSessions :: "int \<Rightarrow> webui \<Rightarrow> webui" where
  "cleanupExpiredSessions now w = w\<lparr> wu_sessions := filter (\<lambda>(sessionID, expiry). \<not> expiry < now) (wu_sessions w) \<rparr>"

subsection \<open>Failed attempts\<close>

definition getClientIP :: "httpRequest \<Rightarrow> string" where
  "getClientIP r =
     (if hr_forwarded r \<noteq> [] then trimSpace (takeWhile (\<lambda>c. c \<noteq> CHR '','') (hr_forwarded r))
      else if hr_realIP r \<noteq> [] then hr_realIP r
      else hr_remote r)"

definition isIPBlocked :: "int \<Rightarrow> string \<Rightarrow> webui \<Rightarrow> bool" where
  "isIPBlocked now ip w = (case m_get (wu_failed w) ip of None \<Rightarrow> False | Some info \<Rightarrow> now < fl_blockedUntil info)"

definition record_attempt :: "int \<Rightarrow> failedLogin option \<Rightarrow> failedLogin" where
  "record_attempt now found =
     (let info = (case found of None \<Rightarrow> \<lparr> fl_count = 0, fl_last = zero_time, fl_blockedUntil = zero_time \<rparr> | Some i \<Rightarrow> i);
          count = (if AttemptWindow < time_sub now (fl_last info) then 0 else fl_count info) + 1
      in \<lparr> fl_count = count, fl_last = now, fl_blockedUntil = (if MaxFailedAttempts \<le> count then now + BlockDuration else fl_blockedUntil info) \<rparr>)"

definition recordFailedAttempt :: "int \<Rightarrow> string \<Rightarrow> webui \<Rightarrow> webui" where
  "recordFailedAttempt now ip w = w\<lparr> wu_failed := m_set (wu_failed w) ip (record_attempt now (m_get (wu_failed w) ip)) \<rparr>"

definition clearFailedAttempts :: "string \<Rightarrow> webui \<Rightarrow> webui" where
  "clearFailedAttempts ip w = w\<lparr> wu_failed := m_del (wu_failed w) ip \<rparr>"

definition stale_attempt :: "int \<Rightarrow> failedLogin \<Rightarrow> bool" where
  "stale_attempt now info \<longleftrightarrow> fl_blockedUntil info < now \<and> AttemptWindow < time_sub now (fl_last info)"

definition cleanupFailedAttempts :: "int \<Rightarrow> webui \<Rightarrow> webui" where
  "cleanupFailedAttempts now w = w\<lparr> wu_failed := filter (\<lambda>(ip, info). \<not> stale_attempt now info) (wu_failed w) \<rparr>"

subsection \<open>Handlers\<close>

definition has_prefix :: "string \<Rightarrow> string \<Rightarrow> bool" where
  "has_prefix s p \<longleftrightarrow> take (length p) s = p"

definition authMiddleware :: "int \<Rightarrow> httpRequest \<Rightarrow> webui \<Rightarrow> httpReply" where
  "authMiddleware now r w =
     (if wu_password w = [] then (if hr_path r = ''/login.html'' then RedirectTo ''/'' else Served)
      else if (case hr_cookie r of None \<Rightarrow> True | Some c \<Rightarrow> \<not> isValidSession now c w) then
        (if hr_path r = ''/login.html'' \<or> has_prefix (hr_path r) ''/auth/'' then Served
         else if has_prefix (hr_path r) ''/api/'' then UnauthorizedReply
         else RedirectTo ''/login.html'')
      else Served)"

text \<open>\<open>loginHandler\<close> up to the check of the address: the reply of a request that is turned away.\<close>

definition login_check :: "int \<Rightarrow> httpRequest \<Rightarrow> webui \<Rightarrow> httpReply option" where
  "login_check now r w =
     (if hr_method r \<noteq> ''POST'' then Some MethodNotAllowed
      else if isIPBlocked now (getClientIP r) w then Some TooManyRequests
      else None)"

text \<open>The rest of it.\<close>

definition login_compare :: "int \<Rightarrow> bytes option \<Rightarrow> httpRequest \<Rightarrow> webui \<Rightarrow> httpReply \<times> webui" where
  "login_compare now rnd r w =
     (case hr_body r of
        None \<Rightarrow> (BadRequest, w)
      | Some password \<Rightarrow>
          if password \<noteq> wu_password w then (InvalidPasswordReply, recordFailedAttempt now (getClientIP r) w)
          else (case createSession rnd now (clearFailedAttempts (getClientIP r) w) of (sessionID, w') \<Rightarrow> (LoggedIn sessionID, w')))"

text \<open>A login that no other request interrupts.\<close>

definition loginHandler :: "int \<Rightarrow> bytes option \<Rightarrow> httpRequest \<Rightarrow> webui \<Rightarrow> httpReply \<times> webui" where
  "loginHandler now rnd r w = (case login_check now r w of Some reply \<Rightarrow> (reply, w) | None \<Rightarrow> login_compare now rnd r w)"

definition logoutHandler :: "httpRequest \<Rightarrow> webui \<Rightarrow> httpReply \<times> webui" where
  "logoutHandler r w = (LoggedOut, case hr_cookie r of None \<Rightarrow> w | Some c \<Rightarrow> w\<lparr> wu_sessions := m_del (wu_sessions w) c \<rparr>)"

subsection \<open>Runs\<close>

text \<open>The server with the logins that have passed their check and not yet compared their password.\<close>

record webRun =
  wr_server :: webui
  wr_passed :: "httpRequest list"

definition web_start :: "string \<Rightarrow> webRun" where
  "web_start password = \<lparr> wr_server = webui_Server password, wr_passed = [] \<rparr>"

datatype webEvent =
    WebLoginCheck int httpRequest | WebLogin int "bytes option" httpRequest | WebLogout httpRequest | WebDrop string
  | WebCleanSessions int | WebCleanAttempts int

fun web_act :: "webEvent \<Rightarrow> webRun \<Rightarrow> webRun" where
  "web_act (WebLoginCheck now r) s = (if login_check now r (wr_server s) = None then s\<lparr> wr_passed := r # wr_passed s \<rparr> else s)"
| "web_act (WebLogin now rnd r) s =
     (if r \<in> set (wr_passed s)
      then \<lparr> wr_server = snd (login_compare now rnd r (wr_server s)), wr_passed = remove1 r (wr_passed s) \<rparr> else s)"
| "web_act (WebLogout r) s = s\<lparr> wr_server := snd (logoutHandler r (wr_server s)) \<rparr>"
| "web_act (WebDrop sessionID) s = s\<lparr> wr_server := dropSession sessionID (wr_server s) \<rparr>"
| "web_act (WebCleanSessions now) s = s\<lparr> wr_server := cleanupExpiredSessions now (wr_server s) \<rparr>"
| "web_act (WebCleanAttempts now) s = s\<lparr> wr_server := cleanupFailedAttempts now (wr_server s) \<rparr>"

text \<open>The reply to a login that compares its password.\<close>

definition compare_reply :: "int \<Rightarrow> bytes option \<Rightarrow> httpRequest \<Rightarrow> webRun \<Rightarrow> httpReply option" where
  "compare_reply now rnd r s = (if r \<in> set (wr_passed s) then Some (fst (login_compare now rnd r (wr_server s))) else None)"

fun web_asked :: "webEvent \<Rightarrow> webRun \<Rightarrow> string \<Rightarrow> int option" where
  "web_asked (WebLogin now rnd r) s k = (if compare_reply now rnd r s = Some (LoggedIn k) then Some (now + sessionLifetime) else None)"
| "web_asked _ s k = None"

fun web_settles :: "webEvent \<Rightarrow> string \<Rightarrow> int \<Rightarrow> bool" where
  "web_settles (WebLogout r) k expiry = (hr_cookie r = Some k)"
| "web_settles (WebDrop sessionID) k expiry = (k = sessionID)"
| "web_settles (WebCleanSessions now) k expiry = (expiry < now)"
| "web_settles _ k expiry = False"

lemmas web_defs = login_compare_def logoutHandler_def dropSession_def cleanupExpiredSessions_def cleanupFailedAttempts_def
  createSession_def recordFailedAttempt_def clearFailedAttempts_def compare_reply_def

subsection \<open>Protected pages\<close>

interpretation ses: answer_table web_act "\<lambda>s. m_get (wu_sessions (wr_server s))" web_asked web_settles "\<lambda>s. m_ok (wu_sessions (wr_server s))"
proof
  show "m_ok (wu_sessions (wr_server s)) \<Longrightarrow> m_ok (wu_sessions (wr_server (web_act e s)))" for s e
    by (cases e) (auto simp: web_defs Let_def distinct_map_filter_fst split: option.split)
  show "m_get (wu_sessions (wr_server (web_act e s))) k = (case web_asked e s k of Some v \<Rightarrow> Some v
      | None \<Rightarrow> (case m_get (wu_sessions (wr_server s)) k of None \<Rightarrow> None | Some v \<Rightarrow> if web_settles e k v then None else Some v))"
    if ok: "m_ok (wu_sessions (wr_server s))" for s e k
  proof (cases e)
    case (WebLoginCheck now r)
    then show ?thesis by (simp split: option.split)
  next
    case (WebLogin now rnd r)
    then show ?thesis by (auto simp: web_defs Let_def split: option.split)
  next
    case (WebLogout r)
    then show ?thesis by (cases "hr_cookie r"; cases "m_get (wu_sessions (wr_server s)) k") (auto simp: web_defs)
  next
    case (WebDrop sessionID)
    then show ?thesis by (cases "m_get (wu_sessions (wr_server s)) k") (auto simp: web_defs)
  next
    case (WebCleanSessions now)
    then show ?thesis using map_of_filter_value [OF ok, where P = "\<lambda>expiry. \<not> expiry < now" and k = k]
      by (simp add: web_defs split: option.split)
  next
    case (WebCleanAttempts now)
    then show ?thesis by (simp add: web_defs split: option.split)
  qed
qed

text \<open>No step changes the password, and only requests of the right method pass the check.\<close>

lemma run_kept:
  assumes "\<forall>r \<in> set (wr_passed s). hr_method r = ''POST''"
  shows "wu_password (wr_server (fold web_act evs s)) = wu_password (wr_server s) \<and> (\<forall>r \<in> set (wr_passed (fold web_act evs s)). hr_method r = ''POST'')"
  using assms
proof (induction evs arbitrary: s)
  case (Cons e evs)
  have "wu_password (wr_server (web_act e s)) = wu_password (wr_server s)" by (cases e) (simp_all add: web_defs Let_def split: option.split)
  moreover have "\<forall>r \<in> set (wr_passed (web_act e s)). hr_method r = ''POST''"
    using Cons.prems by (cases e) (auto simp: login_check_def dest: notin_set_remove1 split: if_splits)
  ultimately show ?case using Cons.IH by simp
qed simp

lemma start_kept: "wu_password (wr_server (fold web_act evs (web_start pw))) = pw" "r \<in> set (wr_passed (fold web_act evs (web_start pw))) \<Longrightarrow> hr_method r = ''POST''"
  using run_kept [of "web_start pw" evs] by (simp_all add: web_start_def webui_Server_def)

lemma logged_in: "fst (login_compare now rnd r w) = LoggedIn c \<longleftrightarrow> hr_body r = Some (wu_password w) \<and> c = generateSessionID rnd now"
  by (auto simp: login_compare_def createSession_def Let_def split: option.split)

lemma asked_login: "web_asked e s c = Some expiry \<longleftrightarrow>
    (\<exists>now rnd r. e = WebLogin now rnd r \<and> expiry = now + sessionLifetime \<and> compare_reply now rnd r s = Some (LoggedIn c))"
  by (cases e) auto

definition open_path :: "string \<Rightarrow> bool" where
  "open_path path \<longleftrightarrow> path = ''/login.html'' \<or> has_prefix path ''/auth/''"

text \<open>
  C15. Protected pages: when the server has a password, a page other than the login pages is served only to a
  request that carries the identifier of a session which was opened by a login with the right password, at most
  24 hours ago, and was not closed by a logout since.
\<close>

theorem protected_pages:
  assumes "pw \<noteq> []" "authMiddleware now r (wr_server (fold web_act evs (web_start pw))) = Served" "\<not> open_path (hr_path r)"
  shows "\<exists>c i t rnd login. hr_cookie r = Some c \<and> i < length evs \<and> evs ! i = WebLogin t rnd login
    \<and> hr_method login = ''POST'' \<and> hr_body login = Some pw \<and> c = generateSessionID rnd t \<and> now \<le> t + 24 * 60 * 60 * 10 ^ 9
    \<and> (\<forall>j logout. i < j \<longrightarrow> j < length evs \<longrightarrow> evs ! j = WebLogout logout \<longrightarrow> hr_cookie logout \<noteq> Some c)"
proof -
  let ?s = "\<lambda>evs. fold web_act evs (web_start pw)"
  obtain c expiry where c: "hr_cookie r = Some c" "m_get (wu_sessions (wr_server (?s evs))) c = Some expiry" "now \<le> expiry"
    using assms start_kept(1) [of evs pw] by (auto simp: authMiddleware_def isValidSession_def open_path_def not_less split: option.splits if_splits)
  have "m_ok (wu_sessions (wr_server (web_start pw)))" "m_get (wu_sessions (wr_server (web_start pw))) c = None"
    by (simp_all add: web_start_def webui_Server_def)
  from c(2) [unfolded ses.slot_run [OF this]] obtain i where i: "i < length evs" "web_asked (evs ! i) (?s (take i evs)) c = Some expiry"
      "\<forall>j. i < j \<longrightarrow> j < length evs \<longrightarrow> \<not> web_settles (evs ! j) c expiry" by blast
  then obtain t rnd login where l: "evs ! i = WebLogin t rnd login" "expiry = t + sessionLifetime"
      "login \<in> set (wr_passed (?s (take i evs)))" "fst (login_compare t rnd login (wr_server (?s (take i evs)))) = LoggedIn c"
    unfolding asked_login by (auto simp: compare_reply_def split: if_splits)
  have "hr_cookie logout \<noteq> Some c" if "i < j" "j < length evs" "evs ! j = WebLogout logout" for j logout using i(3) that by fastforce
  moreover have "hr_method login = ''POST''" "hr_body login = Some pw" "c = generateSessionID rnd t"
    using l(3,4) start_kept unfolding logged_in by auto
  ultimately show ?thesis using c(1,3) i(1) l(1,2) by (auto simp: sessionLifetime_def)
qed

subsection \<open>Guessing\<close>

fun event_time :: "webEvent \<Rightarrow> int option" where
  "event_time (WebLoginCheck now r) = Some now"
| "event_time (WebLogin now rnd r) = Some now"
| "event_time (WebCleanAttempts now) = Some now"
| "event_time _ = None"

text \<open>The clock does not go back.\<close>

fun clock :: "int \<Rightarrow> webEvent list \<Rightarrow> bool" where
  "clock t [] = True"
| "clock t (e # evs) = (case event_time e of None \<Rightarrow> clock t evs | Some now \<Rightarrow> t \<le> now \<and> clock now evs)"

text \<open>The times at which wrong passwords from \<open>ip\<close> were recorded since its last successful login, the latest first.\<close>

definition guess_of :: "string \<Rightarrow> webEvent \<Rightarrow> webRun \<Rightarrow> int list \<Rightarrow> int list" where
  "guess_of ip e s gs =
     (case e of
        WebLogin now rnd r \<Rightarrow>
          if getClientIP r = ip then (case compare_reply now rnd r s of
              Some InvalidPasswordReply \<Rightarrow> now # gs
            | Some (LoggedIn c) \<Rightarrow> []
            | _ \<Rightarrow> gs)
          else gs
      | _ \<Rightarrow> gs)"

fun guesses :: "string \<Rightarrow> webEvent list \<Rightarrow> webRun \<Rightarrow> int list \<Rightarrow> int list" where
  "guesses ip [] s gs = gs"
| "guesses ip (e # evs) s gs = guesses ip evs (web_act e s) (guess_of ip e s gs)"

definition attempts_ok :: "failedLogin option \<Rightarrow> int list \<Rightarrow> int \<Rightarrow> bool" where
  "attempts_ok found gs t \<longleftrightarrow> sorted (rev gs) \<and> (\<forall>g \<in> set gs. g \<le> t)
     \<and> (case found of
          None \<Rightarrow> gs \<noteq> [] \<longrightarrow> AttemptWindow < t - gs ! 0
        | Some i \<Rightarrow> gs \<noteq> [] \<and> fl_last i = gs ! 0 \<and> 1 \<le> fl_count i
            \<and> (fl_count i = 1 \<longrightarrow> 1 < length gs \<longrightarrow> AttemptWindow < gs ! 0 - gs ! 1)
            \<and> (fl_count i = 2 \<longrightarrow> 2 < length gs \<longrightarrow> AttemptWindow < gs ! 1 - gs ! 2)
            \<and> (3 \<le> fl_count i \<longrightarrow> fl_blockedUntil i = gs ! 0 + BlockDuration))"

lemma window_exceeded: "AttemptWindow < time_sub a b \<longleftrightarrow> AttemptWindow < a - b"
  by (auto simp: time_sub_def AttemptWindow_def)

lemma attempts_ok_later: "attempts_ok found gs t \<Longrightarrow> t \<le> t' \<Longrightarrow> attempts_ok found gs t'"
  by (auto simp: attempts_ok_def split: option.splits intro: order_trans)

lemma attempts_ok_stale: "attempts_ok (Some i) gs t \<Longrightarrow> stale_attempt t i \<Longrightarrow> attempts_ok None gs t"
  by (simp add: attempts_ok_def stale_attempt_def window_exceeded)

lemma attempts_ok_none: "attempts_ok None [] t"
  by (simp add: attempts_ok_def)

text \<open>A wrong guess, whether or not the address is blocked by now.\<close>

lemma attempts_ok_guess:
  assumes ok: "attempts_ok found gs t" and "t \<le> now"
  shows "attempts_ok (Some (record_attempt now found)) (now # gs) now"
proof -
  have le: "g \<le> now" if "g \<in> set gs" for g using ok assms(2) that by (fastforce simp: attempts_ok_def)
  have "sorted (rev (now # gs))" using ok le by (simp add: attempts_ok_def sorted_append)
  moreover have "case Some (record_attempt now found) of None \<Rightarrow> True | Some i \<Rightarrow> fl_last i = now \<and> 1 \<le> fl_count i
      \<and> (fl_count i = 1 \<longrightarrow> gs \<noteq> [] \<longrightarrow> AttemptWindow < now - gs ! 0) \<and> (fl_count i = 2 \<longrightarrow> 1 < length gs \<longrightarrow> AttemptWindow < gs ! 0 - gs ! 1)
      \<and> (3 \<le> fl_count i \<longrightarrow> fl_blockedUntil i = now + BlockDuration)"
    using ok assms(2) by (cases found) (auto simp: attempts_ok_def record_attempt_def Let_def window_exceeded MaxFailedAttempts_def)
  ultimately show ?thesis using le by (auto simp: attempts_ok_def)
qed

text \<open>While the address is not blocked, the third guess from the end is a minute old.\<close>

lemma attempts_ok_free:
  assumes ok: "attempts_ok found gs t" and "t \<le> now" and free: "case found of None \<Rightarrow> True | Some i \<Rightarrow> \<not> now < fl_blockedUntil i"
    and l: "2 < length gs"
  shows "BlockDuration \<le> now - gs ! 2"
proof -
  have dec: "gs ! 2 \<le> gs ! 1" "gs ! 1 \<le> gs ! 0" using ok l sorted_rev_nth_mono [of gs] by (simp_all add: attempts_ok_def)
  have W: "BlockDuration \<le> AttemptWindow" by (simp add: BlockDuration_def AttemptWindow_def)
  have now: "gs ! 0 \<le> now" using ok assms(2) l nth_mem [of 0 gs] by (fastforce simp: attempts_ok_def)
  show ?thesis
  proof (cases found)
    case None
    then have "AttemptWindow < t - gs ! 0" using ok l by (auto simp: attempts_ok_def)
    then show ?thesis using dec assms(2) W by linarith
  next
    case (Some i)
    then have "1 \<le> fl_count i" "fl_count i = 1 \<longrightarrow> AttemptWindow < gs ! 0 - gs ! 1" "fl_count i = 2 \<longrightarrow> AttemptWindow < gs ! 1 - gs ! 2"
        "3 \<le> fl_count i \<longrightarrow> fl_blockedUntil i = gs ! 0 + BlockDuration" "\<not> now < fl_blockedUntil i"
      using ok l free by (auto simp: attempts_ok_def)
    then show ?thesis using now dec W by (cases "fl_count i = 1"; cases "fl_count i = 2") auto
  qed
qed

lemma compare_attempts:
  assumes "m_ok (wu_failed w)" "attempts_ok (m_get (wu_failed w) ip) gs t" "t \<le> now"
  shows "attempts_ok (m_get (wu_failed (snd (login_compare now rnd r w))) ip)
    (if getClientIP r = ip then (case fst (login_compare now rnd r w) of InvalidPasswordReply \<Rightarrow> now # gs | LoggedIn c \<Rightarrow> [] | _ \<Rightarrow> gs) else gs) now"
proof (cases "hr_body r")
  case None
  then show ?thesis using attempts_ok_later [OF assms(2,3)] by (simp add: login_compare_def)
next
  case (Some password)
  show ?thesis
  proof (cases "password = wu_password w")
    case True
    then show ?thesis
      using Some attempts_ok_later [OF assms(2,3)] attempts_ok_none by (simp add: web_defs Let_def)
  next
    case False
    then show ?thesis
      using Some attempts_ok_later [OF assms(2,3)] attempts_ok_guess [OF assms(2,3)] by (simp add: web_defs)
  qed
qed

lemma attempts_ok_act:
  assumes m: "m_ok (wu_failed (wr_server s))" and ok: "attempts_ok (m_get (wu_failed (wr_server s)) ip) gs t"
    and now: "\<forall>now. event_time e = Some now \<longrightarrow> t \<le> now"
  shows "m_ok (wu_failed (wr_server (web_act e s)))
    \<and> attempts_ok (m_get (wu_failed (wr_server (web_act e s))) ip) (guess_of ip e s gs) (case event_time e of None \<Rightarrow> t | Some now \<Rightarrow> now)"
proof (cases e)
  case (WebLoginCheck now r)
  then show ?thesis using m attempts_ok_later [OF ok] assms(3) by (simp add: guess_of_def)
next
  case (WebLogin now rnd r)
  then have t: "t \<le> now" using assms(3) by simp
  have "m_ok (wu_failed (snd (login_compare now rnd r (wr_server s))))" using m by (simp add: web_defs Let_def split: option.split)
  then show ?thesis
    using WebLogin m compare_attempts [OF m ok t, of rnd r] attempts_ok_later [OF ok t]
    by (cases "r \<in> set (wr_passed s)"; cases "getClientIP r = ip") (simp_all add: guess_of_def compare_reply_def)
next
  case (WebCleanAttempts now)
  then have later: "attempts_ok (m_get (wu_failed (wr_server s)) ip) gs now" using attempts_ok_later [OF ok] assms(3) by simp
  have get: "m_get (wu_failed (wr_server (web_act e s))) ip
      = (case m_get (wu_failed (wr_server s)) ip of None \<Rightarrow> None | Some i \<Rightarrow> if \<not> stale_attempt now i then Some i else None)"
    using map_of_filter_value [OF m, where P = "\<lambda>info. \<not> stale_attempt now info" and k = ip] WebCleanAttempts by (simp add: cleanupFailedAttempts_def)
  have "attempts_ok (m_get (wu_failed (wr_server (web_act e s))) ip) gs now"
    unfolding get using later attempts_ok_stale by (cases "m_get (wu_failed (wr_server s)) ip") simp_all
  then show ?thesis using WebCleanAttempts m by (simp add: guess_of_def cleanupFailedAttempts_def distinct_map_filter_fst)
qed (use m ok in \<open>auto simp: guess_of_def web_defs split: option.split\<close>)

lemma attempts_ok_run:
  assumes "m_ok (wu_failed (wr_server s))" "attempts_ok (m_get (wu_failed (wr_server s)) ip) gs t" "clock t (evs @ [WebLoginCheck now r])"
  shows "\<exists>t'. t' \<le> now \<and> attempts_ok (m_get (wu_failed (wr_server (fold web_act evs s))) ip) (guesses ip evs s gs) t'"
  using assms
proof (induction evs arbitrary: s gs t)
  case (Cons e evs)
  have e: "\<forall>now. event_time e = Some now \<longrightarrow> t \<le> now" "clock (case event_time e of None \<Rightarrow> t | Some now \<Rightarrow> now) (evs @ [WebLoginCheck now r])"
    using Cons.prems(3) by (auto split: option.splits)
  show ?case using attempts_ok_act [OF Cons.prems(1,2) e(1)] Cons.IH [OF _ _ e(2)] by simp
qed auto

text \<open>
  C20. Guessing is slow: however the handlers of requests interleave, as long as the clock does not go back, a login is
  let past the block only if at most two wrong passwords of its address were recorded in the last minute since the last
  successful login from there. What the block does not stop are requests that have passed it already.
\<close>

theorem guessing_is_slow:
  assumes "clock t (evs @ [WebLoginCheck now r])" "login_check now r (wr_server (fold web_act evs (web_start pw))) = None"
    and "2 < length (guesses (getClientIP r) evs (web_start pw) [])"
  shows "60 * 10 ^ 9 \<le> now - guesses (getClientIP r) evs (web_start pw) [] ! 2"
proof -
  let ?w = "wr_server (fold web_act evs (web_start pw))"
  have "m_ok (wu_failed (wr_server (web_start pw)))" "attempts_ok (m_get (wu_failed (wr_server (web_start pw))) (getClientIP r)) [] t"
    by (simp_all add: web_start_def webui_Server_def attempts_ok_none)
  from attempts_ok_run [OF this assms(1)] obtain t' where t': "t' \<le> now"
      "attempts_ok (m_get (wu_failed ?w) (getClientIP r)) (guesses (getClientIP r) evs (web_start pw) []) t'" by blast
  have "case m_get (wu_failed ?w) (getClientIP r) of None \<Rightarrow> True | Some i \<Rightarrow> \<not> now < fl_blockedUntil i"
    using assms(2) by (auto simp: login_check_def isIPBlocked_def split: option.splits if_splits)
  from attempts_ok_free [OF t'(2,1) this assms(3)] show ?thesis by (simp add: BlockDuration_def)
qed

text \<open>
  Requests in parallel are not slowed down: any number of wrong passwords is compared at once if all requests pass
  the check before the first of them is recorded.
\<close>

lemma checks_pass:
  assumes "\<forall>r \<in> set rs. hr_method r = ''POST''" "wu_failed (wr_server s) = []"
  shows "fold web_act (map (WebLoginCheck now) rs) s = s\<lparr> wr_passed := rev rs @ wr_passed s \<rparr>"
  using assms by (induction rs arbitrary: s) (simp_all add: login_check_def isIPBlocked_def)

lemma guesses_append: "guesses ip (as @ bs) s gs = guesses ip bs (fold web_act as s) (guesses ip as s gs)"
  by (induction as arbitrary: s gs) simp_all

lemma guesses_checks: "guesses ip (map (WebLoginCheck now) rs) s gs = gs"
  by (induction rs arbitrary: s) (simp_all add: guess_of_def)

lemma compares_all:
  assumes "\<forall>r \<in> set rs. getClientIP r = ip \<and> (\<exists>guess. hr_body r = Some guess \<and> guess \<noteq> wu_password (wr_server s))" "wr_passed s = rs"
  shows "guesses ip (map (WebLogin now rnd) rs) s gs = replicate (length rs) now @ gs"
  using assms
proof (induction rs arbitrary: s gs)
  case (Cons r rs)
  obtain guess where g: "hr_body r = Some guess" "guess \<noteq> wu_password (wr_server s)" "getClientIP r = ip" using Cons.prems(1) by auto
  let ?s = "\<lparr> wr_server = recordFailedAttempt now ip (wr_server s), wr_passed = rs \<rparr>"
  have "login_compare now rnd r (wr_server s) = (InvalidPasswordReply, recordFailedAttempt now ip (wr_server s))" using g by (simp add: login_compare_def)
  then have "web_act (WebLogin now rnd r) s = ?s" "guess_of ip (WebLogin now rnd r) s gs = now # gs"
    using Cons.prems(2) g(3) by (simp_all add: guess_of_def compare_reply_def)
  moreover have "guesses ip (map (WebLogin now rnd) rs) ?s (now # gs) = replicate (length rs) now @ now # gs"
    using Cons.prems(1) by (intro Cons.IH) (simp_all add: recordFailedAttempt_def)
  ultimately show ?case by (simp add: replicate_app_Cons_same)
qed simp

theorem parallel_guesses_pass:
  assumes "\<forall>r \<in> set rs. hr_method r = ''POST'' \<and> getClientIP r = ip \<and> (\<exists>guess. hr_body r = Some guess \<and> guess \<noteq> pw)"
  shows "guesses ip (map (WebLoginCheck now) (rev rs) @ map (WebLogin now rnd) rs) (web_start pw) [] = replicate (length rs) now"
proof -
  have "fold web_act (map (WebLoginCheck now) (rev rs)) (web_start pw) = (web_start pw)\<lparr> wr_passed := rs \<rparr>"
    using checks_pass [of "rev rs" "web_start pw" now] assms by (simp add: web_start_def webui_Server_def)
  moreover have "guesses ip (map (WebLogin now rnd) rs) ((web_start pw)\<lparr> wr_passed := rs \<rparr>) [] = replicate (length rs) now @ []"
    using assms by (intro compares_all) (simp_all add: web_start_def webui_Server_def)
  ultimately show ?thesis by (simp only: guesses_append guesses_checks) simp
qed

subsection \<open>A header evades the block\<close>

definition plain_header :: "string \<Rightarrow> bool" where
  "plain_header h \<longleftrightarrow> h \<noteq> [] \<and> trimSpace (takeWhile (\<lambda>c. c \<noteq> CHR '','') h) = h"

lemma forwarded_ip: "plain_header h \<Longrightarrow> getClientIP (r\<lparr> hr_forwarded := h \<rparr>) = h"
  by (simp add: getClientIP_def plain_header_def)

lemma wrong_guess:
  assumes "hr_method r = ''POST''" "hr_body r = Some guess" "guess \<noteq> wu_password w" "m_get (wu_failed w) (getClientIP r) = None"
  shows "fst (loginHandler now rnd r w) = InvalidPasswordReply" "snd (loginHandler now rnd r w) = recordFailedAttempt now (getClientIP r) w"
  using assms by (simp_all add: loginHandler_def login_check_def login_compare_def isIPBlocked_def)

text \<open>The server after the requests \<open>rs\<close>, one after the other.\<close>

definition after_logins :: "int \<Rightarrow> bytes option \<Rightarrow> httpRequest list \<Rightarrow> webui \<Rightarrow> webui" where
  "after_logins now rnd rs w = fold (\<lambda>r w. snd (loginHandler now rnd r w)) rs w"

lemma guesses_recorded:
  assumes "\<forall>r \<in> set rs. hr_method r = ''POST'' \<and> (\<exists>guess. hr_body r = Some guess \<and> guess \<noteq> pw)" "distinct (map getClientIP rs)"
    and "wu_password w = pw" "\<forall>r \<in> set rs. m_get (wu_failed w) (getClientIP r) = None" "i < length rs"
  shows "fst (loginHandler now rnd (rs ! i) (after_logins now rnd (take i rs) w)) = InvalidPasswordReply"
  using assms
proof (induction rs arbitrary: w i)
  case (Cons r rs)
  obtain guess where r: "hr_method r = ''POST''" "hr_body r = Some guess" "guess \<noteq> wu_password w" "m_get (wu_failed w) (getClientIP r) = None"
    using Cons.prems(1,3,4) by auto
  show ?case
  proof (cases i)
    case 0
    then show ?thesis using wrong_guess(1) [OF r] by (simp add: after_logins_def)
  next
    case (Suc j)
    let ?w = "recordFailedAttempt now (getClientIP r) w"
    have "getClientIP x \<noteq> getClientIP r" if "x \<in> set rs" for x using Cons.prems(2) that by (auto simp: image_iff)
    then have "\<forall>x \<in> set rs. m_get (wu_failed ?w) (getClientIP x) = None" using Cons.prems(4) by (simp add: recordFailedAttempt_def)
    then show ?thesis using Cons.IH [of ?w j] Cons.prems Suc wrong_guess(2) [OF r] by (simp add: recordFailedAttempt_def after_logins_def)
  qed
qed simp

text \<open>
  C40. The block is evaded by a header: a client that sends another \<open>X-Forwarded-For\<close> value with each request
  compares as many wrong passwords as it likes, all at once, from one address; none of its requests is blocked.
\<close>

theorem forwarded_header_evades:
  assumes "hr_method r = ''POST''" "distinct hs" "\<forall>h \<in> set hs. plain_header h" "length gs = length hs" "pw \<notin> set gs" "i < length hs"
  shows "fst (loginHandler now rnd (map2 (\<lambda>h g. r\<lparr> hr_forwarded := h, hr_body := Some g \<rparr>) hs gs ! i)
    (after_logins now rnd (take i (map2 (\<lambda>h g. r\<lparr> hr_forwarded := h, hr_body := Some g \<rparr>) hs gs)) (webui_Server pw))) = InvalidPasswordReply"
proof -
  let ?rs = "map2 (\<lambda>h g. r\<lparr> hr_forwarded := h, hr_body := Some g \<rparr>) hs gs"
  have "map getClientIP ?rs = hs"
  proof (rule nth_equalityI)
    fix j assume "j < length (map getClientIP ?rs)"
    then show "map getClientIP ?rs ! j = hs ! j" using assms(3,4) by (simp add: getClientIP_def plain_header_def)
  qed (simp add: assms(4))
  moreover have "\<forall>x \<in> set ?rs. hr_method x = ''POST'' \<and> (\<exists>guess. hr_body x = Some guess \<and> guess \<noteq> pw)"
    using assms(1,5) by (auto dest: set_zip_rightD)
  moreover have "wu_password (webui_Server pw) = pw" "\<forall>x \<in> set ?rs. m_get (wu_failed (webui_Server pw)) (getClientIP x) = None"
    by (simp_all add: webui_Server_def)
  ultimately show ?thesis using assms(2,4,6) by (intro guesses_recorded [of ?rs pw]) simp_all
qed

subsection \<open>Sample requests\<close>

definition sample_request :: httpRequest where
  "sample_request = \<lparr> hr_method = ''POST'', hr_path = ''/api/admin/getself'', hr_forwarded = [], hr_realIP = [], hr_remote = ''h'',
     hr_cookie = Some (hex_encode [1, 2]), hr_body = Some ''secret'' \<rparr>"

definition sample_login :: "webEvent list" where
  "sample_login = [WebLoginCheck 4 sample_request, WebLogin 5 (Some [1, 2]) sample_request]"

theorem protected_pages_witness:
  "authMiddleware 9 sample_request (wr_server (fold web_act sample_login (web_start ''secret''))) = Served
    \<and> (\<exists>i t rnd login. i < 2 \<and> sample_login ! i = WebLogin t rnd login \<and> hr_body login = Some ''secret'' \<and> 9 \<le> t + 24 * 60 * 60 * 10 ^ 9)"
proof -
  have s: "authMiddleware 9 sample_request (wr_server (fold web_act sample_login (web_start ''secret''))) = Served"
    by (simp add: authMiddleware_def sample_login_def login_check_def login_compare_def createSession_def clearFailedAttempts_def generateSessionID_def web_start_def
        webui_Server_def sample_request_def isIPBlocked_def isValidSession_def sessionLifetime_def Let_def)
  have "\<not> open_path (hr_path sample_request)" "''secret'' \<noteq> []" "length sample_login = 2"
    by (simp_all add: open_path_def has_prefix_def sample_request_def sample_login_def)
  from protected_pages [OF this(2) s this(1)] this(3) s show ?thesis by metis
qed

definition wrong_request :: httpRequest where
  "wrong_request = sample_request\<lparr> hr_body := Some ''x'' \<rparr>"

definition sample_guesses :: "webEvent list" where
  "sample_guesses = concat (map (\<lambda>t. [WebLoginCheck t wrong_request, WebLogin t None wrong_request]) [1, 2, 3])"

theorem guessing_is_slow_witness:
  "guesses ''h'' sample_guesses (web_start ''secret'') [] = [3, 2, 1]
    \<and> login_check 60000000003 wrong_request (wr_server (fold web_act sample_guesses (web_start ''secret''))) = None \<and> 60 * 10 ^ 9 \<le> (60000000003 - 1 :: int)"
proof -
  note defs = sample_guesses_def guess_of_def compare_reply_def login_check_def login_compare_def wrong_request_def sample_request_def web_start_def webui_Server_def isIPBlocked_def
    getClientIP_def recordFailedAttempt_def record_attempt_def time_sub_def AttemptWindow_def MaxFailedAttempts_def BlockDuration_def zero_time_def Let_def
  have g: "guesses ''h'' sample_guesses (web_start ''secret'') [] = [3, 2, 1]" by (simp add: defs)
  have c: "login_check 60000000003 wrong_request (wr_server (fold web_act sample_guesses (web_start ''secret''))) = None" by (simp add: defs)
  have "clock 1 (sample_guesses @ [WebLoginCheck 60000000003 wrong_request])" "getClientIP wrong_request = ''h''" by (simp_all add: defs)
  from guessing_is_slow [OF this(1) c] this(2) g c show ?thesis by simp
qed

theorem parallel_guesses_pass_witness:
  "guesses ''h'' (map (WebLoginCheck 1) (rev (replicate 9 wrong_request)) @ map (WebLogin 1 None) (replicate 9 wrong_request)) (web_start ''secret'') [] = replicate 9 1"
proof -
  have "\<forall>r \<in> set (replicate 9 wrong_request). hr_method r = ''POST'' \<and> getClientIP r = ''h'' \<and> (\<exists>guess. hr_body r = Some guess \<and> guess \<noteq> ''secret'')"
    by (simp add: wrong_request_def sample_request_def getClientIP_def)
  from parallel_guesses_pass [OF this, of 1 None] show ?thesis by simp
qed

theorem forwarded_header_evades_witness:
  "fst (loginHandler 1 None (sample_request\<lparr> hr_forwarded := ''d'', hr_body := Some ''4'' \<rparr>)
    (after_logins 1 None [sample_request\<lparr> hr_forwarded := ''a'', hr_body := Some ''1'' \<rparr>, sample_request\<lparr> hr_forwarded := ''b'', hr_body := Some ''2'' \<rparr>,
      sample_request\<lparr> hr_forwarded := ''c'', hr_body := Some ''3'' \<rparr>] (webui_Server ''secret''))) = InvalidPasswordReply"
proof -
  have p: "\<forall>h \<in> set [''a'', ''b'', ''c'', ''d'']. plain_header h" by (simp add: plain_header_def trimSpace_def is_space_def)
  have "hr_method sample_request = ''POST''" by (simp add: sample_request_def)
  from forwarded_header_evades [OF this _ p, of "[''1'', ''2'', ''3'', ''4'']" "''secret''" 3 1 None] show ?thesis by (simp add: eval_nat_numeral)
qed

end
