(* ===== verification/LinkTable.thy ===== *)
theory LinkTable
  imports LinkSetup
begin

text \<open>
  \<^verbatim>\<open>src/core/link.go\<close>: the table of links, with the goroutines that dial, the goroutines of accepted
  connections, and the calls \<open>add\<close>, \<open>remove\<close>, \<open>RetryPeersNow\<close> and \<open>shutdown\<close> that run between their steps.
  \<^item> A \<open>*link\<close> is an index into the states ever allocated; entries of the table are such pointers. Goroutines stay in
    their list with the point they have reached, ended ones too.
  \<^item> Connections are numbered; closing one is recorded. What \<open>connect\<close> and \<open>handler\<close> return is a free choice of the
    step, and a handler may report its community status and call \<open>resetBackoff\<close> before it returns.
  \<^item> The table of listeners, the node information that a handshake brings and the byte counters of connections are
    not part of the state.
  \<^item> Every \<open>phony.Block\<close> on the links actor is one step; code between them that touches only local state belongs to
    the step before.
\<close>

record linkInfo =
  li_uri :: string
  li_sintf :: string

datatype linkErr = ConnectError | LinkToSelf | RemoteClosed | HandlerError

text \<open>\<open>lk_ctx\<close> is \<open>None\<close> for the nil context and cancel function of an incoming link, else whether it is cancelled.\<close>

record linkState =
  lk_type :: linkType
  lk_proto :: string
  lk_ctx :: "bool option"
  lk_sni :: string
  lk_community :: "communityStatus option"
  lk_conn :: "nat option"
  lk_err :: "linkErr option"
  lk_errtime :: "int option"

datatype dial_pc = AtCheck | AtConnect | AtStore nat | AtHandler nat | AtBackoff "int option" | AtCleanup | DialEnded

record dialer =
  dl_info :: linkInfo
  dl_state :: nat
  dl_type :: linkType
  dl_options :: dialOptions
  dl_backoff :: int
  dl_pc :: dial_pc

datatype accept_pc = AcStore | AcHandler | AcCleanup | AcEnded

record acceptor =
  ac_info :: linkInfo
  ac_proto :: string
  ac_conn :: nat
  ac_state :: nat
  ac_pc :: accept_pc

record linkTable =
  lt_links :: "(linkInfo, nat) gomap"
  lt_states :: "linkState list"
  lt_dialers :: "dialer list"
  lt_acceptors :: "acceptor list"
  lt_conns :: nat
  lt_closed :: "nat list"
  lt_done :: bool

definition linkTable_init :: linkTable where
  "linkTable_init = \<lparr> lt_links = [], lt_states = [], lt_dialers = [], lt_acceptors = [], lt_conns = 0, lt_closed = [], lt_done = False \<rparr>"

definition set_state :: "nat \<Rightarrow> (linkState \<Rightarrow> linkState) \<Rightarrow> linkTable \<Rightarrow> linkTable" where
  "set_state ptr f t = t\<lparr> lt_states := (lt_states t)[ptr := f (lt_states t ! ptr)] \<rparr>"

definition set_dialer :: "nat \<Rightarrow> dialer \<Rightarrow> linkTable \<Rightarrow> linkTable" where
  "set_dialer i d t = t\<lparr> lt_dialers := (lt_dialers t)[i := d] \<rparr>"

definition set_acceptor :: "nat \<Rightarrow> acceptor \<Rightarrow> linkTable \<Rightarrow> linkTable" where
  "set_acceptor i a t = t\<lparr> lt_acceptors := (lt_acceptors t)[i := a] \<rparr>"

definition close_conn :: "nat \<Rightarrow> linkTable \<Rightarrow> linkTable" where
  "close_conn c t = t\<lparr> lt_closed := set_add c (lt_closed t) \<rparr>"

definition drop_link :: "linkInfo \<Rightarrow> nat \<Rightarrow> linkTable \<Rightarrow> linkTable" where
  "drop_link info ptr t = (if m_get (lt_links t) info = Some ptr then t\<lparr> lt_links := m_del (lt_links t) info \<rparr> else t)"

definition ctx_done :: "linkTable \<Rightarrow> nat \<Rightarrow> bool" where
  "ctx_done t ptr \<longleftrightarrow> lk_ctx (lt_states t ! ptr) = Some True \<or> lt_done t"

subsection \<open>Adding and removing peers\<close>

definition upper :: "string \<Rightarrow> string" where
  "upper s = map (\<lambda>c. let n = (of_char c :: nat) in if 97 \<le> n \<and> n \<le> 122 then char_of (n - 32) else c) s"

text \<open>A send on the unbuffered channel \<open>kick\<close> reaches the goroutine that waits in its backoff, if it does.\<close>

definition wake :: "nat \<Rightarrow> dialer \<Rightarrow> dialer" where
  "wake ptr d = (if dl_state d = ptr then (case dl_pc d of AtBackoff w \<Rightarrow> d\<lparr> dl_pc := AtCheck \<rparr> | _ \<Rightarrow> d) else d)"

definition kick :: "nat \<Rightarrow> linkTable \<Rightarrow> linkTable" where
  "kick ptr t = t\<lparr> lt_dialers := map (wake ptr) (lt_dialers t) \<rparr>"

definition info_for :: "url \<Rightarrow> string \<Rightarrow> linkInfo" where
  "info_for u sintf = \<lparr> li_uri = u_plain u, li_sintf = sintf \<rparr>"

definition dialled_link :: "url \<Rightarrow> linkType \<Rightarrow> linkState" where
  "dialled_link u ltype = \<lparr> lk_type = ltype, lk_proto = upper (u_scheme u), lk_ctx = Some False, lk_sni = [], lk_community = None,
     lk_conn = None, lk_err = None, lk_errtime = None \<rparr>"

definition links_add :: "go_net \<Rightarrow> string list \<Rightarrow> url \<Rightarrow> string \<Rightarrow> linkType \<Rightarrow> linkTable \<Rightarrow> linkError option \<times> linkTable" where
  "links_add lib snis u sintf ltype t =
     (case dialerFor u of
        Inl e \<Rightarrow> (Some e, t)
      | Inr dialer \<Rightarrow>
          (case link_options lib snis u of
             Inl e \<Rightarrow> (Some e, t)
           | Inr opts \<Rightarrow>
               (let info = info_for u sintf in
                case m_get (lt_links t) info of
                  Some ptr \<Rightarrow> (Some ErrLinkAlreadyConfigured, kick ptr t)
                | None \<Rightarrow>
                    (let ptr = length (lt_states t)
                     in (None, t\<lparr> lt_states := lt_states t @ [dialled_link u ltype], lt_links := m_set (lt_links t) info ptr,
                          lt_dialers := lt_dialers t @ [\<lparr> dl_info = info, dl_state = ptr, dl_type = ltype, dl_options = opts,
                            dl_backoff = 0, dl_pc = AtCheck \<rparr>] \<rparr>)))))"

definition links_remove :: "url \<Rightarrow> string \<Rightarrow> linkTable \<Rightarrow> (linkError option \<times> linkTable) result" where
  "links_remove u sintf t =
     (case m_get (lt_links t) (info_for u sintf) of
        None \<Rightarrow> Inr (Some ErrLinkNotConfigured, t)
      | Some ptr \<Rightarrow>
          (case lk_ctx (lt_states t ! ptr) of
             None \<Rightarrow> Inl Panic
           | Some b \<Rightarrow>
               (let t1 = set_state ptr (\<lambda>st. st\<lparr> lk_ctx := Some True \<rparr>) t
                in Inr (None, case lk_conn (lt_states t ! ptr) of None \<Rightarrow> t1 | Some c \<Rightarrow> close_conn c t1))))"

definition retryPeersNow :: "linkTable \<Rightarrow> linkTable" where
  "retryPeersNow t = fold kick (map snd (lt_links t)) t"

text \<open>\<open>_close\<close> of the core: the context of everything is cancelled and \<open>shutdown\<close> closes the connections of the table.\<close>

definition links_shutdown :: "linkTable \<Rightarrow> linkTable" where
  "links_shutdown t =
     fold (\<lambda>ptr t. case lk_conn (lt_states t ! ptr) of None \<Rightarrow> t | Some c \<Rightarrow> close_conn c t) (map snd (lt_links t)) (t\<lparr> lt_done := True \<rparr>)"

subsection \<open>The dialling goroutine\<close>

definition next_backoff :: "int \<Rightarrow> int" where
  "next_backoff b = (if 0 \<le> b \<and> b < 32 then b + 1 else b)"

text \<open>\<open>time.Second << backoff\<close> is an \<open>int64\<close>.\<close>

definition backoff_wait :: "int \<Rightarrow> int \<Rightarrow> int option" where
  "backoff_wait b maxBackoff =
     (if b < 0 then None
      else let duration = sint (push_bit (nat b) (1000000000 :: u64))
           in Some (if maxBackoff < duration then maxBackoff else duration))"

definition backoffNow :: "dialer \<Rightarrow> dialer" where
  "backoffNow d = (let b = next_backoff (dl_backoff d)
     in d\<lparr> dl_backoff := b, dl_pc := AtBackoff (backoff_wait b (do_maxBackoff (dl_options d))) \<rparr>)"

definition again :: "dialer \<Rightarrow> dialer" where
  "again d = (if dl_type d = linkTypePersistent then backoffNow d else d\<lparr> dl_pc := AtCleanup \<rparr>)"

datatype dial_event =
    DoCheck | ConnectFails "linkErr option" | Connects | DoStore | HandlerStatus communityStatus | ResetBackoff
  | HandlerReturns "linkErr option" | BackoffTimeout | BackoffCancelled | DoCleanup

fun dial_step :: "dial_event \<Rightarrow> int \<Rightarrow> dialer \<Rightarrow> linkTable \<Rightarrow> (dialer \<times> linkTable) option" where
  "dial_step ev now d t =
     (case (dl_pc d, ev) of
        (AtCheck, DoCheck) \<Rightarrow> Some (d\<lparr> dl_pc := if ctx_done t (dl_state d) then AtCleanup else AtConnect \<rparr>, t)
      | (AtConnect, ConnectFails err) \<Rightarrow>
          Some (again d, if dl_type d = linkTypePersistent
            then set_state (dl_state d) (\<lambda>st. st\<lparr> lk_conn := None, lk_err := err, lk_errtime := Some now \<rparr>) t else t)
      | (AtConnect, Connects) \<Rightarrow> Some (d\<lparr> dl_pc := AtStore (lt_conns t) \<rparr>, t\<lparr> lt_conns := Suc (lt_conns t) \<rparr>)
      | (AtStore c, DoStore) \<Rightarrow>
          (let doRet = (lk_conn (lt_states t ! dl_state d) \<noteq> None)
           in Some (d\<lparr> dl_pc := if doRet then AtCleanup else AtHandler c \<rparr>,
                set_state (dl_state d) (\<lambda>st. st\<lparr> lk_conn := Some c, lk_sni := do_tlsSNI (dl_options d), lk_err := None, lk_errtime := Some now \<rparr>) t))
      | (AtHandler c, HandlerStatus status) \<Rightarrow> Some (d, set_state (dl_state d) (\<lambda>st. st\<lparr> lk_community := Some status \<rparr>) t)
      | (AtHandler c, ResetBackoff) \<Rightarrow> Some (d\<lparr> dl_backoff := 0 \<rparr>, t)
      | (AtHandler c, HandlerReturns err) \<Rightarrow>
          (let d1 = (if err = Some LinkToSelf then d\<lparr> dl_backoff := - 1 \<rparr> else d)
           in Some (again d1,
                set_state (dl_state d) (\<lambda>st. st\<lparr> lk_conn := None, lk_community := None,
                  lk_err := Some (case err of None \<Rightarrow> RemoteClosed | Some e \<Rightarrow> e), lk_errtime := Some now \<rparr>) (close_conn c t)))
      | (AtBackoff (Some w), BackoffTimeout) \<Rightarrow> Some (d\<lparr> dl_pc := AtCheck \<rparr>, t)
      | (AtBackoff w, BackoffCancelled) \<Rightarrow> if ctx_done t (dl_state d) then Some (d\<lparr> dl_pc := AtCleanup \<rparr>, t) else None
      | (AtCleanup, DoCleanup) \<Rightarrow> Some (d\<lparr> dl_pc := DialEnded \<rparr>, drop_link (dl_info d) (dl_state d) t)
      | _ \<Rightarrow> None)"

subsection \<open>The goroutine of an accepted connection\<close>

definition incoming_link :: "string \<Rightarrow> linkState" where
  "incoming_link proto = \<lparr> lk_type = linkTypeIncoming, lk_proto = proto, lk_ctx = None, lk_sni = [], lk_community = None,
     lk_conn = None, lk_err = None, lk_errtime = None \<rparr>"

definition links_accept :: "linkInfo \<Rightarrow> string \<Rightarrow> linkTable \<Rightarrow> linkTable" where
  "links_accept info proto t = t\<lparr> lt_conns := Suc (lt_conns t),
     lt_acceptors := lt_acceptors t @ [\<lparr> ac_info = info, ac_proto = proto, ac_conn = lt_conns t, ac_state = 0, ac_pc = AcStore \<rparr>] \<rparr>"

text \<open>The block that looks for a state, makes one if there is none, and takes it over unless it has a connection.\<close>

definition accept_store :: "acceptor \<Rightarrow> linkTable \<Rightarrow> acceptor \<times> linkTable" where
  "accept_store a t =
     (let (ptr, t1) = (case m_get (lt_links t) (ac_info a) of
            Some ptr \<Rightarrow> (ptr, t)
          | None \<Rightarrow> (length (lt_states t), t\<lparr> lt_states := lt_states t @ [incoming_link (ac_proto a)] \<rparr>))
      in if lk_conn (lt_states t1 ! ptr) \<noteq> None then (a\<lparr> ac_state := ptr, ac_pc := AcCleanup \<rparr>, t1)
         else (a\<lparr> ac_state := ptr, ac_pc := AcHandler \<rparr>,
               (set_state ptr (\<lambda>st. st\<lparr> lk_conn := Some (ac_conn a), lk_sni := [], lk_community := None, lk_err := None, lk_errtime := None \<rparr>) t1)
                 \<lparr> lt_links := m_set (lt_links t1) (ac_info a) ptr \<rparr>))"

datatype accept_event = AcDoStore | AcSNI string | AcStatus communityStatus | AcReturns | AcDoCleanup

fun accept_step :: "accept_event \<Rightarrow> acceptor \<Rightarrow> linkTable \<Rightarrow> (acceptor \<times> linkTable) option" where
  "accept_step ev a t =
     (case (ac_pc a, ev) of
        (AcStore, AcDoStore) \<Rightarrow> Some (accept_store a t)
      | (AcHandler, AcSNI sni) \<Rightarrow> if sni \<noteq> [] then Some (a, set_state (ac_state a) (\<lambda>st. st\<lparr> lk_sni := sni \<rparr>) t) else None
      | (AcHandler, AcStatus status) \<Rightarrow> Some (a, set_state (ac_state a) (\<lambda>st. st\<lparr> lk_community := Some status \<rparr>) t)
      | (AcHandler, AcReturns) \<Rightarrow> Some (a\<lparr> ac_pc := AcCleanup \<rparr>, close_conn (ac_conn a) t)
      | (AcCleanup, AcDoCleanup) \<Rightarrow> Some (a\<lparr> ac_pc := AcEnded \<rparr>, close_conn (ac_conn a) (drop_link (ac_info a) (ac_state a) t))
      | _ \<Rightarrow> None)"

declare dial_step.simps [simp del] accept_step.simps [simp del]

subsection \<open>Runs\<close>

inductive links_step :: "linkTable \<Rightarrow> linkTable \<Rightarrow> bool" where
  add: "links_add lib snis u sintf ltype t = (e, t') \<Longrightarrow> ltype \<noteq> linkTypeIncoming \<Longrightarrow> links_step t t'"
| remove: "links_remove u sintf t = Inr (e, t') \<Longrightarrow> links_step t t'"
| retry: "links_step t (retryPeersNow t)"
| shutdown: "links_step t (links_shutdown t)"
| dial: "i < length (lt_dialers t) \<Longrightarrow> dial_step ev now (lt_dialers t ! i) t = Some (d, t') \<Longrightarrow> links_step t (set_dialer i d t')"
| accept: "links_step t (links_accept info proto t)"
| incoming: "i < length (lt_acceptors t) \<Longrightarrow> accept_step ev (lt_acceptors t ! i) t = Some (a, t') \<Longrightarrow> links_step t (set_acceptor i a t')"

inductive_cases links_stepE: "links_step t t'"

definition links_reachable :: "linkTable \<Rightarrow> bool" where
  "links_reachable t \<longleftrightarrow> links_step\<^sup>*\<^sup>* linkTable_init t"

subsection \<open>What a step touches\<close>

text \<open>The type and the context of every state; apart from \<open>remove\<close>, no step changes them.\<close>

definition st_kinds :: "linkTable \<Rightarrow> (linkType \<times> bool option) list" where
  "st_kinds t = map (\<lambda>st. (lk_type st, lk_ctx st)) (lt_states t)"

lemma set_state_fields [simp]:
  "lt_links (set_state p f t) = lt_links t" "lt_dialers (set_state p f t) = lt_dialers t" "lt_acceptors (set_state p f t) = lt_acceptors t"
  "lt_done (set_state p f t) = lt_done t" "length (lt_states (set_state p f t)) = length (lt_states t)" "lt_closed (set_state p f t) = lt_closed t"
  by (simp_all add: set_state_def)

lemma set_dialer_fields [simp]:
  "lt_links (set_dialer i d t) = lt_links t" "lt_dialers (set_dialer i d t) = (lt_dialers t)[i := d]" "lt_acceptors (set_dialer i d t) = lt_acceptors t"
  "lt_done (set_dialer i d t) = lt_done t" "lt_states (set_dialer i d t) = lt_states t" "st_kinds (set_dialer i d t) = st_kinds t"
  by (simp_all add: set_dialer_def st_kinds_def)

lemma set_acceptor_fields [simp]:
  "lt_links (set_acceptor i a t) = lt_links t" "lt_dialers (set_acceptor i a t) = lt_dialers t" "lt_acceptors (set_acceptor i a t) = (lt_acceptors t)[i := a]"
  "lt_done (set_acceptor i a t) = lt_done t" "lt_states (set_acceptor i a t) = lt_states t" "st_kinds (set_acceptor i a t) = st_kinds t"
  by (simp_all add: set_acceptor_def st_kinds_def)

lemma close_conn_fields [simp]:
  "lt_links (close_conn c t) = lt_links t" "lt_dialers (close_conn c t) = lt_dialers t" "lt_acceptors (close_conn c t) = lt_acceptors t"
  "lt_done (close_conn c t) = lt_done t" "lt_states (close_conn c t) = lt_states t" "st_kinds (close_conn c t) = st_kinds t"
  by (simp_all add: close_conn_def st_kinds_def)

lemma drop_link_fields [simp]:
  "lt_dialers (drop_link info p t) = lt_dialers t" "lt_acceptors (drop_link info p t) = lt_acceptors t" "lt_done (drop_link info p t) = lt_done t"
  "lt_states (drop_link info p t) = lt_states t" "st_kinds (drop_link info p t) = st_kinds t"
  "m_ok (lt_links t) \<Longrightarrow> m_ok (lt_links (drop_link info p t))"
  "m_get (lt_links (drop_link info p t)) k = (if k = info \<and> m_get (lt_links t) info = Some p then None else m_get (lt_links t) k)"
  by (simp_all add: drop_link_def st_kinds_def)

lemma kick_fields [simp]:
  "lt_links (kick p t) = lt_links t" "lt_acceptors (kick p t) = lt_acceptors t" "lt_done (kick p t) = lt_done t" "lt_states (kick p t) = lt_states t"
  "st_kinds (kick p t) = st_kinds t" "lt_dialers (kick p t) = map (wake p) (lt_dialers t)"
  by (simp_all add: kick_def st_kinds_def)

lemma st_kinds_set: "(\<And>st. lk_type (f st) = lk_type st \<and> lk_ctx (f st) = lk_ctx st) \<Longrightarrow> st_kinds (set_state p f t) = st_kinds t"
  by (cases "p < length (lt_states t)") (simp_all add: st_kinds_def set_state_def map_update list_update_same_conv not_less list_update_beyond)

lemma st_kinds_conns [simp]: "st_kinds (t\<lparr> lt_conns := n \<rparr>) = st_kinds t"
  by (simp add: st_kinds_def)

lemma length_st_kinds [simp]: "length (st_kinds t) = length (lt_states t)"
  by (simp add: st_kinds_def)

lemma st_kinds_nth: "p < length (lt_states t) \<Longrightarrow> st_kinds t ! p = (lk_type (lt_states t ! p), lk_ctx (lt_states t ! p))"
  by (simp add: st_kinds_def)

lemma retry_fields [simp]:
  "lt_links (retryPeersNow t) = lt_links t" "lt_acceptors (retryPeersNow t) = lt_acceptors t" "lt_done (retryPeersNow t) = lt_done t"
  "lt_states (retryPeersNow t) = lt_states t" "st_kinds (retryPeersNow t) = st_kinds t"
  "lt_dialers (retryPeersNow t) = map (fold wake (map snd (lt_links t))) (lt_dialers t)"
proof -
  have "lt_links (fold kick ps t) = lt_links t \<and> lt_acceptors (fold kick ps t) = lt_acceptors t \<and> lt_done (fold kick ps t) = lt_done t
      \<and> lt_states (fold kick ps t) = lt_states t \<and> lt_dialers (fold kick ps t) = map (fold wake ps) (lt_dialers t)" for ps
    by (induction ps arbitrary: t) auto
  then show "lt_links (retryPeersNow t) = lt_links t" "lt_acceptors (retryPeersNow t) = lt_acceptors t" "lt_done (retryPeersNow t) = lt_done t"
      "lt_states (retryPeersNow t) = lt_states t" "st_kinds (retryPeersNow t) = st_kinds t"
      "lt_dialers (retryPeersNow t) = map (fold wake (map snd (lt_links t))) (lt_dialers t)"
    by (simp_all add: retryPeersNow_def st_kinds_def)
qed

lemma shutdown_fields [simp]:
  "lt_links (links_shutdown t) = lt_links t" "lt_acceptors (links_shutdown t) = lt_acceptors t" "lt_done (links_shutdown t)"
  "lt_states (links_shutdown t) = lt_states t" "st_kinds (links_shutdown t) = st_kinds t" "lt_dialers (links_shutdown t) = lt_dialers t"
proof -
  let ?f = "\<lambda>ptr t. case lk_conn (lt_states t ! ptr) of None \<Rightarrow> t | Some c \<Rightarrow> close_conn c t"
  have "lt_links (fold ?f ps t) = lt_links t \<and> lt_acceptors (fold ?f ps t) = lt_acceptors t \<and> lt_done (fold ?f ps t) = lt_done t
      \<and> lt_states (fold ?f ps t) = lt_states t \<and> lt_dialers (fold ?f ps t) = lt_dialers t" for ps t
    by (induction ps arbitrary: t) (auto split: option.split)
  from this [of "map snd (lt_links t)" "t\<lparr> lt_done := True \<rparr>"]
  show "lt_links (links_shutdown t) = lt_links t" "lt_acceptors (links_shutdown t) = lt_acceptors t" "lt_done (links_shutdown t)"
      "lt_states (links_shutdown t) = lt_states t" "st_kinds (links_shutdown t) = st_kinds t" "lt_dialers (links_shutdown t) = lt_dialers t"
    by (simp_all add: links_shutdown_def st_kinds_def)
qed

lemma dialer_upd [simp]: "dl_info (backoffNow d) = dl_info d" "dl_state (backoffNow d) = dl_state d" "dl_options (backoffNow d) = dl_options d"
    "dl_info (again d) = dl_info d" "dl_state (again d) = dl_state d" "dl_options (again d) = dl_options d"
  by (simp_all add: backoffNow_def again_def Let_def)

lemma again_pc: "dl_pc (again d) \<noteq> DialEnded"
  by (simp add: again_def backoffNow_def Let_def)

lemma wake_fields [simp]: "dl_info (wake p d) = dl_info d" "dl_state (wake p d) = dl_state d" "dl_options (wake p d) = dl_options d"
    "dl_backoff (wake p d) = dl_backoff d" "dl_pc (wake p d) = DialEnded \<longleftrightarrow> dl_pc d = DialEnded"
  by (simp_all add: wake_def split: dial_pc.split)

lemma wakes_fields [simp]: "dl_info (fold wake ps d) = dl_info d" "dl_state (fold wake ps d) = dl_state d" "dl_options (fold wake ps d) = dl_options d"
    "dl_backoff (fold wake ps d) = dl_backoff d" "dl_pc (fold wake ps d) = DialEnded \<longleftrightarrow> dl_pc d = DialEnded"
  by (induction ps arbitrary: d) simp_all

text \<open>A step of a dialling goroutine: which of its fields stay, and that it leaves the table alone until its clean-up.\<close>

lemma dial_step_frame:
  assumes "dial_step ev now d t = Some (d', t')"
  shows "dl_info d' = dl_info d" "dl_state d' = dl_state d" "dl_options d' = dl_options d"
    "lt_dialers t' = lt_dialers t" "lt_acceptors t' = lt_acceptors t" "lt_done t' = lt_done t" "st_kinds t' = st_kinds t"
    "length (lt_states t') = length (lt_states t)" "dl_pc d \<noteq> DialEnded"
    "lt_links t' = (if dl_pc d' = DialEnded then lt_links (drop_link (dl_info d) (dl_state d) t) else lt_links t)"
  using assms by (auto simp: dial_step.simps Let_def st_kinds_set again_pc split: dial_pc.splits dial_event.splits option.splits if_splits)

lemma accept_step_frame:
  assumes "accept_step ev a t = Some (a', t')"
  shows "ac_info a' = ac_info a" "ac_pc a \<noteq> AcEnded" "ac_pc a' \<noteq> AcStore" "lt_dialers t' = lt_dialers t" "lt_acceptors t' = lt_acceptors t" "lt_done t' = lt_done t"
    "st_kinds t' = st_kinds t @ (if ac_pc a = AcStore \<and> m_get (lt_links t) (ac_info a) = None then [(linkTypeIncoming, None)] else [])"
    "ac_state a' = (if ac_pc a = AcStore then (case m_get (lt_links t) (ac_info a) of Some p \<Rightarrow> p | None \<Rightarrow> length (lt_states t)) else ac_state a)"
    "lt_links t' = (if ac_pc a' = AcEnded then lt_links (drop_link (ac_info a) (ac_state a) t)
       else if ac_pc a = AcStore \<and> ac_pc a' = AcHandler then m_set (lt_links t) (ac_info a) (ac_state a') else lt_links t)"
    "ac_pc a' = AcEnded \<Longrightarrow> ac_pc a = AcCleanup"
    "ac_pc a = AcStore \<Longrightarrow> ac_pc a' = AcCleanup \<Longrightarrow> m_get (lt_links t) (ac_info a) \<noteq> None"
proof -
  have app: "st_kinds (t\<lparr> lt_states := lt_states t @ [incoming_link p] \<rparr>) = st_kinds t @ [(linkTypeIncoming, None)]" for p
    by (simp add: st_kinds_def incoming_link_def)
  have links: "st_kinds (t\<lparr> lt_links := l \<rparr>) = st_kinds t" for t l by (simp add: st_kinds_def)
  have conn: "lk_conn (incoming_link p) = None" for p by (simp add: incoming_link_def)
  show "ac_info a' = ac_info a" "ac_pc a \<noteq> AcEnded" "ac_pc a' \<noteq> AcStore" "lt_dialers t' = lt_dialers t" "lt_acceptors t' = lt_acceptors t" "lt_done t' = lt_done t"
    "st_kinds t' = st_kinds t @ (if ac_pc a = AcStore \<and> m_get (lt_links t) (ac_info a) = None then [(linkTypeIncoming, None)] else [])"
    "ac_state a' = (if ac_pc a = AcStore then (case m_get (lt_links t) (ac_info a) of Some p \<Rightarrow> p | None \<Rightarrow> length (lt_states t)) else ac_state a)"
    "lt_links t' = (if ac_pc a' = AcEnded then lt_links (drop_link (ac_info a) (ac_state a) t)
       else if ac_pc a = AcStore \<and> ac_pc a' = AcHandler then m_set (lt_links t) (ac_info a) (ac_state a') else lt_links t)"
    "ac_pc a' = AcEnded \<Longrightarrow> ac_pc a = AcCleanup"
    "ac_pc a = AcStore \<Longrightarrow> ac_pc a' = AcCleanup \<Longrightarrow> m_get (lt_links t) (ac_info a) \<noteq> None"
    using assms by (auto simp: accept_step.simps accept_store_def Let_def st_kinds_set app links conn split: accept_pc.splits accept_event.splits option.splits if_splits)
qed

subsection \<open>The invariant\<close>

definition dialer_ok :: "dialer \<Rightarrow> bool" where
  "dialer_ok d \<longleftrightarrow> - 1 \<le> dl_backoff d \<and> dl_backoff d \<le> 32 \<and> minimumBackoffLimit \<le> do_maxBackoff (dl_options d)
     \<and> (\<forall>w. dl_pc d = AtBackoff w \<longrightarrow> dl_backoff d \<noteq> 0 \<and> w = backoff_wait (dl_backoff d) (do_maxBackoff (dl_options d)))"

text \<open>A goroutine that will remove the entry.\<close>

definition owned :: "dialer list \<Rightarrow> acceptor list \<Rightarrow> linkInfo \<Rightarrow> nat \<Rightarrow> bool" where
  "owned D A info p \<longleftrightarrow> (\<exists>d \<in> set D. dl_info d = info \<and> dl_state d = p \<and> dl_pc d \<noteq> DialEnded)
     \<or> (\<exists>a \<in> set A. ac_info a = info \<and> ac_state a = p \<and> ac_pc a \<in> {AcHandler, AcCleanup})"

text \<open>No connection was accepted from what was dialled.\<close>

definition apart :: "dialer list \<Rightarrow> acceptor list \<Rightarrow> bool" where
  "apart D A \<longleftrightarrow> (\<forall>d \<in> set D. \<forall>a \<in> set A. dl_info d \<noteq> ac_info a)"

definition table_inv :: "(linkInfo, nat) gomap \<Rightarrow> dialer list \<Rightarrow> acceptor list \<Rightarrow> (linkType \<times> bool option) list \<Rightarrow> bool" where
  "table_inv L D A K \<longleftrightarrow> m_ok L \<and> distinct (map dl_state D)
     \<and> (\<forall>(ty, ctx) \<in> set K. ctx = None \<longleftrightarrow> ty = linkTypeIncoming)
     \<and> (\<forall>d \<in> set D. dl_state d < length K \<and> fst (K ! dl_state d) \<noteq> linkTypeIncoming \<and> dialer_ok d)
     \<and> (\<forall>a \<in> set A. ac_pc a \<noteq> AcStore \<longrightarrow> ac_state a < length K)
     \<and> (\<forall>info p. m_get L info = Some p \<longrightarrow> p < length K \<and> owned D A info p)
     \<and> (apart D A \<longrightarrow> (\<forall>d \<in> set D. dl_pc d \<noteq> DialEnded \<longrightarrow> m_get L (dl_info d) = Some (dl_state d)))"

abbreviation links_inv :: "linkTable \<Rightarrow> bool" where
  "links_inv t \<equiv> table_inv (lt_links t) (lt_dialers t) (lt_acceptors t) (st_kinds t)"

lemma dialer_ok_backoffNow: "dialer_ok d \<Longrightarrow> dialer_ok (backoffNow d)"
  by (auto simp: dialer_ok_def backoffNow_def next_backoff_def Let_def)

lemma dialer_ok_pc: "dialer_ok d \<Longrightarrow> (\<And>w. pc \<noteq> AtBackoff w) \<Longrightarrow> dialer_ok (d\<lparr> dl_pc := pc \<rparr>)"
  by (simp add: dialer_ok_def)

lemma dialer_ok_step:
  assumes "dial_step ev now d t = Some (d', t')" "dialer_ok d"
  shows "dialer_ok d'"
proof -
  have again: "dialer_ok (again e)" if "dialer_ok e" for e using that by (simp add: again_def dialer_ok_backoffNow dialer_ok_pc)
  have set: "dl_pc d = AtHandler c \<Longrightarrow> dialer_ok (d\<lparr> dl_backoff := b \<rparr>)" if "b \<in> {- 1, 0}" for b c
    using assms(2) that by (auto simp: dialer_ok_def)
  show ?thesis
    using assms again set by (auto simp: dial_step.simps Let_def dialer_ok_pc split: dial_pc.splits dial_event.splits option.splits if_splits)
qed

lemma dialer_ok_wake: "dialer_ok d \<Longrightarrow> dialer_ok (wake p d)"
  by (auto simp: wake_def dialer_ok_def split: dial_pc.split)

lemma dialer_ok_wakes: "dialer_ok d \<Longrightarrow> dialer_ok (fold wake ps d)"
  by (induction ps arbitrary: d) (simp_all add: dialer_ok_wake)

lemma table_invI:
  assumes "m_ok L" "distinct (map dl_state D)" "\<And>ty ctx. (ty, ctx) \<in> set K \<Longrightarrow> ctx = None \<longleftrightarrow> ty = linkTypeIncoming"
    and "\<And>d. d \<in> set D \<Longrightarrow> dl_state d < length K \<and> fst (K ! dl_state d) \<noteq> linkTypeIncoming \<and> dialer_ok d"
    and "\<And>a. a \<in> set A \<Longrightarrow> ac_pc a \<noteq> AcStore \<Longrightarrow> ac_state a < length K"
    and "\<And>info p. m_get L info = Some p \<Longrightarrow> p < length K \<and> owned D A info p"
    and "\<And>d. apart D A \<Longrightarrow> d \<in> set D \<Longrightarrow> dl_pc d \<noteq> DialEnded \<Longrightarrow> m_get L (dl_info d) = Some (dl_state d)"
  shows "table_inv L D A K"
  unfolding table_inv_def using assms by blast

lemma table_invD:
  assumes "table_inv L D A K"
  shows "m_ok L" "distinct (map dl_state D)" "(ty, ctx) \<in> set K \<Longrightarrow> ctx = None \<longleftrightarrow> ty = linkTypeIncoming"
    "d \<in> set D \<Longrightarrow> dl_state d < length K \<and> fst (K ! dl_state d) \<noteq> linkTypeIncoming \<and> dialer_ok d"
    "a \<in> set A \<Longrightarrow> ac_pc a \<noteq> AcStore \<Longrightarrow> ac_state a < length K"
    "m_get L info = Some p \<Longrightarrow> p < length K \<and> owned D A info p"
    "apart D A \<Longrightarrow> d \<in> set D \<Longrightarrow> dl_pc d \<noteq> DialEnded \<Longrightarrow> m_get L (dl_info d) = Some (dl_state d)"
  using assms unfolding table_inv_def by blast+

lemma table_inv_dialers:
  assumes inv: "table_inv L D A K" and len: "length D' = length D"
    and same: "\<And>i. i < length D \<Longrightarrow> dl_info (D' ! i) = dl_info (D ! i) \<and> dl_state (D' ! i) = dl_state (D ! i) \<and> dialer_ok (D' ! i)
      \<and> (dl_pc (D' ! i) = DialEnded \<longleftrightarrow> dl_pc (D ! i) = DialEnded)"
  shows "table_inv L D' A K"
proof (rule table_invI)
  have fw: "\<exists>d \<in> set D. dl_info d' = dl_info d \<and> dl_state d' = dl_state d \<and> dialer_ok d' \<and> (dl_pc d' = DialEnded \<longleftrightarrow> dl_pc d = DialEnded)" if "d' \<in> set D'" for d'
    using that len same by (metis in_set_conv_nth)
  have bw: "\<exists>d' \<in> set D'. dl_info d' = dl_info d \<and> dl_state d' = dl_state d \<and> (dl_pc d' = DialEnded \<longleftrightarrow> dl_pc d = DialEnded)" if "d \<in> set D" for d
    using that len same by (metis in_set_conv_nth)
  have "map dl_state D' = map dl_state D" using len same by (auto intro: nth_equalityI)
  then show "distinct (map dl_state D')" using table_invD(2) [OF inv] by simp
  show "dl_state d < length K \<and> fst (K ! dl_state d) \<noteq> linkTypeIncoming \<and> dialer_ok d" if "d \<in> set D'" for d
    using fw [OF that] table_invD(4) [OF inv] by metis
  show "p < length K \<and> owned D' A info p" if "m_get L info = Some p" for info p
    using table_invD(6) [OF inv that] bw unfolding owned_def by metis
  show "m_get L (dl_info d) = Some (dl_state d)" if "apart D' A" "d \<in> set D'" "dl_pc d \<noteq> DialEnded" for d
  proof -
    have "apart D A" using that(1) bw unfolding apart_def by metis
    then show ?thesis using fw [OF that(2)] that(3) table_invD(7) [OF inv] by metis
  qed
qed (use table_invD [OF inv] in blast)+

lemma table_inv_kinds:
  assumes inv: "table_inv L D A K" and len: "length K' = length K" and "map fst K' = map fst K" "\<And>ty ctx. (ty, ctx) \<in> set K' \<Longrightarrow> ctx = None \<longleftrightarrow> ty = linkTypeIncoming"
  shows "table_inv L D A K'"
proof (rule table_invI)
  have "fst (K' ! p) = fst (K ! p)" if "p < length K" for p using assms(2,3) that by (metis nth_map)
  then show "dl_state d < length K' \<and> fst (K' ! dl_state d) \<noteq> linkTypeIncoming \<and> dialer_ok d" if "d \<in> set D" for d
    using table_invD(4) [OF inv that] len by simp
qed (use table_invD [OF inv] assms(4) len in auto)

lemma table_inv_end_dialer:
  assumes inv: "table_inv L D A K" and i: "i < length D" "dl_info d = dl_info (D ! i)" "dl_state d = dl_state (D ! i)" and d: "dialer_ok d" "dl_pc d = DialEnded"
    and L': "m_ok L'" "\<And>k. m_get L' k = (if k = dl_info d \<and> m_get L (dl_info d) = Some (dl_state d) then None else m_get L k)"
  shows "table_inv L' (D[i := d]) A K"
proof (rule table_invI)
  have keep: "x \<in> set (D[i := d])" if "x \<in> set D" "x \<noteq> D ! i" for x
    using that i(1) by (metis in_set_conv_nth length_list_update nth_list_update_neq)
  have nth: "\<exists>j < length D. x = (if j = i then d else D ! j)" if "x \<in> set (D[i := d])" for x
    using that i(1) by (metis in_set_conv_nth length_list_update nth_list_update)
  have "map dl_state (D[i := d]) = map dl_state D" using i by (simp add: map_update list_update_same_conv)
  then show "distinct (map dl_state (D[i := d]))" using table_invD(2) [OF inv] by simp
  show "dl_state x < length K \<and> fst (K ! dl_state x) \<noteq> linkTypeIncoming \<and> dialer_ok x" if "x \<in> set (D[i := d])" for x
    using nth [OF that] table_invD(4) [OF inv, of "D ! _"] i d(1) by (metis nth_mem)
  show "p < length K \<and> owned (D[i := d]) A info p" if "m_get L' info = Some p" for info p
  proof -
    have p: "m_get L info = Some p" "\<not> (info = dl_info d \<and> p = dl_state d)" using that L'(2) by (auto split: if_splits)
    then show ?thesis using table_invD(6) [OF inv p(1)] keep i(2,3) unfolding owned_def by metis
  qed
  show "m_get L' (dl_info x) = Some (dl_state x)" if ap: "apart (D[i := d]) A" and mem: "x \<in> set (D[i := d])" and live: "dl_pc x \<noteq> DialEnded" for x
  proof -
    obtain j where j: "j < length D" "x = D ! j" "j \<noteq> i" using nth [OF mem] live d(2) by metis
    have "dl_state x \<noteq> dl_state d" using table_invD(2) [OF inv] j i(1,3) by (metis length_map nth_eq_iff_index_eq nth_map)
    moreover have "apart D A"
      using ap keep i unfolding apart_def by (metis set_update_memI)
    ultimately show ?thesis using table_invD(7) [OF inv _ _ live] j L'(2) by auto
  qed
qed (use table_invD [OF inv] L' in blast)+

lemma table_inv_add:
  assumes inv: "table_inv L D A K" and d: "m_get L (dl_info d) = None" "dl_state d = length K" "dialer_ok d" "dl_pc d \<noteq> DialEnded"
    and k: "fst k \<noteq> linkTypeIncoming" "snd k \<noteq> None"
  shows "table_inv (m_set L (dl_info d) (length K)) (D @ [d]) A (K @ [k])"
proof (rule table_invI)
  show "distinct (map dl_state (D @ [d]))" using table_invD(2,4) [OF inv] d(2) by fastforce
  show "dl_state x < length (K @ [k]) \<and> fst ((K @ [k]) ! dl_state x) \<noteq> linkTypeIncoming \<and> dialer_ok x" if "x \<in> set (D @ [d])" for x
    using that table_invD(4) [OF inv, of x] d k(1) by (auto simp: nth_append)
  show "p < length (K @ [k]) \<and> owned (D @ [d]) A info p" if "m_get (m_set L (dl_info d) (length K)) info = Some p" for info p
    using that table_invD(6) [OF inv, of info p] d by (auto simp: owned_def split: if_splits)
  show "m_get (m_set L (dl_info d) (length K)) (dl_info x) = Some (dl_state x)" if "apart (D @ [d]) A" "x \<in> set (D @ [d])" "dl_pc x \<noteq> DialEnded" for x
    using that table_invD(7) [OF inv, of x] d by (auto simp: apart_def)
qed (use table_invD [OF inv] k in \<open>force+\<close>)

lemma table_inv_accept:
  assumes inv: "table_inv L D A K" and a: "ac_pc a = AcStore"
  shows "table_inv L D (A @ [a]) K"
proof (rule table_invI)
  show "p < length K \<and> owned D (A @ [a]) info p" if "m_get L info = Some p" for info p
    using table_invD(6) [OF inv that] by (auto simp: owned_def)
  show "m_get L (dl_info x) = Some (dl_state x)" if "apart D (A @ [a])" "x \<in> set D" "dl_pc x \<noteq> DialEnded" for x
    using that table_invD(7) [OF inv, of x] by (auto simp: apart_def)
qed (use table_invD [OF inv] a in auto)

text \<open>An accepted connection touches the entry of its own name only.\<close>

lemma table_inv_acceptor:
  assumes inv: "table_inv L D A K" and i: "i < length A" "ac_info a = ac_info (A ! i)" "ac_state a < length K'"
    and K': "K' = K \<or> K' = K @ [(linkTypeIncoming, None)]" and L': "m_ok L'" "\<And>k. k \<noteq> ac_info a \<Longrightarrow> m_get L' k = m_get L k"
    and own: "\<And>p. m_get L' (ac_info a) = Some p \<Longrightarrow> p < length K' \<and> owned D (A[i := a]) (ac_info a) p"
  shows "table_inv L' D (A[i := a]) K'"
proof (rule table_invI)
  have keep: "x \<in> set (A[i := a])" if "x \<in> set A" "x \<noteq> A ! i" for x
    using that i(1) by (metis in_set_conv_nth length_list_update nth_list_update_neq)
  have len: "length K \<le> length K'" using K' by auto
  show "ctx = None \<longleftrightarrow> ty = linkTypeIncoming" if "(ty, ctx) \<in> set K'" for ty ctx using K' that table_invD(3) [OF inv, of ty ctx] by auto
  show "dl_state x < length K' \<and> fst (K' ! dl_state x) \<noteq> linkTypeIncoming \<and> dialer_ok x" if "x \<in> set D" for x
    using K' table_invD(4) [OF inv that] by (auto simp: nth_append)
  show "ac_state x < length K'" if "x \<in> set (A[i := a])" "ac_pc x \<noteq> AcStore" for x
    using that set_update_subset_insert [of A i a] i(3) table_invD(5) [OF inv, of x] len by fastforce
  show "p < length K' \<and> owned D (A[i := a]) info p" if p: "m_get L' info = Some p" for info p
  proof (cases "info = ac_info a")
    case False
    then have "p < length K" "owned D A info p" using p L'(2) table_invD(6) [OF inv] by auto
    then show ?thesis using False keep i(2) len unfolding owned_def by (metis order_less_le_trans)
  qed (use own p in simp)
  show "m_get L' (dl_info x) = Some (dl_state x)" if ap: "apart D (A[i := a])" and x: "x \<in> set D" "dl_pc x \<noteq> DialEnded" for x
  proof -
    have "a \<in> set (A[i := a])" using i(1) by (simp add: set_update_memI)
    then have "dl_info x \<noteq> ac_info a" using ap x(1) unfolding apart_def by blast
    moreover have "apart D A" using ap keep i(2) \<open>a \<in> set (A[i := a])\<close> unfolding apart_def by metis
    ultimately show ?thesis using table_invD(7) [OF inv _ x] L'(2) by simp
  qed
qed (use table_invD [OF inv] L' in blast)+

lemma owned_update:
  assumes "owned D A info p" "\<not> (info = ac_info (A ! i) \<and> p = ac_state (A ! i) \<and> ac_pc (A ! i) \<in> {AcHandler, AcCleanup})" "i < length A"
  shows "owned D (A[i := a]) info p"
proof -
  have "x \<in> set (A[i := a])" if "x \<in> set A" "x \<noteq> A ! i" for x
    using that assms(3) by (metis in_set_conv_nth length_list_update nth_list_update_neq)
  then show ?thesis using assms(1,2) unfolding owned_def by metis
qed

lemma owned_self: "i < length A \<Longrightarrow> ac_pc a \<in> {AcHandler, AcCleanup} \<Longrightarrow> owned D (A[i := a]) (ac_info a) (ac_state a)"
  unfolding owned_def using set_update_memI by fastforce

lemma links_inv_incoming:
  assumes inv: "links_inv t" and i: "i < length (lt_acceptors t)" and st: "accept_step ev (lt_acceptors t ! i) t = Some (a, t')"
  shows "links_inv (set_acceptor i a t')"
proof -
  let ?o = "lt_acceptors t ! i"
  note fr = accept_step_frame [OF st]
  have pc: "ac_pc a \<in> {AcHandler, AcCleanup} \<or> ac_pc a = AcEnded" using fr(3) by (cases "ac_pc a") auto
  have old: "ac_pc ?o \<noteq> AcStore \<Longrightarrow> ac_state ?o < length (st_kinds t)" using table_invD(5) [OF inv nth_mem [OF i]] by simp
  have len: "ac_state a < length (st_kinds t')"
    using old table_invD(6) [OF inv, of "ac_info ?o"] unfolding fr(7,8) by (auto split: option.split)
  have own: "p < length (st_kinds t') \<and> owned (lt_dialers t) ((lt_acceptors t)[i := a]) (ac_info a) p" if p: "m_get (lt_links t') (ac_info a) = Some p" for p
  proof (cases "p = ac_state a \<and> ac_pc a \<noteq> AcEnded")
    case True
    then show ?thesis using len owned_self [OF i, of a] pc by auto
  next
    case False
    then have "m_get (lt_links t) (ac_info a) = Some p" "\<not> (p = ac_state ?o \<and> ac_pc ?o \<in> {AcHandler, AcCleanup})"
      using p fr(1,8,9) by (auto split: if_splits)
    then show ?thesis
      using table_invD(6) [OF inv, of "ac_info a" p] owned_update [of _ _ "ac_info a" p i, OF _ _ i] fr(7) by auto
  qed
  have "m_ok (lt_links t')" using fr(9) table_invD(1) [OF inv] by simp
  moreover have "m_get (lt_links t') k = m_get (lt_links t) k" if "k \<noteq> ac_info a" for k using fr(1,9) that by simp
  moreover have "st_kinds t' = st_kinds t \<or> st_kinds t' = st_kinds t @ [(linkTypeIncoming, None)]" using fr(7) by simp
  ultimately show ?thesis using table_inv_acceptor [OF inv i fr(1) len _ _ _ own] fr(4,5) by simp
qed

lemma links_inv_dial:
  assumes inv: "links_inv t" and i: "i < length (lt_dialers t)" and st: "dial_step ev now (lt_dialers t ! i) t = Some (d, t')"
  shows "links_inv (set_dialer i d t')"
proof -
  note fr = dial_step_frame [OF st]
  have ok: "dialer_ok d" using dialer_ok_step [OF st] table_invD(4) [OF inv nth_mem [OF i]] by blast
  show ?thesis
  proof (cases "dl_pc d = DialEnded")
    case True
    then show ?thesis using table_inv_end_dialer [OF inv i fr(1,2) ok True, of "lt_links t'"] fr table_invD(1) [OF inv] by simp
  next
    case False
    have "table_inv (lt_links t) ((lt_dialers t)[i := d]) (lt_acceptors t) (st_kinds t)"
      by (rule table_inv_dialers [OF inv]) (use False fr ok i table_invD(4) [OF inv] in \<open>auto simp: nth_list_update\<close>)
    then show ?thesis using fr False by simp
  qed
qed

lemma links_inv_wake:
  assumes "links_inv t"
  shows "table_inv (lt_links t) (map (fold wake ps) (lt_dialers t)) (lt_acceptors t) (st_kinds t)"
  by (rule table_inv_dialers [OF assms]) (use table_invD(4) [OF assms nth_mem] in \<open>auto simp: dialer_ok_wakes\<close>)

lemma links_inv_add:
  assumes inv: "links_inv t" and ad: "links_add lib snis u sintf ltype t = (e, t')" and ty: "ltype \<noteq> linkTypeIncoming"
  shows "links_inv t'"
proof (cases "\<exists>pr opts. dialerFor u = Inr pr \<and> link_options lib snis u = Inr opts")
  case True
  then obtain pr opts where o: "dialerFor u = Inr pr" "link_options lib snis u = Inr opts" by blast
  show ?thesis
  proof (cases "m_get (lt_links t) (info_for u sintf)")
    case None
    define d where "d = \<lparr> dl_info = info_for u sintf, dl_state = length (lt_states t), dl_type = ltype, dl_options = opts, dl_backoff = 0, dl_pc = AtCheck \<rparr>"
    have "dialer_ok d" using link_options_ok(4) [OF o(2)] by (simp add: d_def dialer_ok_def)
    then have "table_inv (m_set (lt_links t) (dl_info d) (length (st_kinds t))) (lt_dialers t @ [d]) (lt_acceptors t) (st_kinds t @ [(ltype, Some False)])"
      using None ty by (intro table_inv_add [OF inv]) (simp_all add: d_def)
    moreover have "st_kinds t' = st_kinds t @ [(ltype, Some False)]" using ad o None by (auto simp: links_add_def Let_def st_kinds_def dialled_link_def)
    moreover have "lt_links t' = m_set (lt_links t) (dl_info d) (length (st_kinds t))" "lt_dialers t' = lt_dialers t @ [d]" "lt_acceptors t' = lt_acceptors t"
      using ad o None by (auto simp: links_add_def Let_def d_def)
    ultimately show ?thesis by simp
  next
    case (Some ptr)
    then have "t' = kick ptr t" using ad o by (auto simp: links_add_def Let_def)
    then show ?thesis using links_inv_wake [OF inv, of "[ptr]"] by (simp add: comp_def)
  qed
next
  case False
  then have "t' = t" using ad by (auto simp: links_add_def split: sum.splits)
  then show ?thesis using inv by simp
qed

lemma links_remove_frame:
  assumes "links_remove u sintf t = Inr (e, t')"
  shows "t' = t \<or> (\<exists>ptr b. m_get (lt_links t) (info_for u sintf) = Some ptr \<and> lk_ctx (lt_states t ! ptr) = Some b
    \<and> lt_links t' = lt_links t \<and> lt_dialers t' = lt_dialers t \<and> lt_acceptors t' = lt_acceptors t \<and> lt_done t' = lt_done t
    \<and> lt_states t' = (lt_states t)[ptr := (lt_states t ! ptr)\<lparr> lk_ctx := Some True \<rparr>])"
proof (cases "m_get (lt_links t) (info_for u sintf)")
  case (Some ptr)
  then show ?thesis using assms
    by (cases "lk_ctx (lt_states t ! ptr)"; cases "lk_conn (lt_states t ! ptr)") (auto simp: links_remove_def Let_def set_state_def close_conn_def)
qed (use assms in \<open>simp add: links_remove_def\<close>)

lemma links_inv_remove:
  assumes inv: "links_inv t" and rm: "links_remove u sintf t = Inr (e, t')"
  shows "links_inv t'"
  using links_remove_frame [OF rm]
proof (elim disjE exE conjE)
  fix ptr b
  assume h: "m_get (lt_links t) (info_for u sintf) = Some ptr" "lk_ctx (lt_states t ! ptr) = Some b" "lt_links t' = lt_links t" "lt_dialers t' = lt_dialers t"
    "lt_acceptors t' = lt_acceptors t" "lt_states t' = (lt_states t)[ptr := (lt_states t ! ptr)\<lparr> lk_ctx := Some True \<rparr>]"
  have p: "ptr < length (lt_states t)" using table_invD(6) [OF inv h(1)] by simp
  have K: "st_kinds t' = (st_kinds t)[ptr := (lk_type (lt_states t ! ptr), Some True)]" using h(6) by (simp add: st_kinds_def map_update)
  have old: "st_kinds t ! ptr = (lk_type (lt_states t ! ptr), Some b)" using p h(2) by (simp add: st_kinds_nth)
  then have "(lk_type (lt_states t ! ptr), Some b) \<in> set (st_kinds t)" using p nth_mem [of ptr "st_kinds t"] by simp
  then have ty: "lk_type (lt_states t ! ptr) \<noteq> linkTypeIncoming" using table_invD(3) [OF inv] by blast
  have "set (st_kinds t') \<subseteq> insert (lk_type (lt_states t ! ptr), Some True) (set (st_kinds t))" unfolding K by (rule set_update_subset_insert)
  then have kinds: "ctx = None \<longleftrightarrow> ty = linkTypeIncoming" if "(ty, ctx) \<in> set (st_kinds t')" for ty ctx
    using that ty table_invD(3) [OF inv, of ty ctx] by auto
  have m: "map fst (st_kinds t') = map fst (st_kinds t)" using K old p by (simp add: map_update list_update_same_conv)
  have "table_inv (lt_links t) (lt_dialers t) (lt_acceptors t) (st_kinds t')"
    by (rule table_inv_kinds [OF inv _ m kinds]) (simp_all add: K)
  then show ?thesis using h(3-5) by simp
qed (use inv in simp)

lemma links_inv_step: "links_step t t' \<Longrightarrow> links_inv t \<Longrightarrow> links_inv t'"
proof (induction rule: links_step.induct)
  case (retry t)
  then show ?case using links_inv_wake by simp
next
  case (accept t info proto)
  then show ?case using table_inv_accept [of "lt_links t" "lt_dialers t" "lt_acceptors t" "st_kinds t"] by (simp add: links_accept_def st_kinds_def)
next
  case (shutdown t)
  then show ?case by simp
qed (blast intro: links_inv_add links_inv_remove links_inv_dial links_inv_incoming)+

lemma links_inv_reachable: "links_reachable t \<Longrightarrow> links_inv t"
  unfolding links_reachable_def
proof (induction rule: rtranclp_induct)
  case base
  show ?case by (simp add: table_inv_def linkTable_init_def st_kinds_def apart_def)
qed (rule links_inv_step)

subsection \<open>Every entry has its goroutine\<close>

text \<open>
  C12. The table of links is in order in every reachable state: each entry belongs to a goroutine that still runs
  and will remove it, so nothing stays behind. And as long as no connection was accepted under the name of a
  dialled peer, every dialling goroutine that runs has its entry, so that \<open>remove\<close> finds it, and no peer
  is dialled by two goroutines.
\<close>

theorem link_table_in_order:
  assumes "links_reachable t"
  shows "m_ok (lt_links t) \<and> (\<forall>info p. m_get (lt_links t) info = Some p \<longrightarrow> p < length (lt_states t) \<and> owned (lt_dialers t) (lt_acceptors t) info p)
    \<and> (apart (lt_dialers t) (lt_acceptors t) \<longrightarrow>
        (\<forall>d \<in> set (lt_dialers t). dl_pc d \<noteq> DialEnded \<longrightarrow> m_get (lt_links t) (dl_info d) = Some (dl_state d))
        \<and> (\<forall>i j. i < length (lt_dialers t) \<longrightarrow> j < length (lt_dialers t) \<longrightarrow> dl_info (lt_dialers t ! i) = dl_info (lt_dialers t ! j) \<longrightarrow>
             dl_pc (lt_dialers t ! i) \<noteq> DialEnded \<longrightarrow> dl_pc (lt_dialers t ! j) \<noteq> DialEnded \<longrightarrow> i = j))"
proof -
  note inv = links_inv_reachable [OF assms]
  have entry: "m_get (lt_links t) (dl_info d) = Some (dl_state d)" if "apart (lt_dialers t) (lt_acceptors t)" "d \<in> set (lt_dialers t)" "dl_pc d \<noteq> DialEnded" for d
    using table_invD(7) [OF inv that] .
  have "i = j" if "apart (lt_dialers t) (lt_acceptors t)" "i < length (lt_dialers t)" "j < length (lt_dialers t)"
      "dl_info (lt_dialers t ! i) = dl_info (lt_dialers t ! j)" "dl_pc (lt_dialers t ! i) \<noteq> DialEnded" "dl_pc (lt_dialers t ! j) \<noteq> DialEnded" for i j
  proof -
    have "dl_state (lt_dialers t ! i) = dl_state (lt_dialers t ! j)"
      using entry [OF that(1) nth_mem [OF that(2)] that(5)] entry [OF that(1) nth_mem [OF that(3)] that(6)] that(4) by simp
    then show ?thesis using table_invD(2) [OF inv] that(2,3) by (metis length_map nth_eq_iff_index_eq nth_map)
  qed
  moreover have "p < length (lt_states t) \<and> owned (lt_dialers t) (lt_acceptors t) info p" if "m_get (lt_links t) info = Some p" for info p
    using table_invD(6) [OF inv that] by simp
  ultimately show ?thesis using table_invD(1) [OF inv] entry by blast
qed

subsection \<open>Backoff\<close>

lemma second_shifted: "0 \<le> b \<Longrightarrow> b \<le> 32 \<Longrightarrow> sint (push_bit (nat b) (1000000000 :: u64)) = 1000000000 * 2 ^ nat b"
proof -
  assume b: "0 \<le> b" "b \<le> 32"
  have "push_bit (nat b) (1000000000 :: u64) = of_int (1000000000 * 2 ^ nat b)" by (simp add: push_bit_eq_mult)
  then have s: "sint (push_bit (nat b) (1000000000 :: u64)) = signed_take_bit 63 (1000000000 * 2 ^ nat b)"
    by (simp only: signed_of_int) simp
  have "(1000000000 * 2 ^ nat b :: int) \<le> 1000000000 * 2 ^ 32" using b by (intro mult_left_mono power_increasing) auto
  then have "(1000000000 * 2 ^ nat b :: int) < 2 ^ 63" by (rule order.strict_trans1) simp
  moreover have "- (2 ^ 63) \<le> (1000000000 * 2 ^ nat b :: int)" by (rule order_trans [of _ 0]) simp_all
  ultimately show ?thesis using s signed_take_bit_int_eq_self [of 63 "1000000000 * 2 ^ nat b"] by simp
qed

lemma backoff_wait_eq: "0 \<le> b \<Longrightarrow> b \<le> 32 \<Longrightarrow> backoff_wait b maxBackoff = Some (min maxBackoff (1000000000 * 2 ^ nat b))"
  by (simp add: backoff_wait_def second_shifted Let_def min_def)

lemma backoffs: "dl_backoff d = 0 \<Longrightarrow> dl_backoff ((backoffNow ^^ k) d) = int (min k 32) \<and> dl_options ((backoffNow ^^ k) d) = dl_options d"
  by (induction k) (auto simp: backoffNow_def next_backoff_def Let_def)

text \<open>
  The waits between attempts: after \<open>k\<close> failures in a row a dialling goroutine waits \<open>2 ^ k\<close> seconds, at most
  its limit, and the 64-bit shift never overflows. In every reachable state a wait is between two seconds and the
  limit, or, after a connection to the node itself, without end until a kick or a removal.
\<close>

theorem backoff_doubles:
  assumes "dl_backoff d0 = 0" "links_reachable t" "d \<in> set (lt_dialers t)" "dl_pc d = AtBackoff w"
  shows "dl_pc ((backoffNow ^^ Suc k) d0) = AtBackoff (Some (min (do_maxBackoff (dl_options d0)) (10 ^ 9 * 2 ^ min (Suc k) 32)))
    \<and> (if dl_backoff d = - 1 then w = None else \<exists>x. w = Some x \<and> 2 * 10 ^ 9 \<le> x \<and> x \<le> do_maxBackoff (dl_options d))"
proof -
  have "dl_pc ((backoffNow ^^ Suc k) d0) = AtBackoff (backoff_wait (dl_backoff ((backoffNow ^^ Suc k) d0)) (do_maxBackoff (dl_options d0)))"
    using backoffs [OF assms(1), of k] by (simp add: backoffNow_def Let_def)
  also have "\<dots> = AtBackoff (Some (min (do_maxBackoff (dl_options d0)) (10 ^ 9 * 2 ^ min (Suc k) 32)))"
    using backoffs [OF assms(1), of "Suc k"] backoff_wait_eq [of "int (min (Suc k) 32)" "do_maxBackoff (dl_options d0)"] by (simp only: nat_int) simp
  finally have "dl_pc ((backoffNow ^^ Suc k) d0) = \<dots>" .
  moreover have ok: "dialer_ok d" using table_invD(4) [OF links_inv_reachable [OF assms(2)] assms(3)] by blast
  then have b: "dl_backoff d = - 1 \<or> 1 \<le> dl_backoff d \<and> dl_backoff d \<le> 32" "w = backoff_wait (dl_backoff d) (do_maxBackoff (dl_options d))"
      "5 * 10 ^ 9 \<le> do_maxBackoff (dl_options d)"
    using assms(4) by (auto simp: dialer_ok_def minimumBackoffLimit_def)
  moreover have "2 * 10 ^ 9 \<le> (1000000000 :: int) * 2 ^ nat b" if "1 \<le> b" for b :: int
    using that power_increasing [of 1 "nat b" "2 :: int"] by simp
  ultimately show ?thesis
    using backoff_wait_eq [of "dl_backoff d" "do_maxBackoff (dl_options d)"] by (auto simp: backoff_wait_def)
qed

subsection \<open>Removal\<close>

fun dial_rank :: "dial_pc \<Rightarrow> nat" where
  "dial_rank AtConnect = 6"
| "dial_rank (AtStore c) = 5"
| "dial_rank (AtHandler c) = 4"
| "dial_rank (AtBackoff w) = 3"
| "dial_rank AtCheck = 2"
| "dial_rank AtCleanup = 1"
| "dial_rank DialEnded = 0"

lemma dial_step_rank: "dial_step ev now d t = Some (d', t') \<Longrightarrow> ctx_done t (dl_state d) \<Longrightarrow> dial_rank (dl_pc d') \<le> dial_rank (dl_pc d)"
  by (auto simp: dial_step.simps Let_def again_def backoffNow_def split: dial_pc.splits dial_event.splits option.splits if_splits)

lemma dial_step_strict: "dial_step ev now d t = Some (d', t') \<Longrightarrow> ctx_done t (dl_state d) \<Longrightarrow>
    dial_rank (dl_pc d') < dial_rank (dl_pc d) \<or> (\<exists>c. dl_pc d = AtHandler c \<and> dl_pc d' = AtHandler c)"
  by (auto simp: dial_step.simps Let_def again_def backoffNow_def split: dial_pc.splits dial_event.splits option.splits if_splits)

lemma wake_rank: "dial_rank (dl_pc (wake p d)) \<le> dial_rank (dl_pc d)"
  by (simp add: wake_def split: dial_pc.split)

lemma wakes_rank: "dial_rank (dl_pc (fold wake ps d)) \<le> dial_rank (dl_pc d)"
  by (induction ps arbitrary: d) (auto intro: order_trans wake_rank)

lemma ctx_done_kinds: "p < length (lt_states t) \<Longrightarrow> ctx_done t p \<longleftrightarrow> snd (st_kinds t ! p) = Some True \<or> lt_done t"
  by (simp add: ctx_done_def st_kinds_nth)

text \<open>Goroutines keep their place in the list, and a cancelled context stays cancelled.\<close>

definition goes_on :: "linkTable \<Rightarrow> linkTable \<Rightarrow> nat \<Rightarrow> bool" where
  "goes_on t t' i \<longleftrightarrow> i < length (lt_dialers t') \<and> dl_state (lt_dialers t' ! i) = dl_state (lt_dialers t ! i) \<and> dl_info (lt_dialers t' ! i) = dl_info (lt_dialers t ! i)
     \<and> (ctx_done t (dl_state (lt_dialers t ! i)) \<longrightarrow> ctx_done t' (dl_state (lt_dialers t ! i))
          \<and> dial_rank (dl_pc (lt_dialers t' ! i)) \<le> dial_rank (dl_pc (lt_dialers t ! i)))"

lemma goes_on_same:
  assumes "i < length (lt_dialers t)" "dl_state (lt_dialers t ! i) < length (lt_states t)" "lt_dialers t' = lt_dialers t"
    "lt_done t \<longrightarrow> lt_done t'" "\<exists>K. st_kinds t' = st_kinds t @ K"
  shows "goes_on t t' i"
proof -
  have "length (lt_states t) \<le> length (lt_states t')" using assms(5) length_st_kinds by (metis le_add1 length_append)
  then show ?thesis using assms by (auto simp: goes_on_def ctx_done_kinds nth_append)
qed

lemma goes_on_step:
  assumes "links_step t t'" "links_inv t" "i < length (lt_dialers t)"
  shows "goes_on t t' i"
  using assms
proof (induction rule: links_step.induct)
  case (add lib snis u sintf ltype t e t')
  have s: "dl_state (lt_dialers t ! i) < length (lt_states t)" using table_invD(4) [OF add.prems(1) nth_mem [OF add.prems(2)]] by simp
  show ?case
  proof (cases "\<exists>ptr. t' = kick ptr t")
    case True
    then show ?thesis using add.prems(2) s wake_rank by (auto simp: goes_on_def ctx_done_def)
  next
    case False
    then have "t' = t \<or> (\<exists>d. lt_dialers t' = lt_dialers t @ [d]) \<and> lt_done t' = lt_done t \<and> (\<exists>st. lt_states t' = lt_states t @ [st])"
      using add.hyps(1) by (auto simp: links_add_def Let_def split: sum.splits option.splits)
    then show ?thesis using add.prems(2) s by (auto simp: goes_on_def ctx_done_def nth_append)
  qed
next
  case (remove u sintf t e t')
  have s: "dl_state (lt_dialers t ! i) < length (lt_states t)" using table_invD(4) [OF remove.prems(1) nth_mem [OF remove.prems(2)]] by simp
  show ?case using links_remove_frame [OF remove.hyps]
  proof (elim disjE exE conjE)
    fix ptr b
    assume h: "lt_dialers t' = lt_dialers t" "lt_done t' = lt_done t" "lt_states t' = (lt_states t)[ptr := (lt_states t ! ptr)\<lparr> lk_ctx := Some True \<rparr>]"
    have "ctx_done t p \<Longrightarrow> ctx_done t' p" if "p < length (lt_states t)" for p
      using h(2,3) that by (cases "p = ptr") (auto simp: ctx_done_def)
    then show ?case using h remove.prems(2) s by (auto simp: goes_on_def)
  qed (use remove.prems(2) in \<open>simp add: goes_on_def\<close>)
next
  case (retry t)
  then show ?case using wakes_rank by (simp add: goes_on_def ctx_done_def)
next
  case (shutdown t)
  then show ?case by (simp add: goes_on_def ctx_done_def)
next
  case (dial j t ev now d t')
  have s: "dl_state (lt_dialers t ! i) < length (lt_states t)" using table_invD(4) [OF dial.prems(1) nth_mem [OF dial.prems(2)]] by simp
  note fr = dial_step_frame [OF dial.hyps(2)]
  have "ctx_done (set_dialer j d t') p = ctx_done t p" if "p < length (lt_states t)" for p
    using that fr(6-8) by (simp add: ctx_done_kinds)
  then show ?case using fr(1,2,4) dial_step_rank [OF dial.hyps(2)] dial.prems(2) dial.hyps(1) s
    by (cases "i = j") (simp_all add: goes_on_def)
next
  case (accept t info proto)
  have "dl_state (lt_dialers t ! i) < length (lt_states t)" using table_invD(4) [OF accept.prems(1) nth_mem [OF accept.prems(2)]] by simp
  then show ?case using accept.prems by (intro goes_on_same) (auto simp: links_accept_def st_kinds_def)
next
  case (incoming j t ev a t')
  have "dl_state (lt_dialers t ! i) < length (lt_states t)" using table_invD(4) [OF incoming.prems(1) nth_mem [OF incoming.prems(2)]] by simp
  then show ?case using incoming.prems accept_step_frame [OF incoming.hyps(2)] by (intro goes_on_same) auto
qed

lemma goes_on_run:
  assumes "links_step\<^sup>*\<^sup>* t t'" "links_inv t" "i < length (lt_dialers t)"
  shows "links_inv t' \<and> goes_on t t' i"
  using assms
proof (induction rule: rtranclp_induct)
  case (step t' t'')
  then have IH: "links_inv t'" "goes_on t t' i" by simp_all
  then have "goes_on t' t'' i" using goes_on_step [OF step.hyps(2), of i] by (simp add: goes_on_def)
  then have "goes_on t t'' i" using IH(2) order_trans by (auto simp: goes_on_def)
  then show ?case using links_inv_step [OF step.hyps(2) IH(1)] by blast
qed (simp add: goes_on_def)

lemma dial_progress:
  assumes "ctx_done t (dl_state d)" "dl_pc d \<in> {AtCheck, AtCleanup} \<or> (\<exists>w. dl_pc d = AtBackoff w)"
  shows "\<exists>ev d' t'. dial_step ev now d t = Some (d', t') \<and> dial_rank (dl_pc d') < dial_rank (dl_pc d)"
proof -
  consider "dl_pc d = AtCheck" | "dl_pc d = AtCleanup" | w where "dl_pc d = AtBackoff w" using assms(2) by blast
  then show ?thesis
  proof cases
    case 1
    then show ?thesis using assms(1) by (intro exI [of _ DoCheck]) (simp add: dial_step.simps)
  next
    case 2
    then show ?thesis by (intro exI [of _ DoCleanup]) (simp add: dial_step.simps)
  next
    case (3 w)
    then show ?thesis using assms(1) by (intro exI [of _ BackoffCancelled]) (cases w; simp add: dial_step.simps)
  qed
qed

text \<open>
  C17. A removed peer is not dialled again. After \<open>remove\<close> the goroutine of the entry only moves towards its end,
  whatever else happens to the table: each of its own steps, apart from what a running handler reports, brings it
  strictly closer, so that an attempt that was under way is its last and it never starts another one; and
  where it does not wait for the network it can always take such a step.
\<close>

theorem removed_peer_stays_removed:
  assumes "links_reachable t" "links_remove u sintf t = Inr (None, t')" "i < length (lt_dialers t)"
    and "m_get (lt_links t) (info_for u sintf) = Some (dl_state (lt_dialers t ! i))" "links_step\<^sup>*\<^sup>* t' t2"
  shows "dial_rank (dl_pc (lt_dialers t2 ! i)) \<le> dial_rank (dl_pc (lt_dialers t ! i))
    \<and> (\<forall>t3. links_step\<^sup>*\<^sup>* t2 t3 \<longrightarrow> dl_pc (lt_dialers t2 ! i) \<noteq> AtConnect \<longrightarrow> dl_pc (lt_dialers t3 ! i) \<noteq> AtConnect)
    \<and> (\<forall>ev d' t3. dial_step ev now (lt_dialers t2 ! i) t2 = Some (d', t3) \<longrightarrow>
        dial_rank (dl_pc d') < dial_rank (dl_pc (lt_dialers t2 ! i)) \<or> (\<exists>c. dl_pc (lt_dialers t2 ! i) = AtHandler c \<and> dl_pc d' = AtHandler c))
    \<and> (dl_pc (lt_dialers t2 ! i) \<in> {AtCheck, AtCleanup} \<or> (\<exists>w. dl_pc (lt_dialers t2 ! i) = AtBackoff w) \<longrightarrow>
        (\<exists>ev d' t3. dial_step ev now (lt_dialers t2 ! i) t2 = Some (d', t3) \<and> dial_rank (dl_pc d') < dial_rank (dl_pc (lt_dialers t2 ! i))))"
proof -
  note inv = links_inv_reachable [OF assms(1)]
  let ?p = "dl_state (lt_dialers t ! i)"
  have p: "?p < length (lt_states t)" using table_invD(4) [OF inv nth_mem [OF assms(3)]] by simp
  obtain b where "lk_ctx (lt_states t ! ?p) = Some b" using assms(2,4) by (auto simp: links_remove_def split: option.splits)
  then have "lt_states t' = (lt_states t)[?p := (lt_states t ! ?p)\<lparr> lk_ctx := Some True \<rparr>]" "lt_dialers t' = lt_dialers t"
    using assms(2,4) by (auto simp: links_remove_def Let_def set_state_def close_conn_def split: option.splits)
  then have c: "ctx_done t' ?p" "lt_dialers t' = lt_dialers t" using p by (simp_all add: ctx_done_def)
  have g: "links_inv t2" "goes_on t' t2 i" using goes_on_run [OF assms(5) links_inv_remove [OF inv assms(2)]] assms(3) c(2) by simp_all
  then have r: "dial_rank (dl_pc (lt_dialers t2 ! i)) \<le> dial_rank (dl_pc (lt_dialers t ! i))" "ctx_done t2 (dl_state (lt_dialers t2 ! i))"
    using c by (simp_all add: goes_on_def)
  moreover have "dl_pc (lt_dialers t3 ! i) \<noteq> AtConnect" if "links_step\<^sup>*\<^sup>* t2 t3" "dl_pc (lt_dialers t2 ! i) \<noteq> AtConnect" for t3
  proof -
    have "dial_rank (dl_pc (lt_dialers t3 ! i)) \<le> dial_rank (dl_pc (lt_dialers t2 ! i))"
      using goes_on_run [OF that(1) g(1), of i] g(2) r(2) by (simp add: goes_on_def)
    then show ?thesis using that(2) by (cases "dl_pc (lt_dialers t2 ! i)") auto
  qed
  ultimately show ?thesis using dial_progress [OF r(2)] dial_step_strict [OF _ r(2)] by blast
qed

text \<open>
  C38. Removing an incoming link crashes the node: an entry made for an accepted connection has no cancel function,
  and \<open>remove\<close> calls it. In every reachable state this happens exactly when the URI and interface are those of
  such an entry, which the listing of peers shows to the user.
\<close>

theorem removing_incoming_panics:
  assumes "links_reachable t"
  shows "links_remove u sintf t = Inl Panic \<longleftrightarrow>
    (\<exists>p. m_get (lt_links t) (info_for u sintf) = Some p \<and> lk_type (lt_states t ! p) = linkTypeIncoming)"
proof (cases "m_get (lt_links t) (info_for u sintf)")
  case (Some p)
  note inv = links_inv_reachable [OF assms]
  have "p < length (st_kinds t)" using table_invD(6) [OF inv Some] by simp
  then have "(lk_type (lt_states t ! p), lk_ctx (lt_states t ! p)) \<in> set (st_kinds t)" using nth_mem [of p "st_kinds t"] by (simp add: st_kinds_nth)
  then have "lk_ctx (lt_states t ! p) = None \<longleftrightarrow> lk_type (lt_states t ! p) = linkTypeIncoming" using table_invD(3) [OF inv] by blast
  then show ?thesis using Some by (auto simp: links_remove_def Let_def split: option.splits)
qed (simp add: links_remove_def)

text \<open>
  C39. A dropped duplicate takes the entry with it: when a second connection arrives under the name of a link that is
  up, it is dropped as intended, but its clean-up then deletes the entry of the first link, whose connection stays
  open. The first link is no longer listed, found by \<open>remove\<close>, or closed on shutdown.
\<close>

theorem duplicate_forgets_link:
  assumes "m_get (lt_links t) info = Some p" "lk_conn (lt_states t ! p) = Some c" "c \<noteq> lt_conns t"
  shows "\<exists>t'. links_step\<^sup>*\<^sup>* t t' \<and> m_get (lt_links t') info = None \<and> lk_conn (lt_states t' ! p) = Some c
    \<and> (c \<in> set (lt_closed t') \<longleftrightarrow> c \<in> set (lt_closed t)) \<and> lt_dialers t' = lt_dialers t \<and> take (length (lt_acceptors t)) (lt_acceptors t') = lt_acceptors t"
proof -
  let ?n = "length (lt_acceptors t)"
  define a where "a = \<lparr> ac_info = info, ac_proto = [], ac_conn = lt_conns t, ac_state = 0, ac_pc = AcStore \<rparr>"
  define t1 where "t1 = links_accept info [] t"
  define a2 where "a2 = a\<lparr> ac_state := p, ac_pc := AcCleanup \<rparr>"
  define t2 where "t2 = set_acceptor ?n a2 t1"
  define t3 where "t3 = set_acceptor ?n (a2\<lparr> ac_pc := AcEnded \<rparr>) (close_conn (lt_conns t) (drop_link info p t2))"
  have t1: "lt_acceptors t1 = lt_acceptors t @ [a]" "lt_links t1 = lt_links t" "lt_states t1 = lt_states t" "lt_dialers t1 = lt_dialers t" "lt_closed t1 = lt_closed t"
    by (simp_all add: t1_def links_accept_def a_def)
  have s1: "links_step t t1" unfolding t1_def by (rule links_step.accept)
  have "accept_step AcDoStore (lt_acceptors t1 ! ?n) t1 = Some (a2, t1)"
    using assms(1,2) by (simp add: accept_step.simps accept_store_def t1 a_def a2_def)
  then have s2: "links_step t1 t2" unfolding t2_def by (rule links_step.incoming [rotated]) (simp add: t1)
  have t2: "lt_acceptors t2 = lt_acceptors t @ [a2]" "lt_links t2 = lt_links t" "lt_states t2 = lt_states t" "lt_dialers t2 = lt_dialers t" "lt_closed t2 = lt_closed t"
    by (simp_all add: t2_def t1) (simp add: set_acceptor_def t1)
  have "accept_step AcDoCleanup (lt_acceptors t2 ! ?n) t2 = Some (a2\<lparr> ac_pc := AcEnded \<rparr>, close_conn (lt_conns t) (drop_link info p t2))"
    by (simp add: accept_step.simps t2) (simp add: a2_def a_def)
  then have s3: "links_step t2 t3" unfolding t3_def by (rule links_step.incoming [rotated]) (simp add: t2)
  have "lt_closed t3 = set_add (lt_conns t) (lt_closed t)"
    using assms(1) by (simp add: t3_def set_acceptor_def close_conn_def drop_link_def t2)
  then have "c \<in> set (lt_closed t3) \<longleftrightarrow> c \<in> set (lt_closed t)" using assms(3) by (simp add: set_add_def)
  moreover have "m_get (lt_links t3) info = None" "lt_states t3 = lt_states t" "lt_dialers t3 = lt_dialers t" "take ?n (lt_acceptors t3) = lt_acceptors t"
    using assms(1) by (simp_all add: t3_def t2)
  moreover have "links_step\<^sup>*\<^sup>* t t3" using s1 s2 s3 by (metis rtranclp.rtrancl_into_rtrancl rtranclp.rtrancl_refl)
  ultimately show ?thesis using assms(2) by metis
qed

subsection \<open>Sample states\<close>

text \<open>A peer that is dialled, failed once and waits, and a node with one accepted connection.\<close>

definition sample_dialer :: dialer where
  "sample_dialer = \<lparr> dl_info = info_for sample_url [], dl_state = 0, dl_type = linkTypePersistent,
     dl_options = \<lparr> lo_pinned = [], lo_priority = 0, lo_password = [], do_tlsSNI = ''a'', do_maxBackoff = defaultBackoffLimit \<rparr>, dl_backoff = 0, dl_pc = AtCheck \<rparr>"

definition sample_added :: linkTable where
  "sample_added = linkTable_init\<lparr> lt_links := [(info_for sample_url [], 0)], lt_states := [dialled_link sample_url linkTypePersistent], lt_dialers := [sample_dialer] \<rparr>"

definition sample_waiting :: linkTable where
  "sample_waiting = sample_added\<lparr> lt_states := [(dialled_link sample_url linkTypePersistent)\<lparr> lk_err := Some ConnectError, lk_errtime := Some 7 \<rparr>],
     lt_dialers := [backoffNow (sample_dialer\<lparr> dl_pc := AtConnect \<rparr>)] \<rparr>"

definition sample_incoming :: linkTable where
  "sample_incoming = linkTable_init\<lparr> lt_links := [(info_for sample_url [], 0)], lt_states := [(incoming_link ''TLS'')\<lparr> lk_conn := Some 0 \<rparr>], lt_conns := 1,
     lt_acceptors := [\<lparr> ac_info = info_for sample_url [], ac_proto = ''TLS'', ac_conn = 0, ac_state = 0, ac_pc = AcHandler \<rparr>] \<rparr>"

lemma sample_added_reachable: "links_reachable sample_added"
proof -
  have "link_options sample_lib [] sample_url = Inr (dl_options sample_dialer)"
    by (simp add: link_options_def query_all_def query_get_def sample_url_def m_get0_def option_priority_def option_password_def option_maxBackoff_def
        option_sni_def stickySNI_def sample_lib_def sample_dialer_def)
  moreover have "dialerFor sample_url = Inr linkTLS" by (simp add: dialerFor_def sample_url_def lower_def Let_def)
  ultimately have "links_add sample_lib [] sample_url [] linkTypePersistent linkTable_init = (None, sample_added)"
    by (simp add: links_add_def Let_def linkTable_init_def sample_added_def sample_dialer_def)
  then have "links_step linkTable_init sample_added" by (rule links_step.add) simp
  then show ?thesis unfolding links_reachable_def by blast
qed

lemma reachable_dial:
  assumes "links_reachable t" "i < length (lt_dialers t)" "dial_step ev now (lt_dialers t ! i) t = Some (d, t')"
  shows "links_reachable (set_dialer i d t')"
  using links_step.dial [OF assms(2,3)] assms(1) unfolding links_reachable_def by (meson rtranclp.rtrancl_into_rtrancl)

lemma sample_waiting_reachable: "links_reachable sample_waiting"
proof -
  let ?t = "set_dialer 0 (sample_dialer\<lparr> dl_pc := AtConnect \<rparr>) sample_added"
  have "links_reachable ?t"
    by (rule reachable_dial [OF sample_added_reachable, of 0 DoCheck 7])
      (simp_all add: sample_added_def dial_step.simps sample_dialer_def ctx_done_def dialled_link_def linkTable_init_def)
  from reachable_dial [OF this, of 0 "ConnectFails (Some ConnectError)" 7] show ?thesis
    by (simp add: sample_added_def dial_step.simps set_dialer_def set_state_def sample_waiting_def again_def sample_dialer_def dialled_link_def linkTable_init_def)
qed

lemma sample_incoming_reachable: "links_reachable sample_incoming"
proof -
  let ?t = "links_accept (info_for sample_url []) ''TLS'' linkTable_init"
  have "links_step linkTable_init ?t" by (rule links_step.accept)
  moreover have "links_step ?t sample_incoming"
    using links_step.incoming [of 0 ?t AcDoStore]
    by (simp add: links_accept_def linkTable_init_def accept_step.simps accept_store_def set_state_def set_acceptor_def incoming_link_def sample_incoming_def)
  ultimately show ?thesis unfolding links_reachable_def by (meson rtranclp.rtrancl_into_rtrancl rtranclp.rtrancl_refl)
qed

theorem link_table_in_order_witness:
  "links_reachable sample_waiting \<and> m_get (lt_links sample_waiting) (dl_info sample_dialer) = Some 0"
proof -
  have "apart (lt_dialers sample_waiting) (lt_acceptors sample_waiting)" by (simp add: apart_def sample_waiting_def sample_added_def linkTable_init_def)
  then show ?thesis using link_table_in_order [OF sample_waiting_reachable] sample_waiting_reachable
    by (simp add: sample_waiting_def backoffNow_def Let_def) (simp add: sample_dialer_def)
qed

theorem backoff_doubles_witness:
  "\<exists>d \<in> set (lt_dialers sample_waiting). \<exists>x. dl_pc d = AtBackoff (Some x) \<and> 2 * 10 ^ 9 \<le> x \<and> x \<le> do_maxBackoff (dl_options d)"
proof -
  obtain d w where d: "d \<in> set (lt_dialers sample_waiting)" "dl_pc d = AtBackoff w" "dl_backoff d = 1"
    by (simp add: sample_waiting_def backoffNow_def Let_def next_backoff_def sample_dialer_def)
  have "dl_backoff sample_dialer = 0" by (simp add: sample_dialer_def)
  from backoff_doubles [OF this sample_waiting_reachable d(1,2), of 0] d(3)
  obtain x where "w = Some x" "2 * 10 ^ 9 \<le> x" "x \<le> do_maxBackoff (dl_options d)" by auto
  then show ?thesis using d(1,2) by blast
qed

theorem removed_peer_stays_removed_witness:
  "\<exists>t'. links_remove sample_url [] sample_waiting = Inr (None, t')
    \<and> (\<exists>ev d' t3. dial_step ev 9 (lt_dialers t' ! 0) t' = Some (d', t3) \<and> dial_rank (dl_pc d') < 3)"
proof -
  obtain t' where t': "links_remove sample_url [] sample_waiting = Inr (None, t')" "lt_dialers t' = lt_dialers sample_waiting"
    by (simp add: links_remove_def sample_waiting_def sample_added_def linkTable_init_def dialled_link_def set_state_def)
  have h: "0 < length (lt_dialers sample_waiting)" "m_get (lt_links sample_waiting) (info_for sample_url []) = Some (dl_state (lt_dialers sample_waiting ! 0))"
      "\<exists>w. dl_pc (lt_dialers sample_waiting ! 0) = AtBackoff w"
    by (simp_all add: sample_waiting_def sample_added_def linkTable_init_def) (simp_all add: sample_dialer_def backoffNow_def Let_def)
  from h(3) obtain w where "dl_pc (lt_dialers sample_waiting ! 0) = AtBackoff w" by blast
  then show ?thesis
    using removed_peer_stays_removed [OF sample_waiting_reachable t'(1) h(1,2) rtranclp.rtrancl_refl, of 9] t' by auto
qed

theorem removing_incoming_panics_witness:
  "links_reachable sample_incoming \<and> links_remove sample_url [] sample_incoming = Inl Panic"
proof -
  have "m_get (lt_links sample_incoming) (info_for sample_url []) = Some 0" "lk_type (lt_states sample_incoming ! 0) = linkTypeIncoming"
    by (simp_all add: sample_incoming_def incoming_link_def)
  then show ?thesis using removing_incoming_panics [OF sample_incoming_reachable, of sample_url "[]"] sample_incoming_reachable by blast
qed

theorem duplicate_forgets_link_witness:
  "\<exists>t'. links_reachable t' \<and> m_get (lt_links t') (info_for sample_url []) = None \<and> 0 \<notin> set (lt_closed t') \<and> hd (lt_acceptors t') = hd (lt_acceptors sample_incoming)"
proof -
  have "m_get (lt_links sample_incoming) (info_for sample_url []) = Some 0" "lk_conn (lt_states sample_incoming ! 0) = Some 0" "0 \<noteq> lt_conns sample_incoming"
    by (simp_all add: sample_incoming_def)
  from duplicate_forgets_link [OF this] obtain t' where t': "links_step\<^sup>*\<^sup>* sample_incoming t'" "m_get (lt_links t') (info_for sample_url []) = None"
      "0 \<in> set (lt_closed t') \<longleftrightarrow> 0 \<in> set (lt_closed sample_incoming)" "take (length (lt_acceptors sample_incoming)) (lt_acceptors t') = lt_acceptors sample_incoming" by blast
  have "links_reachable t'" using sample_incoming_reachable t'(1) unfolding links_reachable_def by simp
  moreover have "length (lt_acceptors sample_incoming) = 1" by (simp add: sample_incoming_def)
  then have "hd (lt_acceptors t') = hd (lt_acceptors sample_incoming)" using t'(4) by (cases "lt_acceptors t'"; cases "lt_acceptors sample_incoming") simp_all
  moreover have "0 \<notin> set (lt_closed t')" using t'(3) by (simp add: sample_incoming_def linkTable_init_def)
  ultimately show ?thesis using t'(2) by blast
qed

end
