(* ===== verification/Snapshots.thy ===== *)
theory Snapshots
  imports LinkTable
begin

text \<open>
  \<^verbatim>\<open>ironwood/network/debug.go\<close> and the listings of \<^verbatim>\<open>src/core/api.go\<close>: what a node tells about itself, its tree, its
  paths, filters and peers. A listing is in the order in which the map is ranged over. The round trip times
  that a connection has measured, and which link connection belongs to which peer, are arguments. Fields that nothing
  fills (the root and the coordinates), byte counters, rates, uptimes and the copy of the node information are left out.
\<close>

subsection \<open>The router\<close>

record debugSelfInfo =
  dself_key :: bytes
  dself_routingEntries :: u64

definition dbg_GetSelf :: "env \<Rightarrow> router \<Rightarrow> debugSelfInfo" where
  "dbg_GetSelf E r = \<lparr> dself_key = key_bytes (self_key E), dself_routingEntries = of_nat (length (r_infos r)) \<rparr>"

record debugTreeInfo =
  dtree_key :: bytes
  dtree_parent :: bytes
  dtree_sequence :: u64

definition dbg_GetTree :: "router \<Rightarrow> debugTreeInfo list" where
  "dbg_GetTree r = map (\<lambda>(key, dinfo). \<lparr> dtree_key = key_bytes key, dtree_parent = key_bytes (info_parent dinfo), dtree_sequence = info_seq dinfo \<rparr>) (r_infos r)"

record debugPathInfo =
  dpath_key :: bytes
  dpath_path :: "u64 list"
  dpath_sequence :: u64

definition dbg_GetPaths :: "router \<Rightarrow> debugPathInfo list" where
  "dbg_GetPaths r = map (\<lambda>(key, pinfo). \<lparr> dpath_key = key_bytes key, dpath_path = pi_path pinfo, dpath_sequence = pi_seq pinfo \<rparr>) (paths r)"

record debugBloomInfo =
  dbloom_key :: bytes
  dbloom_send :: bloom
  dbloom_recv :: bloom

definition dbg_GetBlooms :: "router \<Rightarrow> debugBloomInfo list" where
  "dbg_GetBlooms r = map (\<lambda>(key, binfo). \<lparr> dbloom_key = key_bytes key, dbloom_send = bi_send binfo, dbloom_recv = bi_recv binfo \<rparr>) (r_blooms r)"

text \<open>\<open>GetPeers\<close>: one entry per connection; \<open>rtt\<close> is the rounded difference of the two times the peer keeps.\<close>

record debugPeerInfo =
  dpeer_key :: bytes
  dpeer_port :: u64
  dpeer_cost :: u64
  dpeer_priority :: byte
  dpeer_latency :: int
  dpeer_penalty :: int
  dpeer_conn :: nat

text \<open>The first block: the costs and penalties of the connections with a lag; reading a penalty may forget it.\<close>

definition peer_costs :: "int \<Rightarrow> router \<Rightarrow> (peer, u64) gomap \<times> (peer, int) gomap \<times> penalties" where
  "peer_costs now r =
     fold (\<lambda>(p, lag) (costs, pens, rp).
         let (c, rp1) = getCost now (r_lags r) rp p;
             (penaltyMs, rp2) = getDecayedPenalty now rp1 (penaltyKeyForPeer p)
         in (m_set costs p c, m_set pens p (penaltyMs * 1000000), rp2)) (r_lags r) ([], [], r_penalties r)"

definition dbg_GetPeers :: "int \<Rightarrow> (peer \<Rightarrow> int) \<Rightarrow> (peer \<Rightarrow> nat) \<Rightarrow> router \<Rightarrow> peersState \<Rightarrow> debugPeerInfo list \<times> router" where
  "dbg_GetPeers now rtt conn r ps =
     (let (costs, pens, rp) = peer_costs now r
      in (map (\<lambda>p. \<lparr> dpeer_key = key_bytes (p_key p), dpeer_port = p_port p, dpeer_cost = m_get0 0 costs p,
            dpeer_priority = p_prio p, dpeer_latency = (if 0 < rtt p then rtt p else 0), dpeer_penalty = m_get0 0 pens p,
            dpeer_conn = conn p \<rparr>) (concat (map snd (ps_peers ps))),
          r\<lparr> r_penalties := rp \<rparr>))"

subsection \<open>The node\<close>

definition core_GetSelf :: "env \<Rightarrow> router \<Rightarrow> debugSelfInfo" where
  "core_GetSelf E r = dbg_GetSelf E r"

definition core_GetTree :: "router \<Rightarrow> debugTreeInfo list" where
  "core_GetTree r = dbg_GetTree r"

definition core_GetPaths :: "router \<Rightarrow> debugPathInfo list" where
  "core_GetPaths r = dbg_GetPaths r"

record peerListing =
  gp_uri :: string
  gp_up :: bool
  gp_inbound :: bool
  gp_sni :: string
  gp_community :: "communityStatus option"
  gp_lastError :: "linkErr option"
  gp_lastErrorTime :: "int option"
  gp_key :: bytes
  gp_port :: u64
  gp_priority :: byte
  gp_cost :: u64
  gp_latency :: int

text \<open>One entry per link, with the data of the peer whose connection is that of the link; a nil connection has none.\<close>

definition listed_peer :: "debugPeerInfo list \<Rightarrow> linkInfo \<Rightarrow> linkState \<Rightarrow> peerListing" where
  "listed_peer iwpeers info st =
     (let base = \<lparr> gp_uri = li_uri info, gp_up = False, gp_inbound = False, gp_sni = [], gp_community = lk_community st, gp_lastError = lk_err st,
            gp_lastErrorTime = lk_errtime st, gp_key = [], gp_port = 0, gp_priority = 0, gp_cost = 0, gp_latency = 0 \<rparr>
      in case lk_conn st of
           None \<Rightarrow> base
         | Some c \<Rightarrow>
             (let up = base\<lparr> gp_up := True, gp_inbound := (lk_type st = linkTypeIncoming), gp_sni := lk_sni st \<rparr>
              in case m_get (rev (map (\<lambda>p. (dpeer_conn p, p)) iwpeers)) c of
                   None \<Rightarrow> up
                 | Some p \<Rightarrow> up\<lparr> gp_key := dpeer_key p, gp_port := dpeer_port p, gp_priority := dpeer_priority p, gp_cost := dpeer_cost p,
                     gp_latency := dpeer_latency p \<rparr>))"

definition core_GetPeers :: "debugPeerInfo list \<Rightarrow> linkTable \<Rightarrow> peerListing list" where
  "core_GetPeers iwpeers t = map (\<lambda>(info, ptr). listed_peer iwpeers info (lt_states t ! ptr)) (lt_links t)"

text \<open>What the protocol handler sees of the node.\<close>

definition core_view :: "config \<Rightarrow> env \<Rightarrow> router \<Rightarrow> debugPeerInfo list \<Rightarrow> linkTable \<Rightarrow> node_view result" where
  "core_view cfg E r iwpeers t =
     and_then (core_MTU cfg) (\<lambda>mtu. Inr \<lparr> nv_MTU = mtu, nv_selfKey = dself_key (core_GetSelf E r), nv_routingEntries = dself_routingEntries (core_GetSelf E r),
       nv_peers = map gp_key (core_GetPeers iwpeers t), nv_tree = map dtree_key (core_GetTree r) \<rparr>)"

subsection \<open>Listings that arrive\<close>

lemma listed_key: "\<forall>p \<in> set iwpeers. length (dpeer_key p) = 32 \<Longrightarrow> gp_key (listed_peer iwpeers info st) = [] \<or> length (gp_key (listed_peer iwpeers info st)) = 32"
  by (auto simp: listed_peer_def Let_def dest!: map_of_SomeD split: option.split)

lemma dbg_GetPeers_keys: "dbg_GetPeers now rtt conn r ps = (ls, r') \<Longrightarrow> \<forall>p \<in> set ls. length (dpeer_key p) = 32"
  by (auto simp: dbg_GetPeers_def Let_def split: prod.splits)

lemma tree_keys: "map dtree_key (dbg_GetTree r) = map key_bytes (m_keys (r_infos r))"
  by (auto simp: dbg_GetTree_def)

lemma key_bytes_inj: "inj key_bytes"
  by (rule inj_on_inverseI [where g = be_word]) (simp add: be_word_key_bytes)

lemma key_bytes_nonempty: "key_bytes k \<noteq> []"
proof
  assume "key_bytes k = []"
  then have "length (key_bytes k) = length ([] :: bytes)" by (rule arg_cong)
  then show False by simp
qed

text \<open>
  What a node reports of its state is what it has: the answer to a request for the tree lists the keys of
  the nodes that the router knows, each once, up to 2047 of them, and the reported number of routing entries is
  their number; the answer to a request for peers lists the keys of the links that are up, up to the same number.
\<close>

theorem listings_complete:
  assumes "env_ok E" "router_reachable E r" "peerMaxMessageSize cfg = 131070" "core_view cfg E r iwpeers t = Inr v"
    and "\<forall>p \<in> set iwpeers. length (dpeer_key p) = 32"
  shows "split_keys (keys_within (nv_MTU v) [] (nv_tree v)) = take 2047 (map key_bytes (m_keys (r_infos r))) \<and> distinct (map key_bytes (m_keys (r_infos r)))
    \<and> nv_routingEntries v = of_nat (card (m_dom (r_infos r)))
    \<and> split_keys (keys_within (nv_MTU v) [] (nv_peers v)) = take 2047 (filter (\<lambda>k. k \<noteq> []) (map gp_key (core_GetPeers iwpeers t)))"
proof -
  have m: "core_MTU cfg = Inr 65535" "enc_MTU cfg = Inr 130914" "159 \<le> unat (peerMaxMessageSize cfg)" using assms(3) by (simp_all add: core_MTU_def enc_MTU_eq)
  have v0: "v = \<lparr> nv_MTU = 65535, nv_selfKey = key_bytes (self_key E), nv_routingEntries = of_nat (length (r_infos r)),
      nv_peers = map gp_key (core_GetPeers iwpeers t), nv_tree = map dtree_key (dbg_GetTree r) \<rparr>"
    using assms(4) unfolding core_view_def m(1) core_GetTree_def core_GetSelf_def dbg_GetSelf_def by simp
  then have v: "nv_MTU v = 65535" "nv_tree v = map key_bytes (m_keys (r_infos r))" "nv_peers v = map gp_key (core_GetPeers iwpeers t)"
      "nv_routingEntries v = of_nat (length (r_infos r))"
    unfolding tree_keys [symmetric] by simp_all
  have ok: "m_ok (r_infos r)" using router_invD(3) [OF router_reachable_inv [OF assms(1,2)]] .
  have "\<forall>k \<in> set (nv_tree v). k = [] \<or> length k = 32" unfolding v(2) by auto
  from key_list_split [OF m this] have "split_keys (keys_within 65535 [] (nv_tree v)) = take 2047 (filter (\<lambda>k. k \<noteq> []) (nv_tree v))" by simp
  also have "filter (\<lambda>k. k \<noteq> []) (nv_tree v) = nv_tree v" unfolding v(2) by (rule filter_True) (auto simp: key_bytes_nonempty)
  finally have tree: "split_keys (keys_within 65535 [] (nv_tree v)) = take 2047 (nv_tree v)" by simp
  have "\<forall>k \<in> set (nv_peers v). k = [] \<or> length k = 32" unfolding v(3) core_GetPeers_def using listed_key [OF assms(5)] by auto
  from key_list_split [OF m this] have peers: "split_keys (keys_within 65535 [] (nv_peers v)) = take 2047 (filter (\<lambda>k. k \<noteq> []) (nv_peers v))" by simp
  have d: "distinct (map key_bytes (m_keys (r_infos r)))" using ok inj_on_subset [OF key_bytes_inj] unfolding distinct_map [of key_bytes] by blast
  have "card (m_dom (r_infos r)) = length (r_infos r)" using distinct_card [OF ok] by simp
  then have n: "nv_routingEntries v = of_nat (card (m_dom (r_infos r)))" using v(4) by simp
  show ?thesis using tree peers d n unfolding v(1-3) by blast
qed

theorem listings_complete_witness:
  "\<exists>r v. router_reachable address_env r \<and> core_view (env_config address_env) address_env r [] linkTable_init = Inr v
    \<and> split_keys (keys_within (nv_MTU v) [] (nv_tree v)) = take 2047 (map key_bytes (m_keys (r_infos r)))"
proof -
  have ok: "env_ok address_env" unfolding address_env_def by (rule env_ok_core) (simp_all add: ed_correct_sample)
  obtain r where r: "doMaintenance address_env 0 (router_init address_env []) = Inr r" using first_maintenance_ok [OF ok] by blast
  then have re: "router_reachable address_env r" unfolding router_reachable_def router_start_def by blast
  have m: "peerMaxMessageSize (env_config address_env) = 131070" by (simp add: address_env_def core_env_def core_options_def)
  obtain v where v: "core_view (env_config address_env) address_env r [] linkTable_init = Inr v" using m by (simp add: core_view_def core_MTU_def enc_MTU_eq)
  from listings_complete [OF ok re m v] re v show ?thesis by auto
qed

end
