(* ===== verification/Spec2Isabelle.thy ===== *)
theory Spec2Isabelle
  imports Multicast WebUI Snapshots
begin

text \<open>
  A verification development for yggdrasil-go, an overlay network in which every node has an ed25519 key, is
  reached by an IPv6 address made from that key, and forwards packets along a spanning tree.

  \<^bold>\<open>The program and its models.\<close> From the wire upwards:
  \<^item> \<^verbatim>\<open>ironwood/network/wire.go\<close>, \<^verbatim>\<open>crypto.go\<close>: \<open>Varint\<close>, \<open>Wire\<close>, \<open>Crypto\<close>. Byte lists, varints, zero-terminated
    paths, the order of keys. \<open>Codec\<close> is the interface (a locale) of a message type with size, encode and
    decode; \<open>Messages\<close> interprets it for all messages of \<^verbatim>\<open>router.go\<close>, \<^verbatim>\<open>pathfinder.go\<close> and \<^verbatim>\<open>traffic.go\<close>,
    \<open>Bloom\<close> for the filter of \<^verbatim>\<open>bloomfilter.go\<close>.
  \<^item> \<^verbatim>\<open>router.go\<close>: \<open>RouterTree\<close> (walks to the root, distances), \<open>RouterCost\<close> (costs, penalties), \<open>RouterState\<close>
    (the records of router, pathfinder and blooms), \<open>Router\<close> (announcements, requests, parent selection,
    maintenance, lookup), \<open>RouterInv\<close> (the invariant and what each handler keeps of it), \<open>Blooms\<close> (filters per
    peer and multicast), \<open>Pathfinder\<close> (lookups, notifies, broken paths). \<open>RouterSystem\<close> has the whole actor as
    a step relation and the properties of reachable routers.
  \<^item> \<^verbatim>\<open>packetqueue.go\<close>: \<open>GoHeap\<close> (\<^verbatim>\<open>container/heap\<close>), \<open>PacketQueue\<close>, \<open>PacketQueueSpec\<close> (refinement of one
    FIFO per destination and source), \<open>PacketBuffer\<close> (runs and \<open>enqueue\<close>).
  \<^item> \<^verbatim>\<open>peers.go\<close>: \<open>Framing\<close> (frames and the reading loop), \<open>Peers\<close> (ports), \<open>Links\<close> (the peer, monitor and writer
    actors of one connection with their inboxes).
  \<^item> \<^verbatim>\<open>packetconn.go\<close>: \<open>Deadline\<close>, \<open>PacketConn\<close>. Reads, writes and closing, with the actor between network and reader.
  \<^item> \<^verbatim>\<open>ironwood/encrypted\<close>: \<open>Session\<close> (\<^verbatim>\<open>session.go\<close>, \<^verbatim>\<open>crypto.go\<close>: one session), \<open>SessionSpec\<close> (headers, inits,
    replay), \<open>SessionManager\<close> (the tables of sessions and buffers and their timers), \<open>SessionSystem\<close> (two nodes),
    \<open>EncryptedConn\<close> (\<^verbatim>\<open>network.go\<close>, \<^verbatim>\<open>packetconn.go\<close>: the reading loop and the connection).
  \<^item> \<^verbatim>\<open>src/address/address.go\<close>: \<open>Address\<close>. \<^verbatim>\<open>src/core/version.go\<close>: \<open>Handshake\<close>. \<^verbatim>\<open>src/ipv6rwc\<close>: \<open>KeyStore\<close>,
    the bridge between IPv6 packets and keys.
  \<^item> \<^verbatim>\<open>src/core/link.go\<close>: \<open>Admission\<close> (\<open>handler\<close> before \<open>HandleConn\<close>), \<open>LinkSetup\<close> (the options of a peering URI,
    \<open>stickySNI\<close>), \<open>LinkTable\<close> (the table of links; the goroutines of \<open>add\<close> and \<open>listen\<close> as steps between the calls).
  \<^item> \<^verbatim>\<open>src/core/core.go\<close>, \<^verbatim>\<open>options.go\<close>: \<open>Node\<close> (\<open>New\<close>, \<open>ReadFrom\<close>, \<open>WriteTo\<close>). \<^verbatim>\<open>proto.go\<close>, \<^verbatim>\<open>nodeinfo.go\<close>: \<open>Proto\<close>
    (requests to other nodes and their answers; the locales \<open>answer_table\<close> and \<open>callback_table\<close> are the contracts
    of the tables of open requests). \<^verbatim>\<open>ironwood/network/debug.go\<close>, \<^verbatim>\<open>src/core/api.go\<close>: \<open>Snapshots\<close>.
  \<^item> \<^verbatim>\<open>src/multicast\<close>: \<open>Multicast\<close>. \<^verbatim>\<open>src/webui/server.go\<close>: \<open>WebUI\<close> (logins, sessions, blocking).

  \<^bold>\<open>How code becomes definitions.\<close> A struct is a record with a prefix for its fields, an actor a function from
  message and state to state, and what it does to the outside (messages to other actors, timers, writes) is a
  list of outputs in the state. \<open>'a result\<close> (\<open>Prelude\<close>) is a fault or a value: \<open>Panic\<close> for every panic,
  out-of-range index and failed type assertion of the code, \<open>Error\<close> for the errors it returns. Maps are
  association lists read through \<open>m_get\<close>. Unsigned integers are words and wrap. \<open>time.Now()\<close> is an argument;
  a timer is armed with its closure, and a fired closure may run after its timer was replaced. A \<open>select\<close> with
  several ready branches takes the branch given as argument.

  \<^bold>\<open>What is shown.\<close>
  \<^item> Safety of the router: no message the senders can send panics it (with \<open>Framing\<close>: no bytes a peer can send),
    stored infos are signed by both ends, forwarding strictly decreases the distance, parent selection takes
    the lowest root, equal announcements in any order give infos of equal rank, notifies are authentic, the
    filters that maintenance leaves for on-tree peers have no false negatives and lookups are multicast exactly
    where they should.
  \<^item> The packet queue refines FIFOs; the actors of a link come to rest, with everything flushed if all messages are within
    the size limit; a single reader is served; ports are distinct and their search ends.
  \<^item> Codecs round-trip: messages, frames, blooms, handshakes, and keys through addresses up to the bits they hold.
  \<^item> Sessions: two nodes deliver the first message and the reply, no packet of the remote session is accepted
    twice between key exchanges, the tables keep their invariant, sealed messages fit the network below.
  \<^item> Admission checks all it should; the bridge neither spoofs nor is spoofed and finds the owner of an address, whose
    partial key every node treats like the full key and whose signed answer is accepted.
  \<^item> Nodes: \<open>New\<close> gives well-formed nodes, any accepted configuration leads to a handshake, beacons are followed by
    those with the password to the port announced. Every entry of the link table has a goroutine that removes it, waits between
    attempts double up to their limit, and a removed peer is not dialled again.
  \<^item> Requests to other nodes: callbacks are called exactly once for the first matching answer; lists of peers
    and of the tree arrive up to the size of an answer.
  \<^item> The web interface serves protected pages only to sessions of the right password; no login is let past the block
    after three wrong passwords recorded in a minute. A login is two steps, the check for a block and the
    comparison, and the handlers of different requests interleave between them.
  \<^item> Where the code fails: a short payload and a timed-out read panic, an init reopens packets, long messages are
    cut, an oversized packet stalls a link, a zero port poisons an announcement, stale bloom bits stay; as lemmas
    also a notify with an unchanged path, unthrottled lookups and a forgotten disconnect. Removing an incoming link
    panics, a duplicate connection makes the table forget the first, and a header or parallel
    requests evade the block on guessing.

  \<^bold>\<open>Parameters and hypotheses.\<close> ed25519 (\<open>ed_correct\<close>: signatures verify), blake2b (\<open>b2_correct\<close>), nacl box and the
  key conversion of \<^verbatim>\<open>e2c.go\<close> (\<open>nacl_correct\<close>, \<open>opens_exact\<close>), the murmur digests of the bloom filter, the ICMP
  marshaller, random bits and keys, \<open>json.Marshal\<close>, the parsers of the Go library for durations, IP addresses and
  hosts (\<open>go_net\<close>), and the parts of a parsed URL. The witnesses instantiate them by concrete functions.

  \<^bold>\<open>Bounds.\<close> The router calls the pathfinder and back at most once, so fuel 2 is enough (shown in
  \<open>RouterSystem\<close>). The queue's 64-bit size is exact while fewer than \<open>2 ^ 64\<close> bytes are queued. A connection
  accepts every write. \<open>no_replay\<close> asks for room in the 64-bit counters of both sessions for the packets it considers,
  and that accepted packets were sealed by the remote session.

  \<^bold>\<open>Not modelled.\<close> The socket, TLS, QUIC, websocket and xray transports (third-party libraries) and the table of
  listeners; the multicast socket and the tun adapter (operating system interfaces); the admin socket, the other
  pages of the web interface, metrics and configuration files (JSON, HTTP and formatting); command line tools and
  mobile bindings; buffer pools (no observable behaviour apart from nil slices, which are modelled); byte counters
  and rates of connections; the debug callback for lookups, which is
  not an option of \<open>config\<close> (the path notify callback is an output of the router).
\<close>

end
